(* ===== verification/JS_Prelude.thy ===== *)
theory JS_Prelude
  imports Complex_Main
begin

text \<open>
  Shared vocabulary of the development. JavaScript strings are lists of UTF-16 code units
  (\<open>jstr\<close>), byte buffers are lists of numbers below 256 (\<open>bytes\<close>); both use \<open>nat\<close> elements,
  and the theorems that need the bound say so with \<open>wf_jstr\<close> or \<open>wf_bytes\<close>. Dynamically typed
  arguments are \<open>jsval\<close>, thrown errors are the left summand of \<open>js_error + 'a\<close>, and the standard
  string operations the modules call (\<open>slice\<close>, \<open>indexOf\<close>, \<open>lastIndexOf\<close>, \<open>split\<close>, \<open>join\<close>) are
  defined here together with the lemmas every component uses.
\<close>

named_theorems js_eval "definitions unfolded to evaluate a closed call"

type_synonym jstr = "nat list"
type_synonym bytes = "nat list"

definition wf_jstr :: "jstr \<Rightarrow> bool" where
  "wf_jstr s = (\<forall>c\<in>set s. c < 65536)"

definition wf_bytes :: "bytes \<Rightarrow> bool" where
  "wf_bytes bs = (\<forall>b\<in>set bs. b < 256)"

text \<open>The string literals of the source: \<open>js ''abc''\<close> is the JavaScript string abc.\<close>

definition js :: "string \<Rightarrow> jstr" where
  [js_eval]: "js s = map of_char s"

section \<open>Values and errors\<close>

text \<open>
  A number is NaN, an infinity or a finite value; a finite double is a rational, and the two
  zeros are identified.
\<close>

datatype jsnum = NaN | Infinity bool | Num rat

datatype jsval =
    JUndefined
  | JNull
  | JBool bool
  | JNum jsnum
  | JBigInt int
  | JStr jstr
  | JSymbol nat
  | JFunction nat
  | JArray "jsval list"
  | JObject "(jstr \<times> jsval) list"

fun typeof :: "jsval \<Rightarrow> string" where
  "typeof JUndefined = ''undefined''"
| "typeof JNull = ''object''"
| "typeof (JBool _) = ''boolean''"
| "typeof (JNum _) = ''number''"
| "typeof (JBigInt _) = ''bigint''"
| "typeof (JStr _) = ''string''"
| "typeof (JSymbol _) = ''symbol''"
| "typeof (JFunction _) = ''function''"
| "typeof (JArray _) = ''object''"
| "typeof (JObject _) = ''object''"

text \<open>Decimal numerals, as template literals print them.\<close>

fun nat_digits :: "nat \<Rightarrow> jstr" where
  "nat_digits n = (if n < 10 then [48 + n] else nat_digits (n div 10) @ [48 + n mod 10])"

declare nat_digits.simps [simp del]

definition nat_string :: "nat \<Rightarrow> string" where
  [js_eval]: "nat_string n = map char_of (nat_digits n)"

text \<open>
  The errors the modelled modules throw, by the code or the class the source gives them; the
  arguments are the ones the source passes to the constructor.
\<close>

datatype js_error =
    ERR_INVALID_ARG_TYPE string string jsval
  | ERR_INVALID_ARG_VALUE string jsval string
  | ERR_OUT_OF_RANGE string string jsval
  | ERR_SOCKET_BAD_PORT string jsval bool
  | ERR_INVALID_CALLBACK jsval
  | ERR_UNKNOWN_ENCODING jsval
  | ERR_INVALID_URI
  | ERR_INVALID_URL jstr
  | ERR_MISSING_ARGS string
  | ERR_INVALID_THIS string
  | ERR_INVALID_TUPLE
  | ERR_ARG_NOT_ITERABLE
  | ERR_STRING_TOO_LONG nat
  | ERR_BUFFER_OUT_OF_BOUNDS string
  | TypeError string
  | ReferenceError string
  | RangeError string
  | URIError
  | PlainError string

definition bindE :: "'e + 'a \<Rightarrow> ('a \<Rightarrow> 'e + 'b) \<Rightarrow> 'e + 'b" where
  [js_eval]: "bindE m f = (case m of Inl e \<Rightarrow> Inl e | Inr x \<Rightarrow> f x)"

lemma bindE_simps [simp]:
  "bindE (Inl e) f = Inl e"
  "bindE (Inr x) f = f x"
  by (simp_all add: bindE_def)

lemma bindE_Inr_iff: "bindE m f = Inr y \<longleftrightarrow> (\<exists>x. m = Inr x \<and> f x = Inr y)"
  by (cases m) auto

section \<open>String and array operations of the language\<close>

text \<open>
  \<open>slice\<close> clamps its two indices as ECMAScript does: a negative index counts from the end.
\<close>

definition clamp_index :: "int \<Rightarrow> int \<Rightarrow> int" where
  [js_eval]: "clamp_index n i = (if i < 0 then max (n + i) 0 else min i n)"

definition slice :: "'a list \<Rightarrow> int \<Rightarrow> int \<Rightarrow> 'a list" where
  [js_eval]: "slice xs a b =
     (let n = int (length xs); lo = nat (clamp_index n a); hi = nat (clamp_index n b)
      in take (hi - lo) (drop lo xs))"

definition slice_from :: "'a list \<Rightarrow> int \<Rightarrow> 'a list" where
  [js_eval]: "slice_from xs a = slice xs a (int (length xs))"

lemma slice_nat: "slice xs (int a) (int b) = take (b - a) (drop a xs)"
proof (cases "a \<le> length xs")
  case True
  then show ?thesis
    by (cases "b \<le> length xs") (auto simp: slice_def clamp_index_def Let_def)
next
  case False
  then show ?thesis by (simp add: slice_def clamp_index_def Let_def)
qed

lemma slice_0_nat [simp]: "slice xs 0 (int b) = take b xs"
  using slice_nat [of xs 0 b] by simp

lemma slice_nonneg: "0 \<le> a \<Longrightarrow> 0 \<le> b \<Longrightarrow> slice xs a b = take (nat b - nat a) (drop (nat a) xs)"
  using slice_nat [of xs "nat a" "nat b"] by simp

lemma slice_pred: "1 \<le> n \<Longrightarrow> slice xs 0 (int n - 1) = take (n - 1) xs"
  using slice_0_nat [of xs "n - 1"] by (simp add: of_nat_diff)

lemma slice_from_nat: "slice_from xs (int a) = drop a xs"
  by (simp add: slice_from_def slice_nat)

lemma slice_from_nonneg: "0 \<le> a \<Longrightarrow> slice_from xs a = drop (nat a) xs"
  using slice_from_nat [of xs "nat a"] by simp

lemma slice_from_after: "slice_from (xs @ c # ys) (int (length xs) + 1) = ys"
  using slice_from_nat [of "xs @ c # ys" "Suc (length xs)"] by (simp add: add.commute)

lemma slice_append_middle:
  "slice (xs @ ys @ zs) (int (length xs)) (int (length xs) + int (length ys)) = ys"
proof -
  have "int (length xs) + int (length ys) = int (length xs + length ys)" by simp
  then show ?thesis by (simp only: slice_nat) simp
qed

text \<open>
  \<open>charCodeAt\<close> returns NaN out of range, and no test of the source holds of NaN:
  \<open>code_at P s i\<close> is the test \<open>P (s.charCodeAt(i))\<close>.
\<close>

definition code_at :: "(nat \<Rightarrow> bool) \<Rightarrow> jstr \<Rightarrow> nat \<Rightarrow> bool" where
  [js_eval]: "code_at P s i = (i < length s \<and> P (s ! i))"

lemma code_at_less: "i < length s \<Longrightarrow> code_at P s i = P (s ! i)"
  by (simp add: code_at_def)

text \<open>\<open>occurs_at pat s i\<close>: the pattern is a substring that starts at index \<open>i\<close>.\<close>

definition occurs_at :: "jstr \<Rightarrow> jstr \<Rightarrow> nat \<Rightarrow> bool" where
  [js_eval]: "occurs_at pat s i = (take (length pat) (drop i s) = pat)"

definition indexOf :: "jstr \<Rightarrow> jstr \<Rightarrow> nat \<Rightarrow> int" where
  [js_eval]: "indexOf s pat from =
     (case find (occurs_at pat s) [min from (length s)..<Suc (length s)] of
        None \<Rightarrow> -1 | Some i \<Rightarrow> int i)"

definition lastIndexOf :: "jstr \<Rightarrow> jstr \<Rightarrow> int" where
  [js_eval]: "lastIndexOf s pat =
     (case find (occurs_at pat s) (rev [0..<Suc (length s)]) of
        None \<Rightarrow> -1 | Some i \<Rightarrow> int i)"

lemma occurs_at_char: "occurs_at [c] s i \<longleftrightarrow> i < length s \<and> s ! i = c"
proof (cases "i < length s")
  case True
  then have "drop i s = s ! i # drop (Suc i) s" by (rule Cons_nth_drop_Suc [symmetric])
  then show ?thesis using True by (simp add: occurs_at_def)
qed (simp add: occurs_at_def)

lemma find_upt_append:
  assumes "\<forall>i. a \<le> i \<and> i < b \<longrightarrow> \<not> P i" and "P b" and "a \<le> b" and "b < c"
  shows "find P [a..<c] = Some b"
  using assms(1,3)
proof (induction "b - a" arbitrary: a)
  case 0
  then have "a = b" by simp
  then show ?case using assms(2,4) by (simp add: upt_rec)
next
  case (Suc n)
  then have "a < b" by simp
  moreover have "\<not> P a" using Suc.prems(1) \<open>a < b\<close> by blast
  moreover have "find P [Suc a..<c] = Some b"
    using Suc.hyps(1) [of "Suc a"] Suc.hyps(2) Suc.prems(1) \<open>a < b\<close> by auto
  ultimately show ?case using assms(4) by (simp add: upt_rec [of a])
qed

lemma find_upt_rev:
  assumes "\<forall>i. b < i \<and> i < c \<longrightarrow> \<not> P i" and "P b" and "b < c"
  shows "find P (rev [0..<c]) = Some b"
  using assms(1,3)
proof (induction c)
  case (Suc c)
  show ?case
  proof (cases "c = b")
    case True
    then show ?thesis using assms(2) by simp
  next
    case False
    then have "b < c" using Suc.prems by simp
    moreover have "\<not> P c" using Suc.prems \<open>b < c\<close> by auto
    ultimately show ?thesis using Suc by auto
  qed
qed simp

lemma find_mem: "find P xs = Some x \<Longrightarrow> x \<in> set xs \<and> P x"
  by (induction xs) (auto split: if_splits)

lemma indexOf_range:
  "indexOf s pat from = -1 \<or>
     int (min from (length s)) \<le> indexOf s pat from \<and> indexOf s pat from \<le> int (length s)"
  by (cases "find (occurs_at pat s) [min from (length s)..<Suc (length s)]")
    (auto simp: indexOf_def simp del: upt_Suc dest!: find_mem)

lemma indexOf_char_notin: "c \<notin> set s \<Longrightarrow> indexOf s [c] from = -1"
  by (auto simp: indexOf_def occurs_at_char find_None_iff split: option.splits
      dest!: find_Some_iff [THEN iffD1])

lemma indexOf_char_first:
  assumes "c \<notin> set xs"
  shows "indexOf (xs @ c # ys) [c] 0 = int (length xs)"
proof -
  have "find (occurs_at [c] (xs @ c # ys)) [0..<Suc (length (xs @ c # ys))] = Some (length xs)"
    using assms by (intro find_upt_append) (auto simp: occurs_at_char nth_append dest: nth_mem)
  then show ?thesis by (simp add: indexOf_def)
qed

lemma indexOf_char_from:
  assumes "c \<notin> set xs"
  shows "indexOf (pre @ xs @ c # ys) [c] (length pre) = int (length pre + length xs)"
proof -
  have "find (occurs_at [c] (pre @ xs @ c # ys)) [length pre..<Suc (length (pre @ xs @ c # ys))] =
      Some (length pre + length xs)"
    using assms
    by (intro find_upt_append) (auto simp: occurs_at_char nth_append dest: nth_mem)
  then show ?thesis by (simp add: indexOf_def)
qed

lemma indexOf_char_from_notin:
  assumes "c \<notin> set xs"
  shows "indexOf (pre @ xs) [c] (length pre) = -1"
proof -
  have "\<not> occurs_at [c] (pre @ xs) i" if "length pre \<le> i" for i
    using that assms by (auto simp: occurs_at_char nth_append)
  then have "find (occurs_at [c] (pre @ xs)) [length pre..<Suc (length (pre @ xs))] = None"
    by (auto simp: find_None_iff)
  then show ?thesis by (simp add: indexOf_def del: upt_Suc)
qed

lemma lastIndexOf_char_notin: "c \<notin> set s \<Longrightarrow> lastIndexOf s [c] = -1"
  by (auto simp: lastIndexOf_def occurs_at_char find_None_iff split: option.splits
      dest!: find_Some_iff [THEN iffD1])

lemma lastIndexOf_char_last:
  assumes "c \<notin> set ys"
  shows "lastIndexOf (xs @ c # ys) [c] = int (length xs)"
proof -
  have "find (occurs_at [c] (xs @ c # ys)) (rev [0..<Suc (length (xs @ c # ys))])
        = Some (length xs)"
  proof (rule find_upt_rev)
    show "\<forall>i. length xs < i \<and> i < Suc (length (xs @ c # ys)) \<longrightarrow>
        \<not> occurs_at [c] (xs @ c # ys) i"
    proof (intro allI impI notI, elim conjE)
      fix i assume "length xs < i" "occurs_at [c] (xs @ c # ys) i"
      then obtain k where "i = Suc (length xs) + k" "k < length ys" "ys ! k = c"
        by (auto simp: occurs_at_char nth_append less_iff_Suc_add)
      then show False using assms nth_mem by blast
    qed
  qed (simp_all add: occurs_at_char)
  then show ?thesis by (simp add: lastIndexOf_def)
qed

lemma lastIndexOf_char:
  "lastIndexOf s [c] = (if c \<in> set s then int (length s - Suc (length (takeWhile (\<lambda>x. x \<noteq> c) (rev s)))) else -1)"
proof (cases "c \<in> set s")
  case True
  then obtain ys zs where s: "s = ys @ c # zs" "c \<notin> set zs"
    using split_list_last by fast
  then have "takeWhile (\<lambda>x. x \<noteq> c) (rev s) = rev zs" by (auto simp: takeWhile_tail)
  then show ?thesis using s lastIndexOf_char_last [OF s(2), of ys] by simp
qed (simp add: lastIndexOf_char_notin)

lemma lastIndexOf_Nil [simp]: "lastIndexOf [] [c] = -1"
  by (simp add: lastIndexOf_char_notin)

lemma lastIndexOf_snoc:
  "lastIndexOf (s @ [d]) [c] = (if d = c then int (length s) else lastIndexOf s [c])"
proof (cases "d = c")
  case True
  then show ?thesis using lastIndexOf_char_last [of c "[]" s] by simp
next
  case False
  show ?thesis
  proof (cases "c \<in> set s")
    case True
    then obtain ys zs where s: "s = ys @ c # zs" "c \<notin> set zs"
      using split_list_last by fast
    then show ?thesis
      using False lastIndexOf_char_last [of c zs ys] lastIndexOf_char_last [of c "zs @ [d]" ys] by simp
  qed (use False in \<open>simp add: lastIndexOf_char_notin\<close>)
qed

lemma lastIndexOf_Cons:
  "lastIndexOf (d # s) [c] =
     (if c \<in> set s then lastIndexOf s [c] + 1 else if d = c then 0 else -1)"
proof (cases "c \<in> set s")
  case True
  then obtain ys zs where s: "s = ys @ c # zs" "c \<notin> set zs"
    using split_list_last by fast
  then show ?thesis
    using True lastIndexOf_char_last [of c zs ys] lastIndexOf_char_last [of c zs "d # ys"] by simp
next
  case False
  then show ?thesis using lastIndexOf_char_last [of c s "[]"] lastIndexOf_char_notin [of c "d # s"]
    by (auto simp: lastIndexOf_char_notin)
qed

lemma lastIndexOf_bounds:
  "c \<in> set s \<Longrightarrow> 0 \<le> lastIndexOf s [c] \<and> lastIndexOf s [c] < int (length s)"
  by (cases s rule: rev_cases) (auto simp: lastIndexOf_char)

text \<open>\<open>split\<close> at the characters that satisfy a test, and \<open>join\<close>.\<close>

fun splitP :: "('a \<Rightarrow> bool) \<Rightarrow> 'a list \<Rightarrow> 'a list list" where
  "splitP P [] = [[]]"
| "splitP P (c # cs) =
     (if P c then [] # splitP P cs
      else (case splitP P cs of [] \<Rightarrow> [[c]] | s # ss \<Rightarrow> (c # s) # ss))"

fun join :: "'a list \<Rightarrow> 'a list list \<Rightarrow> 'a list" where
  "join sep [] = []"
| "join sep [s] = s"
| "join sep (s # t # ss) = s @ sep @ join sep (t # ss)"

lemma splitP_nonempty [simp]: "splitP P cs \<noteq> []"
  by (induction cs) (auto split: list.splits)

lemma splitP_segments: "\<forall>s\<in>set (splitP P cs). \<forall>c\<in>set s. \<not> P c"
  by (induction cs) (auto split: list.splits)

lemma splitP_segment: "s \<in> set (splitP P cs) \<Longrightarrow> c \<in> set s \<Longrightarrow> \<not> P c"
  by (rule splitP_segments [rule_format])

lemma splitP_subsets: "\<forall>s\<in>set (splitP P cs). set s \<subseteq> set cs"
proof (induction cs)
  case (Cons x xs)
  then show ?case by (cases "splitP P xs") auto
qed simp

lemma splitP_none: "\<forall>c\<in>set s. \<not> P c \<Longrightarrow> splitP P s = [s]"
  by (induction s) auto

lemma splitP_append:
  "P c \<Longrightarrow> splitP P (xs @ c # ys) = splitP P xs @ splitP P ys"
proof (induction xs)
  case (Cons x xs)
  then show ?case by (cases "splitP P xs") (auto split: list.splits)
qed simp

lemma splitP_append_none:
  assumes "\<forall>c\<in>set xs. \<not> P c"
  shows "splitP P (xs @ ys) = (xs @ hd (splitP P ys)) # tl (splitP P ys)"
  using assms
proof (induction xs)
  case Nil
  then show ?case by simp
qed auto

lemma join_append:
  "xs \<noteq> [] \<Longrightarrow> ys \<noteq> [] \<Longrightarrow> join sep (xs @ ys) = join sep xs @ sep @ join sep ys"
proof (induction sep xs rule: join.induct)
  case (2 sep s)
  then show ?case by (cases ys) auto
qed auto

lemma join_Cons: "ss \<noteq> [] \<Longrightarrow> join sep (s # ss) = s @ sep @ join sep ss"
  by (cases ss) auto

lemma join_snoc: "ss \<noteq> [] \<Longrightarrow> join sep (ss @ [s]) = join sep ss @ sep @ s"
  by (simp add: join_append)

lemma set_join: "set (join sep ss) \<subseteq> set sep \<union> \<Union> (set ` set ss)"
  by (induction sep ss rule: join.induct) auto

lemma split_join:
  assumes "P c" and "ss \<noteq> []" and "\<forall>s\<in>set ss. \<forall>x\<in>set s. \<not> P x"
  shows "splitP P (join [c] ss) = ss"
  using assms(2,3)
proof (induction "[c]" ss rule: join.induct)
  case (3 s t ss)
  then show ?case using assms(1) by (simp add: splitP_append splitP_none)
qed (auto simp: splitP_none)

lemma join_split_eq: "join [c] (splitP (\<lambda>x. x = c) s) = s"
proof (induction s)
  case (Cons x xs)
  obtain t ts where split: "splitP (\<lambda>x. x = c) xs = t # ts"
    by (cases "splitP (\<lambda>x. x = c) xs") auto
  then show ?case using Cons.IH by (cases ts) auto
qed simp

text \<open>Two lists split at the end of their longest common prefix.\<close>

lemma common_prefix_cases:
  obtains c x y where "xs = c @ x" "ys = c @ y" "x = [] \<or> y = [] \<or> hd x \<noteq> hd y"
proof -
  have "\<exists>c x y. xs = c @ x \<and> ys = c @ y \<and> (x = [] \<or> y = [] \<or> hd x \<noteq> hd y)"
  proof (induction xs arbitrary: ys)
    case (Cons a xs)
    show ?case
    proof (cases "ys \<noteq> [] \<and> hd ys = a")
      case True
      then obtain ys' where ys: "ys = a # ys'" by (cases ys) auto
      obtain c x y where "xs = c @ x" "ys' = c @ y" "x = [] \<or> y = [] \<or> hd x \<noteq> hd y"
        using Cons.IH by blast
      then show ?thesis using ys by (intro exI [of _ "a # c"] exI [of _ x] exI [of _ y]) simp
    next
      case False
      then show ?thesis by (intro exI [of _ "[]"] exI [of _ "a # xs"] exI [of _ ys]) auto
    qed
  qed simp
  then show ?thesis using that by blast
qed

lemma join_replicate_snoc:
  "join sep (replicate n s) @ (if n = 0 then s else sep @ s) = join sep (replicate (Suc n) s)"
proof (cases n)
  case (Suc m)
  then have "join sep (replicate n s @ [s]) = join sep (replicate n s) @ sep @ s" by (intro join_snoc) simp
  then show ?thesis using Suc by (simp add: replicate_append_same)
qed simp

lemma count_join:
  "segs \<noteq> [] \<Longrightarrow> \<forall>s\<in>set segs. c \<notin> set s \<Longrightarrow> Suc (count_list (join [c] segs) c) = length segs"
  by (induction "[c]" segs rule: join.induct) auto

end
