(* ===== verification/Path_Common.thy ===== *)
theory Path_Common
  imports JS_Prelude
begin

text \<open>
  The part of \<open>builtin/path.js\<close> that the POSIX and the win32 modules share: the character
  constants and tests, \<open>normalizeString\<close>, \<open>_format\<close>, the argument checks, and the backward
  scanning loops that both modules repeat with their own separator test. The main result is that
  the single pass of \<open>normalizeString\<close> computes what splitting the path into segments and
  replaying them on a stack computes.
\<close>

section \<open>Characters and argument checks\<close>

abbreviation "CHAR_UPPERCASE_A \<equiv> 65 :: nat"
abbreviation "CHAR_LOWERCASE_A \<equiv> 97 :: nat"
abbreviation "CHAR_UPPERCASE_Z \<equiv> 90 :: nat"
abbreviation "CHAR_LOWERCASE_Z \<equiv> 122 :: nat"
abbreviation "CHAR_DOT \<equiv> 46 :: nat"
abbreviation "CHAR_FORWARD_SLASH \<equiv> 47 :: nat"
abbreviation "CHAR_BACKWARD_SLASH \<equiv> 92 :: nat"
abbreviation "CHAR_COLON \<equiv> 58 :: nat"
abbreviation "CHAR_QUESTION_MARK \<equiv> 63 :: nat"

definition isPathSeparator :: "nat \<Rightarrow> bool" where
  [js_eval]: "isPathSeparator code =
     (code = CHAR_FORWARD_SLASH \<or> code = CHAR_BACKWARD_SLASH)"

definition isPosixPathSeparator :: "nat \<Rightarrow> bool" where
  [js_eval]: "isPosixPathSeparator code = (code = CHAR_FORWARD_SLASH)"

definition isWindowsDeviceRoot :: "nat \<Rightarrow> bool" where
  [js_eval]: "isWindowsDeviceRoot code =
     ((CHAR_UPPERCASE_A \<le> code \<and> code \<le> CHAR_UPPERCASE_Z) \<or>
      (CHAR_LOWERCASE_A \<le> code \<and> code \<le> CHAR_LOWERCASE_Z))"

definition validateString :: "jsval \<Rightarrow> string \<Rightarrow> js_error + jstr" where
  [js_eval]: "validateString value name =
     (case value of JStr s \<Rightarrow> Inr s | _ \<Rightarrow> Inl (ERR_INVALID_ARG_TYPE name ''string'' value))"

lemma validateString_Inr [simp]: "validateString v n = Inr s \<longleftrightarrow> v = JStr s"
  by (cases v) (auto simp: validateString_def)

lemma validateString_JStr [simp]: "validateString (JStr s) n = Inr s"
  by simp

section \<open>normalizeString\<close>

record ns_state =
  ns_res :: jstr
  ns_lastSegmentLength :: int
  ns_lastSlash :: int
  ns_dots :: int

definition ns_init :: ns_state where
  [js_eval]: "ns_init = \<lparr>ns_res = [], ns_lastSegmentLength = 0, ns_lastSlash = -1, ns_dots = 0\<rparr>"

text \<open>
  The branch for the segment \<open>..\<close> (\<open>dots === 2\<close>): drop the last segment of \<open>res\<close> unless there is
  none or it is \<open>..\<close> itself, in which case \<open>..\<close> is kept when it may climb above the root.
\<close>

definition ns_dotdot :: "bool \<Rightarrow> nat \<Rightarrow> ns_state \<Rightarrow> ns_state" where
  [js_eval]: "ns_dotdot allowAboveRoot separator st =
     (let res = ns_res st; len = length res;
          above = (if allowAboveRoot
                   then st\<lparr>ns_res := (if len > 0 then res @ [separator, CHAR_DOT, CHAR_DOT]
                                      else [CHAR_DOT, CHAR_DOT]),
                           ns_lastSegmentLength := 2\<rparr>
                   else st)
      in if len < 2 \<or> ns_lastSegmentLength st \<noteq> 2 \<or>
            res ! (len - 1) \<noteq> CHAR_DOT \<or> res ! (len - 2) \<noteq> CHAR_DOT
         then if len > 2
              then let lastSlashIndex = lastIndexOf res [separator]
                   in if lastSlashIndex = -1
                      then st\<lparr>ns_res := [], ns_lastSegmentLength := 0\<rparr>
                      else let res' = slice res 0 lastSlashIndex
                           in st\<lparr>ns_res := res',
                                 ns_lastSegmentLength :=
                                   int (length res') - 1 - lastIndexOf res' [separator]\<rparr>
              else if len \<noteq> 0 then st\<lparr>ns_res := [], ns_lastSegmentLength := 0\<rparr>
              else above
         else above)"

definition ns_segment :: "jstr \<Rightarrow> nat \<Rightarrow> nat \<Rightarrow> ns_state \<Rightarrow> ns_state" where
  [js_eval]: "ns_segment path separator i st =
     (let seg = slice path (ns_lastSlash st + 1) (int i)
      in st\<lparr>ns_res := (if length (ns_res st) > 0 then ns_res st @ separator # seg else seg),
            ns_lastSegmentLength := int i - ns_lastSlash st - 1\<rparr>)"

text \<open>One iteration of the loop at index \<open>i\<close>, where \<open>code\<close> is the character read there.\<close>

definition ns_step ::
  "jstr \<Rightarrow> bool \<Rightarrow> nat \<Rightarrow> (nat \<Rightarrow> bool) \<Rightarrow> nat \<Rightarrow> nat \<Rightarrow> ns_state \<Rightarrow> ns_state" where
  [js_eval]: "ns_step path allowAboveRoot separator isSep i code st =
     (if isSep code
      then (if ns_lastSlash st = int i - 1 \<or> ns_dots st = 1 then st
            else if ns_dots st = 2 then ns_dotdot allowAboveRoot separator st
            else ns_segment path separator i st)\<lparr>ns_lastSlash := int i, ns_dots := 0\<rparr>
      else if code = CHAR_DOT \<and> ns_dots st \<noteq> -1 then st\<lparr>ns_dots := ns_dots st + 1\<rparr>
      else st\<lparr>ns_dots := -1\<rparr>)"

function ns_loop ::
  "jstr \<Rightarrow> bool \<Rightarrow> nat \<Rightarrow> (nat \<Rightarrow> bool) \<Rightarrow> nat \<Rightarrow> nat \<Rightarrow> ns_state \<Rightarrow> ns_state" where
  "ns_loop path allowAboveRoot separator isSep i code st =
     (if i \<le> length path
      then if i < length path
           then ns_loop path allowAboveRoot separator isSep (Suc i) (path ! i)
                  (ns_step path allowAboveRoot separator isSep i (path ! i) st)
           else if isSep code then st
           else ns_loop path allowAboveRoot separator isSep (Suc i) CHAR_FORWARD_SLASH
                  (ns_step path allowAboveRoot separator isSep i CHAR_FORWARD_SLASH st)
      else st)"
  by pat_completeness auto
termination
  by (relation "measure (\<lambda>(path, _, _, _, i, _, _). Suc (length path) - i)") auto

declare ns_loop.simps [simp del]

definition normalizeString :: "jstr \<Rightarrow> bool \<Rightarrow> nat \<Rightarrow> (nat \<Rightarrow> bool) \<Rightarrow> jstr" where
  [js_eval]: "normalizeString path allowAboveRoot separator isSep =
     ns_res (ns_loop path allowAboveRoot separator isSep 0 0 ns_init)"

subsection \<open>The segment stack it implements\<close>

abbreviation dot :: jstr where "dot \<equiv> [CHAR_DOT]"
abbreviation dotdot :: jstr where "dotdot \<equiv> [CHAR_DOT, CHAR_DOT]"

text \<open>The stack holds the kept segments, the last one on top.\<close>

definition seg_push :: "bool \<Rightarrow> jstr \<Rightarrow> jstr list \<Rightarrow> jstr list" where
  [js_eval]: "seg_push allowAboveRoot seg stack =
     (if seg = [] \<or> seg = dot then stack
      else if seg = dotdot
      then (case stack of
              [] \<Rightarrow> if allowAboveRoot then [dotdot] else []
            | lastSeg # rest \<Rightarrow>
                if lastSeg \<noteq> dotdot then rest
                else if allowAboveRoot then dotdot # stack else stack)
      else seg # stack)"

definition replay :: "bool \<Rightarrow> jstr list \<Rightarrow> jstr list \<Rightarrow> jstr list" where
  [js_eval]: "replay allowAboveRoot segs stack = fold (seg_push allowAboveRoot) segs stack"

definition resolve_segments :: "bool \<Rightarrow> jstr list \<Rightarrow> jstr list" where
  [js_eval]: "resolve_segments allowAboveRoot segs = rev (replay allowAboveRoot segs [])"


text \<open>
  What relates the loop state before index \<open>i\<close> to the stack: \<open>cur\<close> is the segment read so far.
\<close>

definition clean_segment :: "(nat \<Rightarrow> bool) \<Rightarrow> jstr \<Rightarrow> bool" where
  "clean_segment isSep s = (s \<noteq> [] \<and> (\<forall>c\<in>set s. \<not> isSep c))"

definition ns_rel ::
  "(nat \<Rightarrow> bool) \<Rightarrow> nat \<Rightarrow> nat \<Rightarrow> jstr \<Rightarrow> jstr list \<Rightarrow> ns_state \<Rightarrow> bool" where
  "ns_rel isSep separator i cur stack st =
     (ns_res st = join [separator] (rev stack) \<and>
      (\<forall>s\<in>set stack. clean_segment isSep s) \<and>
      (stack \<noteq> [] \<longrightarrow> ns_lastSegmentLength st = int (length (hd stack))) \<and>
      ns_lastSlash st = int i - 1 - int (length cur) \<and>
      ns_dots st = (if \<forall>c\<in>set cur. c = CHAR_DOT then int (length cur) else -1))"

locale path_separators =
  fixes isSep :: "nat \<Rightarrow> bool" and separator :: nat
  assumes sep_is_sep: "isSep separator"
    and slash_is_sep: "isSep CHAR_FORWARD_SLASH"
    and dot_not_sep: "\<not> isSep CHAR_DOT"
begin

lemma join_rev_stack:
  "join [separator] (rev (t # rest)) =
     (if rest = [] then t else join [separator] (rev rest) @ separator # t)"
  by (simp add: join_snoc)

lemma join_stack_empty:
  "\<forall>s\<in>set stack. clean_segment isSep s \<Longrightarrow> join [separator] (rev stack) = [] \<longleftrightarrow> stack = []"
  by (cases stack) (simp_all add: join_rev_stack clean_segment_def del: rev.simps(2))

lemma last_sep_of_stack:
  assumes "clean_segment isSep t"
  shows "lastIndexOf (join [separator] (rev (t # rest))) [separator] =
         (if rest = [] then -1 else int (length (join [separator] (rev rest))))"
proof -
  have "separator \<notin> set t" using assms sep_is_sep by (auto simp: clean_segment_def)
  then show ?thesis
    by (simp add: join_rev_stack lastIndexOf_char_notin lastIndexOf_char_last del: rev.simps)
qed

lemma top_length:
  assumes "clean_segment isSep t"
  shows "int (length (join [separator] (rev (t # rest)))) - 1
           - lastIndexOf (join [separator] (rev (t # rest))) [separator] = int (length t)"
  unfolding last_sep_of_stack [OF assms] by (simp add: join_rev_stack del: rev.simps)

lemma long_stack:
  assumes "\<forall>s\<in>set (t # rest). clean_segment isSep s" and "rest \<noteq> []"
  shows "length (join [separator] (rev (t # rest))) > 2"
proof -
  have "length t \<ge> 1" using assms(1) by (auto simp: clean_segment_def Suc_le_eq)
  moreover have "length (join [separator] (rev rest)) \<ge> 1"
    using assms join_stack_empty [of rest] by (simp add: Suc_le_eq)
  moreover have "length (join [separator] (rev (t # rest))) =
      length (join [separator] (rev rest)) + Suc (length t)"
    using assms(2) by (simp add: join_rev_stack del: rev.simps)
  ultimately show ?thesis by linarith
qed

lemma ends_in_dotdot:
  fixes t :: jstr and rest :: "jstr list"
  assumes "length t = 2"
  defines "res \<equiv> join [separator] (rev (t # rest))"
  shows "res ! (length res - 1) = CHAR_DOT \<and> res ! (length res - 2) = CHAR_DOT \<longleftrightarrow> t = dotdot"
proof -
  obtain a b where t: "t = [a, b]"
    using assms(1) by (auto simp: length_Suc_conv numeral_2_eq_2)
  then show ?thesis unfolding res_def
    by (auto simp: join_rev_stack nth_append simp del: rev.simps)
qed

lemma ns_dotdot_rel:
  assumes "ns_rel isSep separator i cur stack st"
  shows "ns_rel isSep separator (Suc i) [] (seg_push allowAboveRoot dotdot stack)
           ((ns_dotdot allowAboveRoot separator st)\<lparr>ns_lastSlash := int i, ns_dots := 0\<rparr>)"
proof (cases stack)
  case Nil
  then show ?thesis using assms dot_not_sep
    by (auto simp: ns_rel_def ns_dotdot_def seg_push_def clean_segment_def Let_def)
next
  case (Cons t rest)
  let ?res = "join [separator] (rev (t # rest))"
  have res: "ns_res st = ?res" and clean: "\<forall>s\<in>set (t # rest). clean_segment isSep s"
    and lsl: "ns_lastSegmentLength st = int (length t)"
    using assms Cons by (auto simp: ns_rel_def)
  have t: "clean_segment isSep t" using clean by simp
  have len: "length ?res > 0" using join_stack_empty [OF clean] by simp
  show ?thesis
  proof (cases "t = dotdot")
    case True
    then have "?res ! (length ?res - 1) = CHAR_DOT \<and> ?res ! (length ?res - 2) = CHAR_DOT"
      using ends_in_dotdot [of t rest] by simp
    moreover have "2 \<le> length ?res" using True by (simp add: join_rev_stack del: rev.simps)
    ultimately have "ns_dotdot allowAboveRoot separator st =
        (if allowAboveRoot then st\<lparr>ns_res := ?res @ [separator, CHAR_DOT, CHAR_DOT],
            ns_lastSegmentLength := 2\<rparr> else st)"
      using len lsl True by (simp add: ns_dotdot_def Let_def res del: rev.simps)
    moreover have "join [separator] (rev (dotdot # t # rest)) = ?res @ [separator, CHAR_DOT, CHAR_DOT]"
      by (subst join_rev_stack) simp
    ultimately show ?thesis using True Cons clean res lsl dot_not_sep
      by (simp add: ns_rel_def seg_push_def clean_segment_def del: rev.simps)
  next
    case False
    have guard: "length ?res < 2 \<or> ns_lastSegmentLength st \<noteq> 2 \<or>
        ?res ! (length ?res - 1) \<noteq> CHAR_DOT \<or> ?res ! (length ?res - 2) \<noteq> CHAR_DOT"
      using ends_in_dotdot [of t rest] False lsl by auto
    have push: "seg_push allowAboveRoot dotdot stack = rest"
      using False Cons by (simp add: seg_push_def)
    show ?thesis
    proof (cases "rest = []")
      case True
      then have "ns_res (ns_dotdot allowAboveRoot separator st) = []"
        using guard len res last_sep_of_stack [OF t, of rest]
        by (simp add: ns_dotdot_def Let_def)
      then show ?thesis using True push by (simp add: ns_rel_def)
    next
      case rest: False
      obtain u us where us: "rest = u # us" using rest by (cases rest) auto
      have u: "clean_segment isSep u" using clean us by simp
      have "slice ?res 0 (lastIndexOf ?res [separator]) = join [separator] (rev rest)"
        unfolding last_sep_of_stack [OF t] using rest by (simp add: join_rev_stack del: rev.simps)
      then have "ns_dotdot allowAboveRoot separator st =
          st\<lparr>ns_res := join [separator] (rev rest), ns_lastSegmentLength := int (length u)\<rparr>"
        using guard long_stack [OF clean rest] res rest last_sep_of_stack [OF t, of rest]
          top_length [OF u, of us]
        by (simp add: ns_dotdot_def Let_def us del: rev.simps)
      then show ?thesis using push clean us by (simp add: ns_rel_def)
    qed
  qed
qed

lemma ns_step_sep:
  assumes rel: "ns_rel isSep separator i cur stack st"
    and cur: "\<forall>c\<in>set cur. \<not> isSep c"
    and seg: "slice path (ns_lastSlash st + 1) (int i) = cur"
    and code: "isSep code"
  shows "ns_rel isSep separator (Suc i) [] (seg_push allowAboveRoot cur stack)
           (ns_step path allowAboveRoot separator isSep i code st)"
proof -
  have ls: "ns_lastSlash st = int i - 1 - int (length cur)" using rel by (simp add: ns_rel_def)
  have dots: "ns_dots st = (if \<forall>c\<in>set cur. c = CHAR_DOT then int (length cur) else -1)"
    using rel by (simp add: ns_rel_def)
  consider "cur = []" | "cur = dot" | "cur = dotdot"
    | "cur \<noteq> []" "cur \<noteq> dot" "cur \<noteq> dotdot" by blast
  then show ?thesis
  proof cases
    case 1
    then show ?thesis using rel code ls by (simp add: ns_step_def seg_push_def ns_rel_def)
  next
    case 2
    then show ?thesis using rel code dots by (simp add: ns_step_def seg_push_def ns_rel_def)
  next
    case 3
    then have "ns_dots st = 2" "ns_lastSlash st \<noteq> int i - 1" using dots ls by simp_all
    then show ?thesis using 3 ns_dotdot_rel [OF rel] code by (simp add: ns_step_def)
  next
    case 4
    have "ns_dots st \<noteq> 1"
    proof
      assume d: "ns_dots st = 1"
      then have "\<forall>c\<in>set cur. c = CHAR_DOT" "length cur = 1" using dots by (auto split: if_splits)
      then show False using 4 by (cases cur) auto
    qed
    moreover have "ns_dots st \<noteq> 2"
    proof
      assume d: "ns_dots st = 2"
      then have "\<forall>c\<in>set cur. c = CHAR_DOT" "length cur = 2" using dots by (auto split: if_splits)
      then show False using 4 by (auto simp: length_Suc_conv numeral_2_eq_2)
    qed
    moreover have "ns_lastSlash st \<noteq> int i - 1" using 4 ls by auto
    moreover have "clean_segment isSep cur" using 4 cur by (simp add: clean_segment_def)
    moreover have "ns_res st = [] \<longleftrightarrow> stack = []"
      using rel join_stack_empty [of stack] by (simp add: ns_rel_def)
    ultimately show ?thesis using rel 4 code seg ls
      by (auto simp: ns_step_def ns_segment_def seg_push_def ns_rel_def Let_def join_snoc)
  qed
qed

lemma ns_step_char:
  assumes "ns_rel isSep separator i cur stack st" and "\<not> isSep code"
  shows "ns_rel isSep separator (Suc i) (cur @ [code]) stack
           (ns_step path allowAboveRoot separator isSep i code st)"
  using assms by (auto simp: ns_rel_def ns_step_def)

text \<open>The loop from index \<open>i\<close>, with \<open>cur\<close> read since the last separator and \<open>ys\<close> to come.\<close>

lemma ns_loop_spec:
  assumes "path = xs @ cur @ ys" and "ns_rel isSep separator (length (xs @ cur)) cur stack st"
    and "\<forall>c\<in>set cur. \<not> isSep c" and "cur \<noteq> [] \<Longrightarrow> \<not> isSep code"
  shows "ns_res (ns_loop path allowAboveRoot separator isSep (length (xs @ cur)) code st) =
         join [separator] (rev (replay allowAboveRoot (splitP isSep (cur @ ys)) stack))"
  using assms
proof (induction ys arbitrary: xs cur stack st code)
  case Nil
  let ?i = "length (xs @ cur)"
  have split: "splitP isSep cur = [cur]" using Nil.prems(3) by (rule splitP_none)
  show ?case
  proof (cases "isSep code")
    case True
    then have "cur = []" using Nil.prems(4) by blast
    then show ?thesis using Nil.prems True split
      by (subst ns_loop.simps) (simp add: replay_def seg_push_def ns_rel_def)
  next
    case False
    have "slice path (ns_lastSlash st + 1) (int ?i) = cur"
      using Nil.prems slice_append_middle [of xs cur "[]"] by (simp add: ns_rel_def)
    then have "ns_rel isSep separator (Suc ?i) [] (seg_push allowAboveRoot cur stack)
        (ns_step path allowAboveRoot separator isSep ?i CHAR_FORWARD_SLASH st)"
      using Nil.prems slash_is_sep by (intro ns_step_sep) simp_all
    moreover have "ns_loop path allowAboveRoot separator isSep ?i code st =
        ns_step path allowAboveRoot separator isSep ?i CHAR_FORWARD_SLASH st"
      using False Nil.prems(1) by (subst ns_loop.simps) (simp add: ns_loop.simps)
    ultimately show ?thesis using split by (simp add: replay_def ns_rel_def)
  qed
next
  case (Cons y ys)
  let ?i = "length (xs @ cur)"
  let ?st = "ns_step path allowAboveRoot separator isSep ?i y st"
  have unfold: "ns_loop path allowAboveRoot separator isSep ?i code st =
      ns_loop path allowAboveRoot separator isSep (Suc ?i) y ?st"
    using Cons.prems(1) by (subst ns_loop.simps) (simp add: nth_append)
  show ?case
  proof (cases "isSep y")
    case True
    have "slice path (ns_lastSlash st + 1) (int ?i) = cur"
      using Cons.prems slice_append_middle [of xs cur "y # ys"] by (simp add: ns_rel_def)
    then have "ns_rel isSep separator (Suc ?i) [] (seg_push allowAboveRoot cur stack) ?st"
      using Cons.prems True by (intro ns_step_sep) simp_all
    then have "ns_res (ns_loop path allowAboveRoot separator isSep (Suc ?i) y ?st) =
        join [separator] (rev (replay allowAboveRoot (splitP isSep ys)
          (seg_push allowAboveRoot cur stack)))"
      using Cons.IH [of "xs @ cur @ [y]" "[]"] Cons.prems(1) by simp
    then show ?thesis using unfold True Cons.prems(3)
      by (simp add: splitP_append splitP_none replay_def)
  next
    case False
    then have "ns_rel isSep separator (Suc ?i) (cur @ [y]) stack ?st"
      using Cons.prems(2) by (intro ns_step_char)
    then show ?thesis
      using unfold False Cons.IH [of xs "cur @ [y]" stack ?st y] Cons.prems(1,3) by simp
  qed
qed

theorem normalizeString_resolves:
  "normalizeString path allowAboveRoot separator isSep =
     join [separator] (resolve_segments allowAboveRoot (splitP isSep path))"
proof -
  have "ns_rel isSep separator 0 [] [] ns_init" by (simp add: ns_rel_def ns_init_def)
  then show ?thesis
    using ns_loop_spec [of path "[]" "[]" path "[]" ns_init 0 allowAboveRoot]
    by (simp add: normalizeString_def resolve_segments_def)
qed

end

section \<open>Backward scans\<close>

text \<open>
  The loops \<open>for (let i = path.length - 1; i >= lo; --i)\<close>. The argument after \<open>lo\<close> counts the
  iterations left, so the index of the next iteration \<open>Suc k\<close> is \<open>lo + k\<close>; the value -1 of the
  source's sentinels is -1 here.
\<close>

fun dirname_scan :: "(nat \<Rightarrow> bool) \<Rightarrow> jstr \<Rightarrow> nat \<Rightarrow> nat \<Rightarrow> bool \<Rightarrow> int" where
  "dirname_scan isSep path lo 0 matchedSlash = -1"
| "dirname_scan isSep path lo (Suc k) matchedSlash =
     (if isSep (path ! (lo + k))
      then if \<not> matchedSlash then int (lo + k)
           else dirname_scan isSep path lo k matchedSlash
      else dirname_scan isSep path lo k False)"

text \<open>The result is the pair \<open>(start, end)\<close>.\<close>

fun basename_scan ::
  "(nat \<Rightarrow> bool) \<Rightarrow> jstr \<Rightarrow> nat \<Rightarrow> nat \<Rightarrow> bool \<Rightarrow> int \<Rightarrow> int \<times> int" where
  "basename_scan isSep path lo 0 matchedSlash end1 = (int lo, end1)"
| "basename_scan isSep path lo (Suc k) matchedSlash end1 =
     (if isSep (path ! (lo + k))
      then if \<not> matchedSlash then (int (lo + k) + 1, end1)
           else basename_scan isSep path lo k matchedSlash end1
      else if end1 = -1 then basename_scan isSep path lo k False (int (lo + k) + 1)
      else basename_scan isSep path lo k matchedSlash end1)"

text \<open>With a suffix to cut off: the result is \<open>(start, end, firstNonSlashEnd)\<close>.\<close>

fun basename_suffix_scan ::
  "(nat \<Rightarrow> bool) \<Rightarrow> jstr \<Rightarrow> jstr \<Rightarrow> nat \<Rightarrow> nat \<Rightarrow> bool \<Rightarrow> int \<Rightarrow> int \<Rightarrow> int \<Rightarrow> int \<times> int \<times> int" where
  "basename_suffix_scan isSep path suffix lo 0 matchedSlash extIdx end1 firstNonSlashEnd =
     (int lo, end1, firstNonSlashEnd)"
| "basename_suffix_scan isSep path suffix lo (Suc k) matchedSlash extIdx end1 firstNonSlashEnd =
     (let code = path ! (lo + k); i = int (lo + k)
      in if isSep code
         then if \<not> matchedSlash then (i + 1, end1, firstNonSlashEnd)
              else basename_suffix_scan isSep path suffix lo k matchedSlash extIdx end1
                     firstNonSlashEnd
         else let matchedSlash' = (if firstNonSlashEnd = -1 then False else matchedSlash);
                  fnse = (if firstNonSlashEnd = -1 then i + 1 else firstNonSlashEnd)
              in if extIdx \<ge> 0
                 then if code = suffix ! nat extIdx
                      then basename_suffix_scan isSep path suffix lo k matchedSlash' (extIdx - 1)
                             (if extIdx - 1 = -1 then i else end1) fnse
                      else basename_suffix_scan isSep path suffix lo k matchedSlash' (-1) fnse fnse
                 else basename_suffix_scan isSep path suffix lo k matchedSlash' extIdx end1 fnse)"

record ext_state =
  ext_startDot :: int
  ext_startPart :: int
  ext_end :: int
  ext_matchedSlash :: bool
  ext_preDotState :: int

definition ext_init :: "int \<Rightarrow> ext_state" where
  [js_eval]: "ext_init startPart =
     \<lparr>ext_startDot = -1, ext_startPart = startPart, ext_end = -1, ext_matchedSlash = True,
      ext_preDotState = 0\<rparr>"

text \<open>One iteration of the scan of \<open>extname\<close> and \<open>parse\<close> on a character that is no separator.\<close>

definition ext_char :: "nat \<Rightarrow> nat \<Rightarrow> ext_state \<Rightarrow> ext_state" where
  [js_eval]: "ext_char i code st =
     (let st1 = (if ext_end st = -1
                 then st\<lparr>ext_matchedSlash := False, ext_end := int i + 1\<rparr> else st)
      in if code = CHAR_DOT
         then if ext_startDot st1 = -1 then st1\<lparr>ext_startDot := int i\<rparr>
              else if ext_preDotState st1 \<noteq> 1 then st1\<lparr>ext_preDotState := 1\<rparr> else st1
         else if ext_startDot st1 \<noteq> -1 then st1\<lparr>ext_preDotState := -1\<rparr> else st1)"

fun ext_scan :: "(nat \<Rightarrow> bool) \<Rightarrow> jstr \<Rightarrow> nat \<Rightarrow> nat \<Rightarrow> ext_state \<Rightarrow> ext_state" where
  "ext_scan isSep path lo 0 st = st"
| "ext_scan isSep path lo (Suc k) st =
     (if isSep (path ! (lo + k))
      then if \<not> ext_matchedSlash st then st\<lparr>ext_startPart := int (lo + k) + 1\<rparr>
           else ext_scan isSep path lo k st
      else ext_scan isSep path lo k (ext_char (lo + k) (path ! (lo + k)) st))"

text \<open>The test after the loop: no dot that separates an extension was found.\<close>

definition ext_none :: "ext_state \<Rightarrow> bool" where
  [js_eval]: "ext_none st =
     (ext_startDot st = -1 \<or> ext_preDotState st = 0 \<or>
      (ext_preDotState st = 1 \<and> ext_startDot st = ext_end st - 1 \<and>
       ext_startDot st = ext_startPart st + 1))"

record path_parts =
  root :: jstr
  dir :: jstr
  base :: jstr
  ext :: jstr
  name :: jstr

definition no_parts :: path_parts where
  [js_eval]: "no_parts = \<lparr>root = [], dir = [], base = [], ext = [], name = []\<rparr>"

section \<open>format\<close>

text \<open>
  The fields \<open>_format\<close> reads, absent ones as \<open>None\<close>; an argument that is no object is rejected.
\<close>

record path_object =
  po_root :: "jstr option"
  po_dir :: "jstr option"
  po_base :: "jstr option"
  po_name :: "jstr option"
  po_ext :: "jstr option"

datatype path_arg = NotAnObject jsval | PathObject path_object

definition truthy_str :: "jstr option \<Rightarrow> bool" where
  [js_eval]: "truthy_str v = (case v of None \<Rightarrow> False | Some s \<Rightarrow> s \<noteq> [])"

definition or_empty :: "jstr option \<Rightarrow> jstr" where
  [js_eval]: "or_empty v = (case v of None \<Rightarrow> [] | Some s \<Rightarrow> s)"

definition formatExt :: "jstr option \<Rightarrow> jstr" where
  [js_eval]: "formatExt e =
     (if truthy_str e
      then (if or_empty e ! 0 = CHAR_DOT then [] else [CHAR_DOT]) @ or_empty e
      else [])"

definition format_path :: "nat \<Rightarrow> path_arg \<Rightarrow> js_error + jstr" where
  [js_eval]: "format_path sep arg =
     (case arg of
        NotAnObject v \<Rightarrow> Inl (ERR_INVALID_ARG_TYPE ''pathObject'' ''Object'' v)
      | PathObject po \<Rightarrow>
          (let d = (if truthy_str (po_dir po) then po_dir po else po_root po);
               b = (if truthy_str (po_base po) then or_empty (po_base po)
                    else or_empty (po_name po) @ formatExt (po_ext po))
           in if \<not> truthy_str d then Inr b
              else if d = po_root po then Inr (or_empty d @ b)
              else Inr (or_empty d @ sep # b)))"

text \<open>The object \<open>parse\<close> returns, as an argument of \<open>format\<close>.\<close>

definition parts_object :: "path_parts \<Rightarrow> path_arg" where
  [js_eval]: "parts_object p =
     PathObject \<lparr>po_root = Some (root p), po_dir = Some (dir p), po_base = Some (base p),
                 po_name = Some (name p), po_ext = Some (ext p)\<rparr>"

section \<open>Glob patterns\<close>

text \<open>
  \<open>_matchesGlob\<close> translates the pattern to the source text of a regular expression; the engine
  that compiles (or rejects) and runs it is the argument \<open>regexp_test\<close>.
\<close>

fun glob_class :: "jstr \<Rightarrow> jstr \<times> jstr" where
  "glob_class [] = ([], [])"
| "glob_class (c # cs) =
     (if c = 93 then ([93], cs) else (let (out, rest) = glob_class cs in (c # out, rest)))"

lemma glob_class_length: "length (snd (glob_class cs)) \<le> length cs"
  by (induction cs) (auto simp: case_prod_beta Let_def)

lemma glob_class_rest [termination_simp]:
  "(out, rest) = glob_class cs \<Longrightarrow> length rest < Suc (length cs)"
  by (metis glob_class_length le_imp_less_Suc snd_conv)

lemma glob_class_tl_rest [termination_simp]:
  "(out, rest) = glob_class (tl cs) \<Longrightarrow> length rest < Suc (length cs)"
  by (metis glob_class_length le_imp_less_Suc le_trans length_tl diff_le_self snd_conv)

definition regex_special :: jstr where
  [js_eval]: "regex_special = js ''.+^${}()|'' @ [92]"

fun glob_regex :: "jstr \<Rightarrow> jstr" where
  "glob_regex [] = []"
| "glob_regex (c # cs) =
     (if c = 91
      then (if cs \<noteq> [] \<and> hd cs = 33
            then (let (out, rest) = glob_class (tl cs) in [91, 94] @ out @ glob_regex rest)
            else (let (out, rest) = glob_class cs in [91] @ out @ glob_regex rest))
      else if c = 42
      then (if cs \<noteq> [] \<and> hd cs = 42
            then [46, 42] @
                 (if tl cs \<noteq> [] \<and> hd (tl cs) = CHAR_FORWARD_SLASH then glob_regex (tl (tl cs))
                  else glob_regex (tl cs))
            else js ''[^/]*'' @ glob_regex cs)
      else if c = 63 then js ''[^/]'' @ glob_regex cs
      else if c \<in> set regex_special then 92 # c # glob_regex cs
      else c # glob_regex cs)"

definition matchesGlob ::
  "(jstr \<Rightarrow> jstr \<Rightarrow> js_error + bool) \<Rightarrow> jsval \<Rightarrow> jsval \<Rightarrow> bool \<Rightarrow> js_error + bool" where
  [js_eval]: "matchesGlob regexp_test path pattern isWindows =
     bindE (validateString path ''path'') (\<lambda>p.
     bindE (validateString pattern ''pattern'') (\<lambda>g.
       let toSlash = map (\<lambda>c. if c = CHAR_BACKWARD_SLASH then CHAR_FORWARD_SLASH else c);
           p' = (if isWindows then toSlash p else p);
           g' = (if isWindows then toSlash g else g)
       in regexp_test (94 # glob_regex g' @ [36]) p'))"

end
