(* ===== verification/Path_Spec.thy ===== *)
theory Path_Spec
  imports Path_Common "HOL-Library.Sublist"
begin

text \<open>
  What the loops of \<open>Path_Common\<close> compute, stated on the segments of a path: normal segment
  lists and idempotence of \<open>normalizeString\<close>, and the last segment, the part before it and its
  extension as the results of the backward scans.
\<close>

section \<open>Normal segment lists\<close>

text \<open>
  A normal stack has no empty and no \<open>.\<close> segment, its \<open>..\<close> segments are all at the bottom, and
  there are none when the path may not climb above its root.
\<close>

fun ok_stack :: "(nat \<Rightarrow> bool) \<Rightarrow> bool \<Rightarrow> jstr list \<Rightarrow> bool" where
  "ok_stack isSep allowAboveRoot [] = True"
| "ok_stack isSep allowAboveRoot (s # below) =
     (clean_segment isSep s \<and> s \<noteq> dot \<and>
      (s = dotdot \<longrightarrow> allowAboveRoot \<and> set below \<subseteq> {dotdot}) \<and>
      ok_stack isSep allowAboveRoot below)"

lemma ok_stack_tl: "ok_stack isSep allow (s # stack) \<Longrightarrow> ok_stack isSep allow stack"
  by simp

lemma ok_stack_append: "ok_stack isSep allow (xs @ stack) \<Longrightarrow> ok_stack isSep allow stack"
  by (induction xs) auto

lemma ok_stack_clean: "ok_stack isSep allow stack \<Longrightarrow> \<forall>s\<in>set stack. clean_segment isSep s"
  by (induction stack) auto

lemma ok_stack_False:
  "ok_stack isSep False stack \<longleftrightarrow>
     (\<forall>s\<in>set stack. clean_segment isSep s \<and> s \<noteq> dot \<and> s \<noteq> dotdot)"
  by (induction stack) auto

lemma seg_push_ok:
  assumes "ok_stack isSep allow stack" and "\<forall>c\<in>set seg. \<not> isSep c"
  shows "ok_stack isSep allow (seg_push allow seg stack)"
proof (cases "seg = [] \<or> seg = dot")
  case False
  then show ?thesis using assms
    by (cases "seg = dotdot"; cases stack) (auto simp: seg_push_def clean_segment_def)
qed (use assms in \<open>auto simp: seg_push_def\<close>)

lemma seg_push_id:
  assumes "ok_stack isSep allow (seg # stack)"
  shows "seg_push allow seg stack = seg # stack"
  using assms by (cases stack) (auto simp: seg_push_def clean_segment_def)

lemma replay_Cons: "replay allow (s # ss) stack = replay allow ss (seg_push allow s stack)"
  by (simp add: replay_def)

lemma replay_append: "replay allow (ss @ ts) stack = replay allow ts (replay allow ss stack)"
  by (simp add: replay_def)

lemma replay_Nil [simp]: "replay allow [] stack = stack" "replay allow [[]] stack = stack"
  by (simp_all add: replay_def seg_push_def)

lemma replay_ok:
  "ok_stack isSep allow stack \<Longrightarrow> \<forall>s\<in>set segs. \<forall>c\<in>set s. \<not> isSep c \<Longrightarrow>
     ok_stack isSep allow (replay allow segs stack)"
  by (induction segs arbitrary: stack) (auto simp: replay_Cons seg_push_ok)

lemma replay_id:
  "ok_stack isSep allow (rev segs @ stack) \<Longrightarrow> replay allow segs stack = rev segs @ stack"
proof (induction segs arbitrary: stack)
  case (Cons s ss)
  have ok: "ok_stack isSep allow (rev ss @ s # stack)" using Cons.prems by simp
  then have "seg_push allow s stack = s # stack"
    using ok_stack_append seg_push_id by metis
  then show ?case using Cons.IH [OF ok] by (simp only: replay_Cons) simp
qed simp

lemma replay_split_ok:
  "ok_stack isSep allow stack \<Longrightarrow> ok_stack isSep allow (replay allow (splitP isSep path) stack)"
  by (intro replay_ok splitP_segments)

lemma replay_dotdots:
  "\<forall>s\<in>set xs. s \<noteq> dotdot \<Longrightarrow>
     replay allow (replicate (length xs) dotdot) (xs @ stack) = stack"
  by (induction xs) (auto simp: replay_Cons seg_push_def)

context path_separators begin

lemma normalizeString_stack:
  "\<exists>stack. normalizeString path allow separator isSep = join [separator] (rev stack) \<and>
     ok_stack isSep allow stack"
  using replay_split_ok [of isSep allow "[]" path]
  by (auto simp: normalizeString_resolves resolve_segments_def)

lemma split_joined_stack:
  assumes "ok_stack isSep allow stack"
  shows "replay allow' (splitP isSep (join [separator] (rev stack))) st = replay allow' (rev stack) st"
proof (cases "stack = []")
  case False
  have "splitP isSep (join [separator] (rev stack)) = rev stack"
    using ok_stack_clean [OF assms] False sep_is_sep
    by (intro split_join) (auto simp: clean_segment_def)
  then show ?thesis by simp
qed simp

lemma normalizeString_joined:
  assumes "ok_stack isSep allow stack"
  shows "normalizeString (join [separator] (rev stack)) allow separator isSep =
         join [separator] (rev stack)"
  using assms split_joined_stack [OF assms, of allow "[]"] replay_id [of isSep allow "rev stack" "[]"]
  by (simp add: normalizeString_resolves resolve_segments_def)

lemma normalizeString_idem:
  "normalizeString (normalizeString path allow separator isSep) allow separator isSep =
     normalizeString path allow separator isSep"
  using normalizeString_stack [of path allow] normalizeString_joined [of allow] by auto

lemma normalizeString_lead:
  "isSep c \<Longrightarrow> normalizeString (c # path) allow separator isSep =
     normalizeString path allow separator isSep"
  by (simp add: normalizeString_resolves resolve_segments_def replay_Cons seg_push_def)

lemma normalizeString_trail:
  "isSep c \<Longrightarrow> normalizeString (path @ [c]) allow separator isSep =
     normalizeString path allow separator isSep"
  by (simp add: normalizeString_resolves resolve_segments_def splitP_append replay_append)

lemma joined_ends:
  assumes "\<forall>s\<in>set segs. clean_segment isSep s" and "segs \<noteq> []"
  shows "join [separator] segs \<noteq> []" "\<not> isSep (hd (join [separator] segs))"
    "\<not> isSep (last (join [separator] segs))"
proof -
  obtain s ss where s: "segs = s # ss" using assms(2) by (cases segs) auto
  then have "clean_segment isSep s" using assms(1) by simp
  then show "join [separator] segs \<noteq> []" "\<not> isSep (hd (join [separator] segs))"
    unfolding s by (cases ss; auto simp: clean_segment_def)+
  obtain t ts where t: "segs = ts @ [t]" using assms(2) by (cases segs rule: rev_cases) auto
  then have "clean_segment isSep t" using assms(1) by simp
  then show "\<not> isSep (last (join [separator] segs))"
    unfolding t by (cases "ts = []") (auto simp: join_snoc clean_segment_def)
qed

lemma normalizeString_ends:
  assumes "normalizeString path allow separator isSep \<noteq> []"
  shows "\<not> isSep (hd (normalizeString path allow separator isSep))"
    "\<not> isSep (last (normalizeString path allow separator isSep))"
proof -
  obtain stack where s: "normalizeString path allow separator isSep = join [separator] (rev stack)"
    "ok_stack isSep allow stack" using normalizeString_stack by blast
  then have "rev stack \<noteq> []" "\<forall>s\<in>set (rev stack). clean_segment isSep s"
    using assms ok_stack_clean by auto
  then show "\<not> isSep (hd (normalizeString path allow separator isSep))"
    "\<not> isSep (last (normalizeString path allow separator isSep))"
    using s joined_ends by simp_all
qed

end

section \<open>The last segment of a path\<close>

definition last_segment :: "(nat \<Rightarrow> bool) \<Rightarrow> jstr \<Rightarrow> jstr" where
  [js_eval]: "last_segment isSep path =
     rev (takeWhile (\<lambda>c. \<not> isSep c) (dropWhile isSep (rev path)))"

text \<open>What precedes the last segment, separators included.\<close>

definition before_last :: "(nat \<Rightarrow> bool) \<Rightarrow> jstr \<Rightarrow> jstr" where
  [js_eval]: "before_last isSep path =
     rev (dropWhile (\<lambda>c. \<not> isSep c) (dropWhile isSep (rev path)))"

definition trailing_seps :: "(nat \<Rightarrow> bool) \<Rightarrow> jstr \<Rightarrow> jstr" where
  [js_eval]: "trailing_seps isSep path = rev (takeWhile isSep (rev path))"

lemma path_decompose:
  "path = before_last isSep path @ last_segment isSep path @ trailing_seps isSep path"
proof -
  have "rev path = takeWhile isSep (rev path) @
      takeWhile (\<lambda>c. \<not> isSep c) (dropWhile isSep (rev path)) @
      dropWhile (\<lambda>c. \<not> isSep c) (dropWhile isSep (rev path))" by simp
  then have "rev (rev path) = rev (takeWhile isSep (rev path) @
      takeWhile (\<lambda>c. \<not> isSep c) (dropWhile isSep (rev path)) @
      dropWhile (\<lambda>c. \<not> isSep c) (dropWhile isSep (rev path)))" by (rule arg_cong)
  then show ?thesis
    by (simp only: before_last_def last_segment_def trailing_seps_def rev_rev_ident rev_append
        append_assoc)
qed

lemma last_segment_clean: "c \<in> set (last_segment isSep path) \<Longrightarrow> \<not> isSep c"
  by (auto simp: last_segment_def dest: set_takeWhileD)

lemma trailing_seps_seps: "c \<in> set (trailing_seps isSep path) \<Longrightarrow> isSep c"
  by (auto simp: trailing_seps_def dest: set_takeWhileD)

lemma before_last_ends: "before_last isSep path \<noteq> [] \<Longrightarrow> isSep (last (before_last isSep path))"
  using hd_dropWhile [of "\<lambda>c. \<not> isSep c" "dropWhile isSep (rev path)"]
  by (auto simp: before_last_def last_rev)

lemma last_segment_Nil:
  assumes "last_segment isSep path = []"
  shows "before_last isSep path = []"
proof (cases "dropWhile isSep (rev path)")
  case Nil
  show ?thesis unfolding before_last_def Nil by simp
next
  case (Cons c cs)
  then have "\<not> isSep c" using hd_dropWhile [of isSep "rev path"] by simp
  then show ?thesis using assms unfolding last_segment_def Cons by simp
qed

text \<open>Every path is either separators only or a last segment between a prefix and separators.\<close>

lemma path_cases:
  obtains (seps) "\<forall>c\<in>set path. isSep c" "last_segment isSep path = []" "before_last isSep path = []"
  | (seg) pre seg trail where "path = pre @ seg @ trail" "seg \<noteq> []" "\<forall>c\<in>set seg. \<not> isSep c"
      "\<forall>c\<in>set trail. isSep c" "pre = [] \<or> isSep (last pre)"
      "last_segment isSep path = seg" "before_last isSep path = pre"
proof (cases "last_segment isSep path = []")
  case True
  then have "before_last isSep path = []" by (rule last_segment_Nil)
  then have "path = trailing_seps isSep path" using True path_decompose [of path isSep] by simp
  then have "\<forall>c\<in>set path. isSep c" using trailing_seps_seps by metis
  then show ?thesis using seps True last_segment_Nil by blast
next
  case False
  show ?thesis
  proof (rule seg [OF path_decompose False])
    show "\<forall>c\<in>set (last_segment isSep path). \<not> isSep c" using last_segment_clean by blast
    show "\<forall>c\<in>set (trailing_seps isSep path). isSep c" using trailing_seps_seps by blast
    show "before_last isSep path = [] \<or> isSep (last (before_last isSep path))"
      using before_last_ends by blast
  qed simp_all
qed

lemma decompose_unique:
  assumes "path = pre @ seg @ trail" and "seg \<noteq> []" and "\<forall>c\<in>set seg. \<not> isSep c"
    and "\<forall>c\<in>set trail. isSep c" and "pre = [] \<or> isSep (last pre)"
  shows "last_segment isSep path = seg" "before_last isSep path = pre"
proof -
  have d: "dropWhile isSep (rev path) = rev seg @ rev pre"
  proof -
    have "dropWhile isSep (rev trail @ rev seg @ rev pre) = dropWhile isSep (rev seg @ rev pre)"
      using assms(4) by (intro dropWhile_append2) simp
    moreover obtain c cs where "rev seg = c # cs" using assms(2) by (cases "rev seg") auto
    moreover have "\<not> isSep c" using assms(3) calculation(2) by (metis list.set_intros(1) set_rev)
    ultimately show ?thesis using assms(1) by simp
  qed
  have tw: "takeWhile (\<lambda>c. \<not> isSep c) (rev seg @ rev pre) = rev seg @ takeWhile (\<lambda>c. \<not> isSep c) (rev pre)"
    using assms(3) by (intro takeWhile_append2) simp
  have dw: "dropWhile (\<lambda>c. \<not> isSep c) (rev seg @ rev pre) = dropWhile (\<lambda>c. \<not> isSep c) (rev pre)"
    using assms(3) by (intro dropWhile_append2) simp
  have pre: "takeWhile (\<lambda>c. \<not> isSep c) (rev pre) = []" "dropWhile (\<lambda>c. \<not> isSep c) (rev pre) = rev pre"
    using assms(5) by (cases "rev pre"; auto simp: last_rev [symmetric] rev_swap)+
  show "last_segment isSep path = seg" using d tw pre by (simp add: last_segment_def)
  show "before_last isSep path = pre" using d dw pre by (simp add: before_last_def)
qed

section \<open>What the scans return\<close>

text \<open>
  Over the range \<open>lo..<length path\<close>, with \<open>path = lead @ rest\<close> and \<open>lo = length lead\<close>: separators
  at the end are skipped, then the last segment is read, then the scan stops.
\<close>

lemma dirname_scan_append:
  "k \<le> length xs \<Longrightarrow> length lead + k \<le> length (lead @ xs) \<Longrightarrow>
     dirname_scan isSep (lead @ xs @ ys) (length lead) k m = dirname_scan isSep (lead @ xs) (length lead) k m"
  by (induction k arbitrary: m) (auto simp: nth_append)

lemma dirname_scan_seps:
  assumes "\<forall>c\<in>set trail. isSep c"
  shows "dirname_scan isSep (lead @ xs @ trail) (length lead) (length (xs @ trail)) True =
         dirname_scan isSep (lead @ xs) (length lead) (length xs) True"
  using assms
proof (induction trail rule: rev_induct)
  case (snoc c cs)
  have "dirname_scan isSep (lead @ (xs @ cs) @ [c]) (length lead) (length (xs @ cs)) True =
      dirname_scan isSep (lead @ xs @ cs) (length lead) (length (xs @ cs)) True"
    using dirname_scan_append [of "length (xs @ cs)" "xs @ cs" lead isSep "[c]" True] by simp
  then show ?case using snoc by (simp add: nth_append)
qed simp

lemma dirname_scan_seg:
  assumes "\<forall>c\<in>set seg. \<not> isSep c"
  shows "dirname_scan isSep (lead @ xs @ seg) (length lead) (length (xs @ seg)) m =
         dirname_scan isSep (lead @ xs) (length lead) (length xs) (m \<and> seg = [])"
  using assms
proof (induction seg arbitrary: m rule: rev_induct)
  case (snoc c cs)
  have "dirname_scan isSep (lead @ (xs @ cs) @ [c]) (length lead) (length (xs @ cs)) False =
      dirname_scan isSep (lead @ xs @ cs) (length lead) (length (xs @ cs)) False"
    using dirname_scan_append [of "length (xs @ cs)" "xs @ cs" lead isSep "[c]" False] by simp
  then show ?case using snoc by (simp add: nth_append)
qed simp

lemma dirname_scan_result:
  assumes "path = lead @ pre @ seg @ trail" and "seg \<noteq> []" and "\<forall>c\<in>set seg. \<not> isSep c"
    and "\<forall>c\<in>set trail. isSep c" and "pre = [] \<or> isSep (last pre)"
  shows "dirname_scan isSep path (length lead) (length path - length lead) True =
         (if pre = [] then -1 else int (length lead + length pre) - 1)"
proof -
  have "dirname_scan isSep path (length lead) (length path - length lead) True =
      dirname_scan isSep (lead @ pre) (length lead) (length pre) False"
    using dirname_scan_seps [OF assms(4), of lead "pre @ seg"]
      dirname_scan_seg [OF assms(3), of lead pre True] assms(1,2) by simp
  then show ?thesis using assms(5) by (cases pre rule: rev_cases) (auto simp: nth_append)
qed

lemma dirname_scan_all_seps:
  "\<forall>c\<in>set trail. isSep c \<Longrightarrow> dirname_scan isSep (lead @ trail) (length lead) (length trail) True = -1"
  using dirname_scan_seps [of trail isSep lead "[]"] by simp

lemma basename_scan_append:
  "k \<le> length xs \<Longrightarrow> basename_scan isSep (lead @ xs @ ys) (length lead) k m e =
     basename_scan isSep (lead @ xs) (length lead) k m e"
  by (induction k arbitrary: m e) (auto simp: nth_append)

lemma basename_scan_snoc:
  "basename_scan isSep (lead @ xs @ [c]) (length lead) (Suc (length xs)) m e =
     (if isSep c then if \<not> m then (int (length lead + length xs) + 1, e)
                      else basename_scan isSep (lead @ xs) (length lead) (length xs) m e
      else if e = -1 then basename_scan isSep (lead @ xs) (length lead) (length xs) False
                            (int (length lead + length xs) + 1)
      else basename_scan isSep (lead @ xs) (length lead) (length xs) m e)"
  using basename_scan_append [of "length xs" xs isSep lead "[c]"] by (simp add: nth_append)

lemma basename_scan_seps:
  "\<forall>c\<in>set trail. isSep c \<Longrightarrow>
     basename_scan isSep (lead @ xs @ trail) (length lead) (length (xs @ trail)) True e =
     basename_scan isSep (lead @ xs) (length lead) (length xs) True e"
proof (induction trail rule: rev_induct)
  case (snoc c cs)
  then show ?case using basename_scan_snoc [of isSep lead "xs @ cs" c True e] by simp
qed simp

lemma basename_scan_in_seg:
  "\<forall>c\<in>set seg. \<not> isSep c \<Longrightarrow> 0 \<le> e \<Longrightarrow>
     basename_scan isSep (lead @ xs @ seg) (length lead) (length (xs @ seg)) m e =
     basename_scan isSep (lead @ xs) (length lead) (length xs) m e"
proof (induction seg rule: rev_induct)
  case (snoc c cs)
  then show ?case using basename_scan_snoc [of isSep lead "xs @ cs" c m e] by simp
qed simp

lemma basename_scan_seg:
  assumes "\<forall>c\<in>set seg. \<not> isSep c" and "seg \<noteq> []"
  shows "basename_scan isSep (lead @ xs @ seg) (length lead) (length (xs @ seg)) m (-1) =
         basename_scan isSep (lead @ xs) (length lead) (length xs) False (int (length (lead @ xs @ seg)))"
proof -
  obtain cs c where seg: "seg = cs @ [c]" using assms(2) by (cases seg rule: rev_cases) auto
  then show ?thesis
    using assms(1) basename_scan_snoc [of isSep lead "xs @ cs" c m "-1"]
      basename_scan_in_seg [of cs isSep "int (length (lead @ xs @ seg))" lead xs False]
    by (simp add: ac_simps)
qed

lemma basename_scan_result:
  assumes "path = lead @ pre @ seg @ trail" and "seg \<noteq> []" and "\<forall>c\<in>set seg. \<not> isSep c"
    and "\<forall>c\<in>set trail. isSep c" and "pre = [] \<or> isSep (last pre)"
  shows "basename_scan isSep path (length lead) (length path - length lead) True (-1) =
         (int (length (lead @ pre)), int (length (lead @ pre @ seg)))"
proof -
  have "basename_scan isSep path (length lead) (length path - length lead) True (-1) =
      basename_scan isSep (lead @ pre) (length lead) (length pre) False (int (length (lead @ pre @ seg)))"
    using basename_scan_seps [OF assms(4), of lead "pre @ seg" "-1"]
      basename_scan_seg [OF assms(3,2), of lead pre True] assms(1) by simp
  then show ?thesis using assms(5) by (cases pre rule: rev_cases) (auto simp: nth_append)
qed

lemma basename_scan_all_seps:
  "\<forall>c\<in>set trail. isSep c \<Longrightarrow>
     basename_scan isSep (lead @ trail) (length lead) (length trail) True (-1) = (int (length lead), -1)"
  using basename_scan_seps [of trail isSep lead "[]" "-1"] by simp

subsection \<open>The extension scan\<close>

text \<open>The scan over a segment whose first character has index \<open>off\<close>, from right to left.\<close>

fun ext_fold :: "nat \<Rightarrow> jstr \<Rightarrow> ext_state \<Rightarrow> ext_state" where
  "ext_fold off [] st = st"
| "ext_fold off (c # cs) st = ext_char off c (ext_fold (Suc off) cs st)"

lemma ext_fold_snoc: "ext_fold off (cs @ [c]) st = ext_fold off cs (ext_char (off + length cs) c st)"
  by (induction cs arbitrary: off) auto

lemma ext_scan_append:
  "k \<le> length xs \<Longrightarrow>
     ext_scan isSep (lead @ xs @ ys) (length lead) k st = ext_scan isSep (lead @ xs) (length lead) k st"
  by (induction k arbitrary: st) (auto simp: nth_append)

lemma ext_scan_snoc:
  "ext_scan isSep (lead @ xs @ [c]) (length lead) (Suc (length xs)) st =
     (if isSep c then if \<not> ext_matchedSlash st then st\<lparr>ext_startPart := int (length lead + length xs) + 1\<rparr>
                      else ext_scan isSep (lead @ xs) (length lead) (length xs) st
      else ext_scan isSep (lead @ xs) (length lead) (length xs)
             (ext_char (length lead + length xs) c st))"
  using ext_scan_append [of "length xs" xs isSep lead "[c]"] by (simp add: nth_append)

lemma ext_scan_seps:
  "\<forall>c\<in>set trail. isSep c \<Longrightarrow> ext_matchedSlash st \<Longrightarrow>
     ext_scan isSep (lead @ xs @ trail) (length lead) (length (xs @ trail)) st =
     ext_scan isSep (lead @ xs) (length lead) (length xs) st"
proof (induction trail rule: rev_induct)
  case (snoc c cs)
  then show ?case using ext_scan_snoc [of isSep lead "xs @ cs" c st] by simp
qed simp

lemma ext_scan_seg:
  "\<forall>c\<in>set seg. \<not> isSep c \<Longrightarrow>
     ext_scan isSep (lead @ xs @ seg) (length lead) (length (xs @ seg)) st =
     ext_scan isSep (lead @ xs) (length lead) (length xs) (ext_fold (length lead + length xs) seg st)"
proof (induction seg arbitrary: st rule: rev_induct)
  case (snoc c cs)
  then show ?case using ext_scan_snoc [of isSep lead "xs @ cs" c st]
    by (simp add: ext_fold_snoc add.assoc)
qed simp

lemma ext_fold_init:
  defines "pos s \<equiv> lastIndexOf s dot"
  shows "ext_fold off seg (ext_init sp) =
    \<lparr>ext_startDot = (if CHAR_DOT \<in> set seg then int off + pos seg else -1),
     ext_startPart = sp,
     ext_end = (if seg = [] then -1 else int (off + length seg)),
     ext_matchedSlash = (seg = []),
     ext_preDotState = (if CHAR_DOT \<notin> set seg \<or> pos seg = 0 then 0
                        else if hd seg = CHAR_DOT then 1 else -1)\<rparr>"
proof (induction seg arbitrary: off)
  case (Cons c cs)
  have "CHAR_DOT \<in> set cs \<Longrightarrow> 0 \<le> pos cs" using lastIndexOf_bounds [of CHAR_DOT cs] by (simp add: pos_def)
  moreover have "pos (c # cs) = (if CHAR_DOT \<in> set cs then pos cs + 1 else if c = CHAR_DOT then 0 else -1)"
    by (simp add: pos_def lastIndexOf_Cons)
  ultimately show ?case by (auto simp: Cons.IH ext_char_def Let_def)
qed (simp add: ext_init_def)

text \<open>The extension of a last segment: from its last dot, unless that dot starts it or it is \<open>..\<close>.\<close>

definition ext_of :: "jstr \<Rightarrow> jstr" where
  [js_eval]: "ext_of seg =
     (let d = lastIndexOf seg dot in if d \<le> 0 \<or> seg = dotdot then [] else drop (nat d) seg)"

definition stem_of :: "jstr \<Rightarrow> jstr" where
  [js_eval]: "stem_of seg = take (length seg - length (ext_of seg)) seg"

lemma stem_ext: "stem_of seg @ ext_of seg = seg"
proof (cases "ext_of seg = []")
  case False
  then have "CHAR_DOT \<in> set seg"
    using lastIndexOf_char_notin by (fastforce simp: ext_of_def Let_def)
  then show ?thesis using lastIndexOf_bounds [of CHAR_DOT seg]
    by (auto simp: stem_of_def ext_of_def Let_def)
qed (simp add: stem_of_def)

lemma dotdot_iff:
  assumes "seg \<noteq> []" and "lastIndexOf seg dot = 1" and "length seg = 2" and "hd seg = CHAR_DOT"
  shows "seg = dotdot"
proof -
  obtain a b where ab: "seg = [a, b]"
    using assms(3) by (auto simp: length_Suc_conv numeral_2_eq_2)
  then show ?thesis using assms(2,4) by (auto simp: lastIndexOf_Cons split: if_splits)
qed

text \<open>
  The state after the scan, for a path with a last segment: \<open>sp\<close> is the value \<open>startPart\<close> keeps
  when no separator stops the scan.
\<close>

lemma ext_scan_result:
  assumes "path = lead @ pre @ seg @ trail" and "seg \<noteq> []" and "\<forall>c\<in>set seg. \<not> isSep c"
    and "\<forall>c\<in>set trail. isSep c" and "pre = [] \<or> isSep (last pre)"
  shows "ext_scan isSep path (length lead) (length path - length lead) (ext_init sp) =
    (ext_fold (length (lead @ pre)) seg (ext_init sp))
      \<lparr>ext_startPart := (if pre = [] then sp else int (length (lead @ pre)))\<rparr>"
proof -
  have "ext_matchedSlash (ext_init sp)" by (simp add: ext_init_def)
  then have "ext_scan isSep path (length lead) (length path - length lead) (ext_init sp) =
      ext_scan isSep (lead @ pre) (length lead) (length pre)
        (ext_fold (length (lead @ pre)) seg (ext_init sp))"
    using ext_scan_seps [OF assms(4), of "ext_init sp" lead "pre @ seg"]
      ext_scan_seg [OF assms(3), of lead pre "ext_init sp"] assms(1) by simp
  then show ?thesis using assms(2,5)
    by (cases pre rule: rev_cases) (auto simp: nth_append ext_fold_init)
qed

lemma ext_scan_all_seps:
  "\<forall>c\<in>set trail. isSep c \<Longrightarrow>
     ext_scan isSep (lead @ trail) (length lead) (length trail) (ext_init sp) = ext_init sp"
  using ext_scan_seps [of trail isSep "ext_init sp" lead "[]"] by (simp add: ext_init_def)

text \<open>
  The final test and the slice, when \<open>startPart\<close> is the start of the segment: the extension of
  the segment.
\<close>

lemma ext_result_of:
  fixes sp :: int
  assumes "path = pre @ seg @ trail" and "seg \<noteq> []"
  defines "st \<equiv> (ext_fold (length pre) seg (ext_init sp))\<lparr>ext_startPart := int (length pre)\<rparr>"
  shows "ext_none st \<longleftrightarrow> ext_of seg = []"
    "\<not> ext_none st \<Longrightarrow> slice path (ext_startDot st) (ext_end st) = ext_of seg"
    "\<not> ext_none st \<Longrightarrow> slice path (int (length pre)) (ext_startDot st) = stem_of seg"
proof -
  have notin: "CHAR_DOT \<notin> set seg \<Longrightarrow> lastIndexOf seg dot = -1" by (rule lastIndexOf_char_notin)
  show none: "ext_none st \<longleftrightarrow> ext_of seg = []"
  proof (cases "CHAR_DOT \<in> set seg")
    case True
    obtain d where d: "lastIndexOf seg dot = int d" "d < length seg"
      using lastIndexOf_bounds [OF True] by (cases "lastIndexOf seg dot") auto
    have "ext_none st \<longleftrightarrow> d = 0 \<or> (hd seg = CHAR_DOT \<and> d = 1 \<and> length seg = 2)"
      using True d assms(2) by (auto simp: ext_none_def st_def ext_fold_init)
    also have "\<dots> \<longleftrightarrow> d = 0 \<or> seg = dotdot"
      using d dotdot_iff [OF assms(2)] by (auto simp: lastIndexOf_Cons)
    also have "\<dots> \<longleftrightarrow> ext_of seg = []"
      using d by (auto simp: ext_of_def Let_def)
    finally show ?thesis .
  qed (simp add: notin ext_none_def st_def ext_fold_init ext_of_def)
  assume n: "\<not> ext_none st"
  then have dot: "CHAR_DOT \<in> set seg" and pos: "0 < lastIndexOf seg dot" "seg \<noteq> dotdot"
    using none notin by (auto simp: ext_of_def Let_def ext_none_def st_def ext_fold_init split: if_splits)
  have sd: "ext_startDot st = int (length pre) + lastIndexOf seg dot"
    using dot by (simp add: st_def ext_fold_init)
  have en: "ext_end st = int (length pre + length seg)" using assms(2) by (simp add: st_def ext_fold_init)
  obtain d where d: "lastIndexOf seg dot = int d" "0 < d" "d < length seg"
    using pos lastIndexOf_bounds [OF dot] by (cases "lastIndexOf seg dot") auto
  have eo: "ext_of seg = drop d seg" using pos d by (simp add: ext_of_def Let_def)
  show "slice path (ext_startDot st) (ext_end st) = ext_of seg"
    using slice_nat [of path "length pre + d" "length pre + length seg"] sd en d eo assms(1) by simp
  show "slice path (int (length pre)) (ext_startDot st) = stem_of seg"
    using slice_nat [of path "length pre" "length pre + d"] sd d eo assms(1) by (simp add: stem_of_def)
qed

text \<open>
  \<open>posix.parse\<close> keeps \<open>startPart\<close> one too small for a segment right after the root: the test then
  differs for the segment \<open>..\<close> only.
\<close>

lemma ext_slices:
  assumes "path = pre @ seg @ trail" and "CHAR_DOT \<in> set seg"
  defines "st \<equiv> ext_fold (length pre) seg (ext_init 0)"
  shows "slice path (int (length pre)) (ext_startDot st) @ slice path (ext_startDot st) (ext_end st) = seg"
proof -
  obtain d where d: "lastIndexOf seg dot = int d" "d < length seg"
    using lastIndexOf_bounds [OF assms(2)] by (cases "lastIndexOf seg dot") auto
  have "seg \<noteq> []" using assms(2) by auto
  then have "ext_startDot st = int (length pre + d)" "ext_end st = int (length pre + length seg)"
    using assms(2) d by (simp_all add: st_def ext_fold_init)
  then show ?thesis
    using slice_nat [of path "length pre" "length pre + d"]
      slice_nat [of path "length pre + d" "length pre + length seg"] assms(1) d by simp
qed

lemma ext_none_root:
  fixes off :: nat and sp :: int
  assumes "seg \<noteq> []"
  defines "st \<equiv> (ext_fold off seg (ext_init sp))\<lparr>ext_startPart := int off - 1\<rparr>"
  shows "ext_none st \<longleftrightarrow> ext_of seg = [] \<and> seg \<noteq> dotdot"
proof (cases "CHAR_DOT \<in> set seg")
  case True
  obtain d where d: "lastIndexOf seg dot = int d" "d < length seg"
    using lastIndexOf_bounds [OF True] by (cases "lastIndexOf seg dot") auto
  have "ext_none st \<longleftrightarrow> d = 0"
    using True d by (auto simp: ext_none_def st_def ext_fold_init)
  also have "\<dots> \<longleftrightarrow> ext_of seg = [] \<and> seg \<noteq> dotdot"
    using d by (auto simp: ext_of_def Let_def lastIndexOf_Cons)
  finally show ?thesis .
next
  case False
  then have "lastIndexOf seg dot = -1" "seg \<noteq> dotdot" by (auto simp: lastIndexOf_char_notin)
  then show ?thesis using False by (simp add: ext_none_def st_def ext_fold_init ext_of_def)
qed

subsection \<open>The scan that cuts a suffix off\<close>

text \<open>The effect of one character on \<open>(extIdx, end, firstNonSlashEnd)\<close>, and of a whole segment.\<close>

definition cut_char :: "jstr \<Rightarrow> nat \<Rightarrow> nat \<Rightarrow> int \<times> int \<times> int \<Rightarrow> int \<times> int \<times> int" where
  "cut_char suf i code = (\<lambda>(extIdx, end1, fnse).
     let fnse' = (if fnse = -1 then int i + 1 else fnse)
     in if extIdx \<ge> 0
        then if code = suf ! nat extIdx
             then (extIdx - 1, if extIdx - 1 = -1 then int i else end1, fnse')
             else (-1, fnse', fnse')
        else (extIdx, end1, fnse'))"

fun cut_fold :: "jstr \<Rightarrow> nat \<Rightarrow> jstr \<Rightarrow> int \<times> int \<times> int \<Rightarrow> int \<times> int \<times> int" where
  "cut_fold suf off [] st = st"
| "cut_fold suf off (c # cs) st = cut_char suf off c (cut_fold suf (Suc off) cs st)"

lemma cut_fold_snoc:
  "cut_fold suf off (cs @ [c]) st = cut_fold suf off cs (cut_char suf (off + length cs) c st)"
  by (induction cs arbitrary: off) auto

lemma cut_fold_init:
  assumes "suf \<noteq> []"
  shows "cut_fold suf off seg (int (length suf) - 1, -1, -1) =
    (if suffix suf seg then (-1, int off + int (length seg) - int (length suf),
                             int off + int (length seg))
     else if suffix seg suf
     then (int (length suf) - 1 - int (length seg), -1,
           if seg = [] then -1 else int off + int (length seg))
     else (-1, int off + int (length seg), int off + int (length seg)))"
proof (induction seg arbitrary: off)
  case (Cons c cs)
  have suf: "suffix suf (c # cs) \<longleftrightarrow> suf = c # cs \<or> suffix suf cs"
    by (auto simp: suffix_Cons)
  show ?case
  proof (cases "suffix suf cs")
    case True
    then have "length suf \<le> length cs" by (rule suffix_length_le)
    then show ?thesis using True suf Cons.IH [of "Suc off"] by (auto simp: cut_char_def Let_def)
  next
    case no: False
    show ?thesis
    proof (cases "suffix cs suf")
      case True
      then obtain zs where zs: "suf = zs @ cs" by (auto simp: suffix_def)
      have "zs \<noteq> []" using no zs by auto
      then obtain ys z where ys: "suf = ys @ z # cs" using zs by (cases zs rule: rev_cases) auto
      have "suffix (c # cs) suf \<longleftrightarrow> z = c" using ys by (auto simp: suffix_def)
      moreover have "suf ! length ys = z" using ys by simp
      moreover have "nat (int (length suf) - 1 - int (length cs)) = length ys" using ys by simp
      moreover have "suf = c # cs \<longleftrightarrow> ys = [] \<and> z = c" using ys by (cases ys) auto
      ultimately show ?thesis using no True suf Cons.IH [of "Suc off"] ys
        by (auto simp: cut_char_def Let_def)
    next
      case False
      moreover have "\<not> suffix (c # cs) suf" by (rule contrapos_nn [OF False]) (rule suffix_ConsD)
      moreover have "suf \<noteq> c # cs" using False by (auto simp: suffix_def)
      moreover have "cut_fold suf (Suc off) cs (int (length suf) - 1, -1, -1) =
          (-1, int (Suc off) + int (length cs), int (Suc off) + int (length cs))"
        unfolding Cons.IH [of "Suc off"] using no False by simp
      ultimately show ?thesis using no suf by (simp add: cut_char_def)
    qed
  qed
qed (use assms in simp)

text \<open>While \<open>firstNonSlashEnd\<close> is -1 the flag \<open>matchedSlash\<close> is still set.\<close>

lemma cut_scan_append:
  "k \<le> length xs \<Longrightarrow>
     basename_suffix_scan isSep (lead @ xs @ ys) suf (length lead) k m ei e f =
     basename_suffix_scan isSep (lead @ xs) suf (length lead) k m ei e f"
  by (induction k arbitrary: m ei e f) (auto simp: nth_append Let_def)

lemma cut_scan_snoc:
  "basename_suffix_scan isSep (lead @ xs @ [c]) suf (length lead) (Suc (length xs)) (f = -1) ei e f =
     (if isSep c
      then if f \<noteq> -1 then (int (length lead + length xs) + 1, e, f)
           else basename_suffix_scan isSep (lead @ xs) suf (length lead) (length xs) True ei e f
      else case cut_char suf (length lead + length xs) c (ei, e, f) of (ei', e', f') \<Rightarrow>
        basename_suffix_scan isSep (lead @ xs) suf (length lead) (length xs) (f' = -1) ei' e' f')"
  using cut_scan_append [of "length xs" xs isSep lead "[c]" suf]
  by (auto simp: nth_append cut_char_def Let_def)

lemma cut_scan_seps:
  "\<forall>c\<in>set trail. isSep c \<Longrightarrow>
     basename_suffix_scan isSep (lead @ xs @ trail) suf (length lead) (length (xs @ trail)) True ei e (-1) =
     basename_suffix_scan isSep (lead @ xs) suf (length lead) (length xs) True ei e (-1)"
proof (induction trail rule: rev_induct)
  case (snoc c cs)
  then show ?case using cut_scan_snoc [of isSep lead "xs @ cs" c suf "-1" ei e] by simp
qed simp

lemma cut_scan_seg:
  "\<forall>c\<in>set seg. \<not> isSep c \<Longrightarrow>
     basename_suffix_scan isSep (lead @ xs @ seg) suf (length lead) (length (xs @ seg)) (f = -1) ei e f =
     (case cut_fold suf (length lead + length xs) seg (ei, e, f) of (ei', e', f') \<Rightarrow>
        basename_suffix_scan isSep (lead @ xs) suf (length lead) (length xs) (f' = -1) ei' e' f')"
proof (induction seg arbitrary: f ei e rule: rev_induct)
  case (snoc c cs)
  obtain ei' e' f' where c: "cut_char suf (length lead + length (xs @ cs)) c (ei, e, f) = (ei', e', f')"
    using prod_cases3 by blast
  have "basename_suffix_scan isSep (lead @ (xs @ cs) @ [c]) suf (length lead) (Suc (length (xs @ cs)))
      (f = -1) ei e f =
      basename_suffix_scan isSep (lead @ (xs @ cs)) suf (length lead) (length (xs @ cs)) (f' = -1) ei' e' f'"
    unfolding cut_scan_snoc c using snoc.prems by simp
  then show ?case using snoc.IH [of f' ei' e'] snoc.prems c
    by (simp add: cut_fold_snoc add.assoc)
qed simp

lemma cut_scan_result:
  assumes "path = lead @ pre @ seg @ trail" and "seg \<noteq> []" and "\<forall>c\<in>set seg. \<not> isSep c"
    and "\<forall>c\<in>set trail. isSep c" and "pre = [] \<or> isSep (last pre)" and "suf \<noteq> []"
  shows "basename_suffix_scan isSep path suf (length lead) (length path - length lead) True
           (int (length suf) - 1) (-1) (-1) =
         (int (length (lead @ pre)),
          if suffix suf seg then int (length (lead @ pre @ seg)) - int (length suf)
          else if suffix seg suf then -1 else int (length (lead @ pre @ seg)),
          int (length (lead @ pre @ seg)))"
proof -
  let ?init = "(int (length suf) - 1, -1, -1)"
  obtain ei e f where fold: "cut_fold suf (length lead + length pre) seg ?init = (ei, e, f)"
    using prod_cases3 by blast
  have f: "f = int (length (lead @ pre @ seg))" "f \<noteq> -1"
    and e: "e = (if suffix suf seg then int (length (lead @ pre @ seg)) - int (length suf)
          else if suffix seg suf then -1 else int (length (lead @ pre @ seg)))"
    using fold assms(2) unfolding cut_fold_init [OF assms(6)] by (auto split: if_splits)
  have "basename_suffix_scan isSep path suf (length lead) (length path - length lead) True
      (int (length suf) - 1) (-1) (-1) =
      basename_suffix_scan isSep (lead @ pre) suf (length lead) (length pre) False ei e f"
    using cut_scan_seps [OF assms(4), of lead "pre @ seg" suf "int (length suf) - 1" "-1"]
      cut_scan_seg [OF assms(3), of lead pre suf "-1" "int (length suf) - 1" "-1"] assms(1) fold f(2)
    by simp
  then show ?thesis using assms(5) f(1) e
    by (cases pre rule: rev_cases) (auto simp: nth_append Let_def)
qed

lemma cut_scan_all_seps:
  "\<forall>c\<in>set trail. isSep c \<Longrightarrow>
     basename_suffix_scan isSep (lead @ trail) suf (length lead) (length trail) True ei (-1) (-1) =
     (int (length lead), -1, -1)"
  using cut_scan_seps [of trail isSep lead "[]" suf ei "-1"] by simp

end
