(* ===== verification/Path_Posix.thy ===== *)
theory Path_Posix
  imports Path_Spec
begin

text \<open>
  The \<open>posix\<close> object of \<open>builtin/path.js\<close>. Each function is defined on strings (\<open>..._str\<close>) and,
  with the source's argument checks, on arbitrary values. \<open>process.cwd()\<close> is the argument \<open>cwd\<close>.
\<close>

abbreviation SLASH :: nat where "SLASH \<equiv> CHAR_FORWARD_SLASH"

section \<open>Resolving and normalizing\<close>

definition paths_name :: "nat \<Rightarrow> string" where
  [js_eval]: "paths_name i = ''paths['' @ nat_string i @ '']''"

text \<open>The loop over the arguments from the last to the first; \<open>Suc k\<close> is index \<open>k\<close>.\<close>

fun posix_resolve_loop :: "jsval list \<Rightarrow> nat \<Rightarrow> jstr \<Rightarrow> bool \<Rightarrow> js_error + jstr \<times> bool" where
  "posix_resolve_loop args 0 resolvedPath resolvedAbsolute = Inr (resolvedPath, resolvedAbsolute)"
| "posix_resolve_loop args (Suc k) resolvedPath resolvedAbsolute =
     (if resolvedAbsolute then Inr (resolvedPath, resolvedAbsolute)
      else bindE (validateString (args ! k) (paths_name k)) (\<lambda>path.
        if length path = 0 then posix_resolve_loop args k resolvedPath resolvedAbsolute
        else posix_resolve_loop args k (path @ SLASH # resolvedPath)
               (code_at (\<lambda>c. c = SLASH) path 0)))"

definition posix_resolve :: "jstr \<Rightarrow> jsval list \<Rightarrow> js_error + jstr" where
  [js_eval]: "posix_resolve cwd args =
     (if (length args = 0 \<or> (length args = 1 \<and> (args ! 0 = JStr [] \<or> args ! 0 = JStr dot))) \<and>
         code_at (\<lambda>c. c = SLASH) cwd 0
      then Inr cwd
      else bindE (posix_resolve_loop args (length args) [] False) (\<lambda>(rp, ra).
        let resolvedPath = (if ra then rp else cwd @ SLASH # rp);
            resolvedAbsolute = (if ra then ra else code_at (\<lambda>c. c = SLASH) cwd 0);
            resolved = normalizeString resolvedPath (\<not> resolvedAbsolute) SLASH isPosixPathSeparator
        in if resolvedAbsolute then Inr (SLASH # resolved)
           else Inr (if length resolved > 0 then resolved else dot)))"

definition posix_normalize_str :: "jstr \<Rightarrow> jstr" where
  [js_eval]: "posix_normalize_str path =
     (if length path = 0 then dot
      else let isAbsolute = code_at (\<lambda>c. c = SLASH) path 0;
               trailingSeparator = code_at (\<lambda>c. c = SLASH) path (length path - 1);
               p = normalizeString path (\<not> isAbsolute) SLASH isPosixPathSeparator
           in if length p = 0
              then if isAbsolute then [SLASH]
                   else if trailingSeparator then [CHAR_DOT, SLASH] else dot
              else let p' = (if trailingSeparator then p @ [SLASH] else p)
                   in if isAbsolute then SLASH # p' else p')"

definition posix_normalize :: "jsval \<Rightarrow> js_error + jstr" where
  [js_eval]: "posix_normalize path =
     bindE (validateString path ''path'') (\<lambda>p. Inr (posix_normalize_str p))"

definition posix_isAbsolute :: "jsval \<Rightarrow> js_error + bool" where
  [js_eval]: "posix_isAbsolute path =
     bindE (validateString path ''path'') (\<lambda>p. Inr (length p > 0 \<and> code_at (\<lambda>c. c = SLASH) p 0))"

fun posix_join_segments :: "jsval list \<Rightarrow> js_error + jstr list" where
  "posix_join_segments [] = Inr []"
| "posix_join_segments (arg # args) =
     bindE (validateString arg ''path'') (\<lambda>a.
     bindE (posix_join_segments args) (\<lambda>segs. Inr (if length a > 0 then a # segs else segs)))"

definition posix_join :: "jsval list \<Rightarrow> js_error + jstr" where
  [js_eval]: "posix_join args =
     (if length args = 0 then Inr dot
      else bindE (posix_join_segments args) (\<lambda>pathSegments.
        if length pathSegments = 0 then Inr dot
        else Inr (posix_normalize_str (join [SLASH] pathSegments))))"

section \<open>Relative paths\<close>

text \<open>The loop that finds the common prefix: at most \<open>k\<close> more characters; the result is \<open>(i, lastCommonSep)\<close>.\<close>

fun relative_scan ::
  "nat \<Rightarrow> jstr \<Rightarrow> jstr \<Rightarrow> nat \<Rightarrow> nat \<Rightarrow> nat \<Rightarrow> nat \<Rightarrow> int \<Rightarrow> nat \<times> int" where
  "relative_scan sep from to fromStart toStart 0 i lastCommonSep = (i, lastCommonSep)"
| "relative_scan sep from to fromStart toStart (Suc k) i lastCommonSep =
     (let fromCode = from ! (fromStart + i)
      in if fromCode \<noteq> to ! (toStart + i) then (i, lastCommonSep)
         else relative_scan sep from to fromStart toStart k (Suc i)
                (if fromCode = sep then int i else lastCommonSep))"

text \<open>The loop that writes one \<open>..\<close> per remaining segment of \<open>from\<close>: \<open>k\<close> iterations from \<open>i\<close>.\<close>

fun relative_ups :: "nat \<Rightarrow> jstr \<Rightarrow> nat \<Rightarrow> nat \<Rightarrow> nat \<Rightarrow> jstr \<Rightarrow> jstr" where
  "relative_ups sep from fromEnd 0 i out = out"
| "relative_ups sep from fromEnd (Suc k) i out =
     relative_ups sep from fromEnd k (Suc i)
       (if i = fromEnd \<or> from ! i = sep
        then out @ (if length out = 0 then dotdot else sep # dotdot) else out)"

definition posix_relative_abs :: "jstr \<Rightarrow> jstr \<Rightarrow> jstr" where
  [js_eval]: "posix_relative_abs from to =
     (let fromLen = length from - 1; toLen = length to - 1;
          len = (if fromLen < toLen then fromLen else toLen);
          (i, lcs) = relative_scan SLASH from to 1 1 len 0 (-1);
          lcs' = (if i = len \<and> \<not> toLen > len \<and> fromLen > len
                  then if code_at (\<lambda>c. c = SLASH) from (1 + i) then int i
                       else if i = 0 then 0 else lcs
                  else lcs)
      in if i = len \<and> toLen > len \<and> code_at (\<lambda>c. c = SLASH) to (1 + i)
         then slice_from to (int (1 + i) + 1)
         else if i = len \<and> toLen > len \<and> i = 0 then slice_from to (int (1 + i))
         else let start = nat (1 + lcs' + 1);
                  out = relative_ups SLASH from (length from) (Suc (length from) - start) start []
              in out @ slice_from to (1 + lcs'))"

definition posix_relative :: "jstr \<Rightarrow> jsval \<Rightarrow> jsval \<Rightarrow> js_error + jstr" where
  [js_eval]: "posix_relative cwd from to =
     bindE (validateString from ''from'') (\<lambda>from1.
     bindE (validateString to ''to'') (\<lambda>to1.
       if from1 = to1 then Inr []
       else bindE (posix_resolve cwd [JStr from1]) (\<lambda>from2.
            bindE (posix_resolve cwd [JStr to1]) (\<lambda>to2.
              if from2 = to2 then Inr [] else Inr (posix_relative_abs from2 to2)))))"

definition posix_toNamespacedPath :: "jsval \<Rightarrow> jsval" where
  [js_eval]: "posix_toNamespacedPath path = path"

section \<open>Taking paths apart\<close>

definition posix_dirname_str :: "jstr \<Rightarrow> jstr" where
  [js_eval]: "posix_dirname_str path =
     (if length path = 0 then dot
      else let hasRoot = code_at (\<lambda>c. c = SLASH) path 0;
               end1 = dirname_scan (\<lambda>c. c = SLASH) path 1 (length path - 1) True
           in if end1 = -1 then (if hasRoot then [SLASH] else dot)
              else if hasRoot \<and> end1 = 1 then [SLASH, SLASH]
              else slice path 0 end1)"

definition posix_dirname :: "jsval \<Rightarrow> js_error + jstr" where
  [js_eval]: "posix_dirname path =
     bindE (validateString path ''path'') (\<lambda>p. Inr (posix_dirname_str p))"

definition posix_basename_str :: "jstr \<Rightarrow> jstr option \<Rightarrow> jstr" where
  [js_eval]: "posix_basename_str path sfx =
     (let suf = or_empty sfx
      in if sfx \<noteq> None \<and> length suf > 0 \<and> length suf \<le> length path
         then if suf = path then []
              else let (start, end1, firstNonSlashEnd) =
                         basename_suffix_scan (\<lambda>c. c = SLASH) path suf 0 (length path) True
                           (int (length suf) - 1) (-1) (-1);
                       end2 = (if start = end1 then firstNonSlashEnd
                               else if end1 = -1 then int (length path) else end1)
                   in slice path start end2
         else let (start, end1) = basename_scan (\<lambda>c. c = SLASH) path 0 (length path) True (-1)
              in if end1 = -1 then [] else slice path start end1)"

definition posix_basename :: "jsval \<Rightarrow> jsval \<Rightarrow> js_error + jstr" where
  [js_eval]: "posix_basename path sfx =
     bindE (if sfx = JUndefined then Inr None
            else bindE (validateString sfx ''suffix'') (\<lambda>s. Inr (Some s))) (\<lambda>suf.
     bindE (validateString path ''path'') (\<lambda>p. Inr (posix_basename_str p suf)))"

definition posix_extname_str :: "jstr \<Rightarrow> jstr" where
  [js_eval]: "posix_extname_str path =
     (let st = ext_scan (\<lambda>c. c = SLASH) path 0 (length path) (ext_init 0)
      in if ext_startDot st = -1 \<or> ext_end st = -1 \<or> ext_none st then []
         else slice path (ext_startDot st) (ext_end st))"

definition posix_extname :: "jsval \<Rightarrow> js_error + jstr" where
  [js_eval]: "posix_extname path =
     bindE (validateString path ''path'') (\<lambda>p. Inr (posix_extname_str p))"

definition posix_format :: "path_arg \<Rightarrow> js_error + jstr" where
  [js_eval]: "posix_format pathObject = format_path SLASH pathObject"

definition posix_parse_str :: "jstr \<Rightarrow> path_parts" where
  [js_eval]: "posix_parse_str path =
     (if length path = 0 then no_parts
      else let isAbsolute = code_at (\<lambda>c. c = SLASH) path 0;
               start = (if isAbsolute then 1 else 0);
               ret = no_parts\<lparr>root := (if isAbsolute then [SLASH] else [])\<rparr>;
               st = ext_scan (\<lambda>c. c = SLASH) path start (length path - start) (ext_init 0);
               ret1 = (if ext_end st \<noteq> -1
                       then let start' = (if ext_startPart st = 0 \<and> isAbsolute then 1
                                          else ext_startPart st)
                            in if ext_none st
                               then ret\<lparr>base := slice path start' (ext_end st),
                                        name := slice path start' (ext_end st)\<rparr>
                               else ret\<lparr>name := slice path start' (ext_startDot st),
                                        base := slice path start' (ext_end st),
                                        ext := slice path (ext_startDot st) (ext_end st)\<rparr>
                       else ret)
           in if ext_startPart st > 0
              then ret1\<lparr>dir := slice path 0 (ext_startPart st - 1)\<rparr>
              else if isAbsolute then ret1\<lparr>dir := [SLASH]\<rparr> else ret1)"

definition posix_parse :: "jsval \<Rightarrow> js_error + path_parts" where
  [js_eval]: "posix_parse path =
     bindE (validateString path ''path'') (\<lambda>p. Inr (posix_parse_str p))"

definition posix_matchesGlob ::
  "(jstr \<Rightarrow> jstr \<Rightarrow> js_error + bool) \<Rightarrow> jsval \<Rightarrow> jsval \<Rightarrow> js_error + bool" where
  [js_eval]: "posix_matchesGlob regexp_test path pattern = matchesGlob regexp_test path pattern False"

section \<open>Normalization\<close>

lemma isPosix_eq: "isPosixPathSeparator = (\<lambda>c. c = SLASH)"
  by (auto simp: isPosixPathSeparator_def)

interpretation posix_sep: path_separators isPosixPathSeparator SLASH
  by unfold_locales (simp_all add: isPosixPathSeparator_def)

lemma code_at_hd: "code_at P s 0 = (s \<noteq> [] \<and> P (hd s))"
  by (cases s) (auto simp: code_at_def)

lemma code_at_last: "s \<noteq> [] \<Longrightarrow> code_at P s (length s - Suc 0) = P (last s)"
  by (simp add: code_at_def last_conv_nth)

text \<open>\<open>normalize\<close> without its branches: separators around the normalized string.\<close>

lemma posix_normalize_form:
  assumes "path \<noteq> []"
  defines "n \<equiv> normalizeString path (hd path \<noteq> SLASH) SLASH isPosixPathSeparator"
  shows "posix_normalize_str path =
     (if n = [] then if hd path = SLASH then [SLASH] else if last path = SLASH then [CHAR_DOT, SLASH] else dot
      else (if hd path = SLASH then [SLASH] else []) @ n @ (if last path = SLASH then [SLASH] else []))"
  using assms(1)
  by (cases "hd path = SLASH") (simp_all add: posix_normalize_str_def Let_def code_at_hd code_at_last n_def)

lemma posix_normalize_small:
  "posix_normalize_str [] = dot" "posix_normalize_str dot = dot"
  "posix_normalize_str [SLASH] = [SLASH]" "posix_normalize_str [CHAR_DOT, SLASH] = [CHAR_DOT, SLASH]"
  by (simp_all add: posix_normalize_str_def code_at_def posix_sep.normalizeString_resolves
      resolve_segments_def replay_Cons seg_push_def isPosixPathSeparator_def)

lemma posix_normalize_idem_str: "posix_normalize_str (posix_normalize_str path) = posix_normalize_str path"
proof (cases "path = []")
  case True
  then show ?thesis by (simp add: posix_normalize_small)
next
  case False
  let ?abs = "hd path = SLASH" and ?tr = "last path = SLASH"
  define n where "n = normalizeString path (\<not> ?abs) SLASH isPosixPathSeparator"
  define r where "r = posix_normalize_str path"
  note form = posix_normalize_form [OF False, folded n_def r_def]
  show ?thesis
  proof (cases "n = []")
    case True
    then have "r = [SLASH] \<or> r = [CHAR_DOT, SLASH] \<or> r = dot" using form by auto
    then show ?thesis unfolding r_def [symmetric] by (auto simp: posix_normalize_small)
  next
    case n: False
    then have ends: "hd n \<noteq> SLASH" "last n \<noteq> SLASH"
      using posix_sep.normalizeString_ends [of path "\<not> ?abs"] by (simp_all add: n_def isPosix_eq)
    have r: "r = (if ?abs then [SLASH] else []) @ n @ (if ?tr then [SLASH] else [])"
      using form n by simp
    have "r \<noteq> []" "hd r = SLASH \<longleftrightarrow> ?abs" "last r = SLASH \<longleftrightarrow> ?tr" using r n ends by auto
    moreover have "normalizeString r (\<not> ?abs) SLASH isPosixPathSeparator = n"
      using posix_sep.normalizeString_idem [of path "\<not> ?abs", folded n_def]
        posix_sep.normalizeString_lead [of SLASH, OF posix_sep.sep_is_sep]
        posix_sep.normalizeString_trail [of SLASH, OF posix_sep.sep_is_sep]
      by (cases ?abs) (simp_all add: r)
    ultimately have "posix_normalize_str r = r"
      using posix_normalize_form [of r] n r by simp
    then show ?thesis unfolding r_def .
  qed
qed

section \<open>The parts of a path\<close>

abbreviation "pbase \<equiv> last_segment isPosixPathSeparator"
abbreviation "ppre \<equiv> before_last isPosixPathSeparator"

lemma posix_basename_spec: "posix_basename_str path None = pbase path"
proof (cases rule: path_cases [of path isPosixPathSeparator])
  case seps
  then show ?thesis
    using basename_scan_all_seps [of path isPosixPathSeparator "[]"]
    by (simp add: posix_basename_str_def or_empty_def isPosix_eq)
next
  case (seg pre seg trail)
  show ?thesis
    using basename_scan_result [of path "[]" pre seg trail isPosixPathSeparator] seg
      slice_nat [of path "length pre" "length pre + length seg"]
    by (simp add: posix_basename_str_def or_empty_def isPosix_eq)
qed

lemma posix_extname_spec: "posix_extname_str path = ext_of (pbase path)"
proof (cases rule: path_cases [of path isPosixPathSeparator])
  case seps
  then show ?thesis
    using ext_scan_all_seps [of path isPosixPathSeparator "[]" 0]
    by (simp add: posix_extname_str_def ext_init_def isPosix_eq ext_of_def)
next
  case (seg pre seg trail)
  define st where "st = (ext_fold (length pre) seg (ext_init 0))\<lparr>ext_startPart := int (length pre)\<rparr>"
  have "ext_scan isPosixPathSeparator path 0 (length path) (ext_init 0) = st"
    using ext_scan_result [of path "[]" pre seg trail isPosixPathSeparator 0] seg
    by (simp add: st_def ext_fold_init)
  moreover have "ext_end st \<noteq> -1" using seg(2) by (simp add: st_def ext_fold_init)
  moreover have "ext_startDot st = -1 \<Longrightarrow> ext_none st" by (simp add: ext_none_def)
  ultimately show ?thesis
    using ext_result_of(1,2) [OF seg(1,2), of 0] seg(6)
    by (auto simp: posix_extname_str_def isPosix_eq [symmetric] st_def [symmetric])
qed

lemma posix_dirname_spec:
  "posix_dirname_str path =
     (if length (ppre path) \<le> 1 then (if path \<noteq> [] \<and> hd path = SLASH then [SLASH] else dot)
      else if length (ppre path) = 2 \<and> hd path = SLASH then [SLASH, SLASH]
      else butlast (ppre path))"
proof (cases path)
  case Nil
  then show ?thesis by (simp add: posix_dirname_str_def before_last_def)
next
  case (Cons p0 rest)
  define e where "e = dirname_scan (\<lambda>c. c = SLASH) path 1 (length path - 1) True"
  have e: "e = (if length (ppre path) \<le> 1 then -1 else int (length (ppre path)) - 1)"
  proof (cases rule: path_cases [of path isPosixPathSeparator])
    case seps
    then show ?thesis using Cons dirname_scan_all_seps [of rest isPosixPathSeparator "[p0]"]
      by (simp add: e_def isPosix_eq)
  next
    case (seg pre seg trail)
    show ?thesis
    proof (cases "pre = []")
      case False
      then obtain pre' where pre: "pre = p0 # pre'" using seg(1) Cons by (cases pre) auto
      then have "path = [p0] @ pre' @ seg @ trail" "pre' = [] \<or> isPosixPathSeparator (last pre')"
        using seg(1,5) by (auto split: if_splits)
      then show ?thesis
        using dirname_scan_result [of path "[p0]" pre' seg trail isPosixPathSeparator] seg(2-4,7) pre
        by (auto simp: e_def isPosix_eq)
    next
      case True
      then obtain s where s: "seg = p0 # s" "rest = s @ trail" using seg Cons by (cases seg) auto
      show ?thesis
      proof (cases "s = []")
        case True
        then show ?thesis using Cons s seg \<open>pre = []\<close> dirname_scan_all_seps [of rest isPosixPathSeparator "[p0]"]
          by (simp add: e_def isPosix_eq)
      next
        case False
        then show ?thesis
          using dirname_scan_result [of path "[p0]" "[]" s trail isPosixPathSeparator] seg s Cons \<open>pre = []\<close>
          by (simp add: e_def isPosix_eq)
      qed
    qed
  qed
  have pre: "path = ppre path @ drop (length (ppre path)) path"
    using path_decompose [of path isPosixPathSeparator] by (metis append_eq_conv_conj)
  then have "take (length (ppre path) - 1) path = butlast (ppre path)"
    by (metis append_eq_conv_conj butlast_conv_take take_take min.absorb1 diff_le_self)
  moreover have "path \<noteq> []" using Cons by simp
  ultimately show ?thesis
    using e slice_pred [of "length (ppre path)" path]
    unfolding posix_dirname_str_def Let_def e_def [symmetric] code_at_hd by auto
qed

text \<open>
  The object \<open>parse\<close> builds for a path with a last segment. The exception in the last conjunct is
  the path \<open>/..\<close>, where \<open>startPart\<close> is 0 although the segment starts at 1.
\<close>

lemma posix_parse_spec:
  assumes "pbase path \<noteq> []"
  defines "isAbs \<equiv> hd path = SLASH"
  shows "root (posix_parse_str path) = (if isAbs then [SLASH] else [])"
    "dir (posix_parse_str path) =
       (if length (ppre path) > (if isAbs then 1 else 0) then butlast (ppre path)
        else if isAbs then [SLASH] else [])"
    "base (posix_parse_str path) = pbase path"
    "name (posix_parse_str path) @ ext (posix_parse_str path) = pbase path"
    "\<not> (isAbs \<and> length (ppre path) = 1 \<and> pbase path = dotdot) \<Longrightarrow>
       name (posix_parse_str path) = stem_of (pbase path) \<and>
       ext (posix_parse_str path) = ext_of (pbase path)"
proof -
  define n where "n = (if isAbs then 1 else 0 :: nat)"
  obtain pre seg trail where seg: "path = pre @ seg @ trail" "seg \<noteq> []"
    "\<forall>c\<in>set seg. \<not> isPosixPathSeparator c" "\<forall>c\<in>set trail. isPosixPathSeparator c"
    "pre = [] \<or> isPosixPathSeparator (last pre)" "pbase path = seg" "ppre path = pre"
    using assms(1) by (cases rule: path_cases [of path isPosixPathSeparator]) auto
  have ne: "path \<noteq> []" using seg by auto
  have abs_pre: "pre \<noteq> []" if isAbs
    using that seg by (auto simp: isAbs_def isPosix_eq hd_append)
  have npre: "n \<le> length pre" using abs_pre by (cases pre) (auto simp: n_def)
  define st where "st = ext_scan isPosixPathSeparator path n (length path - n) (ext_init 0)"
  define f where "f = ext_fold (length pre) seg (ext_init 0)"
  have st: "st = f\<lparr>ext_startPart := (if length pre = n then 0 else int (length pre))\<rparr>"
  proof -
    have "path = take n path @ drop n pre @ seg @ trail" using npre seg(1) by simp
    moreover have "drop n pre = [] \<or> isPosixPathSeparator (last (drop n pre))"
      using seg(5) by (cases "n < length pre") (auto simp: last_drop)
    ultimately show ?thesis
      using ext_scan_result [of path "take n path" "drop n pre" seg trail isPosixPathSeparator 0]
        seg npre by (auto simp: st_def f_def min_def)
  qed
  have fend: "ext_end f = int (length pre + length seg)" using seg(2) by (simp add: f_def ext_fold_init)
  have start: "(if ext_startPart st = 0 \<and> isAbs then 1 else ext_startPart st) = int (length pre)"
    using st abs_pre by (auto simp: n_def)
  have base: "slice path (int (length pre)) (int (length pre + length seg)) = seg"
    using slice_nat [of path "length pre" "length pre + length seg"] seg(1) by simp
  have unf: "posix_parse_str path =
     (let ret = no_parts\<lparr>root := (if isAbs then [SLASH] else [])\<rparr>;
          ret1 = (if ext_none st then ret\<lparr>base := seg, name := seg\<rparr>
                  else ret\<lparr>name := slice path (int (length pre)) (ext_startDot st), base := seg,
                           ext := slice path (ext_startDot st) (ext_end st)\<rparr>)
      in if ext_startPart st > 0 then ret1\<lparr>dir := slice path 0 (ext_startPart st - 1)\<rparr>
         else if isAbs then ret1\<lparr>dir := [SLASH]\<rparr> else ret1)"
  proof -
    have st1: "ext_scan isPosixPathSeparator path (if isAbs then 1 else 0)
        (length path - (if isAbs then 1 else 0)) (ext_init 0) = st"
      by (simp add: st_def n_def)
    have abs1: "code_at isPosixPathSeparator path 0 = isAbs"
      using ne by (simp add: code_at_hd isAbs_def isPosix_eq)
    have en: "ext_end st = int (length pre + length seg)" using fend st by simp
    show ?thesis using ne base
      unfolding posix_parse_str_def isPosix_eq [symmetric] abs1 Let_def st1 start en by simp
  qed
  show "root (posix_parse_str path) = (if isAbs then [SLASH] else [])"
    and "base (posix_parse_str path) = pbase path"
    using seg(6) by (simp_all add: unf Let_def no_parts_def)
  have "take (length pre - 1) path = butlast pre" using seg(1) by (simp add: butlast_conv_take)
  then show "dir (posix_parse_str path) =
       (if length (ppre path) > (if isAbs then 1 else 0) then butlast (ppre path)
        else if isAbs then [SLASH] else [])"
    using seg(7) slice_pred [of "length pre" path] npre
    by (cases pre) (auto simp: unf Let_def no_parts_def st n_def split: if_splits)
  have none: "ext_none st \<longleftrightarrow> ext_of seg = [] \<and> \<not> (isAbs \<and> length pre = 1 \<and> seg = dotdot)"
    using ext_result_of(1) [OF seg(1,2), of 0] ext_none_root [OF seg(2), of 1 0]
    by (cases "length pre = n"; cases isAbs) (auto simp: st f_def n_def)
  show "name (posix_parse_str path) @ ext (posix_parse_str path) = pbase path"
  proof (cases "ext_none st")
    case False
    then have "CHAR_DOT \<in> set seg" by (auto simp: ext_none_def st f_def ext_fold_init split: if_splits)
    then show ?thesis using False ext_slices [OF seg(1), folded f_def] seg(6) st
      by (auto simp: unf Let_def no_parts_def)
  qed (use seg(6) in \<open>simp add: unf Let_def no_parts_def\<close>)
  assume quirk: "\<not> (isAbs \<and> length (ppre path) = 1 \<and> pbase path = dotdot)"
  show "name (posix_parse_str path) = stem_of (pbase path) \<and>
       ext (posix_parse_str path) = ext_of (pbase path)"
  proof (cases "ext_none st")
    case True
    then show ?thesis using none seg(6) by (simp add: unf Let_def no_parts_def stem_of_def)
  next
    case False
    then have "ext_of seg \<noteq> []" using none quirk seg(6,7) by blast
    then show ?thesis
      using False ext_result_of [OF seg(1,2), of 0] seg(6)
      by (simp add: unf Let_def no_parts_def st f_def)
  qed
qed

end
