(* ===== verification/Path_Posix_Laws.thy ===== *)
theory Path_Posix_Laws
  imports Path_Posix
begin

text \<open>
  The contracts of the POSIX path functions: \<open>normalize\<close> is idempotent, \<open>resolve\<close> is a sequence
  of directory changes, \<open>relative\<close> is the path that \<open>resolve\<close> turns back into its target, and
  \<open>parse\<close>, \<open>format\<close>, \<open>dirname\<close>, \<open>basename\<close> and \<open>extname\<close> agree with each other.
\<close>

section \<open>resolve as a sequence of directory changes\<close>

text \<open>A directory is a stack of segments; \<open>cd\<close> replays a path on it, from the root if it is absolute.\<close>

definition cd :: "jstr \<Rightarrow> jstr list \<Rightarrow> jstr list" where
  [js_eval]: "cd path stack =
     replay False (splitP isPosixPathSeparator path)
       (if path \<noteq> [] \<and> hd path = SLASH then [] else stack)"

definition dir_path :: "jstr list \<Rightarrow> jstr" where
  [js_eval]: "dir_path stack = SLASH # join [SLASH] (rev stack)"

definition normal_dir :: "jstr \<Rightarrow> bool" where
  [js_eval]: "normal_dir path = (path = dir_path (cd path []))"

abbreviation "ok_dir \<equiv> ok_stack isPosixPathSeparator False"

lemma cd_ok: "ok_dir stack \<Longrightarrow> ok_dir (cd path stack)"
  by (simp add: cd_def replay_split_ok)

lemma fold_cd_ok: "ok_dir stack \<Longrightarrow> ok_dir (fold cd paths stack)"
  by (induction paths arbitrary: stack) (simp_all add: cd_ok)

lemma cd_Nil [simp]: "cd [] stack = stack"
  by (simp add: cd_def)

lemma cd_dir_path:
  assumes "ok_dir stack"
  shows "cd (dir_path stack) st = stack"
proof -
  have "replay False (splitP isPosixPathSeparator (join [SLASH] (rev stack))) [] = stack"
    using posix_sep.split_joined_stack [OF assms, of False "[]"]
      replay_id [of isPosixPathSeparator False "rev stack" "[]"] assms by simp
  then show ?thesis
    by (simp add: cd_def dir_path_def isPosixPathSeparator_def [of SLASH] replay_Cons seg_push_def)
qed

lemma normal_dir_path: "ok_dir stack \<Longrightarrow> normal_dir (dir_path stack)"
  by (simp add: normal_dir_def cd_dir_path)

lemma normal_dir_abs: "normal_dir path \<Longrightarrow> path \<noteq> [] \<and> hd path = SLASH"
  unfolding normal_dir_def by (metis dir_path_def list.sel(1) list.simps(3))

lemma normalize_abs_cd:
  "path \<noteq> [] \<Longrightarrow> hd path = SLASH \<Longrightarrow>
     SLASH # normalizeString path False SLASH isPosixPathSeparator = dir_path (cd path [])"
  by (simp add: posix_sep.normalizeString_resolves resolve_segments_def dir_path_def cd_def)

text \<open>What the loop of \<open>resolve\<close> collects, read as the stack its normalization leaves.\<close>

definition loop_stack :: "jstr \<Rightarrow> jstr \<times> bool \<Rightarrow> jstr list" where
  "loop_stack cwd r =
     replay False (splitP isPosixPathSeparator (if snd r then fst r else cwd @ SLASH # fst r)) []"

lemma slash_split:
  "splitP isPosixPathSeparator (xs @ SLASH # ys) =
     splitP isPosixPathSeparator xs @ splitP isPosixPathSeparator ys"
  by (rule splitP_append) (simp add: isPosixPathSeparator_def)

lemma resolve_loop_spec:
  assumes "k \<le> length args"
  shows "\<exists>r. posix_resolve_loop (map JStr args) k rp False = Inr r \<and>
     loop_stack cwd r = replay False (splitP isPosixPathSeparator rp)
       (fold cd (take k args) (replay False (splitP isPosixPathSeparator cwd) []))"
  using assms
proof (induction k arbitrary: rp)
  case 0
  then show ?case by (simp add: loop_stack_def slash_split replay_append)
next
  case (Suc k)
  let ?cwd = "replay False (splitP isPosixPathSeparator cwd) []"
  have take: "take (Suc k) args = take k args @ [args ! k]"
    using Suc.prems by (simp add: take_Suc_conv_app_nth)
  have arg: "map JStr args ! k = JStr (args ! k)" using Suc.prems by simp
  consider "args ! k = []" | "args ! k \<noteq> []" "hd (args ! k) = SLASH"
    | "args ! k \<noteq> []" "hd (args ! k) \<noteq> SLASH" by blast
  then show ?case
  proof cases
    case 1
    then show ?thesis using Suc.IH [of rp] Suc.prems arg take by simp
  next
    case 2
    have "posix_resolve_loop (map JStr args) (Suc k) rp False = Inr (args ! k @ SLASH # rp, True)"
      using 2 arg by (cases k) (simp_all add: code_at_hd)
    moreover have "loop_stack cwd (args ! k @ SLASH # rp, True) =
        replay False (splitP isPosixPathSeparator rp) (cd (args ! k) (fold cd (take k args) ?cwd))"
      using 2 by (simp add: loop_stack_def slash_split replay_append cd_def)
    ultimately show ?thesis by (simp add: take)
  next
    case 3
    have "posix_resolve_loop (map JStr args) (Suc k) rp False =
        posix_resolve_loop (map JStr args) k (args ! k @ SLASH # rp) False"
      using 3 arg by (simp add: code_at_hd)
    moreover have "replay False (splitP isPosixPathSeparator (args ! k @ SLASH # rp)) st =
        replay False (splitP isPosixPathSeparator rp) (cd (args ! k) st)" for st
      using 3 by (simp add: slash_split replay_append cd_def)
    ultimately show ?thesis
      using Suc.IH [of "args ! k @ SLASH # rp"] Suc.prems by (simp add: take)
  qed
qed

lemma posix_resolve_cd:
  assumes "normal_dir cwd"
  shows "posix_resolve cwd (map JStr args) = Inr (dir_path (fold cd args (cd cwd [])))"
proof (cases "args = [] \<or> args = [[]] \<or> args = [dot]")
  case True
  have "cd dot st = st" for st
    using splitP_none [of dot isPosixPathSeparator]
    by (simp add: cd_def isPosixPathSeparator_def replay_Cons seg_push_def)
  then have "fold cd args (cd cwd []) = cd cwd []" using True by auto
  moreover have "posix_resolve cwd (map JStr args) = Inr cwd"
    using True normal_dir_abs [OF assms] by (auto simp: posix_resolve_def code_at_hd)
  ultimately show ?thesis using assms by (simp add: normal_dir_def)
next
  case False
  have abs: "cwd \<noteq> []" "hd cwd = SLASH" using normal_dir_abs [OF assms] by simp_all
  obtain rp ra where r: "posix_resolve_loop (map JStr args) (length args) [] False = Inr (rp, ra)"
    "loop_stack cwd (rp, ra) = fold cd args (cd cwd [])"
    using resolve_loop_spec [of "length args" args "[]" cwd] abs by (auto simp: cd_def)
  have slow: "\<not> (length (map JStr args) = 0 \<or>
      (length (map JStr args) = 1 \<and> (map JStr args ! 0 = JStr [] \<or> map JStr args ! 0 = JStr dot)))"
    using False by (cases args) auto
  then show ?thesis using r abs
    by (auto simp: posix_resolve_def Let_def code_at_hd loop_stack_def dir_path_def
        posix_sep.normalizeString_resolves resolve_segments_def)
qed

section \<open>relative\<close>

lemma relative_scan_spec:
  "x = [] \<or> y = [] \<or> hd x \<noteq> hd y \<Longrightarrow>
     relative_scan sep (p # a @ c @ x) (q # a @ c @ y) 1 1 (min (length (c @ x)) (length (c @ y)))
       (length a) (lastIndexOf a [sep]) = (length (a @ c), lastIndexOf (a @ c) [sep])"
proof (induction c arbitrary: a)
  case Nil
  then show ?case by (cases x; cases y) (auto simp: nth_append)
next
  case (Cons ch cs)
  have "(if ch = sep then int (length a) else lastIndexOf a [sep]) = lastIndexOf (a @ [ch]) [sep]"
    by (simp add: lastIndexOf_snoc)
  then show ?case using Cons.IH [of "a @ [ch]"] Cons.prems by (simp add: nth_append)
qed

definition updirs :: "nat \<Rightarrow> nat \<Rightarrow> jstr" where
  "updirs sep n = join [sep] (replicate n dotdot)"

lemma updirs_0 [simp]: "updirs sep 0 = []"
  by (simp add: updirs_def)

lemma updirs_snoc:
  "updirs sep n @ (if length (updirs sep n) = 0 then dotdot else sep # dotdot) = updirs sep (Suc n)"
proof (cases n)
  case (Suc m)
  then have "updirs sep n \<noteq> []" by (cases m) (simp_all add: updirs_def)
  then show ?thesis using Suc join_replicate_snoc [of "[sep]" n dotdot] by (simp add: updirs_def)
qed (simp add: updirs_def)

lemma relative_ups_spec:
  "relative_ups sep (xs @ ys) (length (xs @ ys)) (Suc (length ys)) (length xs) (updirs sep n) =
   updirs sep (Suc (n + count_list ys sep))"
proof (induction ys arbitrary: xs n)
  case Nil
  then show ?case using updirs_snoc [of sep n] by (simp split: if_splits)
next
  case (Cons y ys)
  have "relative_ups sep (xs @ y # ys) (length (xs @ y # ys)) (Suc (length (y # ys))) (length xs)
      (updirs sep n) =
      relative_ups sep ((xs @ [y]) @ ys) (length ((xs @ [y]) @ ys)) (Suc (length ys))
        (length (xs @ [y])) (updirs sep (if y = sep then Suc n else n))"
    unfolding relative_ups.simps(2) [of _ _ _ "length (y # ys)"]
    using updirs_snoc [of sep n] by simp
  then show ?case by (simp only: Cons.IH) simp
qed

text \<open>The branches of \<open>relative\<close>, for paths split at the end of their common prefix.\<close>

lemma posix_relative_abs_split:
  assumes "x = [] \<or> y = [] \<or> hd x \<noteq> hd y"
  shows "posix_relative_abs (SLASH # c @ x) (SLASH # c @ y) =
    (if x = [] \<and> y \<noteq> [] \<and> hd y = SLASH then tl y
     else if x = [] \<and> y \<noteq> [] \<and> c = [] then y
     else let from = SLASH # c @ x;
              lcs = (if y = [] \<and> x \<noteq> []
                     then if hd x = SLASH then int (length c) else if c = [] then 0
                          else lastIndexOf c [SLASH]
                     else lastIndexOf c [SLASH]);
              start = nat (1 + lcs + 1)
          in relative_ups SLASH from (length from) (Suc (length from) - start) start [] @
             slice_from (SLASH # c @ y) (1 + lcs))"
proof -
  have scan: "relative_scan SLASH (SLASH # c @ x) (SLASH # c @ y) 1 1
      (if length (c @ x) < length (c @ y) then length (c @ x) else length (c @ y)) 0 (-1) =
      (length c, lastIndexOf c [SLASH])"
    using relative_scan_spec [OF assms, of SLASH SLASH "[]" c SLASH]
    unfolding min_def [of "length (c @ x)"] by (cases "length (c @ x) = length (c @ y)") auto
  have at: "code_at (\<lambda>c. c = SLASH) (SLASH # c @ z) (1 + length c) \<longleftrightarrow> z \<noteq> [] \<and> hd z = SLASH" for z
    by (cases z) (auto simp: code_at_def nth_append)
  have sl: "slice_from (SLASH # c @ y) (int (1 + length c) + 1) = tl y"
    "slice_from (SLASH # c @ y) (int (1 + length c)) = y"
    using slice_from_nat [of "SLASH # c @ y" "length c + 2"]
      slice_from_nat [of "SLASH # c @ y" "length c + 1"]
    by (simp_all add: drop_Suc)
  have len: "length (SLASH # z) - 1 = length z" for z by simp
  have ix: "length c = (if length (c @ x) < length (c @ y) then length (c @ x) else length (c @ y))
      \<longleftrightarrow> x = [] \<or> y = []" by auto
  have lt: "(if length (c @ x) < length (c @ y) then length (c @ x) else length (c @ y)) < length (c @ y)
      \<longleftrightarrow> length x < length y"
    "(if length (c @ x) < length (c @ y) then length (c @ x) else length (c @ y)) < length (c @ x)
      \<longleftrightarrow> length y < length x" by auto
  show ?thesis
    unfolding posix_relative_abs_def Let_def len scan prod.case ix lt at sl
    by (cases x; cases y) simp_all
qed

abbreviation "posix_segs segs \<equiv> \<forall>s\<in>set segs. clean_segment isPosixPathSeparator s"

lemma posix_segs_slash: "posix_segs segs \<Longrightarrow> \<forall>s\<in>set segs. SLASH \<notin> set s"
  by (auto simp: clean_segment_def isPosixPathSeparator_def)

text \<open>The first segment of a joined list ends at its first slash.\<close>

lemma joined_first_segment:
  assumes "posix_segs (a # as)" and "join [SLASH] (a # as) = d @ z"
    and "SLASH \<notin> set d" and "z = [] \<or> hd z = SLASH"
  shows "a = d"
proof -
  have "splitP isPosixPathSeparator (join [SLASH] (a # as)) = a # as"
    using assms(1) by (intro split_join) (auto simp: clean_segment_def isPosixPathSeparator_def)
  moreover have "splitP isPosixPathSeparator (d @ z) = d # (if z = [] then [] else splitP isPosixPathSeparator (tl z))"
  proof -
    have "splitP isPosixPathSeparator d = [d]"
      using assms(3) by (intro splitP_none) (auto simp: isPosixPathSeparator_def)
    then show ?thesis using assms(4) by (cases z) (auto simp: slash_split)
  qed
  ultimately show ?thesis using assms(2) by simp
qed

text \<open>Joined lists that start with different segments share no slash in their common prefix.\<close>

lemma common_prefix_no_slash:
  assumes "posix_segs (a # as)" "posix_segs (b # bs)" "a \<noteq> b"
    and "join [SLASH] (a # as) = d @ x" "join [SLASH] (b # bs) = d @ y"
  shows "SLASH \<notin> set d" "x = [] \<Longrightarrow> y \<noteq> [] \<and> hd y \<noteq> SLASH" "y = [] \<Longrightarrow> x \<noteq> [] \<and> hd x \<noteq> SLASH"
proof -
  show d: "SLASH \<notin> set d"
  proof
    assume "SLASH \<in> set d"
    then obtain d1 d2 where "d = d1 @ SLASH # d2" "SLASH \<notin> set d1" using split_list_first by fast
    then have "a = d1" "b = d1"
      using joined_first_segment [OF assms(1), of d1 "SLASH # d2 @ x"]
        joined_first_segment [OF assms(2), of d1 "SLASH # d2 @ y"] assms(4,5) by simp_all
    then show False using assms(3) by simp
  qed
  show "y \<noteq> [] \<and> hd y \<noteq> SLASH" if "x = []"
    using that joined_first_segment [OF assms(1,4) d] joined_first_segment [OF assms(2,5) d] assms(3) by auto
  show "x \<noteq> [] \<and> hd x \<noteq> SLASH" if "y = []"
    using that joined_first_segment [OF assms(1,4) d] joined_first_segment [OF assms(2,5) d] assms(3) by auto
qed

text \<open>What every branch ends with: as many \<open>..\<close> as \<open>from\<close> has segments left, then the rest of \<open>to\<close>.\<close>

lemma relative_tail:
  assumes "posix_segs f'" "f' \<noteq> []" and "from = xs @ join [SLASH] f'"
  shows "relative_ups SLASH from (length from) (Suc (length from) - length xs) (length xs) [] =
         updirs SLASH (length f')"
  using relative_ups_spec [of SLASH xs "join [SLASH] f'" 0] assms(3)
    count_join [OF assms(2) posix_segs_slash [OF assms(1)]] by simp

definition rel_segs :: "jstr list \<Rightarrow> jstr list \<Rightarrow> jstr" where
  "rel_segs f' t' = join [SLASH] (replicate (length f') dotdot @ t')"

lemma rel_segs_simps:
  "rel_segs [] t' = join [SLASH] t'"
  "rel_segs f' [] = updirs SLASH (length f')"
  "f' \<noteq> [] \<Longrightarrow> t' \<noteq> [] \<Longrightarrow> rel_segs f' t' = updirs SLASH (length f') @ SLASH # join [SLASH] t'"
  by (simp_all add: rel_segs_def updirs_def join_append)

lemma posix_relative_diverge:
  assumes "posix_segs f'" "posix_segs t'" "f' \<noteq> []" "t' \<noteq> []" "hd f' \<noteq> hd t'"
    and "pre = [] \<or> last pre = SLASH"
  shows "posix_relative_abs (SLASH # pre @ join [SLASH] f') (SLASH # pre @ join [SLASH] t') =
         rel_segs f' t'"
proof -
  obtain a as b bs where ab: "f' = a # as" "t' = b # bs" "a \<noteq> b"
    using assms(3-5) by (cases f'; cases t') auto
  obtain d x y where d: "join [SLASH] f' = d @ x" "join [SLASH] t' = d @ y"
    "x = [] \<or> y = [] \<or> hd x \<noteq> hd y" by (rule common_prefix_cases)
  note n = common_prefix_no_slash [OF assms(1,2) [unfolded ab] ab(3) d(1,2) [unfolded ab]]
  have lcs: "lastIndexOf (pre @ d) [SLASH] = int (length pre) - 1"
  proof (cases "pre = []")
    case False
    then obtain p where "pre = p @ [SLASH]" using assms(6) by (cases pre rule: rev_cases) auto
    then show ?thesis using n(1) lastIndexOf_char_last [of SLASH d p] by simp
  qed (use n(1) in \<open>simp add: lastIndexOf_char_notin\<close>)
  have ne: "d @ x \<noteq> []" "d @ y \<noteq> []"
    using assms(1,2) ab posix_sep.joined_ends(1) [of f'] posix_sep.joined_ends(1) [of t'] d by auto
  let ?from = "(SLASH # pre) @ join [SLASH] f'"
  have start: "nat (1 + (int (length pre) - 1) + 1) = length (SLASH # pre)" by simp
  have "slice_from (SLASH # pre @ join [SLASH] t') (1 + (int (length pre) - 1)) = SLASH # join [SLASH] t'"
  proof -
    have "drop (length pre) (SLASH # pre @ z) = SLASH # z" if "pre = [] \<or> last pre = SLASH" for z
      using that by (cases pre rule: rev_cases) auto
    then show ?thesis using slice_from_nat [of "SLASH # pre @ join [SLASH] t'" "length pre"] assms(6) by simp
  qed
  moreover have "posix_relative_abs (SLASH # (pre @ d) @ x) (SLASH # (pre @ d) @ y) =
      relative_ups SLASH ?from (length ?from) (Suc (length ?from) - length (SLASH # pre))
        (length (SLASH # pre)) [] @
      slice_from (SLASH # pre @ join [SLASH] t') (1 + (int (length pre) - 1))"
  proof -
    have c1: "(x = [] \<and> y \<noteq> [] \<and> hd y = SLASH) = False" using n(2) by auto
    have c2: "(x = [] \<and> y \<noteq> [] \<and> pre @ d = []) = False" using ne by auto
    have c3: "(if y = [] \<and> x \<noteq> [] then if hd x = SLASH then int (length (pre @ d))
        else if pre @ d = [] then 0 else l else l) = l" for l
      using n(3) ne by auto
    show ?thesis
      unfolding posix_relative_abs_split [OF d(3)] Let_def c1 c2 if_False c3 lcs start d
      by (simp del: relative_ups.simps)
  qed
  ultimately show ?thesis
    using relative_tail [OF assms(1,3), of ?from "SLASH # pre"] d rel_segs_simps(3) [OF assms(3,4)]
    by (simp del: relative_ups.simps)
qed

lemma posix_relative_down:
  assumes "posix_segs cp" "posix_segs t'" "t' \<noteq> []"
  shows "posix_relative_abs (SLASH # join [SLASH] cp) (SLASH # join [SLASH] (cp @ t')) = rel_segs [] t'"
proof (cases "cp = []")
  case True
  then show ?thesis
    using posix_relative_abs_split [of "[]" "join [SLASH] t'" "[]"] posix_sep.joined_ends [OF assms(2,3)]
    by (simp add: rel_segs_simps isPosixPathSeparator_def)
next
  case False
  then show ?thesis
    using posix_relative_abs_split [of "[]" "SLASH # join [SLASH] t'" "join [SLASH] cp"]
    by (simp add: rel_segs_simps join_append assms(3))
qed

lemma posix_relative_up:
  assumes "posix_segs cp" "posix_segs f'" "f' \<noteq> []"
  shows "posix_relative_abs (SLASH # join [SLASH] (cp @ f')) (SLASH # join [SLASH] cp) = rel_segs f' []"
proof (cases "cp = []")
  case True
  obtain ch cs where j: "join [SLASH] f' = ch # cs" "ch \<noteq> SLASH"
    using posix_sep.joined_ends(1,2) [OF assms(2,3)]
    by (cases "join [SLASH] f'") (auto simp: isPosixPathSeparator_def)
  have "Suc (count_list cs SLASH) = length f'"
    using count_join [OF assms(3) posix_segs_slash [OF assms(2)]] j by simp
  then have "relative_ups SLASH (SLASH # ch # cs) (length (SLASH # ch # cs)) (Suc (length cs)) 2 [] =
      updirs SLASH (length f')"
    using relative_ups_spec [of SLASH "[SLASH, ch]" cs 0]
    by (simp add: numeral_2_eq_2 del: relative_ups.simps)
  moreover have "slice_from [SLASH] 1 = []" using slice_from_nat [of "[SLASH]" 1] by simp
  ultimately show ?thesis
    using posix_relative_abs_split [of "join [SLASH] f'" "[]" "[]"] j True
    by (simp add: rel_segs_simps)
next
  case False
  let ?cp = "join [SLASH] cp" and ?from = "(SLASH # join [SLASH] cp @ [SLASH]) @ join [SLASH] f'"
  have start: "nat (1 + int (length ?cp) + 1) = length (SLASH # ?cp @ [SLASH])" by simp
  have sl: "slice_from (SLASH # ?cp @ []) (1 + int (length ?cp)) = []"
    using slice_from_nat [of "SLASH # ?cp" "1 + length ?cp"] by simp
  have "posix_relative_abs (SLASH # ?cp @ SLASH # join [SLASH] f') (SLASH # ?cp @ []) =
      relative_ups SLASH ?from (length ?from) (Suc (length ?from) - length (SLASH # ?cp @ [SLASH]))
        (length (SLASH # ?cp @ [SLASH])) []"
    using posix_relative_abs_split [of "SLASH # join [SLASH] f'" "[]" ?cp] sl
    unfolding Let_def by (simp add: start [simplified])
  then show ?thesis
    using relative_tail [OF assms(2,3), of ?from "SLASH # ?cp @ [SLASH]"] False assms(3)
    by (simp add: rel_segs_simps join_append)
qed

lemma posix_relative_abs_spec:
  assumes "posix_segs f" "posix_segs t" "f \<noteq> t"
  obtains cp f' t' where "f = cp @ f'" "t = cp @ t'" "f' \<noteq> [] \<or> t' \<noteq> []"
    "posix_relative_abs (SLASH # join [SLASH] f) (SLASH # join [SLASH] t) = rel_segs f' t'"
proof -
  obtain cp f' t' where d: "f = cp @ f'" "t = cp @ t'" "f' = [] \<or> t' = [] \<or> hd f' \<noteq> hd t'"
    by (rule common_prefix_cases)
  have segs: "posix_segs cp" "posix_segs f'" "posix_segs t'" using assms(1,2) d by auto
  consider "f' = []" "t' \<noteq> []" | "f' \<noteq> []" "t' = []" | "f' \<noteq> []" "t' \<noteq> []" "hd f' \<noteq> hd t'"
    using d assms(3) by blast
  then have "posix_relative_abs (SLASH # join [SLASH] f) (SLASH # join [SLASH] t) = rel_segs f' t'"
  proof cases
    case 1
    then show ?thesis using d posix_relative_down [OF segs(1,3)] by simp
  next
    case 2
    then show ?thesis using d posix_relative_up [OF segs(1,2)] by simp
  next
    case 3
    define pre where "pre = (if cp = [] then [] else join [SLASH] cp @ [SLASH])"
    have "join [SLASH] (cp @ z) = pre @ join [SLASH] z" if "z \<noteq> []" for z
      using that by (simp add: pre_def join_append)
    then show ?thesis
      using d 3 posix_relative_diverge [OF segs(2,3) 3, of pre] by (simp add: pre_def)
  qed
  then show ?thesis using d that assms(3) by blast
qed

lemma cd_rel_segs:
  assumes "ok_dir (rev (cp @ f'))" "ok_dir (rev (cp @ t'))" "f' \<noteq> [] \<or> t' \<noteq> []"
  shows "cd (rel_segs f' t') (rev (cp @ f')) = rev (cp @ t')"
proof -
  let ?segs = "replicate (length f') dotdot @ t'"
  have clean: "posix_segs ?segs"
  proof -
    have "clean_segment isPosixPathSeparator dotdot"
      by (simp add: clean_segment_def isPosixPathSeparator_def)
    then show ?thesis
      using ok_stack_clean [OF assms(2)] by (simp add: ball_Un set_replicate_conv_if)
  qed
  have ne: "?segs \<noteq> []" using assms(3) by auto
  note ends = posix_sep.joined_ends [OF clean ne]
  have "splitP isPosixPathSeparator (rel_segs f' t') = ?segs"
    unfolding rel_segs_def using clean ne
    by (intro split_join) (auto simp: clean_segment_def isPosixPathSeparator_def)
  then have "cd (rel_segs f' t') (rev (cp @ f')) =
      replay False t' (replay False (replicate (length f') dotdot) (rev f' @ rev cp))"
    using ends by (simp add: cd_def rel_segs_def isPosixPathSeparator_def replay_append)
  also have "replay False (replicate (length f') dotdot) (rev f' @ rev cp) = rev cp"
    using replay_dotdots [of "rev f'" False "rev cp"] assms(1) by (simp add: ok_stack_False)
  also have "replay False t' (rev cp) = rev t' @ rev cp"
    using assms(2) by (intro replay_id [of isPosixPathSeparator]) simp
  finally show ?thesis by simp
qed

lemma dir_path_inj: "ok_dir s \<Longrightarrow> ok_dir t \<Longrightarrow> dir_path s = dir_path t \<longleftrightarrow> s = t"
  by (metis cd_dir_path)

section \<open>Properties\<close>

text \<open>
  C20: the character loop of \<open>normalizeString\<close> computes exactly the segment replay: split at the
  slashes, drop empty and \<open>.\<close> segments, let \<open>..\<close> remove the segment before it, keep the \<open>..\<close> that
  climb above the start only when that is allowed, and join with slashes.
\<close>

theorem posix_normalizeString_segments:
  "normalizeString path allowAboveRoot SLASH isPosixPathSeparator =
     join [SLASH] (resolve_segments allowAboveRoot (splitP isPosixPathSeparator path))"
  by (rule posix_sep.normalizeString_resolves)

text \<open>
  C35: a path that \<open>posix.normalize\<close> returned is left alone by \<open>posix.normalize\<close>.
\<close>

theorem posix_normalize_idem:
  "posix_normalize v = Inr p \<Longrightarrow> posix_normalize (JStr p) = Inr p"
  by (auto simp: posix_normalize_def bindE_Inr_iff posix_normalize_idem_str)

theorem posix_normalize_idem_witness:
  "posix_normalize (JStr (js ''./a'')) = Inr (js ''a'') \<and> posix_normalize (JStr (js ''a'')) = Inr (js ''a'')"
proof -
  have "posix_normalize (JStr (js ''./a'')) = Inr (js ''a'')" by code_simp
  then show ?thesis using posix_normalize_idem by blast
qed

text \<open>
  C3: with a normal absolute working directory, \<open>posix.resolve\<close> goes from it through its arguments
  one directory change after the other, an absolute argument starting again at the root, and
  prints the directory it ends in.
\<close>

theorem posix_resolve_is_cd:
  "normal_dir cwd \<Longrightarrow> posix_resolve cwd (map JStr paths) = Inr (dir_path (fold cd paths (cd cwd [])))"
  by (rule posix_resolve_cd)

theorem posix_resolve_is_cd_witness:
  "normal_dir (js ''/w'') \<and>
   posix_resolve (js ''/w'') (map JStr [js ''a'', js ''../b'']) = Inr (js ''/w/b'')"
proof -
  have n: "normal_dir (js ''/w'')" by code_simp
  moreover have "dir_path (fold cd [js ''a'', js ''../b''] (cd (js ''/w'') [])) = js ''/w/b''"
    by code_simp
  ultimately show ?thesis
    using posix_resolve_is_cd [OF n, of "[js ''a'', js ''../b'']"] by simp
qed

text \<open>
  C12: \<open>posix.relative(from, to)\<close> always returns, and resolving its result from \<open>from\<close> gives what
  resolving \<open>to\<close> gives.
\<close>

theorem posix_relative_resolves:
  assumes "normal_dir cwd"
  shows "\<exists>r. posix_relative cwd (JStr from) (JStr to) = Inr r \<and>
     posix_resolve cwd [JStr from, JStr r] = posix_resolve cwd [JStr to]"
proof -
  define s where "s = cd from (cd cwd [])"
  define t where "t = cd to (cd cwd [])"
  have ok: "ok_dir s" "ok_dir t" by (simp_all add: s_def t_def cd_ok)
  have one: "posix_resolve cwd [JStr p] = Inr (dir_path (cd p (cd cwd [])))" for p
    using posix_resolve_cd [OF assms, of "[p]"] by simp
  have two: "posix_resolve cwd [JStr from, JStr r] = Inr (dir_path (cd r s))" for r
    using posix_resolve_cd [OF assms, of "[from, r]"] by (simp add: s_def)
  show ?thesis
  proof (cases "from = to \<or> s = t")
    case True
    then have "posix_relative cwd (JStr from) (JStr to) = Inr []"
      using one by (auto simp: posix_relative_def s_def t_def)
    then show ?thesis using True one two by (auto simp: s_def t_def)
  next
    case False
    have segs: "posix_segs (rev s)" "posix_segs (rev t)" "rev s \<noteq> rev t"
      using ok ok_stack_clean False by auto
    obtain cp f' t' where d: "rev s = cp @ f'" "rev t = cp @ t'" "f' \<noteq> [] \<or> t' \<noteq> []"
      "posix_relative_abs (dir_path s) (dir_path t) = rel_segs f' t'"
      using posix_relative_abs_spec [OF segs] by (metis dir_path_def)
    have st: "s = rev (cp @ f')" "t = rev (cp @ t')" using d(1,2) by (metis rev_rev_ident)+
    have "cd (rel_segs f' t') s = t"
      using cd_rel_segs [of cp f' t'] ok d(3) st by simp
    moreover have "posix_relative cwd (JStr from) (JStr to) = Inr (rel_segs f' t')"
      using False one d(4) dir_path_inj [OF ok] by (simp add: posix_relative_def s_def t_def)
    ultimately show ?thesis using one two by (auto simp: t_def)
  qed
qed

theorem posix_relative_resolves_witness:
  "normal_dir (js ''/w'') \<and>
   (\<exists>r. posix_relative (js ''/w'') (JStr (js ''a/b'')) (JStr (js ''/w/c'')) = Inr r \<and>
     posix_resolve (js ''/w'') [JStr (js ''a/b''), JStr r] = posix_resolve (js ''/w'') [JStr (js ''/w/c'')])"
proof -
  have n: "normal_dir (js ''/w'')" by code_simp
  then show ?thesis using posix_relative_resolves [OF n] by blast
qed

lemma posix_parse_empty:
  assumes "pbase path = []"
  shows "posix_parse_str path = (if path = [] then no_parts else no_parts\<lparr>root := take 1 path, dir := take 1 path\<rparr>)"
    "path \<noteq> [] \<Longrightarrow> take 1 path = [SLASH]"
proof -
  have seps: "\<forall>c\<in>set path. isPosixPathSeparator c"
    using assms by (cases rule: path_cases [of path isPosixPathSeparator]) auto
  show one: "path \<noteq> [] \<Longrightarrow> take 1 path = [SLASH]"
    using seps by (cases path) (auto simp: isPosixPathSeparator_def)
  show "posix_parse_str path = (if path = [] then no_parts else no_parts\<lparr>root := take 1 path, dir := take 1 path\<rparr>)"
  proof (cases "path = []")
    case False
    have "path = take 1 path @ drop 1 path" "length (take 1 path) = 1"
      "\<forall>c\<in>set (drop 1 path). isPosixPathSeparator c"
      using seps False by (auto simp: Suc_le_eq dest: in_set_dropD)
    then have "ext_scan isPosixPathSeparator path 1 (length path - 1) (ext_init 0) = ext_init 0"
      using ext_scan_all_seps [of "drop 1 path" isPosixPathSeparator "take 1 path" 0] by simp
    moreover have "code_at isPosixPathSeparator path 0" using False seps by (simp add: code_at_hd)
    ultimately show ?thesis
      using False one unfolding posix_parse_str_def Let_def isPosix_eq [symmetric]
      by (simp add: ext_init_def no_parts_def)
  qed (simp add: posix_parse_str_def)
qed

lemma posix_format_parse_segment:
  assumes "pbase path \<noteq> []"
  shows "posix_format (parts_object (posix_parse_str path)) =
    Inr (if ppre path = [SLASH, SLASH] then SLASH # pbase path else ppre path @ pbase path)"
proof -
  obtain pre seg trail where seg: "path = pre @ seg @ trail" "seg \<noteq> []"
    "\<forall>c\<in>set trail. isPosixPathSeparator c" "pre = [] \<or> isPosixPathSeparator (last pre)"
    "\<forall>c\<in>set seg. \<not> isPosixPathSeparator c" "pbase path = seg" "ppre path = pre"
    using assms by (cases rule: path_cases [of path isPosixPathSeparator]) auto
  note parse = posix_parse_spec(1-3) [OF assms]
  have pre: "pre = butlast pre @ [SLASH]" if "pre \<noteq> []"
    using that seg(4) append_butlast_last_id [of pre] by (auto simp: isPosixPathSeparator_def)
  have hd: "hd path = SLASH \<longleftrightarrow> pre \<noteq> [] \<and> hd pre = SLASH"
    using seg(1,2,5) by (cases pre; cases seg) (auto simp: isPosixPathSeparator_def)
  note defs = posix_format_def format_path_def parts_object_def truthy_str_def or_empty_def
  consider "pre = []" | "pre = [SLASH]" | "pre = [SLASH, SLASH]" | "length pre > 1" "hd pre = SLASH" "pre \<noteq> [SLASH, SLASH]"
    | "pre \<noteq> []" "hd pre \<noteq> SLASH"
    using pre by (cases pre; cases "tl pre") auto
  then show ?thesis
  proof cases
    case 4
    then have "butlast pre \<noteq> []" "butlast pre \<noteq> [SLASH]"
      using pre by (cases pre; auto)+
    then show ?thesis using 4 parse seg hd pre
      by (auto simp: defs dest: arg_cong [of _ _ "\<lambda>x. x @ seg"])
  next
    case 5
    then have "butlast pre \<noteq> []" using pre by (cases pre) auto
    then show ?thesis using 5 parse seg hd pre
      by (auto simp: defs dest: arg_cong [of _ _ "\<lambda>x. x @ seg"])
  qed (use parse seg hd in \<open>simp_all add: defs\<close>)
qed

text \<open>
  C36: \<open>posix.format(posix.parse(p))\<close>, for every path \<open>p\<close>: the path is cut into what comes before its
  last segment, the last segment (its \<open>basename\<close>) and trailing slashes; the trailing slashes are lost
  and the rest comes back as it was, except that \<open>//name\<close> becomes \<open>/name\<close>, and that of a path of slashes
  only one slash is left.
\<close>

theorem posix_format_parse:
  "\<exists>pre trail. path = pre @ posix_basename_str path None @ trail \<and> set trail \<subseteq> {SLASH} \<and>
     (pre = [] \<or> last pre = SLASH) \<and> SLASH \<notin> set (posix_basename_str path None) \<and>
     posix_format (parts_object (posix_parse_str path)) =
       Inr (if posix_basename_str path None = [] then take 1 path
            else if pre = [SLASH, SLASH] then SLASH # posix_basename_str path None
            else pre @ posix_basename_str path None)"
proof (intro exI conjI)
  show "path = ppre path @ posix_basename_str path None @ trailing_seps isPosixPathSeparator path"
    using path_decompose [of path] by (simp add: posix_basename_spec)
  show "set (trailing_seps isPosixPathSeparator path) \<subseteq> {SLASH}"
    using trailing_seps_seps [of _ isPosixPathSeparator path] by (auto simp: isPosixPathSeparator_def)
  show "SLASH \<notin> set (posix_basename_str path None)"
    using last_segment_clean [of SLASH isPosixPathSeparator path]
    by (auto simp: posix_basename_spec isPosixPathSeparator_def)
  show "ppre path = [] \<or> last (ppre path) = SLASH"
    using before_last_ends [of isPosixPathSeparator path] by (auto simp: isPosixPathSeparator_def)
  show "posix_format (parts_object (posix_parse_str path)) =
       Inr (if posix_basename_str path None = [] then take 1 path
            else if ppre path = [SLASH, SLASH] then SLASH # posix_basename_str path None
            else ppre path @ posix_basename_str path None)"
  proof (cases "pbase path = []")
    case True
    then show ?thesis using posix_parse_empty [OF True]
      by (simp add: posix_basename_spec posix_format_def format_path_def parts_object_def truthy_str_def or_empty_def
          no_parts_def formatExt_def)
  qed (simp add: posix_basename_spec posix_format_parse_segment)
qed

text \<open>
  \<open>parse\<close>, \<open>basename\<close> and \<open>extname\<close> cut a path at the same places: the base is the
  last segment with trailing slashes dropped, name and extension make up the base, and the
  extension is the one \<open>extname\<close> returns, except for the segment \<open>..\<close> right below the root.
\<close>

theorem posix_parts_agree:
  "base (posix_parse_str path) = posix_basename_str path None \<and>
   name (posix_parse_str path) @ ext (posix_parse_str path) = base (posix_parse_str path) \<and>
   (ext (posix_parse_str path) = posix_extname_str path \<or>
    (posix_basename_str path None = dotdot \<and> ppre path = [SLASH]))"
proof (cases "pbase path = []")
  case True
  then show ?thesis using posix_parse_empty [OF True]
    by (simp add: posix_basename_spec posix_extname_spec ext_of_def no_parts_def)
next
  case False
  have quirk: "ppre path = [SLASH]" if hd: "hd path = SLASH" and len: "length (ppre path) = 1"
  proof -
    obtain c where "ppre path = [c]" using len by (cases "ppre path") auto
    then show ?thesis using hd path_decompose [of path isPosixPathSeparator]
      by (cases path) auto
  qed
  show ?thesis using posix_parse_spec(3-5) [OF False] quirk
    by (auto simp: posix_basename_spec posix_extname_spec)
qed

text \<open>
  The exception of the previous property is real: for \<open>/..\<close>, \<open>extname\<close> finds no extension
  and \<open>parse\<close> reports the name \<open>.\<close> with the extension \<open>.\<close>.
\<close>

theorem posix_parse_root_dotdot:
  "posix_extname_str (js ''/..'') = [] \<and>
   name (posix_parse_str (js ''/..'')) = dot \<and> ext (posix_parse_str (js ''/..'')) = dot"
  by code_simp

text \<open>
  \<open>dirname\<close> and \<open>basename\<close> split a path: it is the directory, a slash, the base and
  trailing slashes, unless the directory is the root, \<open>//\<close> or the implied \<open>.\<close>.
\<close>

theorem posix_dirname_basename:
  "\<exists>pre trail. path = pre @ posix_basename_str path None @ trail \<and> set trail \<subseteq> {SLASH} \<and>
     SLASH \<notin> set (posix_basename_str path None) \<and>
     posix_dirname_str path =
       (if length pre \<le> 1 then (if path \<noteq> [] \<and> hd path = SLASH then [SLASH] else dot)
        else if length pre = 2 \<and> hd path = SLASH then [SLASH, SLASH]
        else butlast pre) \<and>
     (pre = [] \<or> last pre = SLASH)"
proof (intro exI conjI)
  show "path = ppre path @ posix_basename_str path None @ trailing_seps isPosixPathSeparator path"
    using path_decompose [of path] by (simp add: posix_basename_spec)
  show "set (trailing_seps isPosixPathSeparator path) \<subseteq> {SLASH}"
    using trailing_seps_seps [of _ isPosixPathSeparator path] by (auto simp: isPosixPathSeparator_def)
  show "SLASH \<notin> set (posix_basename_str path None)"
    using last_segment_clean [of SLASH isPosixPathSeparator path]
    by (auto simp: posix_basename_spec isPosixPathSeparator_def)
  show "ppre path = [] \<or> last (ppre path) = SLASH"
    using before_last_ends [of isPosixPathSeparator path] by (auto simp: isPosixPathSeparator_def)
qed (rule posix_dirname_spec)

text \<open>
  \<open>basename\<close> with a suffix: the base without the suffix when it ends in it and is longer; the
  path itself as suffix gives the empty string. Where the scan runs out of the base before the
  suffix is used up, the trailing slashes of the path are kept (\<open>trail\<close>).
\<close>

theorem posix_basename_suffix:
  assumes "sfx \<noteq> []" and "length sfx \<le> length path" and "sfx \<noteq> path"
  defines "seg \<equiv> posix_basename_str path None"
  shows "posix_basename_str path (Some sfx) =
     (if seg = [] then path
      else if suffix sfx seg then (if sfx = seg then seg else take (length seg - length sfx) seg)
      else if suffix seg sfx then seg @ trailing_seps isPosixPathSeparator path
      else seg)"
proof (cases rule: path_cases [of path isPosixPathSeparator])
  case seps
  have seg: "seg = []" using seps(2) by (simp add: seg_def posix_basename_spec)
  have "basename_suffix_scan isPosixPathSeparator path sfx 0 (length path) True
      (int (length sfx) - 1) (-1) (-1) = (0, -1, -1)"
    using cut_scan_all_seps [OF seps(1), of "[]" sfx "int (length sfx) - 1"] by simp
  then show ?thesis
    using assms(1-3) seg slice_0_nat [of path "length path"]
    by (simp add: posix_basename_str_def [of path "Some sfx"] or_empty_def
        isPosix_eq [symmetric] del: slice_0_nat)
next
  case (seg pre s trail)
  have s: "seg = s" using seg(6) by (simp add: seg_def posix_basename_spec)
  have t: "trailing_seps isPosixPathSeparator path = trail"
    using path_decompose [of path isPosixPathSeparator] seg(1,6,7) by simp
  have sl: "slice path (int (length pre)) (int (length pre) + int k) = take k (s @ trail)" for k
    using slice_nat [of path "length pre" "length pre + k"] seg(1) by simp
  have whole: "slice path (int (length pre)) (int (length path)) = s @ trail"
    using sl [of "length s + length trail"] seg(1) by (simp add: algebra_simps)
  have cut: "basename_suffix_scan isPosixPathSeparator path sfx 0 (length path) True
      (int (length sfx) - 1) (-1) (-1) =
      (int (length pre),
       if suffix sfx s then int (length pre) + int (length s - length sfx)
       else if suffix s sfx then -1 else int (length pre) + int (length s),
       int (length pre) + int (length s))"
    using cut_scan_result [of path "[]" pre s trail isPosixPathSeparator sfx] seg(1-5) assms(1)
      suffix_length_le [of sfx s] by (auto simp: of_nat_diff)
  have start: "suffix sfx s \<Longrightarrow> length s - length sfx = 0 \<longleftrightarrow> sfx = s"
    using suffix_length_le [of sfx s] by (auto simp: suffix_def)
  have both: "suffix sfx s \<Longrightarrow> suffix s sfx \<Longrightarrow> sfx = s"
    by (rule suffix_order.antisym)
  have out: "posix_basename_str path (Some sfx) =
     (if suffix sfx s then take (if sfx = s then length s else length s - length sfx) (s @ trail)
      else if suffix s sfx then s @ trail else take (length s) (s @ trail))"
    using assms(1-3) seg(2) start sl [of "length s"] sl [of "length s - length sfx"] whole both cut
    by (cases "suffix sfx s"; cases "suffix s sfx"; cases "sfx = s")
      (simp_all add: posix_basename_str_def [of _ "Some t" for t] or_empty_def
        isPosix_eq [symmetric])
  show ?thesis unfolding out s t using seg(2) both by auto
qed

text \<open>
  The suffix laws hold at \<open>basename('/a/b.js', '.js')\<close>.
\<close>

lemma posix_basename_suffix_witness:
  "posix_basename_str (js ''/a/b.js'') (Some (js ''.js'')) = js ''b''"
  using posix_basename_suffix [of "js ''.js''" "js ''/a/b.js''"] by code_simp

end
