(* ===== verification/Path_Win32.thy ===== *)
theory Path_Win32
  imports Path_Posix
begin

text \<open>
  The \<open>win32\<close> object of \<open>builtin/path.js\<close>: the same operations as \<open>posix\<close> with both slashes as
  separators and with device roots (\<open>C:\<close> and \<open>\\server\share\<close>). \<open>process.cwd()\<close> is the argument
  \<open>cwd\<close>; \<open>String.prototype.toLowerCase\<close>, which depends on the Unicode tables, is the argument \<open>lc\<close>.
\<close>

abbreviation BACKSLASH :: nat where "BACKSLASH \<equiv> CHAR_BACKWARD_SLASH"

section \<open>Device roots\<close>

text \<open>\<open>while (j < len && P(path.charCodeAt(j))) j++\<close>\<close>

definition skip_while :: "(nat \<Rightarrow> bool) \<Rightarrow> jstr \<Rightarrow> nat \<Rightarrow> nat" where
  [js_eval]: "skip_while P s j = j + length (takeWhile P (drop j s))"

text \<open>
  What follows two leading separators: the server name, the index where the share name starts and
  the index after it. \<open>None\<close> where the source leaves its nested conditions.
\<close>

definition unc_parts :: "jstr \<Rightarrow> (jstr \<times> nat \<times> nat) option" where
  [js_eval]: "unc_parts path =
     (let len = length path; j1 = skip_while (\<lambda>c. \<not> isPathSeparator c) path 2
      in if j1 < len \<and> j1 \<noteq> 2
         then let j2 = skip_while isPathSeparator path j1
              in if j2 < len \<and> j2 \<noteq> j1
                 then Some (slice path 2 (int j1), j2,
                            skip_while (\<lambda>c. \<not> isPathSeparator c) path j2)
                 else None
         else None)"

definition unc_device :: "jstr \<Rightarrow> jstr \<Rightarrow> jstr" where
  [js_eval]: "unc_device firstPart share = BACKSLASH # BACKSLASH # firstPart @ BACKSLASH # share"

definition has_drive :: "jstr \<Rightarrow> bool" where
  [js_eval]: "has_drive path =
     (code_at isWindowsDeviceRoot path 0 \<and> code_at (\<lambda>c. c = CHAR_COLON) path 1)"

text \<open>The root of a path in \<open>resolve\<close>: \<open>(rootEnd, device, isAbsolute)\<close>.\<close>

definition win32_root :: "jstr \<Rightarrow> nat \<times> jstr \<times> bool" where
  [js_eval]: "win32_root path =
     (let len = length path
      in if len = 1
         then if code_at isPathSeparator path 0 then (1, [], True) else (0, [], False)
         else if code_at isPathSeparator path 0
         then if code_at isPathSeparator path 1
              then case unc_parts path of
                     Some (firstPart, last1, j) \<Rightarrow>
                       if j = len \<or> j \<noteq> last1
                       then (j, unc_device firstPart (slice path (int last1) (int j)), True)
                       else (0, [], True)
                   | None \<Rightarrow> (0, [], True)
              else (1, [], True)
         else if has_drive path
         then if len > 2 \<and> code_at isPathSeparator path 2
              then (3, slice path 0 2, True) else (2, slice path 0 2, False)
         else (0, [], False))"

section \<open>Resolving and normalizing\<close>

record w_state =
  w_device :: jstr
  w_tail :: jstr
  w_absolute :: bool

definition w_init :: w_state where
  [js_eval]: "w_init = \<lparr>w_device = [], w_tail = [], w_absolute = False\<rparr>"

text \<open>The path of the last iteration (\<open>i = -1\<close>).\<close>

definition win32_cwd :: "(jstr \<Rightarrow> jstr) \<Rightarrow> jstr \<Rightarrow> jstr \<Rightarrow> jstr" where
  [js_eval]: "win32_cwd lc cwd resolvedDevice =
     (if length resolvedDevice = 0 then cwd
      else if lc (slice cwd 0 2) \<noteq> lc resolvedDevice \<and> code_at (\<lambda>c. c = BACKSLASH) cwd 2
      then resolvedDevice @ [BACKSLASH] else cwd)"

text \<open>
  The loop body after the path is known: the new state and whether the loop stops (\<open>break\<close>).
\<close>

definition win32_resolve_step :: "(jstr \<Rightarrow> jstr) \<Rightarrow> jstr \<Rightarrow> w_state \<Rightarrow> w_state \<times> bool" where
  [js_eval]: "win32_resolve_step lc path st =
     (let (rootEnd, device, isAbs) = win32_root path
      in if length device > 0 \<and> length (w_device st) > 0 \<and> lc device \<noteq> lc (w_device st)
         then (st, False)
         else let st1 = (if length device > 0 \<and> length (w_device st) = 0
                         then st\<lparr>w_device := device\<rparr> else st)
              in if w_absolute st1 then (st1, length (w_device st1) > 0)
                 else let st2 = st1\<lparr>w_tail := slice_from path (int rootEnd) @ BACKSLASH # w_tail st1,
                                    w_absolute := isAbs\<rparr>
                      in (st2, isAbs \<and> length (w_device st2) > 0))"

text \<open>The loop from the last argument to index -1: with \<open>Suc k\<close> iterations left the index is \<open>k - 1\<close>.\<close>

fun win32_resolve_loop ::
  "(jstr \<Rightarrow> jstr) \<Rightarrow> jstr \<Rightarrow> jsval list \<Rightarrow> nat \<Rightarrow> w_state \<Rightarrow> js_error + w_state" where
  "win32_resolve_loop lc cwd args 0 st = Inr st"
| "win32_resolve_loop lc cwd args (Suc 0) st =
     Inr (fst (win32_resolve_step lc (win32_cwd lc cwd (w_device st)) st))"
| "win32_resolve_loop lc cwd args (Suc (Suc k)) st =
     bindE (validateString (args ! k) (paths_name k)) (\<lambda>path.
       if length path = 0 then win32_resolve_loop lc cwd args (Suc k) st
       else let (st', stop) = win32_resolve_step lc path st
            in if stop then Inr st' else win32_resolve_loop lc cwd args (Suc k) st')"

definition win32_resolve ::
  "(jstr \<Rightarrow> jstr) \<Rightarrow> jstr \<Rightarrow> jsval list \<Rightarrow> js_error + jstr" where
  [js_eval]: "win32_resolve lc cwd args =
     bindE (win32_resolve_loop lc cwd args (Suc (length args)) w_init) (\<lambda>st.
       let resolvedTail = normalizeString (w_tail st) (\<not> w_absolute st) BACKSLASH isPathSeparator
       in if w_absolute st then Inr (w_device st @ BACKSLASH # resolvedTail)
          else let r = w_device st @ resolvedTail in Inr (if r \<noteq> [] then r else dot))"

text \<open>
  The root of a path in \<open>normalize\<close>: a complete UNC root is returned at once (\<open>Inl\<close>); otherwise
  \<open>(rootEnd, device, isAbsolute)\<close>, the device absent where the source leaves it undefined.
\<close>

definition win32_norm_root :: "jstr \<Rightarrow> jstr + nat \<times> jstr option \<times> bool" where
  [js_eval]: "win32_norm_root path =
     (let len = length path
      in if code_at isPathSeparator path 0
         then if code_at isPathSeparator path 1
              then case unc_parts path of
                     Some (firstPart, last1, j) \<Rightarrow>
                       if j = len
                       then Inl (unc_device firstPart (slice_from path (int last1)) @ [BACKSLASH])
                       else if j \<noteq> last1
                       then Inr (j, Some (unc_device firstPart (slice path (int last1) (int j))), True)
                       else Inr (0, None, True)
                   | None \<Rightarrow> Inr (0, None, True)
              else Inr (1, None, True)
         else if has_drive path
         then if len > 2 \<and> code_at isPathSeparator path 2
              then Inr (3, Some (slice path 0 2), True) else Inr (2, Some (slice path 0 2), False)
         else Inr (0, None, False))"

text \<open>The loop over the colons of the path: is one of them last, or followed by a separator?\<close>

fun colon_scan :: "jstr \<Rightarrow> bool" where
  "colon_scan [] = False"
| "colon_scan (c # cs) =
     (if c = CHAR_COLON \<and> (cs = [] \<or> isPathSeparator (hd cs)) then True else colon_scan cs)"

definition win32_normalize_str :: "jstr \<Rightarrow> jstr" where
  [js_eval]: "win32_normalize_str path =
     (let len = length path
      in if len = 0 then dot
         else if len = 1
         then if code_at isPosixPathSeparator path 0 then [BACKSLASH] else path
         else case win32_norm_root path of
                Inl r \<Rightarrow> r
              | Inr (rootEnd, device, isAbs) \<Rightarrow>
                  (let t0 = (if rootEnd < len
                             then normalizeString (slice_from path (int rootEnd)) (\<not> isAbs) BACKSLASH
                                    isPathSeparator
                             else []);
                       t1 = (if length t0 = 0 \<and> \<not> isAbs then dot else t0);
                       tail = (if length t1 > 0 \<and> code_at isPathSeparator path (len - 1)
                               then t1 @ [BACKSLASH] else t1)
                   in if \<not> isAbs \<and> device = None \<and> CHAR_COLON \<in> set path \<and>
                         ((length tail \<ge> 2 \<and> has_drive tail) \<or> colon_scan path)
                      then CHAR_DOT # BACKSLASH # tail
                      else case device of
                             None \<Rightarrow> if isAbs then BACKSLASH # tail else tail
                           | Some d \<Rightarrow> if isAbs then d @ BACKSLASH # tail else d @ tail))"

definition win32_normalize :: "jsval \<Rightarrow> js_error + jstr" where
  [js_eval]: "win32_normalize path =
     bindE (validateString path ''path'') (\<lambda>p. Inr (win32_normalize_str p))"

definition win32_isAbsolute_str :: "jstr \<Rightarrow> bool" where
  [js_eval]: "win32_isAbsolute_str path =
     (if length path = 0 then False
      else code_at isPathSeparator path 0 \<or>
           (length path > 2 \<and> has_drive path \<and> code_at isPathSeparator path 2))"

definition win32_isAbsolute :: "jsval \<Rightarrow> js_error + bool" where
  [js_eval]: "win32_isAbsolute path =
     bindE (validateString path ''path'') (\<lambda>p. Inr (win32_isAbsolute_str p))"

text \<open>The loop of \<open>join\<close>; the state is \<open>(joined, firstPart)\<close>.\<close>

fun win32_join_loop :: "jsval list \<Rightarrow> (jstr \<times> jstr) option \<Rightarrow> js_error + (jstr \<times> jstr) option" where
  "win32_join_loop [] st = Inr st"
| "win32_join_loop (arg # args) st =
     bindE (validateString arg ''path'') (\<lambda>a.
       win32_join_loop args
         (if length a > 0
          then case st of None \<Rightarrow> Some (a, a)
                        | Some (joined, firstPart) \<Rightarrow> Some (joined @ BACKSLASH # a, firstPart)
          else st))"

text \<open>The count of leading separators of \<open>firstPart\<close>, and \<open>needsReplace\<close>.\<close>

definition win32_join_count :: "jstr \<Rightarrow> nat \<times> bool" where
  [js_eval]: "win32_join_count firstPart =
     (if code_at isPathSeparator firstPart 0
      then if length firstPart > 1 \<and> code_at isPathSeparator firstPart 1
           then if length firstPart > 2
                then if code_at isPathSeparator firstPart 2 then (3, True) else (2, False)
                else (2, True)
           else (1, True)
      else (0, True))"

definition win32_join :: "jsval list \<Rightarrow> js_error + jstr" where
  [js_eval]: "win32_join args =
     (if length args = 0 then Inr dot
      else bindE (win32_join_loop args None) (\<lambda>st.
        case st of
          None \<Rightarrow> Inr dot
        | Some (joined, firstPart) \<Rightarrow>
            (let (slashCount, needsReplace) = win32_join_count firstPart;
                 n = (if needsReplace then skip_while isPathSeparator joined slashCount else slashCount);
                 joined' = (if needsReplace \<and> n \<ge> 2 then BACKSLASH # slice_from joined (int n)
                            else joined)
             in Inr (win32_normalize_str joined'))))"

section \<open>Relative paths\<close>

text \<open>\<open>split('\\')\<close> followed by dropping one empty last element.\<close>

definition win32_split :: "jstr \<Rightarrow> jstr list" where
  [js_eval]: "win32_split s =
     (let segs = splitP (\<lambda>c. c = BACKSLASH) s in if last segs = [] then butlast segs else segs)"

text \<open>The number of leading segments equal up to case.\<close>

fun common_segments :: "(jstr \<Rightarrow> jstr) \<Rightarrow> jstr list \<Rightarrow> jstr list \<Rightarrow> nat" where
  "common_segments lc (x # xs) (y # ys) =
     (if lc x \<noteq> lc y then 0 else Suc (common_segments lc xs ys))"
| "common_segments lc _ _ = 0"

definition dotdots :: "nat \<Rightarrow> jstr" where
  [js_eval]: "dotdots n = concat (replicate n (dotdot @ [BACKSLASH]))"

text \<open>The branch taken when \<open>toLowerCase\<close> changes a length.\<close>

definition win32_relative_split :: "(jstr \<Rightarrow> jstr) \<Rightarrow> jstr \<Rightarrow> jstr \<Rightarrow> jstr" where
  [js_eval]: "win32_relative_split lc fromOrig toOrig =
     (let fromSplit = win32_split fromOrig; toSplit = win32_split toOrig;
          fromLen = length fromSplit; toLen = length toSplit;
          len = (if fromLen < toLen then fromLen else toLen);
          i = common_segments lc fromSplit toSplit
      in if i = 0 then toOrig
         else if i = len
         then if toLen > len then join [BACKSLASH] (drop i toSplit)
              else if fromLen > len then dotdots (fromLen - 1 - i) @ dotdot
              else []
         else dotdots (fromLen - i) @ join [BACKSLASH] (drop i toSplit))"

text \<open>\<open>while (end - 1 > start && s.charCodeAt(end - 1) === CHAR_BACKWARD_SLASH) end--\<close>\<close>

fun trim_end :: "jstr \<Rightarrow> nat \<Rightarrow> nat \<Rightarrow> nat" where
  "trim_end s lo 0 = 0"
| "trim_end s lo (Suc e) = (if e > lo \<and> s ! e = BACKSLASH then trim_end s lo e else Suc e)"

definition win32_relative_scan :: "jstr \<Rightarrow> jstr \<Rightarrow> jstr \<Rightarrow> jstr" where
  [js_eval]: "win32_relative_scan from to toOrig =
     (let fromStart = skip_while (\<lambda>c. c = BACKSLASH) from 0;
          fromEnd = trim_end from fromStart (length from);
          fromLen = fromEnd - fromStart;
          toStart = skip_while (\<lambda>c. c = BACKSLASH) to 0;
          toEnd = trim_end to toStart (length to);
          toLen = toEnd - toStart;
          len = (if fromLen < toLen then fromLen else toLen);
          (i, lcs) = relative_scan BACKSLASH from to fromStart toStart len 0 (-1)
      in if i \<noteq> len \<and> lcs = -1 then toOrig
         else if i = len \<and> toLen > len \<and> code_at (\<lambda>c. c = BACKSLASH) to (toStart + i)
         then slice_from toOrig (int (toStart + i) + 1)
         else if i = len \<and> toLen > len \<and> i = 2 then slice_from toOrig (int (toStart + i))
         else let lcs1 = (if i = len \<and> fromLen > len
                          then if code_at (\<lambda>c. c = BACKSLASH) from (fromStart + i) then int i
                               else if i = 2 then 3 else lcs
                          else lcs);
                  lcs2 = (if i = len \<and> lcs1 = -1 then 0 else lcs1);
                  start = nat (int fromStart + lcs2 + 1);
                  out = relative_ups BACKSLASH from fromEnd (Suc fromEnd - start) start [];
                  toStart' = int toStart + lcs2
              in if length out > 0 then out @ slice toOrig toStart' (int toEnd)
                 else if code_at (\<lambda>c. c = BACKSLASH) toOrig (nat toStart')
                 then slice toOrig (toStart' + 1) (int toEnd)
                 else slice toOrig toStart' (int toEnd))"

definition win32_relative ::
  "(jstr \<Rightarrow> jstr) \<Rightarrow> jstr \<Rightarrow> jsval \<Rightarrow> jsval \<Rightarrow> js_error + jstr" where
  [js_eval]: "win32_relative lc cwd from to =
     bindE (validateString from ''from'') (\<lambda>from1.
     bindE (validateString to ''to'') (\<lambda>to1.
       if from1 = to1 then Inr []
       else bindE (win32_resolve lc cwd [JStr from1]) (\<lambda>fromOrig.
            bindE (win32_resolve lc cwd [JStr to1]) (\<lambda>toOrig.
              if fromOrig = toOrig then Inr []
              else let from2 = lc fromOrig; to2 = lc toOrig
                   in if from2 = to2 then Inr []
                      else if length fromOrig \<noteq> length from2 \<or> length toOrig \<noteq> length to2
                      then Inr (win32_relative_split lc fromOrig toOrig)
                      else Inr (win32_relative_scan from2 to2 toOrig)))))"

definition win32_toNamespacedPath :: "(jstr \<Rightarrow> jstr) \<Rightarrow> jstr \<Rightarrow> jsval \<Rightarrow> js_error + jsval" where
  [js_eval]: "win32_toNamespacedPath lc cwd path =
     (case path of
        JStr p \<Rightarrow>
          if length p = 0 then Inr path
          else bindE (win32_resolve lc cwd [JStr p]) (\<lambda>r.
            if length r \<le> 2 then Inr path
            else if code_at (\<lambda>c. c = BACKSLASH) r 0
            then if code_at (\<lambda>c. c = BACKSLASH) r 1 \<and>
                    \<not> code_at (\<lambda>c. c = CHAR_QUESTION_MARK) r 2 \<and> \<not> code_at (\<lambda>c. c = CHAR_DOT) r 2
                 then Inr (JStr ([BACKSLASH, BACKSLASH, CHAR_QUESTION_MARK, BACKSLASH] @
                                 js ''UNC'' @ BACKSLASH # slice_from r 2))
                 else Inr (JStr r)
            else if has_drive r \<and> code_at (\<lambda>c. c = BACKSLASH) r 2
            then Inr (JStr ([BACKSLASH, BACKSLASH, CHAR_QUESTION_MARK, BACKSLASH] @ r))
            else Inr (JStr r))
      | _ \<Rightarrow> Inr path)"

section \<open>Taking paths apart\<close>

text \<open>The root of a path in \<open>dirname\<close>: \<open>None\<close> for a complete UNC root, else \<open>(rootEnd, offset)\<close>.\<close>

definition win32_dir_root :: "jstr \<Rightarrow> (int \<times> nat) option" where
  [js_eval]: "win32_dir_root path =
     (let len = length path
      in if code_at isPathSeparator path 0
         then if code_at isPathSeparator path 1
              then case unc_parts path of
                     Some (_, last1, j) \<Rightarrow>
                       if j = len then None
                       else if j \<noteq> last1 then Some (int j + 1, j + 1)
                       else Some (1, 1)
                   | None \<Rightarrow> Some (1, 1)
              else Some (1, 1)
         else if has_drive path
         then let r = (if len > 2 \<and> code_at isPathSeparator path 2 then 3 else 2)
              in Some (int r, r)
         else Some (-1, 0))"

definition win32_dirname_str :: "jstr \<Rightarrow> jstr" where
  [js_eval]: "win32_dirname_str path =
     (let len = length path
      in if len = 0 then dot
         else if len = 1 then if code_at isPathSeparator path 0 then path else dot
         else case win32_dir_root path of
                None \<Rightarrow> path
              | Some (rootEnd, offset) \<Rightarrow>
                  (let end1 = dirname_scan isPathSeparator path offset (len - offset) True
                   in if end1 = -1
                      then if rootEnd = -1 then dot else slice path 0 rootEnd
                      else slice path 0 end1))"

definition win32_dirname :: "jsval \<Rightarrow> js_error + jstr" where
  [js_eval]: "win32_dirname path =
     bindE (validateString path ''path'') (\<lambda>p. Inr (win32_dirname_str p))"

definition win32_basename_str :: "jstr \<Rightarrow> jstr option \<Rightarrow> jstr" where
  [js_eval]: "win32_basename_str path sfx =
     (let lo = (if length path \<ge> 2 \<and> has_drive path then 2 else 0); suf = or_empty sfx
      in if sfx \<noteq> None \<and> length suf > 0 \<and> length suf \<le> length path
         then if suf = path then []
              else let (start, end1, firstNonSlashEnd) =
                         basename_suffix_scan isPathSeparator path suf lo (length path - lo) True
                           (int (length suf) - 1) (-1) (-1);
                       end2 = (if start = end1 then firstNonSlashEnd
                               else if end1 = -1 then int (length path) else end1)
                   in slice path start end2
         else let (start, end1) = basename_scan isPathSeparator path lo (length path - lo) True (-1)
              in if end1 = -1 then [] else slice path start end1)"

definition win32_basename :: "jsval \<Rightarrow> jsval \<Rightarrow> js_error + jstr" where
  [js_eval]: "win32_basename path sfx =
     bindE (if sfx = JUndefined then Inr None
            else bindE (validateString sfx ''suffix'') (\<lambda>s. Inr (Some s))) (\<lambda>suf.
     bindE (validateString path ''path'') (\<lambda>p. Inr (win32_basename_str p suf)))"

definition win32_extname_str :: "jstr \<Rightarrow> jstr" where
  [js_eval]: "win32_extname_str path =
     (let lo = (if length path \<ge> 2 \<and> has_drive path then 2 else 0);
          st = ext_scan isPathSeparator path lo (length path - lo) (ext_init (int lo))
      in if ext_startDot st = -1 \<or> ext_end st = -1 \<or> ext_none st then []
         else slice path (ext_startDot st) (ext_end st))"

definition win32_extname :: "jsval \<Rightarrow> js_error + jstr" where
  [js_eval]: "win32_extname path =
     bindE (validateString path ''path'') (\<lambda>p. Inr (win32_extname_str p))"

definition win32_format :: "path_arg \<Rightarrow> js_error + jstr" where
  [js_eval]: "win32_format pathObject = format_path BACKSLASH pathObject"

text \<open>The root of a path in \<open>parse\<close>: \<open>None\<close> where the whole path is a root and is returned at once.\<close>

definition win32_parse_root :: "jstr \<Rightarrow> nat option" where
  [js_eval]: "win32_parse_root path =
     (let len = length path
      in if code_at isPathSeparator path 0
         then if code_at isPathSeparator path 1
              then case unc_parts path of
                     Some (_, last1, j) \<Rightarrow>
                       if j = len then Some j else if j \<noteq> last1 then Some (j + 1) else Some 1
                   | None \<Rightarrow> Some 1
              else Some 1
         else if has_drive path
         then if len \<le> 2 then None
              else if code_at isPathSeparator path 2 then (if len = 3 then None else Some 3)
              else Some 2
         else Some 0)"

definition win32_parse_str :: "jstr \<Rightarrow> path_parts" where
  [js_eval]: "win32_parse_str path =
     (let len = length path
      in if len = 0 then no_parts
         else if len = 1
         then if code_at isPathSeparator path 0 then no_parts\<lparr>root := path, dir := path\<rparr>
              else no_parts\<lparr>base := path, name := path\<rparr>
         else case win32_parse_root path of
                None \<Rightarrow> no_parts\<lparr>root := path, dir := path\<rparr>
              | Some rootEnd \<Rightarrow>
                  (let ret = no_parts\<lparr>root := (if rootEnd > 0 then slice path 0 (int rootEnd) else [])\<rparr>;
                       st = ext_scan isPathSeparator path rootEnd (len - rootEnd)
                              (ext_init (int rootEnd));
                       ret1 = (if ext_end st \<noteq> -1
                               then if ext_none st
                                    then ret\<lparr>base := slice path (ext_startPart st) (ext_end st),
                                             name := slice path (ext_startPart st) (ext_end st)\<rparr>
                                    else ret\<lparr>name := slice path (ext_startPart st) (ext_startDot st),
                                             base := slice path (ext_startPart st) (ext_end st),
                                             ext := slice path (ext_startDot st) (ext_end st)\<rparr>
                               else ret)
                   in if ext_startPart st > 0 \<and> ext_startPart st \<noteq> int rootEnd
                      then ret1\<lparr>dir := slice path 0 (ext_startPart st - 1)\<rparr>
                      else ret1\<lparr>dir := root ret1\<rparr>))"

definition win32_parse :: "jsval \<Rightarrow> js_error + path_parts" where
  [js_eval]: "win32_parse path =
     bindE (validateString path ''path'') (\<lambda>p. Inr (win32_parse_str p))"

definition win32_matchesGlob ::
  "(jstr \<Rightarrow> jstr \<Rightarrow> js_error + bool) \<Rightarrow> jsval \<Rightarrow> jsval \<Rightarrow> js_error + bool" where
  [js_eval]: "win32_matchesGlob regexp_test path pattern = matchesGlob regexp_test path pattern True"

end
