(* ===== verification/Path_Win32_Laws.thy ===== *)
theory Path_Win32_Laws
  imports Path_Win32
begin

text \<open>
  Properties of the \<open>win32\<close> functions: separators are normalized, resolving against an absolute
  drive path gives an absolute path, and on paths without backslashes and colons the functions
  that take paths apart agree with their \<open>posix\<close> counterparts.
\<close>

interpretation win32_sep: path_separators isPathSeparator BACKSLASH
  by unfold_locales (simp_all add: isPathSeparator_def)

section \<open>Device roots\<close>

lemma skip_while_le: "j \<le> length s \<Longrightarrow> skip_while P s j \<le> length s"
  using length_takeWhile_le [of P "drop j s"] by (simp add: skip_while_def)

lemma drop_skip_while: "drop (skip_while P s j) s = dropWhile P (drop j s)"
  by (simp add: skip_while_def dropWhile_eq_drop add.commute)

lemma slice_skip_while: "slice s (int j) (int (skip_while P s j)) = takeWhile P (drop j s)"
  using slice_nat [of s j "skip_while P s j"] takeWhile_eq_take [of P "drop j s"]
  by (simp add: skip_while_def)

definition clean_name :: "jstr \<Rightarrow> bool" where
  "clean_name s = clean_segment isPathSeparator s"

lemma clean_name_takeWhile:
  "takeWhile (\<lambda>c. \<not> isPathSeparator c) s \<noteq> [] \<Longrightarrow>
     clean_name (takeWhile (\<lambda>c. \<not> isPathSeparator c) s)"
  using set_takeWhileD [of _ "\<lambda>c. \<not> isPathSeparator c" s]
  by (fastforce simp: clean_name_def clean_segment_def)

lemma unc_parts_Some:
  assumes "unc_parts path = Some (fp, l, j)"
  shows "clean_name fp" "clean_name (slice path (int l) (int j))" "l < j" "j \<le> length path"
proof -
  let ?nsep = "\<lambda>c. \<not> isPathSeparator c"
  define j1 where "j1 = skip_while ?nsep path 2"
  define j2 where "j2 = skip_while isPathSeparator path j1"
  have j1: "j1 < length path" "j1 \<noteq> 2" and j2: "j2 < length path"
    and fp: "fp = slice path 2 (int j1)" and l: "l = j2" and j: "j = skip_while ?nsep path j2"
    using assms by (auto simp: unc_parts_def Let_def j1_def j2_def split: if_splits)
  have fp': "fp = takeWhile ?nsep (drop 2 path)"
    using slice_skip_while [of path 2 ?nsep] by (simp add: fp j1_def)
  moreover have "fp \<noteq> []" using j1(2) fp' by (auto simp: j1_def skip_while_def)
  ultimately show "clean_name fp" using clean_name_takeWhile by metis
  have share: "slice path (int l) (int j) = takeWhile ?nsep (drop j2 path)"
    by (simp add: l j slice_skip_while)
  have "drop j2 path \<noteq> []" using j2 by simp
  moreover have "drop j2 path = dropWhile isPathSeparator (drop j1 path)"
    by (simp add: j2_def drop_skip_while)
  ultimately have hd: "\<not> isPathSeparator (hd (drop j2 path))" by (metis hd_dropWhile)
  then have ne: "takeWhile ?nsep (drop j2 path) \<noteq> []"
    using \<open>drop j2 path \<noteq> []\<close> by (cases "drop j2 path") auto
  then show "clean_name (slice path (int l) (int j))" unfolding share by (rule clean_name_takeWhile)
  show "l < j" using ne by (simp add: l j skip_while_def)
  show "j \<le> length path" unfolding j using j2 by (intro skip_while_le) simp
qed

text \<open>The devices the root scans produce.\<close>

definition dev_ok :: "jstr \<Rightarrow> bool" where
  "dev_ok dev =
     (dev = [] \<or> (\<exists>d. isWindowsDeviceRoot d \<and> dev = [d, CHAR_COLON]) \<or>
      (\<exists>fp share. clean_name fp \<and> clean_name share \<and> dev = unc_device fp share))"

lemma dev_okI:
  "dev_ok []"
  "isWindowsDeviceRoot d \<Longrightarrow> dev_ok [d, CHAR_COLON]"
  "clean_name fp \<Longrightarrow> clean_name share \<Longrightarrow> dev_ok (unc_device fp share)"
  by (auto simp: dev_ok_def)

lemma has_drive_slice:
  "has_drive path \<Longrightarrow> \<exists>d rest. isWindowsDeviceRoot d \<and> path = d # CHAR_COLON # rest \<and>
     slice path 0 2 = [d, CHAR_COLON]"
proof -
  assume "has_drive path"
  moreover obtain d c rest where "path = d # c # rest"
    using \<open>has_drive path\<close> by (cases path; cases "tl path") (auto simp: has_drive_def code_at_def)
  moreover have "slice (d # c # rest) 0 2 = [d, c]" using slice_0_nat [of "d # c # rest" 2] by simp
  ultimately show ?thesis by (auto simp: has_drive_def code_at_def)
qed

lemma has_drive_device: "has_drive path \<Longrightarrow> dev_ok (slice path 0 2)"
  using has_drive_slice dev_okI(2) by metis

lemma win32_root_ok: "win32_root path = (r, dev, a) \<Longrightarrow> dev_ok dev"
  using has_drive_device [of path] unc_parts_Some [of path]
  by (auto simp: win32_root_def Let_def dev_okI split: if_splits option.splits)

lemma win32_norm_root_ok:
  "win32_norm_root path = Inr (r, Some dev, a) \<Longrightarrow> dev_ok dev"
  "win32_norm_root path = Inl whole \<Longrightarrow> \<exists>dev. dev_ok dev \<and> whole = dev @ [BACKSLASH]"
proof -
  show "win32_norm_root path = Inr (r, Some dev, a) \<Longrightarrow> dev_ok dev"
    using has_drive_device [of path] unc_parts_Some [of path]
    by (auto simp: win32_norm_root_def dev_okI Let_def split: if_splits option.splits)
  show "win32_norm_root path = Inl whole \<Longrightarrow> \<exists>dev. dev_ok dev \<and> whole = dev @ [BACKSLASH]"
    using unc_parts_Some [of path]
    by (auto simp: win32_norm_root_def dev_okI Let_def slice_from_def
        split: if_splits option.splits intro!: exI [of _ "unc_device _ _"])
qed

lemma drive_no_sep: "isWindowsDeviceRoot d \<Longrightarrow> \<not> isPathSeparator d"
  by (auto simp: isWindowsDeviceRoot_def isPathSeparator_def)

lemma clean_name_no_slash: "clean_name s \<Longrightarrow> CHAR_FORWARD_SLASH \<notin> set s"
  by (auto simp: clean_name_def clean_segment_def isPathSeparator_def)

lemma dev_ok_no_slash: "dev_ok dev \<Longrightarrow> CHAR_FORWARD_SLASH \<notin> set dev"
  by (auto simp: dev_ok_def unc_device_def isWindowsDeviceRoot_def dest: clean_name_no_slash)

context path_separators begin

text \<open>The only separator in a normalized string is the one it is joined with.\<close>

lemma normalizeString_separators:
  "c \<in> set (normalizeString path allow separator isSep) \<Longrightarrow> isSep c \<Longrightarrow> c = separator"
proof -
  assume c: "c \<in> set (normalizeString path allow separator isSep)" "isSep c"
  obtain stack where "normalizeString path allow separator isSep = join [separator] (rev stack)"
    "\<forall>s\<in>set stack. clean_segment isSep s"
    using normalizeString_stack [of path allow] ok_stack_clean by blast
  then show ?thesis using c set_join [of "[separator]" "rev stack"]
    by (fastforce simp: clean_segment_def)
qed

end

lemma win32_normalized_no_slash:
  "CHAR_FORWARD_SLASH \<notin> set (normalizeString path allow BACKSLASH isPathSeparator)"
  using win32_sep.normalizeString_separators [of CHAR_FORWARD_SLASH path allow] win32_sep.slash_is_sep
  by auto

text \<open>
  \<open>win32.normalize\<close> removes every forward slash.
\<close>

theorem win32_normalize_no_slash: "CHAR_FORWARD_SLASH \<notin> set (win32_normalize_str path)"
proof -
  note no = win32_normalized_no_slash
  consider "length path \<le> 1" | whole where "length path > 1" "win32_norm_root path = Inl whole"
    | r dev a where "length path > 1" "win32_norm_root path = Inr (r, dev, a)"
    using sum.exhaust prod_cases3 not_le by metis
  then show ?thesis
  proof cases
    case 1
    then consider "path = []" | c where "path = [c]" by (cases path) auto
    then show ?thesis
      by cases (auto simp: win32_normalize_str_def code_at_def isPosixPathSeparator_def)
  next
    case 2
    then show ?thesis using win32_norm_root_ok(2) [OF 2(2)] dev_ok_no_slash
      by (auto simp: win32_normalize_str_def Let_def)
  next
    case 3
    have "CHAR_FORWARD_SLASH \<notin> set d" if "dev = Some d" for d
      using 3(2) that win32_norm_root_ok(1) dev_ok_no_slash by blast
    then show ?thesis using 3 no by (auto simp: win32_normalize_str_def Let_def split: option.splits)
  qed
qed

section \<open>resolve\<close>

lemma win32_resolve_step_device:
  "dev_ok (w_device st) \<Longrightarrow> dev_ok (w_device (fst (win32_resolve_step lc path st)))"
  using win32_root_ok [of path]
  by (auto simp: win32_resolve_step_def Let_def split: prod.splits)

lemma win32_resolve_step_stop:
  "snd (win32_resolve_step lc path st) \<Longrightarrow> w_absolute (fst (win32_resolve_step lc path st))"
  by (auto simp: win32_resolve_step_def Let_def split: prod.splits if_splits)

lemma win32_resolve_loop_device:
  "win32_resolve_loop lc cwd args n st = Inr st' \<Longrightarrow> dev_ok (w_device st) \<Longrightarrow> dev_ok (w_device st')"
  by (induction lc cwd args n st rule: win32_resolve_loop.induct)
    (auto simp: bindE_Inr_iff win32_resolve_step_device split: if_splits prod.splits,
      (metis fst_conv win32_resolve_step_device)+)

lemma win32_resolve_Inr:
  assumes "win32_resolve lc cwd args = Inr r"
  obtains st where "win32_resolve_loop lc cwd args (Suc (length args)) w_init = Inr st"
    "dev_ok (w_device st)"
    "r = (let t = normalizeString (w_tail st) (\<not> w_absolute st) BACKSLASH isPathSeparator
          in if w_absolute st then w_device st @ BACKSLASH # t
             else if w_device st @ t \<noteq> [] then w_device st @ t else dot)"
proof -
  obtain st where st: "win32_resolve_loop lc cwd args (Suc (length args)) w_init = Inr st"
    using assms by (auto simp: win32_resolve_def bindE_Inr_iff)
  moreover have "dev_ok (w_device st)"
    by (rule win32_resolve_loop_device [OF st]) (simp add: w_init_def dev_okI)
  moreover have "r = (let t = normalizeString (w_tail st) (\<not> w_absolute st) BACKSLASH isPathSeparator
          in if w_absolute st then w_device st @ BACKSLASH # t
             else if w_device st @ t \<noteq> [] then w_device st @ t else dot)"
    using assms by (auto simp: win32_resolve_def st Let_def split: if_split_asm)
  ultimately show ?thesis by (rule that)
qed

text \<open>
  What \<open>win32.resolve\<close> returns has no forward slash, whatever the arguments and the working
  directory.
\<close>

theorem win32_resolve_no_slash:
  assumes "win32_resolve lc cwd args = Inr r"
  shows "CHAR_FORWARD_SLASH \<notin> set r"
  using assms
proof (rule win32_resolve_Inr)
  fix st
  assume "dev_ok (w_device st)"
    and r: "r = (let t = normalizeString (w_tail st) (\<not> w_absolute st) BACKSLASH isPathSeparator
          in if w_absolute st then w_device st @ BACKSLASH # t
             else if w_device st @ t \<noteq> [] then w_device st @ t else dot)"
  then show "CHAR_FORWARD_SLASH \<notin> set r"
    using dev_ok_no_slash win32_normalized_no_slash by (auto simp: Let_def)
qed

text \<open>
  The hypothesis of the previous property holds for \<open>resolve('x/../y')\<close> from \<open>C:\a\<close>.
\<close>

lemma win32_resolve_no_slash_witness:
  "CHAR_FORWARD_SLASH \<notin> set (js ''C:'' @ [BACKSLASH] @ js ''a'' @ [BACKSLASH] @ js ''y'')"
proof -
  have "win32_resolve id (js ''C:'' @ [BACKSLASH] @ js ''a'') [JStr (js ''x/../y'')] =
      Inr (js ''C:'' @ [BACKSLASH] @ js ''a'' @ [BACKSLASH] @ js ''y'')"
    by code_simp
  then show ?thesis by (rule win32_resolve_no_slash)
qed

text \<open>The root scan on a device followed by a backslash: what the last iteration reads.\<close>

lemma clean_name_scan:
  "clean_name s \<Longrightarrow> isPathSeparator c \<Longrightarrow>
     takeWhile (\<lambda>c. \<not> isPathSeparator c) (s @ c # rest) = s"
  by (simp add: clean_name_def clean_segment_def takeWhile_append2)

lemma unc_parts_device:
  assumes "clean_name fp" and "clean_name share"
  shows "unc_parts (unc_device fp share @ [BACKSLASH]) =
     Some (fp, length fp + 3, length fp + 3 + length share)"
proof -
  define p where "p = unc_device fp share @ [BACKSLASH]"
  let ?nsep = "\<lambda>c. \<not> isPathSeparator c"
  have sep: "isPathSeparator BACKSLASH" by (simp add: isPathSeparator_def)
  have p: "p = [BACKSLASH, BACKSLASH] @ fp @ BACKSLASH # share @ [BACKSLASH]"
    by (simp add: p_def unc_device_def)
  have len: "length p = length fp + length share + 4" by (simp add: p)
  define a where "a = length fp + 2"
  have j1: "skip_while ?nsep p 2 = a"
    using clean_name_scan [OF assms(1) sep] by (simp add: skip_while_def p a_def)
  have share: "share \<noteq> []" "\<not> isPathSeparator (hd share)" "fp \<noteq> []"
    using assms by (auto simp: clean_name_def clean_segment_def)
  have d1: "drop a p = BACKSLASH # share @ [BACKSLASH]" by (simp add: p a_def)
  have j2: "skip_while isPathSeparator p a = Suc a"
    unfolding skip_while_def d1 using share sep by (cases share) auto
  have d2: "drop (Suc a) p = share @ [BACKSLASH]" by (simp add: p a_def)
  have j3: "skip_while ?nsep p (Suc a) = Suc a + length share"
    unfolding skip_while_def d2 using clean_name_scan [OF assms(2) sep, of "[]"] by simp
  have fp: "slice p 2 (int a) = fp" "a \<noteq> 2"
    using slice_nat [of p 2 a] share by (simp_all add: p a_def)
  have "a < length p" "Suc a < length p" using len share by (auto simp: a_def)
  then have "unc_parts p = Some (fp, Suc a, Suc a + length share)"
    using fp by (simp add: unc_parts_def Let_def j1 j2 j3)
  then show ?thesis by (simp add: p_def a_def numeral_3_eq_3)
qed

lemma win32_root_device:
  assumes "dev_ok dev" and "dev \<noteq> []"
  shows "\<exists>r. win32_root (dev @ [BACKSLASH]) = (r, dev, True)"
proof -
  consider d where "isWindowsDeviceRoot d" "dev = [d, CHAR_COLON]"
    | fp share where "clean_name fp" "clean_name share" "dev = unc_device fp share"
    using assms by (auto simp: dev_ok_def)
  then show ?thesis
  proof cases
    case 1
    then show ?thesis using slice_0_nat [of "[d, CHAR_COLON, BACKSLASH]" 2] drive_no_sep [of d]
      by (simp add: win32_root_def has_drive_def code_at_def Let_def isPathSeparator_def)
  next
    case 2
    let ?p = "unc_device fp share @ [BACKSLASH]"
    have "slice ?p (int (length fp + 3)) (int (length fp + 3 + length share)) = share"
      using slice_nat [of ?p "length fp + 3" "length fp + 3 + length share"]
      by (simp add: unc_device_def numeral_3_eq_3)
    moreover have "share \<noteq> []" using 2(2) by (simp add: clean_name_def clean_segment_def)
    ultimately show ?thesis using unc_parts_device [OF 2(1,2)] 2(3)
      by (simp add: win32_root_def Let_def code_at_def isPathSeparator_def)
        (simp add: unc_device_def code_at_def)
  qed
qed

definition drive_absolute :: "jstr \<Rightarrow> bool" where
  [js_eval]: "drive_absolute s = (length s \<ge> 3 \<and> has_drive s \<and> s ! 2 = BACKSLASH)"

lemma drive_absolute_cases:
  assumes "drive_absolute s"
  obtains d rest where "isWindowsDeviceRoot d" "s = d # CHAR_COLON # BACKSLASH # rest"
proof -
  obtain d rest where "isWindowsDeviceRoot d" "s = d # CHAR_COLON # rest"
    using assms has_drive_slice [of s] unfolding drive_absolute_def by blast
  moreover obtain rest' where "rest = BACKSLASH # rest'"
    using assms calculation by (cases rest) (auto simp: drive_absolute_def)
  ultimately show ?thesis using that by blast
qed

lemma win32_root_drive:
  "isWindowsDeviceRoot d \<Longrightarrow>
     win32_root (d # CHAR_COLON # BACKSLASH # rest) = (3, [d, CHAR_COLON], True)"
  using slice_0_nat [of "d # CHAR_COLON # BACKSLASH # rest" 2] drive_no_sep [of d]
  by (simp add: win32_root_def has_drive_def code_at_def Let_def isPathSeparator_def)

text \<open>The last iteration makes the path absolute.\<close>

lemma win32_last_step_absolute:
  assumes "drive_absolute cwd" and "dev_ok (w_device st)"
  shows "w_absolute (fst (win32_resolve_step lc (win32_cwd lc cwd (w_device st)) st))"
proof -
  obtain d rest where cwd: "isWindowsDeviceRoot d" "cwd = d # CHAR_COLON # BACKSLASH # rest"
    using assms(1) by (rule drive_absolute_cases)
  have sl: "slice cwd 0 2 = [d, CHAR_COLON]" using slice_0_nat [of cwd 2] cwd(2) by simp
  have at: "code_at (\<lambda>c. c = BACKSLASH) cwd 2" using cwd(2) by (simp add: code_at_def)
  have root: "win32_root cwd = (3, [d, CHAR_COLON], True)" using win32_root_drive cwd by simp
  show ?thesis
  proof (cases "w_device st = [] \<or> lc [d, CHAR_COLON] = lc (w_device st)")
    case True
    then have "win32_cwd lc cwd (w_device st) = cwd" by (auto simp: win32_cwd_def sl)
    then show ?thesis using True root by (auto simp: win32_resolve_step_def)
  next
    case False
    then have "win32_cwd lc cwd (w_device st) = w_device st @ [BACKSLASH]"
      using at by (simp add: win32_cwd_def sl)
    moreover obtain r where "win32_root (w_device st @ [BACKSLASH]) = (r, w_device st, True)"
      using win32_root_device assms(2) False by blast
    ultimately show ?thesis by (auto simp: win32_resolve_step_def)
  qed
qed

lemma win32_resolve_loop_absolute:
  "win32_resolve_loop lc cwd args (Suc k) st = Inr st' \<Longrightarrow> drive_absolute cwd \<Longrightarrow>
     dev_ok (w_device st) \<Longrightarrow> w_absolute st'"
proof (induction k arbitrary: st)
  case 0
  then show ?case using win32_last_step_absolute by auto
next
  case (Suc k)
  then obtain path where path: "validateString (args ! k) (paths_name k) = Inr path"
    by (auto simp: bindE_Inr_iff)
  obtain st1 stop where step: "win32_resolve_step lc path st = (st1, stop)" by fastforce
  have "dev_ok (w_device st1)"
    using win32_resolve_step_device [OF Suc.prems(3), of lc path] step by simp
  then show ?case using Suc path step win32_resolve_step_stop [of lc path st]
    by (auto split: if_splits)
qed

text \<open>
  C39: from an absolute drive path (\<open>C:\...\<close>), \<open>win32.resolve\<close> always returns an absolute path,
  even where the arguments name other drives or UNC shares.
\<close>

theorem win32_resolve_absolute:
  assumes "drive_absolute cwd" and "win32_resolve lc cwd args = Inr r"
  shows "win32_isAbsolute_str r"
  using assms(2)
proof (rule win32_resolve_Inr)
  fix st
  assume loop: "win32_resolve_loop lc cwd args (Suc (length args)) w_init = Inr st"
    and dev: "dev_ok (w_device st)"
    and r: "r = (let t = normalizeString (w_tail st) (\<not> w_absolute st) BACKSLASH isPathSeparator
          in if w_absolute st then w_device st @ BACKSLASH # t
             else if w_device st @ t \<noteq> [] then w_device st @ t else dot)"
  have "w_absolute st"
    by (rule win32_resolve_loop_absolute [OF loop assms(1)]) (simp add: w_init_def dev_okI)
  then show "win32_isAbsolute_str r" using dev r
    by (auto simp: dev_ok_def win32_isAbsolute_str_def code_at_def isPathSeparator_def Let_def
        unc_device_def has_drive_def)
qed

lemma win32_resolve_absolute_witness:
  "win32_isAbsolute_str (js ''D:'' @ [BACKSLASH] @ js ''y'')"
proof -
  have "drive_absolute (js ''C:'' @ [BACKSLASH] @ js ''a'')" by code_simp
  moreover have "win32_resolve id (js ''C:'' @ [BACKSLASH] @ js ''a'') [JStr (js ''D:y'')] =
      Inr (js ''D:'' @ [BACKSLASH] @ js ''y'')"
    by code_simp
  ultimately show ?thesis by (rule win32_resolve_absolute)
qed

section \<open>Agreement with posix\<close>

lemma scan_cong:
  assumes "\<forall>c\<in>set path. isSep c = isSep' c" and "lo + k \<le> length path"
  shows "dirname_scan isSep path lo k m = dirname_scan isSep' path lo k m"
    "basename_scan isSep path lo k m e = basename_scan isSep' path lo k m e"
    "basename_suffix_scan isSep path suf lo k m ei e f =
       basename_suffix_scan isSep' path suf lo k m ei e f"
    "ext_scan isSep path lo k st = ext_scan isSep' path lo k st"
proof -
  have eq: "isSep (path ! (lo + j)) = isSep' (path ! (lo + j))" if "j < k" for j
    using assms that by auto
  show "dirname_scan isSep path lo k m = dirname_scan isSep' path lo k m"
    using eq by (induction k arbitrary: m) auto
  show "basename_scan isSep path lo k m e = basename_scan isSep' path lo k m e"
    using eq by (induction k arbitrary: m e) auto
  show "basename_suffix_scan isSep path suf lo k m ei e f =
       basename_suffix_scan isSep' path suf lo k m ei e f"
    using eq by (induction k arbitrary: m ei e f) (auto simp: Let_def)
  show "ext_scan isSep path lo k st = ext_scan isSep' path lo k st"
    using eq by (induction k arbitrary: st) auto
qed

lemma dirname_scan_first:
  "\<not> isSep (path ! lo) \<Longrightarrow>
     dirname_scan isSep path lo (Suc k) m = dirname_scan isSep path (Suc lo) k m"
  by (induction k arbitrary: m) simp_all

lemma dirname_scan_at: "dirname_scan isSep path lo k m = int i \<Longrightarrow> isSep (path ! i)"
  by (induction k arbitrary: m) (auto split: if_splits simp flip: of_nat_add)

text \<open>
  C40: on a path without backslashes and colons, \<open>win32.basename\<close> (with any suffix) and
  \<open>win32.extname\<close> return what their \<open>posix\<close> counterparts return, and \<open>dirname\<close> does unless the
  path starts with two slashes.
\<close>

theorem win32_agrees_with_posix:
  assumes "BACKSLASH \<notin> set path" and "CHAR_COLON \<notin> set path"
  shows "win32_basename_str path sfx = posix_basename_str path sfx \<and>
    win32_extname_str path = posix_extname_str path \<and>
    (take 2 path \<noteq> [SLASH, SLASH] \<longrightarrow> win32_dirname_str path = posix_dirname_str path)"
proof -
  have sep: "\<forall>c\<in>set path. isPathSeparator c = (c = SLASH)"
    using assms(1) by (auto simp: isPathSeparator_def)
  note scans = scan_cong [OF sep] and whole = scan_cong [OF sep, of 0 "length path", simplified]
  have drive: "\<not> has_drive path"
    using assms(2) unfolding has_drive_def code_at_def by (metis nth_mem)
  have first: "code_at isPathSeparator path i = code_at (\<lambda>c. c = SLASH) path i" for i
    using sep by (cases "i < length path") (simp_all add: code_at_def)
  have base: "win32_basename_str path sfx = posix_basename_str path sfx"
    by (simp add: win32_basename_str_def posix_basename_str_def drive Let_def whole(2,3))
  have ext: "win32_extname_str path = posix_extname_str path"
    by (simp add: win32_extname_str_def posix_extname_str_def drive Let_def whole(4))
  have "win32_dirname_str path = posix_dirname_str path" if dbl: "take 2 path \<noteq> [SLASH, SLASH]"
  proof -
    consider "path = []" | c where "path = [c]" | c c' rest where "path = c # c' # rest"
      by (cases path; cases "tl path") auto
    then show ?thesis
    proof cases
      case 3
      let ?e1 = "dirname_scan (\<lambda>c. c = SLASH) path 1 (length path - 1) True"
      have "dirname_scan isPathSeparator path 1 (length path - 1) True = ?e1"
        using 3 by (intro scans(1)) simp
      moreover have "dirname_scan isPathSeparator path 0 (length path) True = ?e1" if "c \<noteq> SLASH"
        using 3 that scans(1) [of 0 "length path" True]
          dirname_scan_first [of "\<lambda>c. c = SLASH" path 0 "length path - 1" True] by simp
      moreover have "?e1 \<noteq> 1" if "c = SLASH"
        using dirname_scan_at [of "\<lambda>c. c = SLASH" path 1 "length path - 1" True 1] 3 dbl that by auto
      moreover have "slice path 0 1 = [c]" using 3 slice_0_nat [of path 1] by simp
      moreover have "win32_dir_root path = Some (if c = SLASH then (1, 1) else (-1, 0))"
        using 3 dbl drive first [of 0] first [of 1]
        by (simp add: win32_dir_root_def code_at_def Let_def)
      moreover have "length path > 1" "code_at (\<lambda>c. c = SLASH) path 0 = (c = SLASH)"
        using 3 by (simp_all add: code_at_def)
      ultimately show ?thesis
        by (cases "c = SLASH") (simp_all add: win32_dirname_str_def posix_dirname_str_def Let_def 3)
    qed (use assms(1) in \<open>auto simp: win32_dirname_str_def posix_dirname_str_def code_at_def
        isPathSeparator_def\<close>)
  qed
  then show ?thesis using base ext by blast
qed

lemma win32_agrees_with_posix_witness:
  "win32_basename_str (js ''a/b.c'') None = posix_basename_str (js ''a/b.c'') None \<and>
   win32_dirname_str (js ''a/b.c'') = js ''a''"
proof -
  have "BACKSLASH \<notin> set (js ''a/b.c'')" "CHAR_COLON \<notin> set (js ''a/b.c'')"
    "take 2 (js ''a/b.c'') \<noteq> [SLASH, SLASH]" "posix_dirname_str (js ''a/b.c'') = js ''a''"
    by code_simp+
  then show ?thesis using win32_agrees_with_posix [of "js ''a/b.c''" None] by simp
qed

end
