(* ===== verification/Unicode.thy ===== *)
theory Unicode
  imports JS_Prelude
begin

unbundle bit_operations_syntax

text \<open>
  Code points, UTF-16 and UTF-8, and the two standard functions of the language that the URL and
  query-string modules build on: \<open>encodeURIComponent\<close> and \<open>decodeURIComponent\<close> (ECMA-262, with
  the URIError cases). The main facts are that UTF-16 units and code points determine each other,
  and that \<open>decodeURIComponent\<close> undoes the percent-encoding of any scalar values.
\<close>

section \<open>Code points and UTF-16\<close>

definition is_high :: "nat \<Rightarrow> bool" where
  [js_eval]: "is_high c = (0xD800 \<le> c \<and> c \<le> 0xDBFF)"

definition is_low :: "nat \<Rightarrow> bool" where
  [js_eval]: "is_low c = (0xDC00 \<le> c \<and> c \<le> 0xDFFF)"

definition surrogate :: "nat \<Rightarrow> bool" where
  [js_eval]: "surrogate c = (0xD800 \<le> c \<and> c \<le> 0xDFFF)"

definition scalar :: "nat \<Rightarrow> bool" where
  [js_eval]: "scalar cp = (cp < 0x110000 \<and> \<not> surrogate cp)"

definition utf16 :: "nat \<Rightarrow> jstr" where
  [js_eval]: "utf16 cp =
     (if cp < 0x10000 then [cp]
      else [0xD800 + (cp - 0x10000) div 0x400, 0xDC00 + (cp - 0x10000) mod 0x400])"

definition pair_value :: "nat \<Rightarrow> nat \<Rightarrow> nat" where
  [js_eval]: "pair_value c d = 0x10000 + (c - 0xD800) * 0x400 + (d - 0xDC00)"

text \<open>The code points of a string; a surrogate without its partner stands for itself.\<close>

fun code_points :: "jstr \<Rightarrow> nat list" where
  "code_points [] = []"
| "code_points [c] = [c]"
| "code_points (c # d # cs) =
     (if is_high c \<and> is_low d then pair_value c d # code_points cs else c # code_points (d # cs))"

definition utf16s :: "nat list \<Rightarrow> jstr" where
  [js_eval]: "utf16s cps = concat (map utf16 cps)"

lemma utf16s_simps [simp]:
  "utf16s [] = []" "utf16s (c # cs) = utf16 c @ utf16s cs" "utf16s (xs @ ys) = utf16s xs @ utf16s ys"
  by (simp_all add: utf16s_def)

lemma utf16_pair: "is_high c \<Longrightarrow> is_low d \<Longrightarrow> utf16 (pair_value c d) = [c, d]"
proof -
  assume h: "is_high c" and l: "is_low d"
  define a b where "a = c - 0xD800" and "b = d - 0xDC00"
  have a: "c = 0xD800 + a" "a < 0x400" and b: "d = 0xDC00 + b" "b < 0x400"
    using h l by (auto simp: a_def b_def is_high_def is_low_def)
  have "(a * 1024 + b) div 1024 = a" "(a * 1024 + b) mod 1024 = b" using b(2) by simp_all
  then show ?thesis using a b by (simp add: utf16_def pair_value_def)
qed

lemma utf16_unit [simp]: "c < 0x10000 \<Longrightarrow> utf16 c = [c]"
  by (simp add: utf16_def)

lemma utf16s_code_points: "wf_jstr s \<Longrightarrow> utf16s (code_points s) = s"
  by (induction s rule: code_points.induct) (auto simp: wf_jstr_def utf16_pair)

definition well_formed :: "jstr \<Rightarrow> bool" where
  [js_eval]: "well_formed s = (list_all (\<lambda>c. c < 65536) s \<and> list_all scalar (code_points s))"

lemma utf16_units: "scalar cp \<Longrightarrow> \<forall>c\<in>set (utf16 cp). c < 65536"
  by (auto simp: utf16_def scalar_def)

lemma utf16_high_low:
  assumes "scalar cp" and "0x10000 \<le> cp"
  obtains c d where "utf16 cp = [c, d]" "is_high c" "is_low d" "pair_value c d = cp"
proof -
  define n where "n = cp - 0x10000"
  have cp: "cp = 0x10000 + n" and n: "n < 0x100000"
    using assms by (auto simp: n_def scalar_def)
  have "n div 0x400 < 0x400" using n by simp
  then have "is_high (0xD800 + n div 0x400)" "is_low (0xDC00 + n mod 0x400)"
    by (auto simp: is_high_def is_low_def less_Suc_eq_le [symmetric])
  then show ?thesis using that cp by (simp add: utf16_def pair_value_def)
qed

lemma scalar_unit: "scalar cp \<Longrightarrow> \<not> is_high cp \<and> \<not> is_low cp"
  by (auto simp: scalar_def surrogate_def is_high_def is_low_def)

lemma code_points_cons: "\<not> is_high c \<Longrightarrow> code_points (c # cs) = c # code_points cs"
  by (cases cs) auto

lemma code_points_utf16: "scalar cp \<Longrightarrow> code_points (utf16 cp @ s) = cp # code_points s"
proof (cases "0x10000 \<le> cp")
  case True
  assume "scalar cp"
  then show ?thesis by (rule utf16_high_low [OF _ True]) auto
next
  case False
  assume "scalar cp"
  then show ?thesis using False scalar_unit by (simp add: code_points_cons)
qed

lemma code_points_utf16s: "list_all scalar cps \<Longrightarrow> code_points (utf16s cps) = cps"
  by (induction cps) (simp_all add: code_points_utf16)

lemma well_formed_utf16s: "list_all scalar cps \<Longrightarrow> well_formed (utf16s cps)"
  using utf16_units
  by (auto simp: well_formed_def code_points_utf16s list_all_iff) (auto simp: utf16s_def)

lemma well_formedE:
  assumes "well_formed s"
  obtains cps where "list_all scalar cps" "s = utf16s cps" "code_points s = cps"
  using assms utf16s_code_points [of s]
  by (metis well_formed_def wf_jstr_def list_all_iff)

section \<open>UTF-8\<close>

definition utf8 :: "nat \<Rightarrow> bytes" where
  [js_eval]: "utf8 cp =
     (if cp < 0x80 then [cp]
      else if cp < 0x800 then [0xC0 + cp div 64, 0x80 + cp mod 64]
      else if cp < 0x10000 then [0xE0 + cp div 4096, 0x80 + cp div 64 mod 64, 0x80 + cp mod 64]
      else [0xF0 + cp div 262144, 0x80 + cp div 4096 mod 64, 0x80 + cp div 64 mod 64,
            0x80 + cp mod 64])"

text \<open>The number of octets a leading octet announces (its leading 1 bits), 0 for ASCII.\<close>

definition leading_ones :: "nat \<Rightarrow> nat" where
  [js_eval]: "leading_ones b =
     (if b < 0x80 then 0 else if b < 0xC0 then 1 else if b < 0xE0 then 2 else if b < 0xF0 then 3
      else if b < 0xF8 then 4 else 5)"

text \<open>The value of a sequence of octets, and whether the sequence is the encoding of a scalar.\<close>

definition octets_value :: "bytes \<Rightarrow> nat" where
  [js_eval]: "octets_value bs =
     foldl (\<lambda>v b. v * 64 + b mod 64) (hd bs mod 2 ^ (7 - length bs)) (tl bs)"

definition utf8_valid :: "bytes \<Rightarrow> bool" where
  [js_eval]: "utf8_valid bs = (scalar (octets_value bs) \<and> utf8 (octets_value bs) = bs)"

lemma utf8_cases:
  assumes "scalar cp"
  obtains (one) "cp < 0x80" "utf8 cp = [cp]"
  | (two) a b where "utf8 cp = [0xC0 + a, 0x80 + b]" "2 \<le> a" "a < 32" "b < 64" "0x80 \<le> cp" "cp = a * 64 + b"
  | (three) a b c where "utf8 cp = [0xE0 + a, 0x80 + b, 0x80 + c]" "a < 16" "b < 64" "c < 64"
      "0x800 \<le> cp" "cp = (a * 64 + b) * 64 + c"
  | (four) a b c d where "utf8 cp = [0xF0 + a, 0x80 + b, 0x80 + c, 0x80 + d]" "a < 5" "b < 64"
      "c < 64" "d < 64" "0x10000 \<le> cp" "cp = ((a * 64 + b) * 64 + c) * 64 + d"
proof -
  consider "cp < 0x80" | "0x80 \<le> cp" "cp < 0x800" | "0x800 \<le> cp" "cp < 0x10000" | "0x10000 \<le> cp"
    by linarith
  then show ?thesis
  proof cases
    case 1
    then show ?thesis using one by (simp add: utf8_def)
  next
    case 2
    then have "2 \<le> cp div 64" "cp div 64 < 32" by auto
    then show ?thesis using 2 two [of "cp div 64" "cp mod 64"] by (simp add: utf8_def)
  next
    case 3
    have "cp div 4096 = cp div 64 div 64" using div_mult2_eq [of cp 64 64] by simp
    then have eq: "cp = (cp div 4096 * 64 + cp div 64 mod 64) * 64 + cp mod 64"
      using div_mult_mod_eq [of cp 64] div_mult_mod_eq [of "cp div 64" 64] by simp
    show ?thesis
      by (rule three [OF _ _ _ _ _ eq]) (use 3 in \<open>auto simp: utf8_def\<close>)
  next
    case 4
    have "cp div 262144 = cp div 64 div 64 div 64" "cp div 4096 = cp div 64 div 64"
      using div_mult2_eq [of cp 64 64] div_mult2_eq [of cp 4096 64] by simp_all
    then have eq: "cp = ((cp div 262144 * 64 + cp div 4096 mod 64) * 64 + cp div 64 mod 64) * 64 + cp mod 64"
      using div_mult_mod_eq [of cp 64] div_mult_mod_eq [of "cp div 64" 64]
        div_mult_mod_eq [of "cp div 64 div 64" 64] by simp
    show ?thesis
      by (rule four [OF _ _ _ _ _ _ eq]) (use 4 assms in \<open>auto simp: utf8_def scalar_def\<close>)
  qed
qed

lemma utf8_bounds: "scalar cp \<Longrightarrow> \<forall>b\<in>set (utf8 cp). b < 256"
  by (erule utf8_cases) auto

lemma low_bits:
  fixes a b :: nat
  shows "a < 32 \<Longrightarrow> (192 + a) mod 32 = a" "a < 16 \<Longrightarrow> (224 + a) mod 16 = a"
    "a < 8 \<Longrightarrow> (240 + a) mod 8 = a" "b < 64 \<Longrightarrow> (128 + b) mod 64 = b"
  using mod_mult_self4 [of 32 6 a] mod_mult_self4 [of 16 14 a] mod_mult_self4 [of 8 30 a]
    mod_mult_self4 [of 64 2 b] by simp_all

lemma octets_value_utf8: "scalar cp \<Longrightarrow> 0x80 \<le> cp \<Longrightarrow> octets_value (utf8 cp) = cp"
  by (erule utf8_cases) (auto simp: octets_value_def low_bits)

lemma utf8_valid_utf8: "scalar cp \<Longrightarrow> 0x80 \<le> cp \<Longrightarrow> utf8_valid (utf8 cp)"
  by (simp add: utf8_valid_def octets_value_utf8)

lemma leading_ones_utf8:
  "scalar cp \<Longrightarrow> leading_ones (hd (utf8 cp)) = (if cp < 0x80 then 0 else length (utf8 cp))"
  by (erule utf8_cases) (auto simp: leading_ones_def)

section \<open>Percent-encoding\<close>

definition hex_upper :: "nat \<Rightarrow> nat" where
  [js_eval]: "hex_upper d = (if d < 10 then 48 + d else 55 + d)"

definition hex_value :: "nat \<Rightarrow> nat option" where
  [js_eval]: "hex_value c =
     (if 48 \<le> c \<and> c \<le> 57 then Some (c - 48)
      else if 65 \<le> c \<and> c \<le> 70 then Some (c - 55)
      else if 97 \<le> c \<and> c \<le> 102 then Some (c - 87) else None)"

abbreviation PERCENT :: nat where "PERCENT \<equiv> 37"

definition pct :: "nat \<Rightarrow> jstr" where
  [js_eval]: "pct b = [PERCENT, hex_upper (b div 16), hex_upper (b mod 16)]"

definition pcts :: "bytes \<Rightarrow> jstr" where
  [js_eval]: "pcts bs = concat (map pct bs)"

lemma pcts_simps [simp]: "pcts [] = []" "pcts (b # bs) = pct b @ pcts bs"
  "pcts (xs @ ys) = pcts xs @ pcts ys"
  by (simp_all add: pcts_def)

lemma hex_value_upper [simp]: "d < 16 \<Longrightarrow> hex_value (hex_upper d) = Some d"
  by (auto simp: hex_value_def hex_upper_def)

text \<open>An escape sequence at the start of a string: its octet and what follows.\<close>

definition pct_octet :: "jstr \<Rightarrow> (nat \<times> jstr) option" where
  [js_eval]: "pct_octet s =
     (case s of
        p # h # l # rest \<Rightarrow>
          if p = PERCENT
          then case (hex_value h, hex_value l) of
                 (Some a, Some b) \<Rightarrow> Some (16 * a + b, rest) | _ \<Rightarrow> None
          else None
      | _ \<Rightarrow> None)"

lemma pct_octet_pct [simp]: "b < 256 \<Longrightarrow> pct_octet (pct b @ rest) = Some (b, rest)"
  by (simp add: pct_octet_def pct_def)

lemma pct_octet_rest:
  assumes "pct_octet s = Some (b, rest)"
  shows "s = take 3 s @ rest \<and> length (take 3 s) = 3 \<and> length rest < length s"
  using assms
  by (auto simp: pct_octet_def numeral_3_eq_3 split: list.splits if_splits option.splits)

lemma pct_octet_cons: "c \<noteq> PERCENT \<Longrightarrow> pct_octet (c # s) = None"
  by (auto simp: pct_octet_def split: list.splits)

fun take_octets :: "nat \<Rightarrow> jstr \<Rightarrow> (bytes \<times> jstr) option" where
  "take_octets 0 s = Some ([], s)"
| "take_octets (Suc n) s =
     (case pct_octet s of
        None \<Rightarrow> None
      | Some (b, rest) \<Rightarrow>
          (case take_octets n rest of None \<Rightarrow> None | Some (bs, rest') \<Rightarrow> Some (b # bs, rest')))"

lemma take_octets_pcts:
  "\<forall>b\<in>set bs. b < 256 \<Longrightarrow> take_octets (length bs) (pcts bs @ rest) = Some (bs, rest)"
  by (induction bs) simp_all

lemma take_octets_length: "take_octets n s = Some (bs, rest) \<Longrightarrow> length rest \<le> length s"
proof (induction n arbitrary: s bs)
  case (Suc n)
  then obtain b s' bs' where "pct_octet s = Some (b, s')" "take_octets n s' = Some (bs', rest)"
    by (auto split: option.splits)
  then show ?case using Suc.IH pct_octet_rest by fastforce
qed simp

text \<open>
  \<open>decodeURIComponent\<close>: a percent sign must start an escape sequence; an octet with leading 1 bits
  announces a sequence of octets that must be the UTF-8 encoding of a scalar value.
\<close>

function decodeURIComponent :: "jstr \<Rightarrow> js_error + jstr" where
  "decodeURIComponent s =
     (case s of
        [] \<Rightarrow> Inr []
      | c # cs \<Rightarrow>
          if c \<noteq> PERCENT then bindE (decodeURIComponent cs) (\<lambda>out. Inr (c # out))
          else case pct_octet s of
                 None \<Rightarrow> Inl URIError
               | Some (b, rest) \<Rightarrow>
                   if leading_ones b = 0
                   then bindE (decodeURIComponent rest) (\<lambda>out. Inr (b # out))
                   else if leading_ones b = 1 \<or> leading_ones b > 4 then Inl URIError
                   else case take_octets (leading_ones b - 1) rest of
                          None \<Rightarrow> Inl URIError
                        | Some (bs, rest') \<Rightarrow>
                            if utf8_valid (b # bs)
                            then bindE (decodeURIComponent rest')
                                   (\<lambda>out. Inr (utf16 (octets_value (b # bs)) @ out))
                            else Inl URIError)"
  by pat_completeness auto
termination
proof (relation "measure length", goal_cases)
  case (3 s c cs x b rest)
  then show ?case using pct_octet_rest [of s b rest] by auto
next
  case (4 s c cs x b rest y bs rest')
  then show ?case using pct_octet_rest [of s b rest] take_octets_length [of _ rest bs rest']
    by fastforce
qed auto

declare decodeURIComponent.simps [simp del]

lemma decodeURIComponent_Nil [simp]: "decodeURIComponent [] = Inr []"
  by (subst decodeURIComponent.simps) simp

lemma decodeURIComponent_char:
  "c \<noteq> PERCENT \<Longrightarrow>
     decodeURIComponent (c # cs) = bindE (decodeURIComponent cs) (\<lambda>out. Inr (c # out))"
  by (subst decodeURIComponent.simps) simp

lemma decodeURIComponent_scalar:
  assumes "scalar cp"
  shows "decodeURIComponent (pcts (utf8 cp) @ rest) =
     bindE (decodeURIComponent rest) (\<lambda>out. Inr (utf16 cp @ out))"
proof -
  obtain b bs where u: "utf8 cp = b # bs" by (cases "utf8 cp") (auto simp: utf8_def split: if_splits)
  have bs: "\<forall>x\<in>set bs. x < 256" "b < 256" using utf8_bounds [OF assms] u by auto
  have ones: "leading_ones b = (if cp < 0x80 then 0 else Suc (length bs))"
    using leading_ones_utf8 [OF assms] u by simp
  obtain r where s: "pcts (utf8 cp) @ rest = PERCENT # r" and
    oct: "pct_octet (PERCENT # r) = Some (b, pcts bs @ rest)"
    using pct_octet_pct [OF bs(2), of "pcts bs @ rest"] u by (simp add: pct_def)
  show ?thesis
  proof (cases "cp < 0x80")
    case True
    then have "bs = []" "b = cp" using u by (auto simp: utf8_def)
    then show ?thesis unfolding s using oct ones True
      by (subst decodeURIComponent.simps) simp
  next
    case False
    have "length bs < 4" "bs \<noteq> []" using u False by (auto simp: utf8_def split: if_splits)
    then show ?thesis
      unfolding s using oct ones False take_octets_pcts [OF bs(1), of rest] utf8_valid_utf8 [OF assms]
        octets_value_utf8 [OF assms] u
      by (subst decodeURIComponent.simps) simp
  qed
qed

text \<open>A percent-encoding in which some scalars (never the percent sign) stand for themselves.\<close>

definition pct_scalar :: "(nat \<Rightarrow> bool) \<Rightarrow> nat \<Rightarrow> jstr" where
  [js_eval]: "pct_scalar plain cp = (if plain cp then [cp] else pcts (utf8 cp))"

definition pct_string :: "(nat \<Rightarrow> bool) \<Rightarrow> nat list \<Rightarrow> jstr" where
  [js_eval]: "pct_string plain cps = concat (map (pct_scalar plain) cps)"

lemma pct_string_simps [simp]:
  "pct_string plain [] = []"
  "pct_string plain (c # cs) = pct_scalar plain c @ pct_string plain cs"
  "pct_string plain (xs @ ys) = pct_string plain xs @ pct_string plain ys"
  by (simp_all add: pct_string_def)

definition plain_set :: "(nat \<Rightarrow> bool) \<Rightarrow> bool" where
  "plain_set plain = (\<forall>c. plain c \<longrightarrow> c < 0x10000 \<and> c \<noteq> PERCENT)"

lemma decodeURIComponent_pct_string:
  assumes "plain_set plain" and "list_all scalar cps"
  shows "decodeURIComponent (pct_string plain cps) = Inr (utf16s cps)"
  using assms(2)
proof (induction cps)
  case (Cons cp cps)
  then show ?case
  proof (cases "plain cp")
    case True
    then show ?thesis using Cons assms(1)
      by (auto simp: pct_scalar_def plain_set_def decodeURIComponent_char)
  next
    case False
    then show ?thesis using Cons by (simp add: pct_scalar_def decodeURIComponent_scalar)
  qed
qed simp

section \<open>encodeURIComponent\<close>

definition uri_unreserved :: "nat \<Rightarrow> bool" where
  [js_eval]: "uri_unreserved c =
     ((65 \<le> c \<and> c \<le> 90) \<or> (97 \<le> c \<and> c \<le> 122) \<or> (48 \<le> c \<and> c \<le> 57) \<or>
      c = 45 \<or> c = 46 \<or> c = 95 \<or> c = 126 \<or> c = 33 \<or> c = 39 \<or> c = 40 \<or> c = 41 \<or> c = 42)"

definition encodeURIComponent :: "jstr \<Rightarrow> js_error + jstr" where
  [js_eval]: "encodeURIComponent s =
     (if list_all (\<lambda>c. \<not> surrogate c) (code_points s)
      then Inr (pct_string uri_unreserved (code_points s)) else Inl URIError)"

lemma uri_unreserved_plain: "plain_set uri_unreserved"
  by (auto simp: plain_set_def uri_unreserved_def)

lemma decode_encodeURIComponent:
  "well_formed s \<Longrightarrow> bindE (encodeURIComponent s) decodeURIComponent = Inr s"
proof (erule well_formedE)
  fix cps assume "list_all scalar cps" "s = utf16s cps" "code_points s = cps"
  then show ?thesis using decodeURIComponent_pct_string [OF uri_unreserved_plain, of cps]
    by (auto simp: encodeURIComponent_def list_all_iff scalar_def)
qed

end
