(* ===== verification/Querystring.thy ===== *)
theory Querystring
  imports Unicode "HOL-Library.AList"
begin

text \<open>
  The module \<open>builtin/querystring.js\<close>: \<open>escape\<close>, \<open>unescapeBuffer\<close>, \<open>unescape\<close>, \<open>stringify\<close> and
  \<open>parse\<close>. \<open>Buffer.from(s, 'utf8')\<close> and \<open>buffer.toString()\<close> are the arguments \<open>buf_from\<close> and
  \<open>buf_toString\<close>; the conversion of values that are no strings is \<open>to_string\<close>. Objects are
  association lists in the order \<open>Object.keys\<close> enumerates them.
\<close>

section \<open>Tables\<close>

definition hexTable :: "jstr list" where
  "hexTable = map pct [0..<256]"

definition unhexTable :: "int list" where
  [js_eval]: "unhexTable =
     replicate 48 (-1) @ [0, 1, 2, 3, 4, 5, 6, 7, 8, 9] @ replicate 6 (-1) @ [-1, 10, 11, 12, 13, 14, 15] @
     replicate 9 (-1) @ replicate 16 (-1) @ [-1, 10, 11, 12, 13, 14, 15] @ replicate 9 (-1) @
     replicate 16 (-1)"

text \<open>A character code beyond the table reads \<open>undefined\<close>, which no comparison holds of.\<close>

definition unhex :: "nat \<Rightarrow> int" where
  [js_eval]: "unhex c = (if c < length unhexTable then unhexTable ! c else -1)"

section \<open>unescapeBuffer\<close>

function ub_loop ::
  "(jstr \<Rightarrow> bytes) \<Rightarrow> jstr \<Rightarrow> bool \<Rightarrow> nat \<Rightarrow> nat \<Rightarrow> bytes list \<Rightarrow> nat \<times> bytes list" where
  "ub_loop buf_from s decodeSpaces i lastPos chunks =
     (if i < length s
      then let c = s ! i;
               pending = (if i > lastPos then chunks @ [buf_from (slice s (int lastPos) (int i))]
                          else chunks)
           in if decodeSpaces \<and> c = 0x2B
              then ub_loop buf_from s decodeSpaces (i + 1) (i + 1) (pending @ [buf_from [32]])
              else if c = 0x25 \<and> i + 2 < length s
              then let hexHigh = unhex (s ! (i + 1)); hexLow = unhex (s ! (i + 2))
                   in if hexHigh \<ge> 0 \<and> hexLow \<ge> 0
                      then ub_loop buf_from s decodeSpaces (i + 3) (i + 3)
                             (pending @ [[push_bit 4 (nat hexHigh) OR nat hexLow]])
                      else ub_loop buf_from s decodeSpaces (i + 1) lastPos chunks
              else ub_loop buf_from s decodeSpaces (i + 1) lastPos chunks
      else (lastPos, chunks))"
  by pat_completeness auto
termination
  by (relation "measure (\<lambda>(buf_from, s, decodeSpaces, i, lastPos, chunks). length s - i)") auto

declare ub_loop.simps [simp del]

definition unescapeBuffer :: "(jstr \<Rightarrow> bytes) \<Rightarrow> jstr \<Rightarrow> bool \<Rightarrow> bytes" where
  [js_eval]: "unescapeBuffer buf_from s decodeSpaces =
     (let (lastPos, chunks) = ub_loop buf_from s decodeSpaces 0 0 []
      in if lastPos = 0 then buf_from s
         else let chunks' = (if lastPos < length s
                             then chunks @ [buf_from (slice_from s (int lastPos))] else chunks)
              in if length chunks' = 1 then chunks' ! 0 else concat chunks')"

section \<open>escape and unescape\<close>

definition unescape ::
  "(jstr \<Rightarrow> bytes) \<Rightarrow> (bytes \<Rightarrow> jstr) \<Rightarrow> jstr \<Rightarrow> bool \<Rightarrow> jstr" where
  [js_eval]: "unescape buf_from buf_toString s decodeSpaces =
     (case decodeURIComponent s of
        Inr out \<Rightarrow> out
      | Inl _ \<Rightarrow> buf_toString (unescapeBuffer buf_from s decodeSpaces))"

definition surrogate_value :: "nat \<Rightarrow> nat \<Rightarrow> nat" where
  [js_eval]: "surrogate_value c lo = 0x10000 + push_bit 10 (c AND 0x3FF) + (lo AND 0x3FF)"

definition escape_2 :: "nat \<Rightarrow> jstr" where
  [js_eval]: "escape_2 c = hexTable ! (0xC0 OR drop_bit 6 c) @ hexTable ! (0x80 OR (c AND 0x3F))"

definition escape_3 :: "nat \<Rightarrow> jstr" where
  [js_eval]: "escape_3 c = hexTable ! (0xE0 OR drop_bit 12 c) @
     hexTable ! (0x80 OR (drop_bit 6 c AND 0x3F)) @ hexTable ! (0x80 OR (c AND 0x3F))"

definition escape_4 :: "nat \<Rightarrow> jstr" where
  [js_eval]: "escape_4 codepoint = hexTable ! (0xF0 OR drop_bit 18 codepoint) @
     hexTable ! (0x80 OR (drop_bit 12 codepoint AND 0x3F)) @
     hexTable ! (0x80 OR (drop_bit 6 codepoint AND 0x3F)) @
     hexTable ! (0x80 OR (codepoint AND 0x3F))"

function escape_loop :: "jstr \<Rightarrow> nat \<Rightarrow> nat \<Rightarrow> jstr \<Rightarrow> js_error + jstr" where
  "escape_loop str i lastPos out =
     (if i < length str
      then let c = str ! i
           in if uri_unreserved c then escape_loop str (i + 1) lastPos out
              else let out1 = (if i > lastPos then out @ slice str (int lastPos) (int i) else out)
                   in if c < 0x80 then escape_loop str (i + 1) (i + 1) (out1 @ hexTable ! c)
                      else if c < 0x800 then escape_loop str (i + 1) (i + 1) (out1 @ escape_2 c)
                      else if 0xD800 \<le> c \<and> c \<le> 0xDBFF
                      then if i + 1 \<ge> length str then Inl ERR_INVALID_URI
                           else escape_loop str (i + 2) (i + 2)
                                  (out1 @ escape_4 (surrogate_value c (str ! (i + 1))))
                      else if 0xDC00 \<le> c \<and> c \<le> 0xDFFF then Inl ERR_INVALID_URI
                      else escape_loop str (i + 1) (i + 1) (out1 @ escape_3 c)
      else Inr (if lastPos = 0 then str
                else if lastPos < length str then out @ slice_from str (int lastPos)
                else out))"
  by pat_completeness auto
termination
  by (relation "measure (\<lambda>(str, i, lastPos, out). length str - i)") auto

declare escape_loop.simps [simp del]

definition escape_str :: "jstr \<Rightarrow> js_error + jstr" where
  [js_eval]: "escape_str str = escape_loop str 0 0 []"

definition escape :: "(jsval \<Rightarrow> js_error + jstr) \<Rightarrow> jsval \<Rightarrow> js_error + jstr" where
  [js_eval]: "escape to_string str =
     bindE (case str of JStr s \<Rightarrow> Inr s | _ \<Rightarrow> to_string str) escape_str"

section \<open>stringify\<close>

definition or_default :: "jstr option \<Rightarrow> jstr \<Rightarrow> jstr" where
  [js_eval]: "or_default v d = (case v of None \<Rightarrow> d | Some s \<Rightarrow> if s = [] then d else s)"

definition isFinite :: "jsnum \<Rightarrow> bool" where
  [js_eval]: "isFinite n = (case n of Num _ \<Rightarrow> True | _ \<Rightarrow> False)"

definition encodeStringifiedPrimitive ::
  "(jsval \<Rightarrow> js_error + jstr) \<Rightarrow> (jstr \<Rightarrow> js_error + jstr) \<Rightarrow> jsval \<Rightarrow> js_error + jstr" where
  [js_eval]: "encodeStringifiedPrimitive to_string encode v =
     (case v of
        JStr s \<Rightarrow> if length s > 0 then encode s else Inr []
      | JNum n \<Rightarrow> if isFinite n then bindE (to_string v) encode else Inr []
      | JBigInt _ \<Rightarrow> to_string v
      | JBool b \<Rightarrow> Inr (if b then js ''true'' else js ''false'')
      | _ \<Rightarrow> Inr [])"

text \<open>The enumerable own properties of an object; an array's are its indices.\<close>

definition object_entries :: "jsval \<Rightarrow> (jstr \<times> jsval) list" where
  [js_eval]: "object_entries obj =
     (case obj of
        JObject es \<Rightarrow> es
      | JArray vs \<Rightarrow> zip (map nat_digits [0..<length vs]) vs
      | _ \<Rightarrow> [])"

fun qs_values ::
  "(jsval \<Rightarrow> js_error + jstr) \<Rightarrow> (jstr \<Rightarrow> js_error + jstr) \<Rightarrow> jstr \<Rightarrow> jsval list \<Rightarrow> js_error + jstr list" where
  "qs_values to_string encode ks [] = Inr []"
| "qs_values to_string encode ks (v # vs) =
     bindE (encodeStringifiedPrimitive to_string encode v) (\<lambda>e.
     bindE (qs_values to_string encode ks vs) (\<lambda>fields. Inr ((ks @ e) # fields)))"

fun qs_fields ::
  "(jsval \<Rightarrow> js_error + jstr) \<Rightarrow> (jstr \<Rightarrow> js_error + jstr) \<Rightarrow> jstr \<Rightarrow> (jstr \<times> jsval) list \<Rightarrow>
     js_error + jstr list" where
  "qs_fields to_string encode eq [] = Inr []"
| "qs_fields to_string encode eq ((k, v) # entries) =
     bindE (encode k) (\<lambda>k'.
     bindE (case v of
              JArray vs \<Rightarrow> qs_values to_string encode (k' @ eq) vs
            | _ \<Rightarrow> qs_values to_string encode (k' @ eq) [v]) (\<lambda>these.
     bindE (qs_fields to_string encode eq entries) (\<lambda>others. Inr (these @ others))))"

definition qs_stringify ::
  "(jsval \<Rightarrow> js_error + jstr) \<Rightarrow> jsval \<Rightarrow> jstr option \<Rightarrow> jstr option \<Rightarrow>
     (jstr \<Rightarrow> js_error + jstr) option \<Rightarrow> js_error + jstr" where
  [js_eval]: "qs_stringify to_string obj sep eq encodeOption =
     (let sep' = or_default sep [38]; eq' = or_default eq [61];
          encode = (case encodeOption of None \<Rightarrow> escape_str | Some f \<Rightarrow> f)
      in if obj = JNull \<or> typeof obj \<noteq> ''object'' then Inr []
         else bindE (qs_fields to_string encode eq' (object_entries obj)) (\<lambda>fields.
              Inr (join sep' fields)))"

section \<open>parse\<close>

datatype qs_value = One jstr | Many "jstr list"

type_synonym qs_object = "(jstr \<times> qs_value) list"

text \<open>\<open>s.replace(/\+/g, ' ')\<close>\<close>

definition plus_to_space :: "jstr \<Rightarrow> jstr" where
  [js_eval]: "plus_to_space s = map (\<lambda>c. if c = 0x2B then 32 else c) s"

definition decodeField ::
  "(jstr \<Rightarrow> bytes) \<Rightarrow> (bytes \<Rightarrow> jstr) \<Rightarrow> (jstr \<Rightarrow> js_error + jstr) option \<Rightarrow> jstr \<Rightarrow> jstr" where
  [js_eval]: "decodeField buf_from buf_toString decodeOption s =
     (let s' = (if indexOf s [0x2B] 0 \<noteq> -1 then plus_to_space s else s)
      in case decodeOption of
           None \<Rightarrow> unescape buf_from buf_toString s' True
         | Some decode \<Rightarrow>
             (case decode s' of
                Inr out \<Rightarrow> out
              | Inl _ \<Rightarrow> unescape buf_from buf_toString s' True))"

definition qs_add :: "qs_object \<Rightarrow> jstr \<Rightarrow> jstr \<Rightarrow> qs_object" where
  [js_eval]: "qs_add obj key value =
     (case map_of obj key of
        None \<Rightarrow> AList.update key (One value) obj
      | Some (Many vs) \<Rightarrow> AList.update key (Many (vs @ [value])) obj
      | Some (One existing) \<Rightarrow> AList.update key (Many [existing, value]) obj)"

text \<open>The text between two separators: key and value before decoding.\<close>

definition qs_part :: "jstr \<Rightarrow> jstr \<Rightarrow> jstr \<times> jstr" where
  [js_eval]: "qs_part eq part =
     (if length eq > 0
      then let eqIdx = indexOf part eq 0
           in if eqIdx = -1 then (part, [])
              else (slice part 0 eqIdx, slice_from part (eqIdx + int (length eq)))
      else ([], part))"

definition below_max :: "nat \<Rightarrow> rat option \<Rightarrow> bool" where
  [js_eval]: "below_max pairs maxKeys = (case maxKeys of None \<Rightarrow> True | Some m \<Rightarrow> of_nat pairs < m)"

function qs_parse_loop ::
  "(jstr \<Rightarrow> jstr) \<Rightarrow> jstr \<Rightarrow> jstr \<Rightarrow> jstr \<Rightarrow> rat option \<Rightarrow> nat \<Rightarrow> nat \<Rightarrow> qs_object \<Rightarrow> qs_object" where
  "qs_parse_loop field qs sep eq maxKeys start pairs obj =
     (if start \<le> length qs \<and> below_max pairs maxKeys \<and> (length sep > 0 \<or> start < length qs)
      then let found = (if length sep > 0 then indexOf qs sep start
                        else if start + 1 > length qs then -1 else int start + 1);
               sepIdx = (if found = -1 then length qs else nat found);
               part = slice qs (int start) (int sepIdx);
               start' = sepIdx + length sep;
               (key, value) = qs_part eq part;
               obj' = (if length part = 0 \<and> length sep > 0 then obj
                       else qs_add obj (field key) (field value))
           in qs_parse_loop field qs sep eq maxKeys start' (pairs + 1) obj'
      else obj)"
  by pat_completeness auto
termination
proof (relation "measure (\<lambda>(field, qs, sep, eq, maxKeys, start, pairs, obj). Suc (length qs) - start)",
    goal_cases)
  case (2 field qs sep eq maxKeys start pairs obj found sepIdx part start' x key val obj')
  then show ?case using indexOf_range [of qs sep start]
    by (cases sep) (auto split: if_splits)
qed simp

declare qs_parse_loop.simps [simp del]

definition qs_delim :: "(jsval \<Rightarrow> js_error + jstr) \<Rightarrow> jsval \<Rightarrow> jstr \<Rightarrow> js_error + jstr" where
  [js_eval]: "qs_delim to_string v d =
     (case v of JStr s \<Rightarrow> Inr s | JUndefined \<Rightarrow> Inr d | JNull \<Rightarrow> Inr d | _ \<Rightarrow> to_string v)"

definition qs_maxKeys :: "jsnum option \<Rightarrow> rat option" where
  [js_eval]: "qs_maxKeys opt =
     (case (case opt of None \<Rightarrow> Num 1000 | Some n \<Rightarrow> n) of
        Num r \<Rightarrow> if r \<le> 0 then None else Some r | _ \<Rightarrow> None)"

definition qs_parse ::
  "(jstr \<Rightarrow> bytes) \<Rightarrow> (bytes \<Rightarrow> jstr) \<Rightarrow> (jsval \<Rightarrow> js_error + jstr) \<Rightarrow> jsval \<Rightarrow> jsval \<Rightarrow> jsval \<Rightarrow>
     jsnum option \<Rightarrow> (jstr \<Rightarrow> js_error + jstr) option \<Rightarrow> js_error + qs_object" where
  [js_eval]: "qs_parse buf_from buf_toString to_string qs sep eq maxKeys decodeOption =
     (case qs of
        JStr s \<Rightarrow>
          if length s = 0 then Inr []
          else bindE (qs_delim to_string sep [38]) (\<lambda>sep'.
               bindE (qs_delim to_string eq [61]) (\<lambda>eq'.
                 Inr (qs_parse_loop (decodeField buf_from buf_toString decodeOption) s sep' eq'
                        (qs_maxKeys maxKeys) 0 0 [])))
      | _ \<Rightarrow> Inr [])"

end
