(* ===== verification/Querystring_Laws.thy ===== *)
theory Querystring_Laws
  imports Querystring
begin

text \<open>
  Properties of \<open>querystring.js\<close>: \<open>escape\<close> is \<open>encodeURIComponent\<close> on well-formed strings and
  \<open>unescape\<close> undoes it, \<open>unescapeBuffer\<close> undoes percent-encoding of arbitrary bytes, and \<open>parse\<close>
  undoes \<open>stringify\<close>.
\<close>

section \<open>The bit operations of escape\<close>

lemma or_high_bits: "b < 2 ^ n \<Longrightarrow> (2 ^ n * a) OR b = 2 ^ n * a + (b :: nat)"
proof -
  assume b: "b < 2 ^ n"
  then have "take_bit n b = b" by (simp add: take_bit_nat_eq_self)
  then have "push_bit n a OR b = push_bit n a + b"
    by (metis (no_types, lifting) bit_take_bit_iff bit_push_bit_iff disjunctive_add not_le)
  then show ?thesis by (simp add: push_bit_eq_mult mult.commute)
qed

lemma lead_bits:
  "c < 32 \<Longrightarrow> 0xC0 OR c = 0xC0 + (c :: nat)" "c < 16 \<Longrightarrow> 0xE0 OR c = 0xE0 + c"
  "c < 8 \<Longrightarrow> 0xF0 OR c = 0xF0 + c" "c < 64 \<Longrightarrow> 0x80 OR c = 0x80 + c"
  using or_high_bits [of c 5 6] or_high_bits [of c 4 14] or_high_bits [of c 3 30]
    or_high_bits [of c 6 2] by simp_all

lemma and_low_bits: "(c :: nat) AND 0x3F = c mod 64" "(c :: nat) AND 0x3FF = c mod 1024"
  using take_bit_eq_mask [of 6 c] take_bit_eq_mask [of 10 c]
  by (simp_all add: mask_eq_exp_minus_1 take_bit_eq_mod)

lemma hexTable_nth: "b < 256 \<Longrightarrow> hexTable ! b = pct b"
  by (simp add: hexTable_def)

lemma escape_2_utf8: "0x80 \<le> c \<Longrightarrow> c < 0x800 \<Longrightarrow> escape_2 c = pcts (utf8 c)"
proof -
  assume c: "0x80 \<le> c" "c < 0x800"
  then have "c div 64 < 32" by simp
  then show ?thesis using c
    by (simp add: escape_2_def utf8_def drop_bit_eq_div and_low_bits lead_bits hexTable_nth)
qed

lemma escape_3_utf8: "0x800 \<le> c \<Longrightarrow> c < 0x10000 \<Longrightarrow> escape_3 c = pcts (utf8 c)"
proof -
  assume c: "0x800 \<le> c" "c < 0x10000"
  then have "c div 4096 < 16" by simp
  then show ?thesis using c
    by (simp add: escape_3_def utf8_def drop_bit_eq_div and_low_bits lead_bits hexTable_nth)
qed

lemma escape_4_utf8: "0x10000 \<le> c \<Longrightarrow> c < 0x110000 \<Longrightarrow> escape_4 c = pcts (utf8 c)"
proof -
  assume c: "0x10000 \<le> c" "c < 0x110000"
  then have "c div 262144 < 8" by simp
  then show ?thesis using c
    by (simp add: escape_4_def utf8_def drop_bit_eq_div and_low_bits lead_bits hexTable_nth)
qed

lemma surrogate_value_pair: "is_high c \<Longrightarrow> is_low d \<Longrightarrow> surrogate_value c d = pair_value c d"
proof -
  assume "is_high c" "is_low d"
  then obtain a b where "c = 1024 * 54 + a" "a < 1024" "d = 1024 * 55 + b" "b < 1024"
    by (auto simp: is_high_def is_low_def dest!: le_Suc_ex)
  moreover have "(1024 * 54 + a) mod 1024 = a" "(1024 * 55 + b) mod 1024 = b"
    using calculation by (simp_all only: mod_mult_self4 mod_less)
  ultimately show ?thesis
    by (simp add: surrogate_value_def pair_value_def and_low_bits push_bit_eq_mult)
qed

section \<open>escape\<close>

text \<open>
  The loop at index \<open>length p\<close> with the scalars \<open>cps\<close> to come; \<open>drop lastPos p\<close> is pending.
\<close>

lemma escape_loop_spec:
  assumes "list_all scalar cps" and "lastPos \<le> length p" and "lastPos = 0 \<Longrightarrow> out = []"
  shows "escape_loop (p @ utf16s cps) (length p) lastPos out =
     Inr (out @ drop lastPos p @ pct_string uri_unreserved cps)"
  using assms
proof (induction cps arbitrary: p lastPos out)
  case Nil
  then show ?case
    by (subst escape_loop.simps) (auto simp: slice_from_nat)
next
  case (Cons cp cps)
  let ?s = "p @ utf16s (cp # cps)"
  have sc: "scalar cp" "list_all scalar cps" using Cons.prems(1) by simp_all
  have pending: "(if length p > lastPos then out @ slice ?s (int lastPos) (int (length p)) else out) =
      out @ drop lastPos p"
    using Cons.prems(2) by (auto simp: slice_nat)
  have go: "escape_loop ?s (length p + length (utf16 cp)) (length p + length (utf16 cp))
        (out @ drop lastPos p @ e) = Inr (out @ drop lastPos p @ e @ pct_string uri_unreserved cps)"
    if "0 < length (utf16 cp)" for e
    using Cons.IH [OF sc(2), of "length p + length (utf16 cp)" "p @ utf16 cp" "out @ drop lastPos p @ e"]
      that by simp
  show ?case
  proof (cases "0x10000 \<le> cp")
    case True
    obtain c d where u: "utf16 cp = [c, d]" and cd: "is_high c" "is_low d" "pair_value c d = cp"
      using sc(1) True by (rule utf16_high_low)
    have "\<not> uri_unreserved c" "\<not> c < 0x800" "0xD800 \<le> c \<and> c \<le> 0xDBFF" "\<not> uri_unreserved cp"
      using cd(1) True by (auto simp: uri_unreserved_def is_high_def)
    moreover have "escape_4 (surrogate_value c d) = pcts (utf8 cp)"
      using surrogate_value_pair [OF cd(1,2)] cd(3) True sc(1) escape_4_utf8 by (simp add: scalar_def)
    ultimately show ?thesis
      using go [of "pcts (utf8 cp)"] u pending
      by (subst escape_loop.simps) (simp add: nth_append Let_def pct_scalar_def)
  next
    case False
    then have u: "utf16 cp = [cp]" by simp
    have nosur: "\<not> (0xD800 \<le> cp \<and> cp \<le> 0xDBFF)" "\<not> (0xDC00 \<le> cp \<and> cp \<le> 0xDFFF)"
      using sc(1) by (auto simp: scalar_def surrogate_def)
    show ?thesis
    proof (cases "uri_unreserved cp")
      case True
      then show ?thesis
        using Cons.IH [OF sc(2), of lastPos "p @ [cp]" out] Cons.prems(2,3) u
        by (subst escape_loop.simps) (simp add: pct_scalar_def)
    next
      case plain: False
      have "pcts (utf8 cp) = (if cp < 0x80 then hexTable ! cp
          else if cp < 0x800 then escape_2 cp else escape_3 cp)"
        using False escape_2_utf8 [of cp] escape_3_utf8 [of cp]
        by (auto simp: hexTable_nth) (simp add: utf8_def)
      then show ?thesis
        using go [of "pcts (utf8 cp)"] u pending nosur plain
        by (subst escape_loop.simps) (auto simp: nth_append Let_def pct_scalar_def)
    qed
  qed
qed

lemma escape_str_spec: "list_all scalar cps \<Longrightarrow> escape_str (utf16s cps) = Inr (pct_string uri_unreserved cps)"
  using escape_loop_spec [of cps 0 "[]" "[]"] by (simp add: escape_str_def)

text \<open>
  C37: on well-formed strings the hand-written \<open>escape\<close> returns what the standard
  \<open>encodeURIComponent\<close> returns.
\<close>

theorem escape_is_encodeURIComponent:
  assumes "well_formed s"
  shows "escape_str s = encodeURIComponent s"
  using assms
proof (rule well_formedE)
  fix cps assume "list_all scalar cps" "s = utf16s cps" "code_points s = cps"
  then show ?thesis
    by (auto simp: encodeURIComponent_def escape_str_spec list_all_iff scalar_def)
qed

lemma escape_is_encodeURIComponent_witness:
  "escape_str (js ''a b&'') = encodeURIComponent (js ''a b&'') \<and>
   encodeURIComponent (js ''a b&'') = Inr (js ''a%20b%26'')"
proof
  show "escape_str (js ''a b&'') = encodeURIComponent (js ''a b&'')"
    by (rule escape_is_encodeURIComponent) (simp add: js_eval)
qed (simp add: js_eval)

text \<open>
  \<open>unescape\<close> gives back every well-formed string that \<open>escape\<close> encoded, and \<open>escape\<close> fails
  on none of them; whatever the buffer conversions of the fallback do.
\<close>

theorem unescape_escape:
  assumes "well_formed s"
  shows "bindE (escape_str s) (\<lambda>e. Inr (unescape buf_from buf_toString e decodeSpaces)) = Inr s"
  using assms
proof (rule well_formedE)
  fix cps assume "list_all scalar cps" "s = utf16s cps" "code_points s = cps"
  then show ?thesis
    using decodeURIComponent_pct_string [OF uri_unreserved_plain, of cps]
    by (simp add: escape_str_spec unescape_def)
qed

lemma unescape_escape_witness:
  "bindE (escape_str [0x20AC, 32, 0xD83D, 0xDE00])
     (\<lambda>e. Inr (unescape (\<lambda>_. []) (\<lambda>_. []) e True)) = Inr [0x20AC, 32, 0xD83D, 0xDE00]"
  by (rule unescape_escape) (simp add: js_eval)

section \<open>unescapeBuffer\<close>

lemma unhex_upper: "d < 16 \<Longrightarrow> unhex (hex_upper d) = int d"
proof -
  assume "d < 16"
  then have "d \<in> {..<16}" by simp
  moreover have "\<forall>d\<in>{..<16}. unhex (hex_upper d) = int d" by code_simp
  ultimately show ?thesis by blast
qed

lemma length_pct [simp]: "length (pct b) = 3"
  by (simp add: pct_def)

lemma length_pcts [simp]: "length (pcts bs) = 3 * length bs"
  by (induction bs) simp_all

lemma ub_loop_pcts:
  assumes "wf_bytes ys"
  shows "ub_loop buf_from (pcts (xs @ ys)) ds (3 * length xs) (3 * length xs) (map (\<lambda>b. [b]) xs) =
     (3 * length (xs @ ys), map (\<lambda>b. [b]) (xs @ ys))"
  using assms
proof (induction ys arbitrary: xs)
  case Nil
  then show ?case by (subst ub_loop.simps) simp
next
  case (Cons y ys)
  define s where "s = pcts (xs @ y # ys)"
  let ?i = "3 * length xs"
  have y: "y < 256" "wf_bytes ys" using Cons.prems by (simp_all add: wf_bytes_def)
  have len: "length s = ?i + 3 + 3 * length ys" by (simp add: s_def)
  have at: "s ! ?i = 37" "s ! (?i + 1) = hex_upper (y div 16)" "s ! (?i + 2) = hex_upper (y mod 16)"
    by (simp_all add: s_def nth_append pct_def)
  have "push_bit 4 (y div 16) OR y mod 16 = y"
    using or_high_bits [of "y mod 16" 4 "y div 16"] by (simp add: push_bit_eq_mult mult.commute)
  moreover have "unhex (hex_upper (y div 16)) = int (y div 16)"
    "unhex (hex_upper (y mod 16)) = int (y mod 16)"
    using y by (simp_all add: unhex_upper)
  ultimately have "ub_loop buf_from s ds ?i ?i (map (\<lambda>b. [b]) xs) =
      ub_loop buf_from s ds (?i + 3) (?i + 3) (map (\<lambda>b. [b]) xs @ [[y]])"
    using at len by (subst ub_loop.simps) (simp add: Let_def del: of_nat_mod of_nat_div zdiv_int zmod_int)
  then show ?case using Cons.IH [OF y(2), of "xs @ [y]"] by (simp add: add.commute s_def)
qed

text \<open>
  \<open>unescapeBuffer\<close> recovers any non-empty byte sequence from its percent-encoding, valid UTF-8
  or not.
\<close>

theorem unescapeBuffer_pcts:
  assumes "wf_bytes bs" and "bs \<noteq> []"
  shows "unescapeBuffer buf_from (pcts bs) decodeSpaces = bs"
proof -
  have loop: "ub_loop buf_from (pcts bs) decodeSpaces 0 0 [] =
      (3 * length bs, map (\<lambda>b. [b]) bs)"
    using ub_loop_pcts [OF assms(1), of buf_from "[]" decodeSpaces] by simp
  have "concat (map (\<lambda>b. [b]) bs) = bs" by (induction bs) simp_all
  moreover have "length bs = 1 \<Longrightarrow> map (\<lambda>b. [b]) bs ! 0 = bs" by (cases bs) simp_all
  ultimately show ?thesis using assms(2) by (simp add: unescapeBuffer_def loop)
qed

lemma unescapeBuffer_pcts_witness: "unescapeBuffer (\<lambda>_. []) (js ''%FF%00%C3'') False = [255, 0, 195]"
proof -
  have "pcts [255, 0, 195] = js ''%FF%00%C3''" by (simp add: js_eval)
  then show ?thesis
    using unescapeBuffer_pcts [of "[255, 0, 195]" "\<lambda>_. []" False] by (simp add: wf_bytes_def)
qed

section \<open>parse undoes stringify\<close>

text \<open>The parse loop for a separator of one character works through the parts between separators.\<close>

fun qs_parts ::
  "(jstr \<Rightarrow> jstr) \<Rightarrow> jstr \<Rightarrow> rat option \<Rightarrow> nat \<Rightarrow> jstr list \<Rightarrow> qs_object \<Rightarrow> qs_object" where
  "qs_parts field eq maxKeys pairs [] obj = obj"
| "qs_parts field eq maxKeys pairs (part # parts) obj =
     (if below_max pairs maxKeys
      then qs_parts field eq maxKeys (Suc pairs) parts
             (if part = [] then obj
              else qs_add obj (field (fst (qs_part eq part))) (field (snd (qs_part eq part))))
      else obj)"

lemma qs_parse_loop_split:
  "qs_parse_loop field (pre @ rest) [a] eq maxKeys (length pre) pairs obj =
     qs_parts field eq maxKeys pairs (splitP (\<lambda>c. c = a) rest) obj"
proof (induction "length rest" arbitrary: pre rest pairs obj rule: less_induct)
  case less
  show ?case
  proof (cases "a \<in> set rest")
    case True
    then obtain part rest' where r: "rest = part @ a # rest'" "a \<notin> set part"
      using split_list_first by fastforce
    have idx: "indexOf (pre @ rest) [a] (length pre) = int (length pre + length part)"
      using indexOf_char_from [OF r(2)] r(1) by simp
    have "slice (pre @ rest) (int (length pre)) (int (length pre + length part)) = part"
      by (simp only: slice_nat) (simp add: r(1))
    moreover have "splitP (\<lambda>c. c = a) rest = part # splitP (\<lambda>c. c = a) rest'"
      using splitP_append [of "\<lambda>c. c = a" a part rest'] splitP_none [of part "\<lambda>c. c = a"] r by auto
    moreover have "nat (int (length pre) + int (length part)) = length pre + length part" by simp
    ultimately show ?thesis
      using less [of rest' "pre @ part @ [a]" "Suc pairs"] r idx
      by (cases "part = []"; subst qs_parse_loop.simps) (simp_all add: Let_def case_prod_beta)
  next
    case False
    then have split: "splitP (\<lambda>c. c = a) rest = [rest]" by (intro splitP_none) auto
    have idx: "indexOf (pre @ rest) [a] (length pre) = -1"
      using indexOf_char_from_notin [OF False] by simp
    have "slice (pre @ rest) (int (length pre)) (int (length pre + length rest)) = rest"
      by (simp only: slice_nat) simp
    then show ?thesis
      using idx split
      by (subst qs_parse_loop.simps) (simp add: Let_def case_prod_beta qs_parse_loop.simps)
  qed
qed

definition qs_alphabet :: "nat \<Rightarrow> bool" where
  [js_eval]: "qs_alphabet c = (uri_unreserved c \<or> c = PERCENT)"

lemma hex_upper_unreserved: "d < 16 \<Longrightarrow> uri_unreserved (hex_upper d)"
  by (auto simp: uri_unreserved_def hex_upper_def)

lemma pcts_alphabet: "\<forall>b\<in>set bs. b < 256 \<Longrightarrow> c \<in> set (pcts bs) \<Longrightarrow> qs_alphabet c"
  by (induction bs) (auto simp: pct_def qs_alphabet_def hex_upper_unreserved)

lemma pct_string_alphabet:
  "list_all scalar cps \<Longrightarrow> c \<in> set (pct_string uri_unreserved cps) \<Longrightarrow> qs_alphabet c"
proof (induction cps)
  case (Cons cp cps)
  then show ?case using pcts_alphabet [of "utf8 cp" c] utf8_bounds [of cp]
    by (auto simp: pct_scalar_def qs_alphabet_def split: if_splits)
qed simp

abbreviation esc :: "jstr \<Rightarrow> jstr" where
  "esc s \<equiv> pct_string uri_unreserved (code_points s)"

lemma esc_facts:
  assumes "well_formed s"
  shows "escape_str s = Inr (esc s)" "\<forall>c\<in>set (esc s). qs_alphabet c"
    "decodeField buf_from buf_toString None (esc s) = s"
proof -
  obtain cps where cps: "list_all scalar cps" "s = utf16s cps" "code_points s = cps"
    using assms by (rule well_formedE)
  show "escape_str s = Inr (esc s)" using escape_str_spec [OF cps(1)] cps(2,3) by simp
  show alpha: "\<forall>c\<in>set (esc s). qs_alphabet c" using pct_string_alphabet [OF cps(1)] cps(3) by auto
  have "43 \<notin> set (esc s)" using alpha by (auto simp: qs_alphabet_def uri_unreserved_def)
  then show "decodeField buf_from buf_toString None (esc s) = s"
    using decodeURIComponent_pct_string [OF uri_unreserved_plain cps(1)] cps(2,3)
    by (simp add: decodeField_def indexOf_char_notin unescape_def)
qed

definition qs_pairs :: "qs_object \<Rightarrow> (jstr \<times> jstr) list" where
  [js_eval]: "qs_pairs obj =
     concat (map (\<lambda>(k, v). case v of One x \<Rightarrow> [(k, x)] | Many xs \<Rightarrow> map (Pair k) xs) obj)"

definition qs_to_js :: "qs_object \<Rightarrow> jsval" where
  [js_eval]: "qs_to_js obj =
     JObject (map (\<lambda>(k, v). (k, case v of One x \<Rightarrow> JStr x | Many xs \<Rightarrow> JArray (map JStr xs))) obj)"

text \<open>Objects \<open>parse\<close> can return: distinct keys, and an array only for a repeated key.\<close>

definition qs_ok :: "qs_object \<Rightarrow> bool" where
  [js_eval]: "qs_ok obj =
     (distinct (map fst obj) \<and>
      list_all (\<lambda>(k, v). well_formed k \<and>
        (case v of One x \<Rightarrow> well_formed x | Many xs \<Rightarrow> length xs \<ge> 2 \<and> list_all well_formed xs)) obj)"

definition enc_pair :: "nat \<Rightarrow> jstr \<times> jstr \<Rightarrow> jstr" where
  "enc_pair b p = esc (fst p) @ b # esc (snd p)"

lemma encode_string:
  "well_formed x \<Longrightarrow> encodeStringifiedPrimitive to_string escape_str (JStr x) = Inr (esc x)"
  by (simp add: encodeStringifiedPrimitive_def esc_facts(1))

lemma qs_values_strings:
  "list_all well_formed xs \<Longrightarrow>
     qs_values to_string escape_str ks (map JStr xs) = Inr (map (\<lambda>x. ks @ esc x) xs)"
  by (induction xs) (auto simp: encode_string)

lemma qs_fields_pairs:
  "list_all (\<lambda>(k, v). well_formed k \<and>
      (case v of One x \<Rightarrow> well_formed x | Many xs \<Rightarrow> length xs \<ge> 2 \<and> list_all well_formed xs)) obj \<Longrightarrow>
     qs_fields to_string escape_str [b]
       (map (\<lambda>(k, v). (k, case v of One x \<Rightarrow> JStr x | Many xs \<Rightarrow> JArray (map JStr xs))) obj) =
     Inr (map (enc_pair b) (qs_pairs obj))"
proof (induction obj)
  case (Cons e obj)
  obtain k v where e: "e = (k, v)" by fastforce
  show ?case
  proof (cases v)
    case (One x)
    then show ?thesis using Cons e
      by (simp add: qs_pairs_def enc_pair_def esc_facts(1) encode_string)
  next
    case (Many xs)
    then show ?thesis using Cons e qs_values_strings [of xs to_string]
      by (simp add: qs_pairs_def enc_pair_def esc_facts(1) comp_def)
  qed
qed (simp add: qs_pairs_def)

lemma qs_pairs_wf:
  assumes "qs_ok obj"
  shows "\<forall>p\<in>set (qs_pairs obj). well_formed (fst p) \<and> well_formed (snd p)"
proof
  fix p assume "p \<in> set (qs_pairs obj)"
  then obtain k v where kv: "(k, v) \<in> set obj"
    and p: "p \<in> set (case v of One x \<Rightarrow> [(k, x)] | Many xs \<Rightarrow> map (Pair k) xs)"
    by (auto simp: qs_pairs_def)
  then show "well_formed (fst p) \<and> well_formed (snd p)"
    using assms by (cases v) (auto simp: qs_ok_def list_all_iff)
qed

lemma qs_part_enc:
  assumes "well_formed (fst p)" and "\<not> qs_alphabet b"
  shows "qs_part [b] (enc_pair b p) = (esc (fst p), esc (snd p))"
proof -
  have "b \<notin> set (esc (fst p))" using esc_facts(2) [OF assms(1)] assms(2) by auto
  then have "indexOf (enc_pair b p) [b] 0 = int (length (esc (fst p)))"
    unfolding enc_pair_def by (rule indexOf_char_first)
  then show ?thesis
    by (simp add: qs_part_def Let_def) (simp add: enc_pair_def slice_from_after)
qed

lemma qs_parts_enc:
  assumes "\<not> qs_alphabet b"
    and "\<forall>p\<in>set ps. well_formed (fst p) \<and> well_formed (snd p)" and "pairs + length ps \<le> 1000"
  shows "qs_parts (decodeField buf_from buf_toString None) [b] (Some 1000) pairs
     (map (enc_pair b) ps) obj = fold (\<lambda>p obj. qs_add obj (fst p) (snd p)) ps obj"
  using assms(2,3)
proof (induction ps arbitrary: pairs obj)
  case (Cons p ps)
  have "below_max pairs (Some 1000)" using Cons.prems(2) by (simp add: below_max_def)
  moreover have "enc_pair b p \<noteq> []" by (simp add: enc_pair_def)
  ultimately show ?case
    using Cons qs_part_enc [of p b] assms(1) by (simp add: esc_facts(3))
qed simp

lemma update_new: "k \<notin> fst ` set obj \<Longrightarrow> AList.update k v obj = obj @ [(k, v)]"
  by (induction obj) auto

lemma update_last: "k \<notin> fst ` set obj \<Longrightarrow> AList.update k v (obj @ [(k, w)]) = obj @ [(k, v)]"
  by (induction obj) auto

lemma map_of_notin: "k \<notin> fst ` set obj \<Longrightarrow> map_of obj k = None"
  by (simp add: map_of_eq_None_iff)

lemma map_of_last: "k \<notin> fst ` set obj \<Longrightarrow> map_of (obj @ [(k, v)]) k = Some v"
  by (induction obj) auto

lemma add_many:
  "k \<notin> fst ` set obj \<Longrightarrow>
     fold (\<lambda>p obj. qs_add obj (fst p) (snd p)) (map (Pair k) ys) (obj @ [(k, Many xs)]) =
     obj @ [(k, Many (xs @ ys))]"
proof (induction ys arbitrary: xs)
  case (Cons y ys)
  then have "qs_add (obj @ [(k, Many xs)]) k y = obj @ [(k, Many (xs @ [y]))]"
    by (simp add: qs_add_def map_of_last update_last del: map_of_append)
  then show ?case using Cons by simp
qed simp

lemma fold_pairs:
  assumes "distinct (map fst (obj @ obj'))"
    and "\<forall>(k, v)\<in>set obj'. case v of One x \<Rightarrow> True | Many xs \<Rightarrow> length xs \<ge> 2"
  shows "fold (\<lambda>p obj. qs_add obj (fst p) (snd p)) (qs_pairs obj') obj = obj @ obj'"
  using assms
proof (induction obj' arbitrary: obj)
  case Nil
  then show ?case by (simp add: qs_pairs_def)
next
  case (Cons e obj')
  obtain k v where e: "e = (k, v)" by fastforce
  have k: "k \<notin> fst ` set obj" using Cons.prems(1) e by auto
  have rest: "fold (\<lambda>p obj. qs_add obj (fst p) (snd p)) (qs_pairs obj') (obj @ [e]) = obj @ e # obj'"
    using Cons.IH [of "obj @ [e]"] Cons.prems by auto
  show ?case
  proof (cases v)
    case (One x)
    then show ?thesis using rest k e
      by (simp add: qs_pairs_def qs_add_def map_of_notin update_new)
  next
    case (Many xs)
    then obtain x y ys where xs: "xs = x # y # ys"
      using Cons.prems(2) e by (cases xs; cases "tl xs") auto
    have "qs_add obj k x = obj @ [(k, One x)]" using k by (simp add: qs_add_def map_of_notin update_new)
    moreover have "qs_add (obj @ [(k, One x)]) k y = obj @ [(k, Many [x, y])]"
      using k by (simp add: qs_add_def map_of_last update_last del: map_of_append)
    ultimately show ?thesis using rest e Many xs add_many [OF k, of ys "[x, y]"]
      by (simp add: qs_pairs_def)
  qed
qed

text \<open>
  C26: \<open>parse\<close> gives back the object \<open>stringify\<close> was given. The object (\<open>qs_ok\<close>) has distinct keys,
  its keys and values are strings without unpaired surrogates, and a value is one string or an array
  of at least two; it has at most 1000 pairs (the default \<open>maxKeys\<close>). The separators are any two
  different characters that the escaping never writes. Outside these bounds it is false of the code:
  an array of one value comes back as a string, and pairs after the first 1000 are dropped.
\<close>

theorem qs_parse_stringify:
  assumes "qs_ok obj" and "a \<noteq> b" and "\<not> qs_alphabet a" and "\<not> qs_alphabet b"
    and "length (qs_pairs obj) \<le> 1000"
  shows "bindE (qs_stringify to_string (qs_to_js obj) (Some [a]) (Some [b]) None)
     (\<lambda>s. qs_parse buf_from buf_toString to_string (JStr s) (JStr [a]) (JStr [b]) None None) = Inr obj"
proof -
  let ?fields = "map (enc_pair b) (qs_pairs obj)"
  have str: "qs_stringify to_string (qs_to_js obj) (Some [a]) (Some [b]) None = Inr (join [a] ?fields)"
    using assms(1) qs_fields_pairs [of obj to_string b]
    by (simp add: qs_stringify_def or_default_def qs_to_js_def object_entries_def qs_ok_def)
  note wf = qs_pairs_wf [OF assms(1)]
  have many: "\<forall>(k, v)\<in>set obj. case v of One x \<Rightarrow> True | Many xs \<Rightarrow> length xs \<ge> 2"
    using assms(1) by (auto simp: qs_ok_def list_all_iff split: qs_value.splits)
  have fold: "fold (\<lambda>p obj. qs_add obj (fst p) (snd p)) (qs_pairs obj) [] = obj"
    using fold_pairs [of "[]" obj] many assms(1) by (simp add: qs_ok_def)
  show ?thesis
  proof (cases "qs_pairs obj = []")
    case True
    then have "obj = []" using fold by simp
    then show ?thesis using str by (simp add: qs_pairs_def qs_parse_def)
  next
    case False
    have "\<forall>f\<in>set ?fields. \<forall>c\<in>set f. c \<noteq> a"
      using wf esc_facts(2) assms(2,3) by (auto simp: enc_pair_def)
    then have split: "splitP (\<lambda>c. c = a) (join [a] ?fields) = ?fields"
      using False by (intro split_join) auto
    have "join [a] ?fields \<noteq> []"
    proof
      assume "join [a] ?fields = []"
      then have "?fields = [[]]" using split by simp
      then show False by (auto simp: enc_pair_def)
    qed
    moreover have "qs_parse_loop (decodeField buf_from buf_toString None) (join [a] ?fields) [a] [b]
        (Some 1000) 0 0 [] = obj"
      using qs_parse_loop_split [of "decodeField buf_from buf_toString None" "[]" "join [a] ?fields"
          a "[b]" "Some 1000" 0 "[]"]
        qs_parts_enc [OF assms(4) wf, of 0 buf_from buf_toString "[]"] assms(5)
      unfolding split fold by simp
    ultimately show ?thesis
      by (simp add: str qs_parse_def qs_delim_def qs_maxKeys_def)
  qed
qed

lemma qs_parse_stringify_witness:
  "bindE (qs_stringify (\<lambda>_. Inl URIError)
       (qs_to_js [(js ''a b'', Many [js ''1&2'', []]), ([], One (js ''='') )]) (Some [38]) (Some [61]) None)
     (\<lambda>s. qs_parse (\<lambda>_. []) (\<lambda>_. []) (\<lambda>_. Inl URIError) (JStr s) (JStr [38]) (JStr [61]) None None) =
   Inr [(js ''a b'', Many [js ''1&2'', []]), ([], One (js ''=''))]"
  by (rule qs_parse_stringify) (simp_all add: js_eval)

end
