(* ===== verification/Url_Search_Params.thy ===== *)
theory Url_Search_Params
  imports Unicode
begin

text \<open>
  \<open>URLSearchParams\<close> of \<open>builtin/url.js\<close>: the pair list, its operations, the form encoding and
  decoding, and the link to a URL whose search string follows every change. The receiver of a
  method is an option (\<open>None\<close>: not a URLSearchParams), arguments are lists of values, \<open>String(v)\<close>
  is the argument \<open>to_string\<close> and the native search setter of URL is \<open>set_search\<close>: what
  \<open>url.search\<close> reads after the given string was assigned.
\<close>

section \<open>Strings of scalar values\<close>

fun usv :: "jstr \<Rightarrow> jstr" where
  "usv [] = []"
| "usv [c] = [if surrogate c then 0xFFFD else c]"
| "usv (c # d # cs) =
     (if is_high c
      then if is_low d then c # d # usv cs else 0xFFFD # usv (d # cs)
      else if is_low c then 0xFFFD # usv (d # cs)
      else c # usv (d # cs))"

definition toUSVString :: "(jsval \<Rightarrow> js_error + jstr) \<Rightarrow> jsval \<Rightarrow> js_error + jstr" where
  [js_eval]: "toUSVString to_string value =
     (case value of
        JSymbol _ \<Rightarrow> Inl (TypeError ''Cannot convert a Symbol value to a string'')
      | _ \<Rightarrow> bindE (to_string value) (\<lambda>s. Inr (usv s)))"

section \<open>Form encoding\<close>

text \<open>\<open>replace(/[!'()~]|%20|%00/g, ...)\<close> with the table \<open>ENCODE_REPLACE\<close>.\<close>

fun usp_replace :: "jstr \<Rightarrow> jstr" where
  "usp_replace [] = []"
| "usp_replace (c # cs) =
     (if c \<in> set [33, 39, 40, 41, 126] then pct c @ usp_replace cs
      else if c = PERCENT \<and> take 2 cs = [50, 48] then 43 # usp_replace (drop 2 cs)
      else if c = PERCENT \<and> take 2 cs = [48, 48] then 0 # usp_replace (drop 2 cs)
      else c # usp_replace cs)"

definition usp_encode :: "jstr \<Rightarrow> js_error + jstr" where
  [js_eval]: "usp_encode str = bindE (encodeURIComponent (usv str)) (\<lambda>e. Inr (usp_replace e))"

text \<open>The longest run of escape sequences at the start, and what follows it.\<close>

function pct_run :: "jstr \<Rightarrow> jstr \<times> jstr" where
  "pct_run s =
     (case pct_octet s of
        None \<Rightarrow> ([], s)
      | Some (b, rest) \<Rightarrow> (take 3 s @ fst (pct_run rest), snd (pct_run rest)))"
  by pat_completeness auto
termination
  by (relation "measure length") (auto dest: pct_octet_rest)

declare pct_run.simps [simp del]

lemma pct_run_length: "length (snd (pct_run s)) \<le> length s"
proof (induction s rule: pct_run.induct)
  case (1 s)
  show ?case
  proof (cases "pct_octet s")
    case None
    then show ?thesis by (simp add: pct_run.simps)
  next
    case (Some p)
    obtain b rest where p: "p = (b, rest)" by fastforce
    then show ?thesis using 1 [OF Some p [symmetric]] Some pct_octet_rest [of s b rest]
      by (simp add: pct_run.simps [of s])
  qed
qed

lemma pct_run_shorter: "fst (pct_run s) \<noteq> [] \<Longrightarrow> length (snd (pct_run s)) < length s"
proof (cases "pct_octet s")
  case (Some p)
  obtain b rest where p: "p = (b, rest)" by fastforce
  then show ?thesis using Some pct_octet_rest [of s b rest] pct_run_length [of rest]
    by (simp add: pct_run.simps [of s])
qed (simp add: pct_run.simps)

text \<open>\<open>replace(/(%[a-f0-9]{2})+/ig, decodeURIComponent)\<close>\<close>

function decode_runs :: "jstr \<Rightarrow> js_error + jstr" where
  "decode_runs s =
     (case s of
        [] \<Rightarrow> Inr []
      | c # cs \<Rightarrow>
          if fst (pct_run s) = [] then bindE (decode_runs cs) (\<lambda>out. Inr (c # out))
          else bindE (decodeURIComponent (fst (pct_run s))) (\<lambda>match.
               bindE (decode_runs (snd (pct_run s))) (\<lambda>out. Inr (match @ out))))"
  by pat_completeness auto
termination
proof (relation "measure length", goal_cases)
  case (3 s c cs m)
  then show ?case using pct_run_shorter [of s] by simp
qed auto

declare decode_runs.simps [simp del]

definition space_escape :: "jstr \<Rightarrow> jstr" where
  [js_eval]: "space_escape str = concat (map (\<lambda>c. if c = 32 \<or> c = 43 then pct 32 else [c]) str)"

definition usp_decode :: "jstr \<Rightarrow> js_error + jstr" where
  [js_eval]: "usp_decode str = decode_runs (space_escape str)"

section \<open>Parsing\<close>

type_synonym pairs = "(jstr \<times> jstr) list"

fun parse_fields :: "jstr list \<Rightarrow> js_error + pairs" where
  "parse_fields [] = Inr []"
| "parse_fields (v # vs) =
     (let index = indexOf v [61] 0
      in if index \<noteq> -1
         then bindE (usp_decode (slice v 0 index)) (\<lambda>key.
              bindE (usp_decode (slice_from v (index + 1))) (\<lambda>val.
              bindE (parse_fields vs) (\<lambda>ps. Inr ((key, val) # ps))))
         else if v \<noteq> []
         then bindE (usp_decode v) (\<lambda>key.
              bindE (parse_fields vs) (\<lambda>ps. Inr ((key, []) # ps)))
         else parse_fields vs)"

definition parse_search :: "jstr \<Rightarrow> js_error + pairs" where
  [js_eval]: "parse_search search =
     parse_fields (splitP (\<lambda>c. c = 38)
       (if search \<noteq> [] \<and> hd search = 63 then slice_from search 1 else search))"

text \<open>The elements an iterable item yields; \<open>None\<close> where it is not iterable (or falsy).\<close>

definition item_elements :: "jsval \<Rightarrow> jsval list option" where
  [js_eval]: "item_elements item =
     (case item of
        JArray vs \<Rightarrow> Some vs
      | JStr s \<Rightarrow> if s = [] then None else Some (map (\<lambda>cp. JStr (utf16 cp)) (code_points s))
      | _ \<Rightarrow> None)"

fun parse_items :: "(jsval \<Rightarrow> js_error + jstr) \<Rightarrow> jsval list \<Rightarrow> js_error + pairs" where
  "parse_items to_string [] = Inr []"
| "parse_items to_string (item # items) =
     (case item_elements item of
        Some [first, second] \<Rightarrow>
          bindE (toUSVString to_string first) (\<lambda>key.
          bindE (toUSVString to_string second) (\<lambda>val.
          bindE (parse_items to_string items) (\<lambda>ps. Inr ((key, val) # ps))))
      | _ \<Rightarrow> Inl ERR_INVALID_TUPLE)"

fun parse_record :: "(jsval \<Rightarrow> js_error + jstr) \<Rightarrow> (jstr \<times> jsval) list \<Rightarrow> js_error + pairs" where
  "parse_record to_string [] = Inr []"
| "parse_record to_string ((k, v) # entries) =
     bindE (toUSVString to_string (JStr k)) (\<lambda>key.
     bindE (toUSVString to_string v) (\<lambda>val.
     bindE (parse_record to_string entries) (\<lambda>ps. Inr ((key, val) # ps))))"

definition parseToPairs :: "(jsval \<Rightarrow> js_error + jstr) \<Rightarrow> jsval \<Rightarrow> js_error + pairs" where
  [js_eval]: "parseToPairs to_string search =
     (case search of
        JSymbol _ \<Rightarrow> Inl (TypeError ''Cannot convert a Symbol value to a string'')
      | JArray items \<Rightarrow> parse_items to_string items
      | JObject entries \<Rightarrow> parse_record to_string entries
      | JNull \<Rightarrow> Inr []
      | JFunction _ \<Rightarrow> Inr []
      | JStr s \<Rightarrow> parse_search s
      | _ \<Rightarrow> bindE (to_string search) parse_search)"

section \<open>The object and its link to a URL\<close>

record usp =
  usp_pairs :: pairs
  usp_url :: "jstr option"
  usp_updating :: bool

text \<open>The constructor: undefined and null mean the empty string.\<close>

definition usp_new :: "(jsval \<Rightarrow> js_error + jstr) \<Rightarrow> jsval \<Rightarrow> js_error + usp" where
  [js_eval]: "usp_new to_string search =
     bindE (parseToPairs to_string (if search = JUndefined \<or> search = JNull then JStr [] else search))
       (\<lambda>ps. Inr \<lparr>usp_pairs = ps, usp_url = None, usp_updating = False\<rparr>)"

text \<open>The \<open>searchParams\<close> getter of a URL whose search string is \<open>search\<close>.\<close>

definition usp_of_url :: "jstr \<Rightarrow> js_error + usp" where
  [js_eval]: "usp_of_url search =
     bindE (parse_search search) (\<lambda>ps. Inr \<lparr>usp_pairs = ps, usp_url = Some search, usp_updating = False\<rparr>)"

definition requireSearchParams :: "usp option \<Rightarrow> js_error + usp" where
  [js_eval]: "requireSearchParams recv =
     (case recv of
        None \<Rightarrow> Inl (ERR_INVALID_THIS ''URLSearchParams'')
      | Some st \<Rightarrow>
          (case usp_url st of
             Some search \<Rightarrow>
               if \<not> usp_updating st
               then bindE (parse_search search) (\<lambda>ps. Inr (st\<lparr>usp_pairs := ps\<rparr>))
               else Inr st
           | None \<Rightarrow> Inr st))"

fun serialize_fields :: "pairs \<Rightarrow> js_error + jstr list" where
  "serialize_fields [] = Inr []"
| "serialize_fields ((k, v) # ps) =
     bindE (usp_encode k) (\<lambda>k'.
     bindE (usp_encode v) (\<lambda>v'.
     bindE (serialize_fields ps) (\<lambda>fs. Inr ((k' @ 61 # v') # fs))))"

definition usp_toString :: "usp option \<Rightarrow> js_error + jstr" where
  [js_eval]: "usp_toString recv =
     bindE (requireSearchParams recv) (\<lambda>st.
     bindE (serialize_fields (usp_pairs st)) (\<lambda>fields. Inr (join [38] fields)))"

text \<open>
  \<open>updateLinkedUrl\<close>: while the flag is set, \<open>toString\<close> reads the pairs of the object, not the URL.
\<close>

definition updateLinkedUrl :: "(jstr \<Rightarrow> jstr) \<Rightarrow> usp \<Rightarrow> js_error + usp" where
  [js_eval]: "updateLinkedUrl set_search st =
     (case usp_url st of
        None \<Rightarrow> Inr st
      | Some _ \<Rightarrow>
          bindE (usp_toString (Some (st\<lparr>usp_updating := True\<rparr>))) (\<lambda>query.
            Inr (st\<lparr>usp_url := Some (set_search (if query \<noteq> [] then 63 # query else [])),
                    usp_updating := False\<rparr>)))"

text \<open>Assigning \<open>url.search\<close>: the cached parameters are read again.\<close>

definition url_set_search :: "(jstr \<Rightarrow> jstr) \<Rightarrow> jstr \<Rightarrow> usp \<Rightarrow> js_error + usp" where
  [js_eval]: "url_set_search set_search v st =
     (if usp_updating st then Inr (st\<lparr>usp_url := Some (set_search v)\<rparr>)
      else bindE (parse_search (set_search v)) (\<lambda>ps.
             Inr (st\<lparr>usp_url := Some (set_search v), usp_pairs := ps\<rparr>)))"

section \<open>Operations on the pair list\<close>

definition pairs_append :: "jstr \<Rightarrow> jstr \<Rightarrow> pairs \<Rightarrow> pairs" where
  [js_eval]: "pairs_append name val pairs = pairs @ [(name, val)]"

definition pairs_delete :: "jstr \<Rightarrow> pairs \<Rightarrow> pairs" where
  [js_eval]: "pairs_delete key pairs = filter (\<lambda>pair. fst pair \<noteq> key) pairs"

definition pairs_delete_value :: "jstr \<Rightarrow> jstr \<Rightarrow> pairs \<Rightarrow> pairs" where
  [js_eval]: "pairs_delete_value key val pairs =
     filter (\<lambda>pair. fst pair \<noteq> key \<or> snd pair \<noteq> val) pairs"

fun pairs_get :: "jstr \<Rightarrow> pairs \<Rightarrow> jstr option" where
  "pairs_get key [] = None"
| "pairs_get key (pair # pairs) = (if fst pair = key then Some (snd pair) else pairs_get key pairs)"

fun pairs_getAll :: "jstr \<Rightarrow> pairs \<Rightarrow> jstr list" where
  "pairs_getAll key [] = []"
| "pairs_getAll key (pair # pairs) =
     (if fst pair = key then snd pair # pairs_getAll key pairs else pairs_getAll key pairs)"

fun pairs_has :: "jstr \<Rightarrow> jstr option \<Rightarrow> pairs \<Rightarrow> bool" where
  "pairs_has key val [] = False"
| "pairs_has key val (pair # pairs) =
     (if fst pair = key \<and> (val = None \<or> Some (snd pair) = val) then True else pairs_has key val pairs)"

fun pairs_set_loop :: "jstr \<Rightarrow> jstr \<Rightarrow> pairs \<Rightarrow> bool \<Rightarrow> pairs \<Rightarrow> bool \<times> pairs" where
  "pairs_set_loop key val [] found out = (found, out)"
| "pairs_set_loop key val (pair # pairs) found out =
     (if fst pair = key
      then if \<not> found then pairs_set_loop key val pairs True (out @ [(key, val)])
           else pairs_set_loop key val pairs found out
      else pairs_set_loop key val pairs found (out @ [pair]))"

definition pairs_set :: "jstr \<Rightarrow> jstr \<Rightarrow> pairs \<Rightarrow> pairs" where
  [js_eval]: "pairs_set key val pairs =
     (let (found, out) = pairs_set_loop key val pairs False []
      in if \<not> found then out @ [(key, val)] else out)"

text \<open>
  \<open>Array.prototype.sort\<close> is a stable sort by the comparator it is given, here by insertion: an element
  is inserted before the later elements that it does not follow. The operator \<open><\<close> on strings compares
  code units.
\<close>

fun sort_insert :: "('a \<Rightarrow> 'a \<Rightarrow> int) \<Rightarrow> 'a \<Rightarrow> 'a list \<Rightarrow> 'a list" where
  "sort_insert cmp x [] = [x]"
| "sort_insert cmp x (y # ys) = (if cmp x y \<le> 0 then x # y # ys else y # sort_insert cmp x ys)"

fun array_sort :: "('a \<Rightarrow> 'a \<Rightarrow> int) \<Rightarrow> 'a list \<Rightarrow> 'a list" where
  "array_sort cmp [] = []"
| "array_sort cmp (x # xs) = sort_insert cmp x (array_sort cmp xs)"

fun str_less :: "jstr \<Rightarrow> jstr \<Rightarrow> bool" where
  "str_less s [] = False"
| "str_less [] (d # ds) = True"
| "str_less (c # cs) (d # ds) = (if c = d then str_less cs ds else c < d)"

definition pair_order :: "jstr \<times> jstr \<Rightarrow> jstr \<times> jstr \<Rightarrow> int" where
  [js_eval]: "pair_order a b = (if str_less (fst a) (fst b) then -1 else if str_less (fst b) (fst a) then 1 else 0)"

definition pairs_sort :: "pairs \<Rightarrow> pairs" where
  [js_eval]: "pairs_sort pairs = array_sort pair_order pairs"

section \<open>The methods\<close>

definition usp_append ::
  "(jstr \<Rightarrow> jstr) \<Rightarrow> (jsval \<Rightarrow> js_error + jstr) \<Rightarrow> usp option \<Rightarrow> jsval list \<Rightarrow> js_error + usp" where
  [js_eval]: "usp_append set_search to_string recv args =
     bindE (requireSearchParams recv) (\<lambda>st.
       case args of
         name # val # _ \<Rightarrow>
           bindE (toUSVString to_string name) (\<lambda>n.
           bindE (toUSVString to_string val) (\<lambda>v.
             updateLinkedUrl set_search (st\<lparr>usp_pairs := pairs_append n v (usp_pairs st)\<rparr>)))
       | _ \<Rightarrow> Inl (ERR_MISSING_ARGS ''name, value''))"

definition usp_delete ::
  "(jstr \<Rightarrow> jstr) \<Rightarrow> (jsval \<Rightarrow> js_error + jstr) \<Rightarrow> usp option \<Rightarrow> jsval list \<Rightarrow> js_error + usp" where
  [js_eval]: "usp_delete set_search to_string recv args =
     bindE (requireSearchParams recv) (\<lambda>st.
       case args of
         [] \<Rightarrow> Inl (ERR_MISSING_ARGS ''name'')
       | name # others \<Rightarrow>
           bindE (toUSVString to_string name) (\<lambda>key.
             case others of
               val # _ \<Rightarrow>
                 bindE (toUSVString to_string val) (\<lambda>v.
                   updateLinkedUrl set_search
                     (st\<lparr>usp_pairs := pairs_delete_value key v (usp_pairs st)\<rparr>))
             | [] \<Rightarrow> updateLinkedUrl set_search (st\<lparr>usp_pairs := pairs_delete key (usp_pairs st)\<rparr>)))"

definition usp_get ::
  "(jsval \<Rightarrow> js_error + jstr) \<Rightarrow> usp option \<Rightarrow> jsval list \<Rightarrow> js_error + jstr option" where
  [js_eval]: "usp_get to_string recv args =
     bindE (requireSearchParams recv) (\<lambda>st.
       case args of
         [] \<Rightarrow> Inl (ERR_MISSING_ARGS ''name'')
       | name # _ \<Rightarrow>
           bindE (toUSVString to_string name) (\<lambda>key. Inr (pairs_get key (usp_pairs st))))"

definition usp_getAll ::
  "(jsval \<Rightarrow> js_error + jstr) \<Rightarrow> usp option \<Rightarrow> jsval list \<Rightarrow> js_error + jstr list" where
  [js_eval]: "usp_getAll to_string recv args =
     bindE (requireSearchParams recv) (\<lambda>st.
       case args of
         [] \<Rightarrow> Inl (ERR_MISSING_ARGS ''name'')
       | name # _ \<Rightarrow>
           bindE (toUSVString to_string name) (\<lambda>key. Inr (pairs_getAll key (usp_pairs st))))"

definition usp_has ::
  "(jsval \<Rightarrow> js_error + jstr) \<Rightarrow> usp option \<Rightarrow> jsval list \<Rightarrow> js_error + bool" where
  [js_eval]: "usp_has to_string recv args =
     bindE (requireSearchParams recv) (\<lambda>st.
       case args of
         [] \<Rightarrow> Inl (ERR_MISSING_ARGS ''name'')
       | name # others \<Rightarrow>
           bindE (toUSVString to_string name) (\<lambda>key.
             case others of
               val # _ \<Rightarrow>
                 if val = JUndefined then Inr (pairs_has key None (usp_pairs st))
                 else bindE (toUSVString to_string val) (\<lambda>v.
                        Inr (pairs_has key (Some v) (usp_pairs st)))
             | [] \<Rightarrow> Inr (pairs_has key None (usp_pairs st))))"

definition usp_set ::
  "(jstr \<Rightarrow> jstr) \<Rightarrow> (jsval \<Rightarrow> js_error + jstr) \<Rightarrow> usp option \<Rightarrow> jsval list \<Rightarrow> js_error + usp" where
  [js_eval]: "usp_set set_search to_string recv args =
     bindE (requireSearchParams recv) (\<lambda>st.
       case args of
         name # val # _ \<Rightarrow>
           bindE (toUSVString to_string name) (\<lambda>key.
           bindE (toUSVString to_string val) (\<lambda>v.
             updateLinkedUrl set_search (st\<lparr>usp_pairs := pairs_set key v (usp_pairs st)\<rparr>)))
       | _ \<Rightarrow> Inl (ERR_MISSING_ARGS ''name, value''))"

definition usp_sort :: "(jstr \<Rightarrow> jstr) \<Rightarrow> usp option \<Rightarrow> js_error + usp" where
  [js_eval]: "usp_sort set_search recv =
     bindE (requireSearchParams recv) (\<lambda>st.
       updateLinkedUrl set_search (st\<lparr>usp_pairs := pairs_sort (usp_pairs st)\<rparr>))"

definition usp_size :: "usp option \<Rightarrow> js_error + nat" where
  [js_eval]: "usp_size recv = bindE (requireSearchParams recv) (\<lambda>st. Inr (length (usp_pairs st)))"

subsection \<open>Iteration\<close>

datatype iter_kind = IterKey | IterValue | IterEntry

record usp_iter =
  it_kind :: iter_kind
  it_index :: nat

datatype iter_value = OneString jstr | TwoStrings jstr jstr

definition iter_value :: "iter_kind \<Rightarrow> jstr \<times> jstr \<Rightarrow> iter_value" where
  [js_eval]: "iter_value kind pair =
     (case kind of
        IterKey \<Rightarrow> OneString (fst pair)
      | IterValue \<Rightarrow> OneString (snd pair)
      | IterEntry \<Rightarrow> TwoStrings (fst pair) (snd pair))"

text \<open>The iterator's \<open>next\<close>: \<open>None\<close> is \<open>{done: true}\<close>. It reads the parameters as they are now.\<close>

definition iter_next :: "usp \<Rightarrow> usp_iter \<Rightarrow> js_error + (iter_value option \<times> usp_iter)" where
  [js_eval]: "iter_next params it =
     bindE (requireSearchParams (Some params)) (\<lambda>st.
       let pairs = usp_pairs st
       in if it_index it \<ge> length pairs then Inr (None, it)
          else Inr (Some (iter_value (it_kind it) (pairs ! it_index it)), it\<lparr>it_index := it_index it + 1\<rparr>))"

text \<open>Drawing from an iterator until it is done, at most \<open>fuel\<close> times.\<close>

fun iter_drain :: "nat \<Rightarrow> usp \<Rightarrow> usp_iter \<Rightarrow> js_error + iter_value list" where
  "iter_drain 0 params it = Inr []"
| "iter_drain (Suc fuel) params it =
     bindE (iter_next params it) (\<lambda>(v, it').
       case v of
         None \<Rightarrow> Inr []
       | Some x \<Rightarrow> bindE (iter_drain fuel params it') (\<lambda>xs. Inr (x # xs)))"

subsection \<open>Inspection\<close>

definition inspectString :: "jstr \<Rightarrow> jstr" where
  [js_eval]: "inspectString v =
     39 # concat (map (\<lambda>c. if c = 92 then [92, 92] else if c = 39 then [92, 39] else [c]) v) @ [39]"

definition formatInspectCollection :: "jstr \<Rightarrow> jstr list \<Rightarrow> bool \<Rightarrow> jstr" where
  [js_eval]: "formatInspectCollection name entries breakLength1 =
     (if length entries = 0 then name @ js '' {  }''
      else if breakLength1 then name @ js '' {'' @ [10, 32, 32] @ join [44, 10, 32, 32] entries @ js '' }''
      else name @ js '' { '' @ join (js '', '') entries @ js '' }'')"

definition inspect_params :: "usp option \<Rightarrow> int \<Rightarrow> bool \<Rightarrow> js_error + jstr" where
  [js_eval]: "inspect_params recv depth breakLength1 =
     bindE (requireSearchParams recv) (\<lambda>st.
       if depth < 0 then Inr (js ''[Object]'')
       else if length (usp_pairs st) = 0 then Inr (js ''URLSearchParams {}'')
       else Inr (formatInspectCollection (js ''URLSearchParams'')
              (map (\<lambda>pair. inspectString (fst pair) @ js '' => '' @ inspectString (snd pair))
                 (usp_pairs st)) breakLength1))"

definition inspect_iterator :: "usp \<Rightarrow> usp_iter \<Rightarrow> int \<Rightarrow> bool \<Rightarrow> js_error + jstr" where
  [js_eval]: "inspect_iterator params it depth breakLength1 =
     (if depth < 0 then Inr (js ''[Object]'')
      else bindE (requireSearchParams (Some params)) (\<lambda>st.
        Inr (formatInspectCollection (js ''URLSearchParams Iterator'')
          (map (\<lambda>pair. case it_kind it of
                  IterKey \<Rightarrow> inspectString (fst pair)
                | IterValue \<Rightarrow> inspectString (snd pair)
                | IterEntry \<Rightarrow> js ''[ '' @ inspectString (fst pair) @ js '', '' @
                               inspectString (snd pair) @ js '' ]'')
             (drop (it_index it) (usp_pairs st))) breakLength1)))"

end
