(* ===== verification/Url_Search_Params_Laws.thy ===== *)
theory Url_Search_Params_Laws
  imports Url_Search_Params "HOL-Library.Multiset" "HOL-Library.List_Lexorder"
begin

text \<open>
  Properties of \<open>URLSearchParams\<close>: form decoding undoes form encoding, so a parameter list
  survives serialization; the pair list is a multimap from names to value lists; and a list that
  is linked to a URL reads back what was written through it.
\<close>

section \<open>Well-formed strings\<close>

lemma surrogate_iff: "surrogate c \<longleftrightarrow> is_high c \<or> is_low c"
  by (auto simp: surrogate_def is_high_def is_low_def)

lemma pair_value_large:
  "\<not> is_high (pair_value c d)" "\<not> is_low (pair_value c d)"
  by (simp_all add: is_high_def is_low_def pair_value_def)

lemma usv_code_points: "usv s = concat (map (\<lambda>c. if surrogate c then [0xFFFD] else utf16 c) (code_points s))"
  if "wf_jstr s"
  using that
proof (induction s rule: usv.induct)
  case (3 c d cs)
  then show ?case
    by (cases "is_high c"; cases "is_low d"; cases "is_low c")
      (simp_all add: wf_jstr_def utf16_pair pair_value_large surrogate_iff)
qed (auto simp: wf_jstr_def)

text \<open>\<open>toUSVString\<close> makes a string well formed and leaves a well-formed one alone.\<close>

lemma usv_well_formed: "wf_jstr s \<Longrightarrow> well_formed (usv s)"
proof -
  assume s: "wf_jstr s"
  let ?f = "\<lambda>c. if surrogate c then 0xFFFD else c"
  have units: "\<forall>c\<in>set (code_points s). c < 0x110000"
    using s
    by (induction s rule: code_points.induct)
      (auto simp: wf_jstr_def pair_value_def is_high_def is_low_def)
  then have "list_all scalar (map ?f (code_points s))"
    by (auto simp: list_all_iff scalar_def surrogate_def)
  moreover have "(\<lambda>c. if surrogate c then [0xFFFD] else utf16 c) = (\<lambda>c. utf16 (?f c))"
    by (rule ext) simp
  then have "usv s = utf16s (map ?f (code_points s))"
    unfolding usv_code_points [OF s] utf16s_def by (simp add: comp_def)
  ultimately show ?thesis using well_formed_utf16s by metis
qed

lemma usv_id: "well_formed s \<Longrightarrow> usv s = s"
proof (erule well_formedE)
  fix cps assume cps: "list_all scalar cps" "s = utf16s cps" "code_points s = cps"
  moreover have "wf_jstr s"
    using cps utf16_units by (auto simp: wf_jstr_def utf16s_def list_all_iff)
  moreover have "concat (map (\<lambda>c. if surrogate c then [0xFFFD] else utf16 c) cps) = utf16s cps"
    using cps(1) unfolding utf16s_def by (induction cps) (auto simp: scalar_def)
  ultimately show ?thesis using usv_code_points by simp
qed

section \<open>Form encoding and decoding\<close>

text \<open>
  The form-encoding of scalars. A NUL is written raw by the serializer and as \<open>%00\<close> by the URL
  setter; \<open>z\<close> says which.
\<close>

definition form_plain :: "nat \<Rightarrow> bool" where
  [js_eval]: "form_plain c = (uri_unreserved c \<and> c \<notin> {33, 39, 40, 41, 126})"

definition form_scalar :: "bool \<Rightarrow> nat \<Rightarrow> jstr" where
  [js_eval]: "form_scalar z cp =
     (if form_plain cp then [cp] else if cp = 32 then [43] else if cp = 0 \<and> z then [0]
      else pcts (utf8 cp))"

definition form_string :: "bool \<Rightarrow> nat list \<Rightarrow> jstr" where
  [js_eval]: "form_string z cps = concat (map (form_scalar z) cps)"

lemma form_string_simps [simp]:
  "form_string z [] = []" "form_string z (c # cs) = form_scalar z c @ form_string z cs"
  by (simp_all add: form_string_def)

lemma usp_replace_pct:
  assumes "b < 256"
  shows "usp_replace (pct b @ rest) =
     (if b = 32 then [43] else if b = 0 then [0] else pct b) @ usp_replace rest"
proof -
  have nospecial: "hex_upper d \<notin> {33, 39, 40, 41, 126, PERCENT}" if "d < 16" for d
    using that by (auto simp: hex_upper_def)
  have high: "b div 16 < 16" using assms by simp
  have dig: "hex_upper d = 48 \<longleftrightarrow> d = 0" "hex_upper d = 50 \<longleftrightarrow> d = 2" if "d < 16" for d
    using that by (auto simp: hex_upper_def)
  have b: "b = 32 \<longleftrightarrow> b div 16 = 2 \<and> b mod 16 = 0" "b = 0 \<longleftrightarrow> b div 16 = 0 \<and> b mod 16 = 0"
    using div_mult_mod_eq [of b 16] by auto
  show ?thesis
    using nospecial [OF high] nospecial [of "b mod 16"] dig [OF high] dig [of "b mod 16"] b
    by (auto simp: pct_def)
qed

lemma usp_replace_pcts:
  "\<forall>b\<in>set bs. 0x80 \<le> b \<and> b < 256 \<Longrightarrow> usp_replace (pcts bs @ rest) = pcts bs @ usp_replace rest"
  by (induction bs) (auto simp: usp_replace_pct)

lemma usp_replace_scalar:
  assumes "scalar cp"
  shows "usp_replace (pct_scalar uri_unreserved cp @ rest) = form_scalar True cp @ usp_replace rest"
proof (cases "uri_unreserved cp")
  case True
  then have "cp \<noteq> PERCENT" "cp < 0x80" by (auto simp: uri_unreserved_def)
  then show ?thesis using True
    by (auto simp: pct_scalar_def form_scalar_def form_plain_def utf8_def)
next
  case False
  show ?thesis
  proof (cases "cp < 0x80")
    case True
    then show ?thesis using False usp_replace_pct [of cp rest]
      by (auto simp: pct_scalar_def form_scalar_def form_plain_def utf8_def pct_def)
  next
    case high: False
    have "\<forall>b\<in>set (utf8 cp). 0x80 \<le> b \<and> b < 256"
      using high assms utf8_bounds [OF assms] by (auto simp: utf8_def)
    then show ?thesis using False high usp_replace_pcts [of "utf8 cp" rest]
      by (simp add: pct_scalar_def form_scalar_def form_plain_def)
  qed
qed

lemma usp_encode_spec:
  assumes "list_all scalar cps"
  shows "usp_encode (utf16s cps) = Inr (form_string True cps)"
proof -
  have "usp_replace (pct_string uri_unreserved cps) = form_string True cps"
    using assms by (induction cps) (auto simp: usp_replace_scalar)
  moreover have "list_all (\<lambda>c. \<not> surrogate c) cps" using assms by (auto simp: list_all_iff scalar_def)
  ultimately show ?thesis
    using assms usv_id [OF well_formed_utf16s [OF assms]]
    by (simp add: usp_encode_def encodeURIComponent_def code_points_utf16s)
qed

lemma pct_run_plain: "c \<noteq> PERCENT \<Longrightarrow> pct_run (c # s) = ([], c # s)"
  by (simp add: pct_run.simps pct_octet_cons)

lemma pct_run_pcts:
  "\<forall>b\<in>set bs. b < 256 \<Longrightarrow>
     pct_run (pcts bs @ s) = (pcts bs @ fst (pct_run s), snd (pct_run s))"
proof (induction bs)
  case (Cons b bs)
  have "take 3 (pct b @ pcts bs @ s) = pct b" by (simp add: pct_def)
  then show ?case using Cons by (subst pct_run.simps) simp
qed simp

lemma pct_run_string:
  assumes "plain_set plain" and "list_all scalar cps"
  shows "pct_run (pct_string plain cps) =
     (pct_string plain (takeWhile (\<lambda>c. \<not> plain c) cps), pct_string plain (dropWhile (\<lambda>c. \<not> plain c) cps))"
  using assms(2)
proof (induction cps)
  case Nil
  then show ?case by (simp add: pct_run.simps pct_octet_def)
next
  case (Cons cp cps)
  then show ?case using assms(1) utf8_bounds [of cp]
    by (cases "plain cp") (auto simp: pct_scalar_def plain_set_def pct_run_plain pct_run_pcts)
qed

lemma pct_scalar_nonempty: "pct_scalar plain cp \<noteq> []"
  by (auto simp: pct_scalar_def utf8_def pct_def)

lemma decode_runs_string:
  assumes "plain_set plain" and "list_all scalar cps"
  shows "decode_runs (pct_string plain cps) = Inr (utf16s cps)"
  using assms(2)
proof (induction "length cps" arbitrary: cps rule: less_induct)
  case less
  show ?case
  proof (cases cps)
    case Nil
    then show ?thesis by (simp add: decode_runs.simps)
  next
    case (Cons cp rest)
    show ?thesis
    proof (cases "plain cp")
      case True
      then have "cp < 0x10000" "cp \<noteq> PERCENT" using assms(1) by (auto simp: plain_set_def)
      then show ?thesis using Cons True less.hyps [of rest] less.prems
        by (simp add: pct_scalar_def decode_runs.simps [of "cp # _"] pct_run_plain)
    next
      case False
      let ?xs = "takeWhile (\<lambda>c. \<not> plain c) cps" and ?ys = "dropWhile (\<lambda>c. \<not> plain c) cps"
      have run: "pct_run (pct_string plain cps) = (pct_string plain ?xs, pct_string plain ?ys)"
        by (rule pct_run_string [OF assms(1) less.prems])
      have ne: "pct_string plain ?xs \<noteq> []" using Cons False pct_scalar_nonempty by simp
      then obtain c cs where s: "pct_string plain cps = c # cs"
        using Cons pct_scalar_nonempty by (cases "pct_string plain cps") auto
      have "length ?ys < length cps" using Cons False by (simp add: le_imp_less_Suc length_dropWhile_le)
      moreover have "list_all scalar ?xs" "list_all scalar ?ys"
        using less.prems by (auto simp: list_all_iff dest: set_takeWhileD set_dropWhileD)
      ultimately have "decodeURIComponent (pct_string plain ?xs) = Inr (utf16s ?xs)"
        "decode_runs (pct_string plain ?ys) = Inr (utf16s ?ys)"
        using decodeURIComponent_pct_string [OF assms(1)] less.hyps by simp_all
      then have "decode_runs (pct_string plain cps) = Inr (utf16s ?xs @ utf16s ?ys)"
        using run ne unfolding s by (subst decode_runs.simps) simp
      then show ?thesis using takeWhile_dropWhile_id [of "\<lambda>c. \<not> plain c" cps]
        by (metis utf16s_simps(3))
    qed
  qed
qed

text \<open>\<open>decode\<close> undoes \<open>encode\<close>, whichever way the NULs are written.\<close>

lemma usp_decode_form:
  assumes "list_all scalar cps"
  shows "usp_decode (form_string z cps) = Inr (utf16s cps)"
proof -
  let ?plain = "\<lambda>c. form_plain c \<or> (z \<and> c = 0)"
  have plain: "plain_set ?plain" by (auto simp: plain_set_def form_plain_def uri_unreserved_def)
  have no_space: "space_escape (pcts bs) = pcts bs" if "\<forall>b\<in>set bs. b < 256" for bs
  proof -
    have "hex_upper d \<noteq> 32 \<and> hex_upper d \<noteq> 43" if "d < 16" for d
      using that by (auto simp: hex_upper_def)
    then show ?thesis using that by (induction bs) (auto simp: space_escape_def pct_def)
  qed
  have app: "space_escape (xs @ ys) = space_escape xs @ space_escape ys" for xs ys
    by (simp add: space_escape_def)
  have one: "space_escape (form_scalar z cp) = pct_scalar ?plain cp" if "scalar cp" for cp
  proof -
    consider "form_plain cp" | "cp = 32" | "cp = 0" "z" "\<not> form_plain cp"
      | "\<not> form_plain cp" "cp \<noteq> 32" "\<not> (cp = 0 \<and> z)" by blast
    then show ?thesis
    proof cases
      case 1
      then have "cp \<noteq> 32" "cp \<noteq> 43" by (auto simp: form_plain_def uri_unreserved_def)
      then show ?thesis using 1 by (simp add: form_scalar_def pct_scalar_def space_escape_def)
    next
      case 2
      then show ?thesis
        by (simp add: form_scalar_def pct_scalar_def space_escape_def form_plain_def uri_unreserved_def
            utf8_def)
    next
      case 3
      then show ?thesis by (simp add: form_scalar_def pct_scalar_def space_escape_def)
    next
      case 4
      then show ?thesis using no_space utf8_bounds [OF that]
        by (auto simp: form_scalar_def pct_scalar_def)
    qed
  qed
  have "space_escape (form_string z cps) = pct_string ?plain cps"
    using assms by (induction cps) (simp_all add: one app, simp add: space_escape_def)
  then show ?thesis
    using decode_runs_string [OF plain assms] by (simp add: usp_decode_def)
qed

section \<open>Parsing what was serialized\<close>

definition usv_pairs :: "pairs \<Rightarrow> bool" where
  [js_eval]: "usv_pairs ps = list_all (\<lambda>p. well_formed (fst p) \<and> well_formed (snd p)) ps"

definition form_pair :: "bool \<Rightarrow> jstr \<times> jstr \<Rightarrow> jstr" where
  [js_eval]: "form_pair z p =
     form_string z (code_points (fst p)) @ 61 # form_string z (code_points (snd p))"

lemma form_scalar_chars:
  assumes "scalar cp" and "c \<in> set (form_scalar z cp)"
  shows "form_plain c \<or> c = 43 \<or> c = 0 \<or> c = PERCENT"
proof -
  have hex: "form_plain (hex_upper d)" if "d < 16" for d
    using that by (auto simp: form_plain_def uri_unreserved_def hex_upper_def)
  have "c \<in> set (pcts bs) \<Longrightarrow> \<forall>b\<in>set bs. b < 256 \<Longrightarrow> form_plain c \<or> c = PERCENT" for bs
    by (induction bs) (auto simp: pct_def hex)
  then show ?thesis using assms utf8_bounds [OF assms(1)]
    by (auto simp: form_scalar_def split: if_splits)
qed

lemma form_string_chars:
  "list_all scalar cps \<Longrightarrow> c \<in> set (form_string z cps) \<Longrightarrow> c \<noteq> 38 \<and> c \<noteq> 61 \<and> c \<noteq> 63"
  using form_scalar_chars
  by (fastforce simp: form_string_def list_all_iff form_plain_def uri_unreserved_def)

lemma well_formed_scalars: "well_formed s \<Longrightarrow> list_all scalar (code_points s)"
  by (simp add: well_formed_def)

lemma usp_decode_well_formed:
  "well_formed s \<Longrightarrow> usp_decode (form_string z (code_points s)) = Inr s"
  by (erule well_formedE) (auto simp: usp_decode_form)

lemma usp_encode_well_formed:
  "well_formed s \<Longrightarrow> usp_encode s = Inr (form_string True (code_points s))"
  by (erule well_formedE) (auto simp: usp_encode_spec)

lemma serialize_form:
  "usv_pairs ps \<Longrightarrow> serialize_fields ps = Inr (map (form_pair True) ps)"
  by (induction ps) (auto simp: usv_pairs_def form_pair_def usp_encode_well_formed)

lemma parse_form:
  "usv_pairs ps \<Longrightarrow> parse_fields (map (form_pair z) ps) = Inr ps"
proof (induction ps)
  case (Cons p ps)
  obtain k v where p: "p = (k, v)" by fastforce
  have wf: "well_formed k" "well_formed v" "usv_pairs ps"
    using Cons.prems p by (simp_all add: usv_pairs_def)
  let ?k = "form_string z (code_points k)" and ?v = "form_string z (code_points v)"
  have "61 \<notin> set ?k" using form_string_chars [OF well_formed_scalars [OF wf(1)]] by blast
  then have "indexOf (?k @ 61 # ?v) [61] 0 = int (length ?k)" by (rule indexOf_char_first)
  then show ?case using Cons.IH wf usp_decode_well_formed
    by (simp add: p form_pair_def Let_def slice_from_after)
qed simp

text \<open>The query string of a pair list, and how the search setter of a URL stores it.\<close>

definition query_string :: "bool \<Rightarrow> pairs \<Rightarrow> jstr" where
  [js_eval]: "query_string z ps = join [38] (map (form_pair z) ps)"

lemma form_pair_no_amp:
  assumes "usv_pairs ps"
  shows "\<forall>f\<in>set (map (form_pair z) ps). \<forall>c\<in>set f. c \<noteq> 38"
  using assms form_string_chars well_formed_scalars
  by (fastforce simp: usv_pairs_def form_pair_def list_all_iff)

lemma query_string_hd:
  assumes "usv_pairs ps" and "query_string z ps \<noteq> []"
  shows "hd (query_string z ps) \<noteq> 63"
proof (cases ps)
  case Nil
  then show ?thesis using assms(2) by (simp add: query_string_def)
next
  case (Cons p rest)
  obtain k v where p: "p = (k, v)" by fastforce
  have hd: "hd (query_string z ps) = hd (form_pair z p)"
    by (cases rest) (simp_all add: query_string_def Cons form_pair_def hd_append)
  have "\<forall>c\<in>set (form_string z (code_points k)). c \<noteq> 63"
    using assms(1) form_string_chars well_formed_scalars [of k]
    by (fastforce simp: Cons p usv_pairs_def)
  then show ?thesis unfolding hd by (cases "form_string z (code_points k)") (auto simp: p form_pair_def)
qed

lemma parse_query:
  assumes "usv_pairs ps"
  shows "parse_search (query_string z ps) = Inr ps" "parse_search (63 # query_string z ps) = Inr ps"
proof -
  have fields: "parse_fields (splitP (\<lambda>c. c = 38) (query_string z ps)) = Inr ps"
  proof (cases "ps = []")
    case False
    then have "splitP (\<lambda>c. c = 38) (query_string z ps) = map (form_pair z) ps"
      unfolding query_string_def using form_pair_no_amp [OF assms] by (intro split_join) auto
    then show ?thesis using parse_form [OF assms] by simp
  qed (simp add: query_string_def Let_def indexOf_char_notin)
  then show "parse_search (query_string z ps) = Inr ps"
    using query_string_hd [OF assms] by (auto simp: parse_search_def)
  show "parse_search (63 # query_string z ps) = Inr ps"
    using fields slice_from_nat [of "63 # query_string z ps" 1] by (simp add: parse_search_def)
qed

text \<open>Serialization of any strings: the encoder replaces unpaired surrogates first.\<close>

definition usv_pair :: "jstr \<times> jstr \<Rightarrow> jstr \<times> jstr" where
  [js_eval]: "usv_pair p = (usv (fst p), usv (snd p))"

lemma usp_encode_usv: "wf_jstr s \<Longrightarrow> usp_encode s = usp_encode (usv s)"
  by (simp add: usp_encode_def usv_id usv_well_formed)

lemma serialize_usv:
  assumes "list_all (\<lambda>p. wf_jstr (fst p) \<and> wf_jstr (snd p)) ps"
  shows "serialize_fields ps = serialize_fields (map usv_pair ps)" and "usv_pairs (map usv_pair ps)"
  using assms
  by (induction ps) (auto simp: usv_pair_def usv_pairs_def usv_well_formed simp flip: usp_encode_usv)

text \<open>
  C33: constructing parameters from the serialization of any \<open>URLSearchParams\<close>, with or without a
  leading question mark, gives its list of pairs with every unpaired surrogate replaced by U+FFFD. The
  object may be linked to a URL: its pairs are then those that its methods see, \<open>requireSearchParams\<close>.
  A list that holds no unpaired surrogate comes back as it is (\<open>usv_id\<close>).
\<close>

theorem search_params_round_trip:
  assumes "requireSearchParams recv = Inr st"
    and "list_all (\<lambda>p. wf_jstr (fst p) \<and> wf_jstr (snd p)) (usp_pairs st)"
  shows "\<exists>s. usp_toString recv = Inr s \<and>
     bindE (usp_new to_string (JStr s)) (\<lambda>st'. Inr (usp_pairs st')) = Inr (map usv_pair (usp_pairs st)) \<and>
     bindE (usp_new to_string (JStr (63 # s))) (\<lambda>st'. Inr (usp_pairs st')) = Inr (map usv_pair (usp_pairs st))"
proof -
  have "usp_toString recv = Inr (query_string True (map usv_pair (usp_pairs st)))"
    using assms serialize_usv [OF assms(2)] by (simp add: usp_toString_def serialize_form query_string_def)
  then show ?thesis using parse_query [OF serialize_usv(2) [OF assms(2)], of True]
    by (simp add: usp_new_def parseToPairs_def)
qed

text \<open>The second value is a lone surrogate.\<close>

lemma search_params_round_trip_witness:
  "\<exists>s. usp_toString (Some \<lparr>usp_pairs = [(js ''a b&'', [0x20AC, 0]), ([], [0xD800])], usp_url = None,
           usp_updating = False\<rparr>) = Inr s \<and>
     bindE (usp_new (\<lambda>_. Inl URIError) (JStr s)) (\<lambda>st'. Inr (usp_pairs st')) =
       Inr [(js ''a b&'', [0x20AC, 0]), ([], [0xFFFD])]"
  using search_params_round_trip [of "Some \<lparr>usp_pairs = [(js ''a b&'', [0x20AC, 0]), ([], [0xD800])],
      usp_url = None, usp_updating = False\<rparr>" "\<lparr>usp_pairs = [(js ''a b&'', [0x20AC, 0]), ([], [0xD800])],
      usp_url = None, usp_updating = False\<rparr>" "\<lambda>_. Inl URIError"]
  by (force simp: js_eval wf_jstr_def usv_pair_def)

section \<open>The pair list as a multimap\<close>

text \<open>What a client of a multimap relies on: \<open>add\<close> appends, \<open>remove\<close> clears, \<open>put\<close> replaces.\<close>

locale multimap =
  fixes lookup :: "'k \<Rightarrow> 'm \<Rightarrow> 'v list"
    and add :: "'k \<Rightarrow> 'v \<Rightarrow> 'm \<Rightarrow> 'm"
    and remove :: "'k \<Rightarrow> 'm \<Rightarrow> 'm"
    and put :: "'k \<Rightarrow> 'v \<Rightarrow> 'm \<Rightarrow> 'm"
  assumes lookup_add: "lookup k' (add k v m) = (if k' = k then lookup k' m @ [v] else lookup k' m)"
    and lookup_remove: "lookup k' (remove k m) = (if k' = k then [] else lookup k' m)"
    and lookup_put: "lookup k' (put k v m) = (if k' = k then [v] else lookup k' m)"
begin

definition same :: "'m \<Rightarrow> 'm \<Rightarrow> bool" where
  "same m m' = (\<forall>k. lookup k m = lookup k m')"

lemma put_is_remove_add: "same (put k v m) (add k v (remove k m))"
  by (simp add: same_def lookup_add lookup_remove lookup_put)

lemma put_put: "same (put k v (put k w m)) (put k v m)"
  by (simp add: same_def lookup_put)

lemma remove_add: "same (remove k (add k v m)) (remove k m)"
  by (simp add: same_def lookup_add lookup_remove)

lemma add_commute: "k \<noteq> k' \<Longrightarrow> same (add k v (add k' v' m)) (add k' v' (add k v m))"
  by (auto simp: same_def lookup_add)

lemma put_remove_commute: "k \<noteq> k' \<Longrightarrow> same (put k v (remove k' m)) (remove k' (put k v m))"
  by (auto simp: same_def lookup_put lookup_remove)

end

lemma pairs_getAll_filter: "pairs_getAll key ps = map snd (filter (\<lambda>p. fst p = key) ps)"
  by (induction ps) auto

lemma pairs_set_loop_True:
  "pairs_set_loop key val ps True out = (True, out @ filter (\<lambda>p. fst p \<noteq> key) ps)"
  by (induction ps arbitrary: out) auto

lemma pairs_set_loop_False:
  "pairs_set_loop key val ps False out =
     (key \<in> fst ` set ps,
      out @ (if key \<in> fst ` set ps
             then takeWhile (\<lambda>p. fst p \<noteq> key) ps @
                  (key, val) # filter (\<lambda>p. fst p \<noteq> key) (dropWhile (\<lambda>p. fst p \<noteq> key) ps)
             else ps))"
  by (induction ps arbitrary: out) (auto simp: pairs_set_loop_True)

lemma pairs_set_spec:
  "pairs_set key val ps =
     (if key \<in> fst ` set ps
      then takeWhile (\<lambda>p. fst p \<noteq> key) ps @
           (key, val) # filter (\<lambda>p. fst p \<noteq> key) (dropWhile (\<lambda>p. fst p \<noteq> key) ps)
      else ps @ [(key, val)])"
  by (simp add: pairs_set_def pairs_set_loop_False)

lemma filter_other_key:
  "k' \<noteq> k \<Longrightarrow> filter (\<lambda>x. fst x \<noteq> k \<and> fst x = k') ps = filter (\<lambda>p. fst p = k') ps"
  by (rule filter_cong) auto

lemma filter_takeWhile_key:
  "filter (\<lambda>p. fst p = k') (takeWhile (\<lambda>p. fst p \<noteq> k) ps) @
     filter (\<lambda>p. fst p = k') (filter (\<lambda>p. fst p \<noteq> k) (dropWhile (\<lambda>p. fst p \<noteq> k) ps)) =
   (if k' = k then [] else filter (\<lambda>p. fst p = k') ps)"
  by (induction ps) (auto simp: filter_empty_conv filter_other_key dest: set_takeWhileD)

lemma getAll_set: "pairs_getAll k' (pairs_set k v ps) = (if k' = k then [v] else pairs_getAll k' ps)"
proof -
  have "filter (\<lambda>p. fst p = k') (pairs_set k v ps) =
      (if k' = k then [(k, v)] else filter (\<lambda>p. fst p = k') ps)"
    using filter_takeWhile_key [of k' k ps]
    by (auto simp: pairs_set_spec filter_empty_conv split: if_splits)
  then show ?thesis by (simp add: pairs_getAll_filter)
qed

interpretation params: multimap pairs_getAll pairs_append pairs_delete pairs_set
proof unfold_locales
  fix k' k and v :: jstr and m :: pairs
  show "pairs_getAll k' (pairs_append k v m) =
      (if k' = k then pairs_getAll k' m @ [v] else pairs_getAll k' m)"
    by (simp add: pairs_getAll_filter pairs_append_def)
  show "pairs_getAll k' (pairs_delete k m) = (if k' = k then [] else pairs_getAll k' m)"
    by (auto simp: pairs_getAll_filter pairs_delete_def filter_empty_conv filter_other_key)
  show "pairs_getAll k' (pairs_set k v m) = (if k' = k then [v] else pairs_getAll k' m)"
    by (rule getAll_set)
qed

lemma pairs_get_getAll:
  "pairs_get key ps = (case pairs_getAll key ps of [] \<Rightarrow> None | v # _ \<Rightarrow> Some v)"
  by (induction ps) auto

lemma pairs_has_getAll: "pairs_has key None ps = (pairs_getAll key ps \<noteq> [])"
  "pairs_has key (Some v) ps = (v \<in> set (pairs_getAll key ps))"
  by (induction ps) auto

text \<open>
  C34: \<open>append\<close>, \<open>delete\<close>, \<open>set\<close> and the lookups implement a map from names to value lists:
  \<open>set\<close> is \<open>delete\<close> followed by \<open>append\<close> for every later lookup, and \<open>get\<close> and \<open>has\<close> read the list
  \<open>getAll\<close> returns.
\<close>

theorem params_are_multimap:
  "pairs_getAll k (pairs_append n v ps) = pairs_getAll k ps @ (if k = n then [v] else []) \<and>
   pairs_getAll k (pairs_delete n ps) = (if k = n then [] else pairs_getAll k ps) \<and>
   pairs_getAll k (pairs_set n v ps) = pairs_getAll k (pairs_append n v (pairs_delete n ps)) \<and>
   pairs_get k ps = (if pairs_getAll k ps = [] then None else Some (hd (pairs_getAll k ps))) \<and>
   pairs_has k None ps = (pairs_getAll k ps \<noteq> []) \<and>
   pairs_has k (Some v) ps = (v \<in> set (pairs_getAll k ps))"
  using params.put_is_remove_add [of n v ps]
  by (auto simp: params.lookup_add params.lookup_remove params.same_def pairs_get_getAll
      pairs_has_getAll split: list.split)

section \<open>Sorting\<close>

text \<open>
  What \<open>sort\<close> needs of a comparator (a total preorder), and what it then gives: a sorted permutation
  that keeps the order of equivalent elements. There is only one such list, so any stable sort, the
  engine's own included, returns it.
\<close>

locale comparator =
  fixes cmp :: "'a \<Rightarrow> 'a \<Rightarrow> int"
  assumes linear: "cmp x y \<le> 0 \<or> cmp y x \<le> 0"
    and transitive: "cmp x y \<le> 0 \<Longrightarrow> cmp y z \<le> 0 \<Longrightarrow> cmp x z \<le> 0"
begin

abbreviation below :: "'a \<Rightarrow> 'a \<Rightarrow> bool" where
  "below x y \<equiv> cmp x y \<le> 0"

definition tied :: "'a \<Rightarrow> 'a \<Rightarrow> bool" where
  "tied x y = (below x y \<and> below y x)"

lemma set_insert: "set (sort_insert cmp x ys) = insert x (set ys)"
  by (induction ys) auto

lemma mset_insert: "mset (sort_insert cmp x ys) = add_mset x (mset ys)"
  by (induction ys) auto

lemma sorted_insert: "sorted_wrt below ys \<Longrightarrow> sorted_wrt below (sort_insert cmp x ys)"
proof (induction ys)
  case (Cons y ys)
  then show ?case using linear [of x y] transitive [of x y] by (auto simp: set_insert)
qed simp

lemma stable_insert: "sorted_wrt below ys \<Longrightarrow> filter (tied z) (sort_insert cmp x ys) = filter (tied z) (x # ys)"
proof (induction ys)
  case (Cons y ys)
  then show ?case using transitive [of y z x] transitive [of x z y] by (auto simp: tied_def)
qed simp

lemma sort_mset: "mset (array_sort cmp xs) = mset xs"
  by (induction xs) (auto simp: mset_insert)

lemma sort_sorted: "sorted_wrt below (array_sort cmp xs)"
  by (induction xs) (auto simp: sorted_insert)

lemma sort_stable: "filter (tied z) (array_sort cmp xs) = filter (tied z) xs"
  by (induction xs) (auto simp: stable_insert [OF sort_sorted])

lemma tied_refl: "tied x x"
  using linear [of x x] by (simp add: tied_def)

lemma stable_unique:
  assumes "sorted_wrt below xs" and "sorted_wrt below ys" and "mset xs = mset ys"
    and "\<And>z. filter (tied z) xs = filter (tied z) ys"
  shows "xs = ys"
  using assms
proof (induction xs arbitrary: ys)
  case (Cons x xs)
  then obtain y ys' where ys: "ys = y # ys'" by (cases ys) auto
  have members: "insert x (set xs) = insert y (set ys')"
    using Cons.prems(3) ys by (metis list.simps(15) set_mset_mset)
  then have "below y x" "below x y" using Cons.prems(1,2) ys linear [of x x] by auto
  then have "tied x y" by (simp add: tied_def)
  then have "x = y" using Cons.prems(4) [of x] ys tied_refl [of x] by simp
  moreover from this have "xs = ys'"
  proof (intro Cons.IH)
    show "filter (tied z) xs = filter (tied z) ys'" for z
      using Cons.prems(4) [of z] ys \<open>x = y\<close> by (cases "tied z y") simp_all
  qed (use Cons.prems ys \<open>x = y\<close> in simp_all)
  ultimately show ?case using ys by simp
qed simp

lemma sort_unique:
  assumes "sorted_wrt below ys" and "mset ys = mset xs" and "\<And>z. filter (tied z) ys = filter (tied z) xs"
  shows "ys = array_sort cmp xs"
  by (rule stable_unique [OF assms(1)]) (simp_all add: sort_sorted sort_mset sort_stable assms(2,3))

end

lemma str_less_iff: "str_less s t = (s < t)"
  by (induction s t rule: str_less.induct) auto

lemma pair_order_le: "pair_order a b \<le> 0 \<longleftrightarrow> fst a \<le> fst b"
  by (auto simp: pair_order_def str_less_iff)

interpretation names: comparator pair_order
  by unfold_locales (auto simp: pair_order_le)

lemma names_tied: "names.tied z p \<longleftrightarrow> fst p = fst z"
  by (auto simp: names.tied_def pair_order_le)

lemma set_pairs_sort: "set (pairs_sort ps) = set ps"
  using names.sort_mset [of ps] by (metis pairs_sort_def set_mset_mset)

lemma names_sorted: "sorted_wrt (\<lambda>a b. pair_order a b \<le> 0) ps \<longleftrightarrow> sorted (map fst ps)"
  by (simp add: pair_order_le sorted_map)

lemma getAll_tied: "pairs_getAll k ps = map snd (filter (names.tied (k, [])) ps)"
  by (simp add: pairs_getAll_filter names_tied [abs_def])

lemma tied_getAll: "filter (names.tied z) ps = map (\<lambda>v. (fst z, v)) (pairs_getAll (fst z) ps)"
  by (induction ps) (auto simp: names_tied)

text \<open>
  C38: \<open>sort\<close> orders the pairs by the code units of their names, keeps exactly the same pairs, and keeps
  for every name the order of its values. It is the only list with these properties, whatever stable
  algorithm the engine runs.
\<close>

theorem params_sort:
  "sorted (map fst (pairs_sort ps)) \<and> mset (pairs_sort ps) = mset ps \<and>
   (\<forall>k. pairs_getAll k (pairs_sort ps) = pairs_getAll k ps) \<and>
   (\<forall>qs. sorted (map fst qs) \<and> mset qs = mset ps \<and> (\<forall>k. pairs_getAll k qs = pairs_getAll k ps) \<longrightarrow> qs = pairs_sort ps)"
proof -
  have "qs = pairs_sort ps" if "sorted (map fst qs)" "mset qs = mset ps" "\<forall>k. pairs_getAll k qs = pairs_getAll k ps" for qs
    unfolding pairs_sort_def using that by (auto simp: names_sorted tied_getAll intro: names.sort_unique)
  moreover have "pairs_getAll k (pairs_sort ps) = pairs_getAll k ps" for k
    by (simp add: getAll_tied names.sort_stable pairs_sort_def)
  moreover have "sorted (map fst (pairs_sort ps))"
    using names.sort_sorted names_sorted by (simp add: pairs_sort_def)
  moreover have "mset (pairs_sort ps) = mset ps" by (simp add: pairs_sort_def names.sort_mset)
  ultimately show ?thesis by blast
qed

text \<open>Four pairs sorted; \<open>b\<close> keeps the order of its values, and \<open>ab\<close> comes before \<open>b\<close>.\<close>

lemma params_sort_witness:
  "[(js ''a'', []), (js ''ab'', []), (js ''b'', js ''2''), (js ''b'', js ''1'')] =
   pairs_sort [(js ''b'', js ''2''), (js ''ab'', []), (js ''b'', js ''1''), (js ''a'', [])]"
proof -
  let ?ps = "[(js ''b'', js ''2''), (js ''ab'', []), (js ''b'', js ''1''), (js ''a'', [])]"
  let ?qs = "[(js ''a'', []), (js ''ab'', []), (js ''b'', js ''2''), (js ''b'', js ''1'')]"
  have "sorted (map fst ?qs)" "mset ?qs = mset ?ps" "\<forall>k. pairs_getAll k ?qs = pairs_getAll k ?ps"
    by (simp_all add: js_eval)
  then show "?qs = pairs_sort ?ps" using params_sort [of ?ps] by blast
qed

section \<open>Parameters linked to a URL\<close>

text \<open>
  What the native search setter does on the strings it is given here (URL standard): an empty
  search stays empty; in a query over the serializer's alphabet only NUL is percent-encoded; and
  what it stores is ASCII.
\<close>

definition setter_ok :: "(jstr \<Rightarrow> jstr) \<Rightarrow> bool" where
  "setter_ok set_search =
     (set_search [] = [] \<and> (\<forall>v. \<forall>c\<in>set (set_search v). c < 128) \<and>
      (\<forall>q. q \<noteq> [] \<and> (\<forall>c\<in>set q. form_plain c \<or> c \<in> {38, 61, 43, 0, PERCENT}) \<longrightarrow>
         set_search (63 # q) = 63 # concat (map (\<lambda>c. if c = 0 then pct 0 else [c]) q)))"

definition strings_ok :: "(jsval \<Rightarrow> js_error + jstr) \<Rightarrow> bool" where
  "strings_ok to_string = (\<forall>v s. to_string v = Inr s \<longrightarrow> wf_jstr s)"

abbreviation nul_escape :: "jstr \<Rightarrow> jstr" where
  "nul_escape q \<equiv> concat (map (\<lambda>c. if c = 0 then pct 0 else [c]) q)"

lemma nul_escape_id: "0 \<notin> set q \<Longrightarrow> nul_escape q = q"
  by (induction q) auto

lemma nul_escape_form:
  "list_all scalar cps \<Longrightarrow> nul_escape (form_string True cps) = form_string False cps"
proof (induction cps)
  case (Cons cp cps)
  have "nul_escape (form_scalar True cp) = form_scalar False cp" if "scalar cp"
  proof (cases "cp = 0")
    case True
    then show ?thesis by (simp add: form_scalar_def form_plain_def uri_unreserved_def utf8_def)
  next
    case False
    have "0 \<notin> set (pcts bs)" for bs by (induction bs) (auto simp: pct_def hex_upper_def)
    then have "0 \<notin> set (form_scalar True cp)" using False by (auto simp: form_scalar_def)
    then show ?thesis using False by (simp add: nul_escape_id) (simp add: form_scalar_def)
  qed
  then show ?case using Cons by simp
qed simp

lemma nul_escape_query:
  assumes "usv_pairs ps"
  shows "nul_escape (query_string True ps) = query_string False ps"
proof -
  have one: "nul_escape (form_pair True p) = form_pair False p" if "p \<in> set ps" for p
  proof -
    have "well_formed (fst p)" "well_formed (snd p)"
      using assms that by (auto simp: usv_pairs_def list_all_iff)
    then show ?thesis by (simp add: form_pair_def nul_escape_form well_formed_scalars)
  qed
  have "nul_escape (join [38] fs) = join [38] (map nul_escape fs)" for fs
    by (induction "[38 :: nat]" fs rule: join.induct) auto
  then show ?thesis unfolding query_string_def using one by (simp cong: map_cong)
qed

lemma query_string_alphabet:
  assumes "usv_pairs ps"
  shows "\<forall>c\<in>set (query_string True ps). form_plain c \<or> c \<in> {38, 61, 43, 0, PERCENT}"
proof
  fix c assume "c \<in> set (query_string True ps)"
  then consider "c = 38" | p where "p \<in> set ps" "c \<in> set (form_pair True p)"
    using set_join [of "[38]" "map (form_pair True) ps"] by (auto simp: query_string_def)
  then show "form_plain c \<or> c \<in> {38, 61, 43, 0, PERCENT}"
  proof cases
    case 2
    then have "well_formed (fst p)" "well_formed (snd p)"
      using assms by (auto simp: usv_pairs_def list_all_iff)
    then show ?thesis using 2 form_scalar_chars
      by (fastforce simp: form_pair_def form_string_def well_formed_def list_all_iff)
  qed simp
qed

text \<open>What is decoded from an ASCII string is well formed.\<close>

definition scalars_of :: "jstr \<Rightarrow> bool" where
  "scalars_of s = (\<exists>cps. list_all scalar cps \<and> s = utf16s cps)"

lemma scalars_of_append: "scalars_of s \<Longrightarrow> scalars_of t \<Longrightarrow> scalars_of (s @ t)"
  unfolding scalars_of_def by (metis list_all_append utf16s_simps(3))

lemma scalars_of_utf16: "scalar cp \<Longrightarrow> scalars_of (utf16 cp)"
  unfolding scalars_of_def by (rule exI [of _ "[cp]"]) simp

lemma scalars_of_ascii: "c < 128 \<Longrightarrow> scalars_of [c]"
  using scalars_of_utf16 [of c] by (simp add: scalar_def surrogate_def)

lemma scalars_of_Nil: "scalars_of []"
  unfolding scalars_of_def by (rule exI [of _ "[]"]) simp

lemma scalars_of_well_formed: "scalars_of s \<Longrightarrow> well_formed s"
  using well_formed_utf16s by (auto simp: scalars_of_def)

lemma octet_rest_ascii:
  "pct_octet s = Some (b, rest) \<Longrightarrow> \<forall>c\<in>set s. c < 128 \<Longrightarrow> \<forall>c\<in>set rest. c < 128"
  using pct_octet_rest [of s b rest] by (metis UnI2 set_append)

lemma take_octets_ascii:
  "take_octets n s = Some (bs, rest) \<Longrightarrow> \<forall>c\<in>set s. c < 128 \<Longrightarrow> \<forall>c\<in>set rest. c < 128"
proof (induction n arbitrary: s bs)
  case (Suc n)
  then obtain b s' bs' where "pct_octet s = Some (b, s')" "take_octets n s' = Some (bs', rest)"
    by (auto split: option.splits)
  then show ?case using Suc.IH Suc.prems(2) octet_rest_ascii by blast
qed simp

lemma leading_zero: "leading_ones b = 0 \<longleftrightarrow> b < 128"
  by (simp add: leading_ones_def)

lemma decodeURIComponent_scalars:
  "decodeURIComponent s = Inr out \<Longrightarrow> \<forall>c\<in>set s. c < 128 \<Longrightarrow> scalars_of out"
proof (induction "length s" arbitrary: s out rule: less_induct)
  case less
  show ?case
  proof (cases s)
    case Nil
    then show ?thesis using less.prems(1) by (simp add: scalars_of_Nil)
  next
    case (Cons c cs)
    show ?thesis
    proof (cases "c = PERCENT")
      case False
      then obtain o1 where "decodeURIComponent cs = Inr o1" "out = [c] @ o1"
        using less.prems(1) Cons by (auto simp: decodeURIComponent_char bindE_Inr_iff)
      moreover have "scalars_of [c]" using less.prems(2) Cons by (simp add: scalars_of_ascii)
      ultimately show ?thesis using less.hyps [of cs o1] less.prems(2) Cons
        by (simp add: scalars_of_append del: append_Cons append_Nil)
    next
      case True
      then obtain b rest where oct: "pct_octet s = Some (b, rest)"
        using less.prems(1) Cons
        by (cases "pct_octet s") (auto simp: decodeURIComponent.simps [of "PERCENT # cs"])
      have rest: "length rest < length s" "\<forall>c\<in>set rest. c < 128"
        using pct_octet_rest [OF oct] octet_rest_ascii [OF oct less.prems(2)] by auto
      show ?thesis
      proof (cases "leading_ones b = 0")
        case zero: True
        then obtain o1 where "decodeURIComponent rest = Inr o1" "out = [b] @ o1"
          using less.prems(1) Cons True oct
          by (auto simp: decodeURIComponent.simps [of "PERCENT # cs"] bindE_Inr_iff)
        then show ?thesis using less.hyps [OF rest(1)] rest(2) zero
          by (simp add: scalars_of_append scalars_of_ascii leading_zero del: append_Cons append_Nil)
      next
        case False
        then obtain bs rest' o1 where take: "take_octets (leading_ones b - 1) rest = Some (bs, rest')"
          and "utf8_valid (b # bs)" "decodeURIComponent rest' = Inr o1"
            "out = utf16 (octets_value (b # bs)) @ o1"
          using less.prems(1) Cons True oct
          by (auto simp: decodeURIComponent.simps [of "PERCENT # cs"] bindE_Inr_iff split: if_splits option.splits)
        moreover have "length rest' < length s" "\<forall>c\<in>set rest'. c < 128"
          using take_octets_length [OF take] take_octets_ascii [OF take rest(2)] rest(1) by auto
        ultimately show ?thesis using less.hyps [of rest' o1]
          by (simp add: scalars_of_append scalars_of_utf16 utf8_valid_def)
      qed
    qed
  qed
qed

lemma pct_run_split: "s = fst (pct_run s) @ snd (pct_run s)"
proof (induction s rule: pct_run.induct)
  case (1 s)
  show ?case
  proof (cases "pct_octet s")
    case (Some p)
    obtain b rest where p: "p = (b, rest)" by fastforce
    then show ?thesis using 1 [OF Some p [symmetric]] Some pct_octet_rest [of s b rest]
      by (simp add: pct_run.simps [of s])
  qed (simp add: pct_run.simps)
qed

lemma decode_runs_scalars:
  "decode_runs s = Inr out \<Longrightarrow> \<forall>c\<in>set s. c < 128 \<Longrightarrow> scalars_of out"
proof (induction "length s" arbitrary: s out rule: less_induct)
  case less
  show ?case
  proof (cases s)
    case Nil
    then show ?thesis using less.prems(1) by (simp add: decode_runs.simps scalars_of_Nil)
  next
    case (Cons c cs)
    show ?thesis
    proof (cases "fst (pct_run s) = []")
      case True
      then obtain o1 where "decode_runs cs = Inr o1" "out = [c] @ o1"
        using less.prems(1) Cons by (auto simp: decode_runs.simps [of "c # cs"] bindE_Inr_iff)
      moreover have "scalars_of [c]" using less.prems(2) Cons by (simp add: scalars_of_ascii)
      ultimately show ?thesis using less.hyps [of cs o1] less.prems(2) Cons
        by (simp add: scalars_of_append del: append_Cons append_Nil)
    next
      case False
      then obtain o1 o2 where "decodeURIComponent (fst (pct_run s)) = Inr o1"
        "decode_runs (snd (pct_run s)) = Inr o2" "out = o1 @ o2"
        using less.prems(1) Cons by (auto simp: decode_runs.simps [of "c # cs"] bindE_Inr_iff)
      moreover have "\<forall>c\<in>set (fst (pct_run s)). c < 128" "\<forall>c\<in>set (snd (pct_run s)). c < 128"
        using less.prems(2) pct_run_split [of s] by (metis UnI1 UnI2 set_append)+
      ultimately show ?thesis
        using less.hyps [OF pct_run_shorter [OF False]] decodeURIComponent_scalars scalars_of_append
        by blast
    qed
  qed
qed

lemma usp_decode_ascii: "usp_decode s = Inr out \<Longrightarrow> \<forall>c\<in>set s. c < 128 \<Longrightarrow> well_formed out"
proof -
  assume "usp_decode s = Inr out" "\<forall>c\<in>set s. c < 128"
  moreover have "\<forall>c\<in>set (space_escape s). c < 128"
    using \<open>\<forall>c\<in>set s. c < 128\<close> by (auto simp: space_escape_def pct_def hex_upper_def split: if_splits)
  ultimately show ?thesis
    using decode_runs_scalars scalars_of_well_formed by (simp add: usp_decode_def)
qed

lemma slice_subset: "set (slice xs a b) \<subseteq> set xs"
  by (auto simp: slice_def Let_def dest: in_set_takeD in_set_dropD)

lemma parse_fields_ascii:
  "parse_fields vs = Inr ps \<Longrightarrow> \<forall>v\<in>set vs. \<forall>c\<in>set v. c < 128 \<Longrightarrow> usv_pairs ps"
proof (induction vs arbitrary: ps)
  case (Cons v vs)
  have parts: "\<forall>c\<in>set (slice v i j). c < 128" "\<forall>c\<in>set (slice_from v i). c < 128" for i j
    using Cons.prems(2) slice_subset [of v] by (fastforce simp: slice_from_def)+
  have "well_formed []" by (simp add: well_formed_def)
  then show ?case using Cons parts usp_decode_ascii
    by (auto simp: Let_def bindE_Inr_iff usv_pairs_def split: if_splits)
qed (simp add: usv_pairs_def)

lemma parse_search_ascii:
  assumes "parse_search s = Inr ps" and "\<forall>c\<in>set s. c < 128"
  shows "usv_pairs ps"
proof (rule parse_fields_ascii)
  let ?s = "if s \<noteq> [] \<and> hd s = 63 then slice_from s 1 else s"
  show "parse_fields (splitP (\<lambda>c. c = 38) ?s) = Inr ps" using assms(1) by (simp add: parse_search_def)
  have "set ?s \<subseteq> set s" using slice_subset [of s] by (auto simp: slice_from_def)
  then show "\<forall>v\<in>set (splitP (\<lambda>c. c = 38) ?s). \<forall>c\<in>set v. c < 128"
    using splitP_subsets [of "\<lambda>c. c = 38" ?s] assms(2) by blast
qed

text \<open>The changes of a linked parameter list, and assignments to the search of its URL.\<close>

inductive usp_step ::
  "(jstr \<Rightarrow> jstr) \<Rightarrow> (jsval \<Rightarrow> js_error + jstr) \<Rightarrow> usp \<Rightarrow> usp \<Rightarrow> bool"
  for set_search to_string where
  append: "usp_append set_search to_string (Some st) args = Inr st' \<Longrightarrow>
     usp_step set_search to_string st st'"
| delete: "usp_delete set_search to_string (Some st) args = Inr st' \<Longrightarrow>
     usp_step set_search to_string st st'"
| set: "usp_set set_search to_string (Some st) args = Inr st' \<Longrightarrow>
     usp_step set_search to_string st st'"
| sort: "usp_sort set_search (Some st) = Inr st' \<Longrightarrow> usp_step set_search to_string st st'"
| assign: "url_set_search set_search v st = Inr st' \<Longrightarrow> usp_step set_search to_string st st'"

definition linked_ok :: "usp \<Rightarrow> bool" where
  [js_eval]: "linked_ok st =
     (\<not> usp_updating st \<and> usv_pairs (usp_pairs st) \<and>
      (case usp_url st of None \<Rightarrow> False | Some search \<Rightarrow> parse_search search = Inr (usp_pairs st)))"

lemma linked_require: "linked_ok st \<Longrightarrow> requireSearchParams (Some st) = Inr st"
  by (auto simp: linked_ok_def requireSearchParams_def split: option.splits)

lemma setter_ok_query:
  "setter_ok set_search \<Longrightarrow> q \<noteq> [] \<Longrightarrow>
     \<forall>c\<in>set q. form_plain c \<or> c \<in> {38, 61, 43, 0, PERCENT} \<Longrightarrow>
     set_search (63 # q) = 63 # nul_escape q"
  unfolding setter_ok_def by blast

lemma linked_update:
  assumes "setter_ok set_search" and "usp_url st \<noteq> None" and "usv_pairs (usp_pairs st)"
    and "updateLinkedUrl set_search st = Inr st'"
  shows "linked_ok st' \<and> usp_pairs st' = usp_pairs st"
proof -
  let ?q = "query_string True (usp_pairs st)"
  have "usp_toString (Some (st\<lparr>usp_updating := True\<rparr>)) = Inr ?q"
    using assms(2,3)
    by (auto simp: usp_toString_def requireSearchParams_def serialize_form query_string_def)
  then have st': "st' = st\<lparr>usp_url := Some (set_search (if ?q \<noteq> [] then 63 # ?q else [])),
      usp_updating := False\<rparr>"
    using assms(2,4) by (auto simp: updateLinkedUrl_def)
  have "parse_search (set_search (if ?q \<noteq> [] then 63 # ?q else [])) = Inr (usp_pairs st)"
  proof (cases "?q = []")
    case True
    then show ?thesis using assms(1) parse_query(1) [OF assms(3), of True] by (simp add: setter_ok_def)
  next
    case False
    then have "set_search (63 # ?q) = 63 # query_string False (usp_pairs st)"
      using setter_ok_query [OF assms(1) False query_string_alphabet [OF assms(3)]]
        nul_escape_query [OF assms(3)] by simp
    then show ?thesis using False parse_query(2) [OF assms(3)] by simp
  qed
  then show ?thesis using assms(3) by (simp add: st' linked_ok_def)
qed

lemma usv_pairs_ops:
  assumes "usv_pairs ps"
  shows "usv_pairs (pairs_delete k ps)" "usv_pairs (pairs_delete_value k v ps)"
    "usv_pairs (pairs_sort ps)"
    "well_formed k \<Longrightarrow> well_formed v \<Longrightarrow> usv_pairs (pairs_append k v ps)"
    "well_formed k \<Longrightarrow> well_formed v \<Longrightarrow> usv_pairs (pairs_set k v ps)"
  using assms
  by (auto simp: usv_pairs_def list_all_iff pairs_delete_def pairs_delete_value_def set_pairs_sort
      pairs_append_def pairs_set_spec dest: set_takeWhileD set_dropWhileD)

lemma toUSVString_well_formed:
  "strings_ok to_string \<Longrightarrow> toUSVString to_string v = Inr s \<Longrightarrow> well_formed s"
  by (auto simp: toUSVString_def strings_ok_def bindE_Inr_iff usv_well_formed split: jsval.splits)

lemma linked_change:
  assumes "setter_ok set_search" and "linked_ok st" and "usv_pairs ps"
    and "updateLinkedUrl set_search (st\<lparr>usp_pairs := ps\<rparr>) = Inr st'"
  shows "linked_ok st'"
  using linked_update [OF assms(1) _ _ assms(4)] assms(2,3)
  by (auto simp: linked_ok_def split: option.splits)

lemma usp_step_linked:
  assumes "usp_step set_search to_string st st'"
    and "setter_ok set_search" and "strings_ok to_string" and "linked_ok st"
  shows "linked_ok st'"
  using assms(1)
proof cases
  note req = linked_require [OF assms(4)] and change = linked_change [OF assms(2,4)]
    and wf = toUSVString_well_formed [OF assms(3)]
  have old: "usv_pairs (usp_pairs st)" using assms(4) by (simp add: linked_ok_def)
  {
    case (append args)
    then show ?thesis using req usv_pairs_ops(4) [OF old]
      by (auto simp: usp_append_def bindE_Inr_iff split: list.splits) (erule change [rotated], simp add: wf)
  next
    case (delete args)
    show ?thesis
    proof (cases args)
      case (Cons name others)
      then show ?thesis using delete req usv_pairs_ops(1,2) [OF old]
        by (cases others) (auto simp: usp_delete_def bindE_Inr_iff elim!: change [rotated])
    qed (use delete req in \<open>simp add: usp_delete_def\<close>)
  next
    case (set args)
    then show ?thesis using req usv_pairs_ops(5) [OF old]
      by (auto simp: usp_set_def bindE_Inr_iff split: list.splits) (erule change [rotated], simp add: wf)
  next
    case sort
    then show ?thesis using req usv_pairs_ops(3) [OF old]
      by (auto simp: usp_sort_def intro: change)
  next
    case (assign v)
    then show ?thesis using assms(2,4) parse_search_ascii [of "set_search v"]
      by (auto simp: url_set_search_def bindE_Inr_iff linked_ok_def setter_ok_def)
  }
qed

text \<open>
  C25: the parameters of a URL and its search string never disagree: starting from the parameters
  of any URL with an ASCII search, after any sequence of changes to the parameters and of
  assignments to the search, reading the search back gives exactly the stored pairs.
\<close>

theorem linked_params_agree:
  assumes "setter_ok set_search" and "strings_ok to_string"
    and "usp_of_url search = Inr st" and "\<forall>c\<in>set search. c < 128"
    and "rtranclp (usp_step set_search to_string) st st'"
  shows "\<exists>s. usp_url st' = Some s \<and> parse_search s = Inr (usp_pairs st') \<and>
     requireSearchParams (Some st') = Inr st'"
proof -
  have "linked_ok st" using assms(3) parse_search_ascii [OF _ assms(4)]
    by (auto simp: usp_of_url_def bindE_Inr_iff linked_ok_def)
  with assms(5) have "linked_ok st'"
    by (induction rule: rtranclp_induct) (use usp_step_linked assms(1,2) in blast)+
  then show ?thesis using linked_require by (auto simp: linked_ok_def split: option.splits)
qed

text \<open>A setter as the URL standard describes it, on the strings the parameters give it.\<close>

definition simple_setter :: "jstr \<Rightarrow> jstr" where
  [js_eval]: "simple_setter v =
     (if v = [] then []
      else if list_all (\<lambda>c. c < 128) (tl v)
      then 63 # concat (map (\<lambda>c. if c = 0 then pct 0 else [c]) (tl v)) else [63])"

lemma simple_setter_ok: "setter_ok simple_setter"
proof -
  have "form_plain c \<Longrightarrow> c < 128" for c by (auto simp: form_plain_def uri_unreserved_def)
  then have plain: "list_all (\<lambda>c. c < 128) q"
    if "\<forall>c\<in>set q. form_plain c \<or> c \<in> {38, 61, 43, 0, PERCENT}" for q
    using that by (fastforce simp: list_all_iff)
  have ascii: "\<forall>c\<in>set (simple_setter v). c < 128" for v
  proof -
    have "\<forall>c\<in>set (nul_escape q). c < 128" if "list_all (\<lambda>c. c < 128) q" for q
      using that by (induction q) (auto simp: pct_def hex_upper_def)
    then show ?thesis by (cases v) (simp_all add: simple_setter_def)
  qed
  show ?thesis unfolding setter_ok_def
  proof (intro conjI allI impI)
    fix q :: jstr
    assume q: "q \<noteq> [] \<and> (\<forall>c\<in>set q. form_plain c \<or> c \<in> {38, 61, 43, 0, PERCENT})"
    have "list_all (\<lambda>c. c < 128) q" by (rule plain) (use q in blast)
    then show "simple_setter (63 # q) = 63 # nul_escape q" by (simp add: simple_setter_def)
  qed (simp_all add: ascii, simp add: simple_setter_def)
qed

lemma linked_params_agree_witness:
  "\<exists>st st' s. usp_of_url (js ''?a=1'') = Inr st \<and>
     rtranclp (usp_step simple_setter (\<lambda>_. Inr (js ''x''))) st st' \<and>
     usp_url st' = Some s \<and> s = js ''?b=2'' \<and> parse_search s = Inr (usp_pairs st')"
proof -
  define st st' where "st = \<lparr>usp_pairs = [(js ''a'', js ''1'')], usp_url = Some (js ''?a=1''), usp_updating = False\<rparr>"
    and "st' = \<lparr>usp_pairs = [(js ''b'', js ''2'')], usp_url = Some (js ''?b=2''), usp_updating = False\<rparr>"
  have parse: "parse_search (js ''?a=1'') = Inr [(js ''a'', js ''1'')]"
    "parse_search (js ''?b=2'') = Inr [(js ''b'', js ''2'')]"
    using parse_query(2) [of "[(js ''a'', js ''1'')]" False] parse_query(2) [of "[(js ''b'', js ''2'')]" False]
    by (simp_all add: usv_pairs_def well_formed_def scalar_def surrogate_def query_string_def form_pair_def
        form_scalar_def form_plain_def uri_unreserved_def js_def)
  then have init: "usp_of_url (js ''?a=1'') = Inr st" by (simp add: usp_of_url_def st_def)
  have "simple_setter (js ''?b=2'') = js ''?b=2''" by (simp add: simple_setter_def js_def)
  then have "url_set_search simple_setter (js ''?b=2'') st = Inr st'"
    using parse by (simp add: url_set_search_def st_def st'_def)
  then have "usp_step simple_setter (\<lambda>_. Inr (js ''x'')) st st'" by (rule usp_step.assign)
  then have reach: "rtranclp (usp_step simple_setter (\<lambda>_. Inr (js ''x''))) st st'" by blast
  have "strings_ok (\<lambda>_. Inr (js ''x''))" by (simp add: strings_ok_def wf_jstr_def js_def)
  moreover have "\<forall>c\<in>set (js ''?a=1''). c < 128" by (simp add: js_def)
  ultimately obtain s where "usp_url st' = Some s" "parse_search s = Inr (usp_pairs st')"
    using linked_params_agree [OF simple_setter_ok _ init _ reach] by blast
  then show ?thesis using init reach by (auto simp: st'_def)
qed

end
