(* ===== verification/Punycode.thy ===== *)
theory Punycode
  imports Unicode
begin

text \<open>
  The module \<open>builtin/punycode.js\<close> (RFC 3492): \<open>encode\<close>, \<open>decode\<close>, bias adaptation, the UCS-2
  conversions and the domain functions. \<open>toLowerCase\<close> is the argument \<open>lc\<close>. The passes of the
  encoder take fuel; the length of the input is enough (\<open>Punycode_Laws\<close>).
\<close>

section \<open>Parameters and digits\<close>

definition maxInt :: nat where
  [js_eval]: "maxInt = 2147483647"

abbreviation "base36 \<equiv> 36 :: nat"
abbreviation "tMin \<equiv> 1 :: nat"
abbreviation "tMax \<equiv> 26 :: nat"
abbreviation "skew \<equiv> 38 :: nat"
abbreviation "damp \<equiv> 700 :: nat"
abbreviation "initialBias \<equiv> 72 :: nat"
abbreviation "initialN \<equiv> 128 :: nat"
abbreviation "HYPHEN \<equiv> 45 :: nat"

definition overflow_error :: js_error where
  [js_eval]: "overflow_error = RangeError ''Overflow: input needs wider integers to process''"

definition not_basic_error :: js_error where
  [js_eval]: "not_basic_error = RangeError ''Illegal input >= 0x80 (not a basic code point)''"

definition invalid_input_error :: js_error where
  [js_eval]: "invalid_input_error = RangeError ''Invalid input''"

definition basicToDigit :: "nat \<Rightarrow> nat" where
  [js_eval]: "basicToDigit codePoint =
     (if 0x30 \<le> codePoint \<and> codePoint < 0x3A then 26 + (codePoint - 0x30)
      else if 0x41 \<le> codePoint \<and> codePoint < 0x5B then codePoint - 0x41
      else if 0x61 \<le> codePoint \<and> codePoint < 0x7B then codePoint - 0x61
      else base36)"

definition digitToBasic :: "nat \<Rightarrow> bool \<Rightarrow> nat" where
  [js_eval]: "digitToBasic digit flag =
     digit + 22 + (if digit < 26 then 75 else 0) - push_bit 5 (if flag then 1 else 0)"

text \<open>The loop of \<open>adapt\<close>; \<open>baseMinusTMin * tMax >> 1\<close> is 455.\<close>

function adapt_loop :: "nat \<Rightarrow> nat \<Rightarrow> nat \<times> nat" where
  "adapt_loop delta k =
     (if delta > drop_bit 1 (35 * tMax) then adapt_loop (delta div 35) (k + base36) else (delta, k))"
  by pat_completeness auto
termination
  by (relation "measure fst") (auto simp: drop_bit_eq_div)

declare adapt_loop.simps [simp del]

definition adapt :: "nat \<Rightarrow> nat \<Rightarrow> bool \<Rightarrow> nat" where
  [js_eval]: "adapt delta numPoints firstTime =
     (let d1 = (if firstTime then delta div damp else drop_bit 1 delta);
          (d, k) = adapt_loop (d1 + d1 div numPoints) 0
      in k + 36 * d div (d + skew))"

definition threshold :: "nat \<Rightarrow> nat \<Rightarrow> nat" where
  [js_eval]: "threshold k bias =
     (if k \<le> bias then tMin else if k \<ge> bias + tMax then tMax else k - bias)"

section \<open>UCS-2\<close>

fun ucs2decode :: "jstr \<Rightarrow> nat list" where
  "ucs2decode [] = []"
| "ucs2decode [v] = [v]"
| "ucs2decode (v # extra # cs) =
     (if 0xD800 \<le> v \<and> v \<le> 0xDBFF
      then if extra AND 0xFC00 = 0xDC00
           then (push_bit 10 (v AND 0x3FF) + (extra AND 0x3FF) + 0x10000) # ucs2decode cs
           else v # ucs2decode (extra # cs)
      else v # ucs2decode (extra # cs))"

text \<open>\<open>String.fromCodePoint\<close> rejects numbers that are no code points.\<close>

definition ucs2encode :: "nat list \<Rightarrow> js_error + jstr" where
  [js_eval]: "ucs2encode codePoints =
     (if list_all (\<lambda>cp. cp \<le> 0x10FFFF) codePoints then Inr (utf16s codePoints)
      else Inl (RangeError ''Invalid code point''))"

section \<open>decode\<close>

text \<open>The inner loop: one generalized variable-length integer, added to \<open>i\<close>.\<close>

fun dec_int :: "jstr \<Rightarrow> nat \<Rightarrow> nat \<Rightarrow> nat \<Rightarrow> nat \<Rightarrow> js_error + nat \<times> jstr" where
  "dec_int [] i w k bias = Inl invalid_input_error"
| "dec_int (c # cs) i w k bias =
     (let digit = basicToDigit c
      in if digit \<ge> base36 then Inl invalid_input_error
         else if digit > (maxInt - i) div w then Inl overflow_error
         else let i' = i + digit * w; t = threshold k bias
              in if digit < t then Inr (i', cs)
                 else let baseMinusT = base36 - t
                      in if w > maxInt div baseMinusT then Inl overflow_error
                         else dec_int cs i' (w * baseMinusT) (k + base36) bias)"

lemma dec_int_shorter: "dec_int cs i w k bias = Inr (i', rest) \<Longrightarrow> length rest < length cs"
proof (induction cs i w k bias rule: dec_int.induct)
  case (2 c cs i w k bias)
  then show ?case by (auto simp: Let_def less_Suc_eq split: if_splits)
qed simp

record dec_state =
  dec_out :: "nat list"
  dec_i :: nat
  dec_n :: nat
  dec_bias :: nat

definition dec_insert :: "nat \<Rightarrow> dec_state \<Rightarrow> js_error + dec_state" where
  [js_eval]: "dec_insert i st =
     (let out = length (dec_out st) + 1; oldi = dec_i st;
          bias = adapt (i - oldi) out (oldi = 0)
      in if i div out > maxInt - dec_n st then Inl overflow_error
         else let n = dec_n st + i div out; pos = i mod out
              in Inr \<lparr>dec_out = take pos (dec_out st) @ n # drop pos (dec_out st), dec_i = pos + 1,
                      dec_n = n, dec_bias = bias\<rparr>)"

function dec_loop :: "jstr \<Rightarrow> dec_state \<Rightarrow> js_error + dec_state" where
  "dec_loop cs st =
     (if cs = [] then Inr st
      else case dec_int cs (dec_i st) 1 base36 (dec_bias st) of
             Inl e \<Rightarrow> Inl e
           | Inr (i, rest) \<Rightarrow>
               (case dec_insert i st of Inl e \<Rightarrow> Inl e | Inr st' \<Rightarrow> dec_loop rest st'))"
  by pat_completeness auto
termination
  by (relation "measure (\<lambda>(cs, st). length cs)") (auto dest: dec_int_shorter)

declare dec_loop.simps [simp del]

definition dec_basic :: "jstr \<Rightarrow> nat" where
  [js_eval]: "dec_basic input =
     (let b = lastIndexOf input [HYPHEN] in if b < 0 then 0 else nat b)"

definition puny_decode :: "jstr \<Rightarrow> js_error + jstr" where
  [js_eval]: "puny_decode input =
     (let basic = dec_basic input
      in if list_ex (\<lambda>c. c \<ge> 0x80) (take basic input) then Inl not_basic_error
         else bindE (dec_loop (drop (if basic > 0 then basic + 1 else 0) input)
                       \<lparr>dec_out = take basic input, dec_i = 0, dec_n = initialN, dec_bias = initialBias\<rparr>)
                (\<lambda>st. ucs2encode (dec_out st)))"

section \<open>encode\<close>

function enc_int :: "nat \<Rightarrow> nat \<Rightarrow> nat \<Rightarrow> jstr" where
  "enc_int q k bias =
     (let t = threshold k bias
      in if q < t then [digitToBasic q False]
         else let qMinusT = q - t; baseMinusT = base36 - t
              in digitToBasic (t + qMinusT mod baseMinusT) False #
                 enc_int (qMinusT div baseMinusT) (k + base36) bias)"
  by pat_completeness auto
termination
proof (relation "measure (\<lambda>(q, k, bias). q)", goal_cases)
  case (2 q k bias t qMinusT baseMinusT)
  then have "1 \<le> t" "t \<le> 26" by (auto simp: threshold_def split: if_splits)
  then have "qMinusT < q" using 2 by auto
  moreover have "qMinusT div baseMinusT \<le> qMinusT" by (rule div_le_dividend)
  ultimately have "qMinusT div baseMinusT < q" by (rule le_less_trans [rotated])
  then show ?case by simp
qed simp

declare enc_int.simps [simp del]

record enc_state =
  enc_out :: jstr
  enc_delta :: nat
  enc_bias :: nat
  enc_handled :: nat

text \<open>The loop over the input for one value of \<open>n\<close>.\<close>

fun enc_pass :: "nat \<Rightarrow> nat \<Rightarrow> nat list \<Rightarrow> enc_state \<Rightarrow> js_error + enc_state" where
  "enc_pass n basicLength [] st = Inr st"
| "enc_pass n basicLength (currentValue # rest) st =
     (let delta = (if currentValue < n then enc_delta st + 1 else enc_delta st)
      in if currentValue < n \<and> delta > maxInt then Inl overflow_error
         else if currentValue = n
         then enc_pass n basicLength rest
                \<lparr>enc_out = enc_out st @ enc_int delta base36 (enc_bias st), enc_delta = 0,
                 enc_bias = adapt delta (enc_handled st + 1) (enc_handled st = basicLength),
                 enc_handled = enc_handled st + 1\<rparr>
         else enc_pass n basicLength rest (st\<lparr>enc_delta := delta\<rparr>))"

definition next_code_point :: "nat \<Rightarrow> nat list \<Rightarrow> nat" where
  [js_eval]: "next_code_point n input = fold (\<lambda>c m. if c \<ge> n \<and> c < m then c else m) input maxInt"

definition fuel_error :: js_error where
  [js_eval]: "fuel_error = PlainError ''fuel''"

fun enc_loop :: "nat \<Rightarrow> nat list \<Rightarrow> nat \<Rightarrow> nat \<Rightarrow> enc_state \<Rightarrow> js_error + enc_state" where
  "enc_loop fuel input basicLength n st =
     (if enc_handled st < length input
      then case fuel of
             0 \<Rightarrow> Inl fuel_error
           | Suc fuel' \<Rightarrow>
               (let m = next_code_point n input; h = enc_handled st + 1
                in if m - n > (maxInt - enc_delta st) div h then Inl overflow_error
                   else bindE (enc_pass m basicLength input
                                 (st\<lparr>enc_delta := enc_delta st + (m - n) * h\<rparr>)) (\<lambda>st'.
                        enc_loop fuel' input basicLength (m + 1) (st'\<lparr>enc_delta := enc_delta st' + 1\<rparr>)))
      else Inr st)"

declare enc_loop.simps [simp del]

definition puny_encode_points :: "nat list \<Rightarrow> js_error + jstr" where
  [js_eval]: "puny_encode_points input =
     (let basic = filter (\<lambda>c. c < 0x80) input; basicLength = length basic
      in bindE (enc_loop (length input) input basicLength initialN
                  \<lparr>enc_out = (if basicLength > 0 then basic @ [HYPHEN] else basic), enc_delta = 0,
                   enc_bias = initialBias, enc_handled = basicLength\<rparr>)
           (\<lambda>st. Inr (enc_out st)))"

definition puny_encode :: "jstr \<Rightarrow> js_error + jstr" where
  [js_eval]: "puny_encode input = puny_encode_points (ucs2decode input)"

section \<open>Domains\<close>

fun map_labels :: "(jstr \<Rightarrow> js_error + jstr) \<Rightarrow> jstr list \<Rightarrow> js_error + jstr list" where
  "map_labels callback [] = Inr []"
| "map_labels callback (label # labels) =
     bindE (map_labels callback labels) (\<lambda>ls. bindE (callback label) (\<lambda>l. Inr (l # ls)))"

definition is_separator :: "nat \<Rightarrow> bool" where
  [js_eval]: "is_separator c = (c = 0x2E \<or> c = 0x3002 \<or> c = 0xFF0E \<or> c = 0xFF61)"

definition mapDomain :: "jstr \<Rightarrow> (jstr \<Rightarrow> js_error + jstr) \<Rightarrow> js_error + jstr" where
  [js_eval]: "mapDomain domain callback =
     (let parts = splitP (\<lambda>c. c = 64) domain;
          result = (if length parts > 1 then parts ! 0 @ [64] else []);
          domain1 = (if length parts > 1 then parts ! 1 else domain);
          domain2 = map (\<lambda>c. if is_separator c then 0x2E else c) domain1;
          labels = splitP (\<lambda>c. c = 0x2E) domain2
      in bindE (map_labels callback labels) (\<lambda>encoded. Inr (result @ join [0x2E] encoded)))"

definition xn_prefix :: jstr where
  [js_eval]: "xn_prefix = [120, 110, 45, 45]"

definition toUnicode :: "(jstr \<Rightarrow> jstr) \<Rightarrow> jstr \<Rightarrow> js_error + jstr" where
  [js_eval]: "toUnicode lc input =
     mapDomain input (\<lambda>s. if take 4 s = xn_prefix then puny_decode (lc (slice_from s 4)) else Inr s)"

definition toASCII :: "jstr \<Rightarrow> js_error + jstr" where
  [js_eval]: "toASCII input =
     mapDomain input (\<lambda>s. if list_ex (\<lambda>c. c > 0x7F) s
       then bindE (puny_encode s) (\<lambda>e. Inr (xn_prefix @ e)) else Inr s)"

end
