(* ===== verification/Punycode_Laws.thy ===== *)
theory Punycode_Laws
  imports Punycode
begin

text \<open>
  The encoder and the decoder of \<open>punycode.js\<close> run in lock step: each variable-length integer the
  encoder emits makes the decoder insert one code point at its place. It follows that decoding an
  encoded string never gives another string, and gives the string back for every input of up to
  54 code units; the encoder never runs out of its passes.
\<close>

section \<open>Digits and thresholds\<close>

lemma threshold_bounds: "1 \<le> threshold k bias" "threshold k bias \<le> 26"
  by (auto simp: threshold_def)

lemma digit_round_trip:
  "d < 36 \<Longrightarrow> basicToDigit (digitToBasic d False) = d"
  "d < 36 \<Longrightarrow> digitToBasic d False \<noteq> HYPHEN \<and> digitToBasic d False < 128"
  by (auto simp: basicToDigit_def digitToBasic_def)

lemma enc_int_small: "q < threshold k bias \<Longrightarrow> enc_int q k bias = [digitToBasic q False]"
  by (subst enc_int.simps) simp

lemma enc_int_large:
  "\<not> q < threshold k bias \<Longrightarrow> enc_int q k bias =
     digitToBasic (threshold k bias + (q - threshold k bias) mod (36 - threshold k bias)) False #
     enc_int ((q - threshold k bias) div (36 - threshold k bias)) (k + 36) bias"
  by (subst enc_int.simps) (simp add: Let_def)

lemma enc_int_nonempty: "enc_int q k bias \<noteq> []"
  by (cases "q < threshold k bias") (simp_all add: enc_int_small enc_int_large)

text \<open>Reading an integer back: the value is added, or the decoder reports an overflow.\<close>

lemma dec_int_enc_int:
  "1 \<le> w \<Longrightarrow>
     dec_int (enc_int q k bias @ rest) i w k bias = Inr (i + q * w, rest) \<or>
     (dec_int (enc_int q k bias @ rest) i w k bias = Inl overflow_error \<and>
      \<not> (i + q * w \<le> maxInt \<and> 35 * (q * w) \<le> maxInt))"
proof (induction q k bias arbitrary: i w rule: enc_int.induct)
  case (1 q k bias)
  define t where "t = threshold k bias"
  define b where "b = 36 - t"
  have t: "1 \<le> t" "t \<le> 26" using threshold_bounds by (simp_all add: t_def)
  have b: "10 \<le> b" "b \<le> 35" "t + b = 36" using t by (auto simp: b_def)
  have fits: "d \<le> (maxInt - i) div w \<longleftrightarrow> d * w \<le> maxInt - i" for d
    using 1(2) by (simp add: less_eq_div_iff_mult_less_eq)
  show ?case
  proof (cases "q < t")
    case True
    then have "dec_int (enc_int q k bias @ rest) i w k bias =
        (if q > (maxInt - i) div w then Inl overflow_error else Inr (i + q * w, rest))"
      using t digit_round_trip(1) [of q] enc_int_small [of q k bias] by (simp add: t_def [symmetric])
    then show ?thesis using fits [of q] by auto
  next
    case False
    define d where "d = t + (q - t) mod b"
    define q' where "q' = (q - t) div b"
    have q: "q = d + q' * b" using False by (simp add: d_def q'_def)
    have "(q - t) mod b < b" using b(1) by (intro mod_less_divisor) simp
    then have d: "t \<le> d" "d < 36" using b(3) by (simp_all add: d_def)
    have enc: "enc_int q k bias = digitToBasic d False # enc_int q' (k + 36) bias"
      using enc_int_large [of q k bias] False by (simp add: d_def q'_def t_def b_def)
    have dec: "dec_int (enc_int q k bias @ rest) i w k bias =
        (if d > (maxInt - i) div w then Inl overflow_error
         else if w > maxInt div b then Inl overflow_error
         else dec_int (enc_int q' (k + 36) bias @ rest) (i + d * w) (w * b) (k + 36) bias)"
      using d digit_round_trip(1) [of d] by (simp add: enc Let_def t_def [symmetric] b_def [symmetric])
    have val: "i + q * w = i + d * w + q' * (w * b)" by (simp add: q algebra_simps)
    consider "d > (maxInt - i) div w" | "\<not> d > (maxInt - i) div w" "w > maxInt div b"
      | "\<not> d > (maxInt - i) div w" "\<not> w > maxInt div b" by blast
    then show ?thesis
    proof cases
      case 1
      then have "d * w > maxInt - i" using fits [of d] by auto
      moreover have "d * w \<le> q * w" using q by (intro mult_right_mono) auto
      ultimately have "\<not> i + q * w \<le> maxInt" by linarith
      then show ?thesis using 1 dec by auto
    next
      case 2
      then have "maxInt < w * b" using b by (simp add: div_less_iff_less_mult)
      also have "\<dots> \<le> w * 35" using b by simp
      also have "\<dots> \<le> 35 * (q * w)" using False t by auto
      finally show ?thesis using 2 dec by auto
    next
      case 3
      have "1 \<le> w * b" using 1(2) b by simp
      then have ih: "dec_int (enc_int q' (k + 36) bias @ rest) (i + d * w) (w * b) (k + 36) bias =
            Inr (i + d * w + q' * (w * b), rest) \<or>
          (dec_int (enc_int q' (k + 36) bias @ rest) (i + d * w) (w * b) (k + 36) bias = Inl overflow_error \<and>
            \<not> (i + d * w + q' * (w * b) \<le> maxInt \<and> 35 * (q' * (w * b)) \<le> maxInt))"
        using 1(1) [of t "q - t" b] False by (simp add: t_def b_def q'_def)
      have "q' * (w * b) \<le> q * w" using val by simp
      then have "35 * (q' * (w * b)) \<le> 35 * (q * w)" by simp
      then show ?thesis using ih 3 dec val by auto
    qed
  qed
qed

lemma enc_int_chars: "c \<in> set (enc_int q k bias) \<Longrightarrow> c \<noteq> HYPHEN \<and> c < 128"
proof (induction q k bias rule: enc_int.induct)
  case (1 q k bias)
  let ?t = "threshold k bias"
  show ?case
  proof (cases "q < ?t")
    case True
    then show ?thesis using 1(2) threshold_bounds [of k bias] digit_round_trip(2) [of q]
      by (simp add: enc_int_small)
  next
    case False
    have "?t + (q - ?t) mod (36 - ?t) < 36"
      using mod_less_divisor [of "36 - ?t" "q - ?t"] threshold_bounds [of k bias] by linarith
    then show ?thesis using 1 False digit_round_trip(2) by (auto simp: enc_int_large)
  qed
qed

section \<open>The lock step\<close>

text \<open>
  With \<open>p\<close> scanned and \<open>s\<close> to come in the pass for \<open>n\<close>: the decoder holds the code points handled
  so far, and what separates its insertion counter from the encoder's \<open>delta\<close>.
\<close>

definition puny_rel ::
  "nat list \<Rightarrow> nat list \<Rightarrow> nat \<Rightarrow> nat \<Rightarrow> dec_state \<Rightarrow> enc_state \<Rightarrow> bool" where
  "puny_rel p s n b dst est =
     (dec_out dst = filter (\<lambda>c. c \<le> n) p @ filter (\<lambda>c. c < n) s \<and>
      enc_handled est = length (dec_out dst) \<and> b \<le> enc_handled est \<and> dec_n dst \<le> n \<and>
      dec_i dst + enc_delta est =
        (n - dec_n dst) * (enc_handled est + 1) + length (filter (\<lambda>c. c \<le> n) p) \<and>
      dec_bias dst = enc_bias est \<and> (dec_i dst = 0 \<longleftrightarrow> enc_handled est = b))"

definition puny_small :: "nat \<Rightarrow> nat \<Rightarrow> bool" where
  "puny_small N len = (35 * (N * (len + 1)) \<le> maxInt)"

lemma puny_rel_bound:
  assumes "puny_rel p s n b dst est" and "n < N" and "puny_small N (length (p @ s))"
  shows "35 * (dec_i dst + enc_delta est) \<le> maxInt"
proof -
  let ?h = "enc_handled est" and ?c = "length (filter (\<lambda>c. c \<le> n) p)"
  have h: "?h = ?c + length (filter (\<lambda>c. c < n) s)" using assms(1) by (simp add: puny_rel_def)
  have "dec_i dst + enc_delta est = (n - dec_n dst) * (?h + 1) + ?c"
    using assms(1) by (simp add: puny_rel_def)
  also have "\<dots> \<le> n * (?h + 1) + (?h + 1)" using h by (intro add_mono mult_right_mono) auto
  also have "\<dots> = Suc n * (?h + 1)" by simp
  also have "\<dots> \<le> N * (length (p @ s) + 1)"
  proof (rule mult_le_mono)
    show "?h + 1 \<le> length (p @ s) + 1"
      using h length_filter_le [of _ p] length_filter_le [of _ s] by (simp add: add_mono)
  qed (use assms(2) in simp)
  finally show ?thesis using assms(3) by (simp add: puny_small_def)
qed

text \<open>What one emitted integer does to the decoder.\<close>

lemma dec_insert_point:
  assumes rel: "puny_rel p (n # s) n b dst est" and n: "n \<le> maxInt"
  shows "\<exists>dst'. dec_insert (dec_i dst + enc_delta est) dst = Inr dst' \<and>
     puny_rel (p @ [n]) s n b dst'
       (est\<lparr>enc_out := out, enc_delta := 0,
            enc_bias := adapt (enc_delta est) (enc_handled est + 1) (enc_handled est = b),
            enc_handled := enc_handled est + 1\<rparr>)"
proof -
  let ?h = "enc_handled est" and ?c = "length (filter (\<lambda>c. c \<le> n) p)"
  let ?i = "dec_i dst + enc_delta est"
  have out: "dec_out dst = filter (\<lambda>c. c \<le> n) p @ filter (\<lambda>c. c < n) s"
    and h: "?h = length (dec_out dst)" and nd: "dec_n dst \<le> n"
    and i: "?i = (n - dec_n dst) * (?h + 1) + ?c"
    and bias: "dec_bias dst = enc_bias est" "dec_i dst = 0 \<longleftrightarrow> ?h = b"
    using rel by (simp_all add: puny_rel_def)
  have hb: "b \<le> ?h" using rel unfolding puny_rel_def by blast
  have c: "?c < ?h + 1" using h out by simp
  have div: "?i div (?h + 1) = n - dec_n dst"
    unfolding i using c by (simp only: div_mult_self3 add_is_0 One_nat_def nat.simps not_False_eq_True
        div_less add_0_right simp_thms)
  have mod: "?i mod (?h + 1) = ?c" unfolding i using c by (simp only: mod_mult_self3 mod_less)
  have ins: "dec_insert ?i dst = Inr \<lparr>dec_out = filter (\<lambda>c. c \<le> n) p @ n # filter (\<lambda>c. c < n) s,
      dec_i = ?c + 1, dec_n = n, dec_bias = adapt (enc_delta est) (?h + 1) (?h = b)\<rparr>"
    using div mod nd n bias(2) h out by (simp add: dec_insert_def Let_def)
  show ?thesis
    by (rule exI, rule conjI, rule ins) (use h out hb in \<open>simp add: puny_rel_def\<close>)
qed

text \<open>One scan step that emits nothing.\<close>

lemma puny_rel_skip:
  "puny_rel p (c # s) n b dst est \<Longrightarrow> c \<noteq> n \<Longrightarrow>
     puny_rel (p @ [c]) s n b dst
       (est\<lparr>enc_delta := (if c < n then enc_delta est + 1 else enc_delta est)\<rparr>)"
  by (auto simp: puny_rel_def)

lemma dec_loop_step:
  assumes "cs \<noteq> []" and "dec_int cs (dec_i st) 1 36 (dec_bias st) = Inr (i, rest)"
    and "dec_insert i st = Inr st'"
  shows "dec_loop cs st = dec_loop rest st'"
  using assms by (subst dec_loop.simps) simp

lemma dec_loop_error:
  "cs \<noteq> [] \<Longrightarrow> dec_int cs (dec_i st) 1 36 (dec_bias st) = Inl e \<Longrightarrow> dec_loop cs st = Inl e"
  by (subst dec_loop.simps) simp

text \<open>
  What relates a stretch of the encoder to the decoder: the digits emitted take the decoder from
  one related state to another, or both report an overflow, which small inputs exclude.
\<close>

definition digits_step :: "jstr \<Rightarrow> dec_state \<Rightarrow> dec_state \<Rightarrow> bool \<Rightarrow> bool" where
  "digits_step digits dst dst' small =
     ((\<forall>c\<in>set digits. c \<noteq> HYPHEN \<and> c < 128) \<and>
      (\<forall>rest. dec_loop (digits @ rest) dst = dec_loop rest dst' \<or>
         (dec_loop (digits @ rest) dst = Inl overflow_error \<and> \<not> small)))"

lemma digits_step_Nil: "digits_step [] dst dst small"
  by (simp add: digits_step_def)

lemma digits_step_append:
  "digits_step xs dst dst' small \<Longrightarrow> digits_step ys dst' dst'' small \<Longrightarrow>
     digits_step (xs @ ys) dst dst'' small"
  unfolding digits_step_def by (metis (no_types, lifting) Un_iff append.assoc set_append)

definition pass_result ::
  "bool \<Rightarrow> enc_state \<Rightarrow> dec_state \<Rightarrow> (dec_state \<Rightarrow> enc_state \<Rightarrow> bool) \<Rightarrow> js_error + enc_state \<Rightarrow> bool" where
  "pass_result small est dst R res =
     (case res of
        Inl e \<Rightarrow> e = overflow_error \<and> \<not> small
      | Inr est' \<Rightarrow> (\<exists>digits dst'. enc_out est' = enc_out est @ digits \<and>
          digits_step digits dst dst' small \<and> R dst' est'))"

lemma pass_result_cong:
  "enc_out est = enc_out est' \<Longrightarrow> pass_result small est dst R res = pass_result small est' dst R res"
  by (cases res) (simp_all add: pass_result_def)

lemma emit_step:
  assumes rel: "puny_rel p (n # s) n b dst est" and n: "n < N" "N \<le> maxInt"
    and small: "small \<Longrightarrow> puny_small N (length (p @ n # s))"
  shows "\<exists>dst'. digits_step (enc_int (enc_delta est) 36 (enc_bias est)) dst dst' small \<and>
     puny_rel (p @ [n]) s n b dst'
       \<lparr>enc_out = enc_out est @ enc_int (enc_delta est) 36 (enc_bias est), enc_delta = 0,
        enc_bias = adapt (enc_delta est) (enc_handled est + 1) (enc_handled est = b),
        enc_handled = enc_handled est + 1\<rparr>"
proof -
  let ?ds = "enc_int (enc_delta est) 36 (enc_bias est)"
  obtain dst' where ins: "dec_insert (dec_i dst + enc_delta est) dst = Inr dst'"
    and rel': "puny_rel (p @ [n]) s n b dst'
       (est\<lparr>enc_out := enc_out est @ ?ds, enc_delta := 0,
            enc_bias := adapt (enc_delta est) (enc_handled est + 1) (enc_handled est = b),
            enc_handled := enc_handled est + 1\<rparr>)"
    using dec_insert_point [OF rel] n by (meson less_imp_le less_le_trans)
  have bias: "dec_bias dst = enc_bias est" using rel by (simp add: puny_rel_def)
  have "35 * (dec_i dst + enc_delta est) \<le> maxInt" if small
    using puny_rel_bound [OF rel n(1)] small [OF that] by simp
  then have fits: "dec_i dst + enc_delta est * 1 \<le> maxInt \<and> 35 * (enc_delta est * 1) \<le> maxInt" if small
    using that by simp
  have "digits_step ?ds dst dst' small"
    unfolding digits_step_def
  proof (intro conjI allI)
    show "\<forall>c\<in>set ?ds. c \<noteq> HYPHEN \<and> c < 128" using enc_int_chars by blast
    fix rest
    show "dec_loop (?ds @ rest) dst = dec_loop rest dst' \<or>
        (dec_loop (?ds @ rest) dst = Inl overflow_error \<and> \<not> small)"
      using dec_int_enc_int [of 1 "enc_delta est" 36 "enc_bias est" rest "dec_i dst"] fits ins
        dec_loop_step [of "?ds @ rest" dst "dec_i dst + enc_delta est" rest dst']
        dec_loop_error [of "?ds @ rest" dst overflow_error] enc_int_nonempty bias
      by auto
  qed
  moreover have "est\<lparr>enc_out := enc_out est @ ?ds, enc_delta := 0,
            enc_bias := adapt (enc_delta est) (enc_handled est + 1) (enc_handled est = b),
            enc_handled := enc_handled est + 1\<rparr> =
      \<lparr>enc_out = enc_out est @ ?ds, enc_delta = 0,
       enc_bias = adapt (enc_delta est) (enc_handled est + 1) (enc_handled est = b),
       enc_handled = enc_handled est + 1\<rparr>" by simp
  ultimately show ?thesis using rel' by metis
qed

lemma enc_pass_sim:
  assumes "puny_rel p s n b dst est" and "n < N" "N \<le> maxInt"
    and "small \<Longrightarrow> puny_small N (length (p @ s))"
  shows "pass_result small est dst (puny_rel (p @ s) [] n b) (enc_pass n b s est)"
  using assms(1,4)
proof (induction s arbitrary: p dst est)
  case Nil
  then show ?case using digits_step_Nil by (fastforce simp: pass_result_def)
next
  case (Cons c s)
  show ?case
  proof (cases "c = n")
    case True
    let ?ds = "enc_int (enc_delta est) 36 (enc_bias est)"
    let ?est = "\<lparr>enc_out = enc_out est @ ?ds, enc_delta = 0,
        enc_bias = adapt (enc_delta est) (enc_handled est + 1) (enc_handled est = b),
        enc_handled = enc_handled est + 1\<rparr>"
    obtain dst1 where st: "digits_step ?ds dst dst1 small" and rel: "puny_rel (p @ [n]) s n b dst1 ?est"
      using emit_step [of p n s b dst est N small] Cons.prems assms(2,3) True by blast
    have "pass_result small ?est dst1 (puny_rel (p @ c # s) [] n b) (enc_pass n b s ?est)"
      using Cons.IH [OF rel] Cons.prems(2) True by simp
    moreover have "enc_pass n b (c # s) est = enc_pass n b s ?est" using True by (simp add: Let_def)
    ultimately show ?thesis using digits_step_append [OF st]
      by (fastforce simp: pass_result_def split: sum.splits)
  next
    case False
    let ?est = "est\<lparr>enc_delta := (if c < n then enc_delta est + 1 else enc_delta est)\<rparr>"
    have rel: "puny_rel (p @ [c]) s n b dst ?est" by (rule puny_rel_skip [OF Cons.prems(1) False])
    have ih: "pass_result small ?est dst (puny_rel (p @ c # s) [] n b) (enc_pass n b s ?est)"
      using Cons.IH [OF rel] Cons.prems(2) by simp
    have bound: "enc_delta ?est \<le> maxInt" if small
      using puny_rel_bound [OF rel assms(2)] Cons.prems(2) [OF that] by simp
    show ?thesis
    proof (cases "c < n \<and> enc_delta est + 1 > maxInt")
      case True
      then show ?thesis using bound by (auto simp: pass_result_def)
    next
      case no: False
      then have "enc_pass n b (c # s) est = enc_pass n b s ?est" using False by (auto simp: Let_def)
      then show ?thesis using ih pass_result_cong [of ?est est] by simp
    qed
  qed
qed

section \<open>The passes\<close>

lemma next_code_point_fold:
  "m \<le> fold (\<lambda>c m. if c \<ge> n \<and> c < m then c else m) input m0 \<longleftrightarrow>
     m \<le> m0 \<and> (\<forall>c\<in>set input. n \<le> c \<longrightarrow> m \<le> c)" for m :: nat
  by (induction input arbitrary: m0) (auto split: if_splits)

lemma next_code_point_in:
  "fold (\<lambda>c m. if c \<ge> n \<and> c < m then c else m) input m0 = m0 \<or>
     (\<exists>c\<in>set input. n \<le> c \<and> fold (\<lambda>c m. if c \<ge> n \<and> c < m then c else m) input m0 = c)" for m0 :: nat
proof (induction input arbitrary: m0)
  case (Cons c input)
  then show ?case using Cons.IH [of c] Cons.IH [of m0] by (cases "c \<ge> n \<and> c < m0") auto
qed simp

lemma next_code_point:
  assumes "c \<in> set input" and "n \<le> c" and "\<forall>c\<in>set input. c < maxInt"
  shows "next_code_point n input \<in> set input" "n \<le> next_code_point n input"
    "\<forall>c\<in>set input. \<not> (n \<le> c \<and> c < next_code_point n input)"
proof -
  let ?m = "next_code_point n input"
  have le: "\<forall>c\<in>set input. n \<le> c \<longrightarrow> ?m \<le> c"
    using next_code_point_fold [of ?m n input maxInt] by (simp add: next_code_point_def)
  then have "?m < maxInt" using assms by (meson le_less_trans)
  then obtain d where "d \<in> set input" "n \<le> d" "?m = d"
    using next_code_point_in [of n input maxInt] by (auto simp: next_code_point_def)
  then show "?m \<in> set input" "n \<le> ?m" by simp_all
  show "\<forall>c\<in>set input. \<not> (n \<le> c \<and> c < ?m)" using le by auto
qed

lemma puny_rel_jump:
  assumes "puny_rel [] cps n b dst est" and "n \<le> m" and "\<forall>c\<in>set cps. \<not> (n \<le> c \<and> c < m)"
  shows "puny_rel [] cps m b dst (est\<lparr>enc_delta := enc_delta est + (m - n) * (enc_handled est + 1)\<rparr>)"
proof -
  have "filter (\<lambda>c. c < m) cps = filter (\<lambda>c. c < n) cps" using assms(2,3) by (intro filter_cong) auto
  define h where "h = enc_handled est + 1"
  have le: "dec_n dst \<le> n" "b \<le> enc_handled est"
    using assms(1) unfolding puny_rel_def by blast+
  have i: "dec_i dst + enc_delta est = (n - dec_n dst) * h"
    using assms(1) unfolding puny_rel_def h_def by simp
  have "(m - dec_n dst) * h = (n - dec_n dst) * h + (m - n) * h"
    using le(1) assms(2) by (simp only: add_mult_distrib [symmetric]) simp
  then have eq: "dec_i dst + (enc_delta est + (m - n) * h) = (m - dec_n dst) * h"
    using i by linarith
  show ?thesis unfolding h_def [symmetric] puny_rel_def
    using assms(1,2) eq \<open>filter (\<lambda>c. c < m) cps = filter (\<lambda>c. c < n) cps\<close> le
    by (simp add: puny_rel_def h_def [symmetric] del: mult_Suc_right) (simp add: h_def)
qed

lemma puny_rel_next:
  assumes "puny_rel cps [] m b dst est"
  shows "puny_rel [] cps (m + 1) b dst (est\<lparr>enc_delta := enc_delta est + 1\<rparr>)"
proof -
  have "filter (\<lambda>c. c < m + 1) cps = filter (\<lambda>c. c \<le> m) cps" by (intro filter_cong) auto
  moreover have "b \<le> enc_handled est" "dec_n dst \<le> m" using assms unfolding puny_rel_def by blast+
  moreover have "Suc m - dec_n dst = Suc (m - dec_n dst)" using calculation(3) by (rule Suc_diff_le)
  ultimately show ?thesis using assms unfolding puny_rel_def by simp
qed

lemma filter_all: "length xs \<le> length (filter P xs) \<Longrightarrow> filter P xs = xs"
  by (induction xs) (auto simp: not_less_eq_eq dest: le_trans [OF _ length_filter_le] split: if_splits)

lemma puny_rel_done:
  assumes "puny_rel [] cps n b dst est" and "\<not> enc_handled est < length cps"
  shows "pass_result small est dst (\<lambda>dst' est'. dec_out dst' = cps) (enc_loop fuel cps b n est)"
proof -
  have "dec_out dst = filter (\<lambda>c. c < n) cps" "enc_handled est = length (dec_out dst)"
    using assms(1) by (simp_all add: puny_rel_def)
  then have "dec_out dst = cps" using filter_all [of cps "\<lambda>c. c < n"] assms(2) by simp
  moreover have "enc_loop fuel cps b n est = Inr est" using assms(2) by (subst enc_loop.simps) simp
  ultimately show ?thesis using digits_step_Nil [of dst small] by (simp add: pass_result_def) blast
qed

lemma enc_loop_sim:
  assumes "puny_rel [] cps n b dst est" and "\<forall>c\<in>set cps. c < N" and "N \<le> maxInt"
    and "small \<Longrightarrow> puny_small N (length cps)" and "length cps \<le> fuel + enc_handled est"
  shows "pass_result small est dst (\<lambda>dst' est'. dec_out dst' = cps) (enc_loop fuel cps b n est)"
  using assms(1,5)
proof (induction fuel arbitrary: n dst est)
  case (0 n dst est)
  then show ?case using puny_rel_done by (metis add_0 not_less)
next
  case (Suc fuel n dst est)
  show ?case
  proof (cases "enc_handled est < length cps")
    case False
    then show ?thesis by (rule puny_rel_done [OF Suc.prems(1)])
  next
    case True
    let ?h = "enc_handled est + 1" and ?m = "next_code_point n cps"
    have "\<exists>c\<in>set cps. n \<le> c"
    proof (rule ccontr)
      assume "\<not> ?thesis"
      then have "filter (\<lambda>c. c < n) cps = cps" by (intro filter_True) (auto simp: not_le)
      then show False using True Suc.prems(1) by (simp add: puny_rel_def)
    qed
    then obtain c where c: "c \<in> set cps" "n \<le> c" by blast
    have "\<forall>c\<in>set cps. c < maxInt" using assms(2,3) by auto
    note m = next_code_point [OF c this]
    let ?est = "est\<lparr>enc_delta := enc_delta est + (?m - n) * ?h\<rparr>"
    have rel: "puny_rel [] cps ?m b dst ?est" by (rule puny_rel_jump [OF Suc.prems(1) m(2,3)])
    have mN: "?m < N" using m(1) assms(2) by blast
    have bound: "enc_delta est + (?m - n) * ?h \<le> maxInt" if small
      using puny_rel_bound [OF rel mN] assms(4) [OF that] by simp
    have test: "?m - n > (maxInt - enc_delta est) div ?h \<longleftrightarrow> (?m - n) * ?h > maxInt - enc_delta est"
      by (simp add: div_less_iff_less_mult)
    show ?thesis
    proof (cases "?m - n > (maxInt - enc_delta est) div ?h")
      case over: True
      then have "\<not> small" using bound test by auto
      then show ?thesis using True over by (subst enc_loop.simps) (simp add: pass_result_def Let_def)
    next
      case False
      have loop: "enc_loop (Suc fuel) cps b n est = bindE (enc_pass ?m b cps ?est) (\<lambda>est'.
          enc_loop fuel cps b (?m + 1) (est'\<lparr>enc_delta := enc_delta est' + 1\<rparr>))"
        using True False by (subst enc_loop.simps) (simp add: Let_def)
      have pass: "pass_result small ?est dst (puny_rel cps [] ?m b) (enc_pass ?m b cps ?est)"
        using enc_pass_sim [OF rel mN assms(3), of small] assms(4) by simp
      show ?thesis
      proof (cases "enc_pass ?m b cps ?est")
        case (Inl e)
        then show ?thesis using pass by (simp add: loop pass_result_def)
      next
        case (Inr est1)
        then obtain ds dst1 where 1: "enc_out est1 = enc_out est @ ds" "digits_step ds dst dst1 small"
          "puny_rel cps [] ?m b dst1 est1"
          using pass by (auto simp: pass_result_def)
        let ?est1 = "est1\<lparr>enc_delta := enc_delta est1 + 1\<rparr>"
        have "enc_handled est < enc_handled est1"
        proof -
          have "filter (\<lambda>c. c < ?m) cps = filter (\<lambda>c. c < ?m) (filter (\<lambda>c. c \<le> ?m) cps)"
            by (simp add: filter_filter) (rule filter_cong, auto)
          also have "length \<dots> < length (filter (\<lambda>c. c \<le> ?m) cps)"
            using m(1) by (intro length_filter_less [of ?m]) auto
          finally show ?thesis using rel 1(3) by (simp add: puny_rel_def)
        qed
        then have "length cps \<le> fuel + enc_handled ?est1" using Suc.prems(2) by simp
        then have "pass_result small ?est1 dst1 (\<lambda>dst' est'. dec_out dst' = cps)
            (enc_loop fuel cps b (?m + 1) ?est1)"
          by (rule Suc.IH [OF puny_rel_next [OF 1(3)]])
        then show ?thesis using Inr 1(1) digits_step_append [OF 1(2)]
          by (fastforce simp: loop pass_result_def split: sum.splits)
      qed
    qed
  qed
qed

section \<open>UCS-2\<close>

lemma and_FC00: "(x :: nat) AND 0xFC00 = push_bit 10 (take_bit 6 (drop_bit 10 x))"
proof -
  have mask: "0xFC00 = push_bit 10 (mask 6 :: nat)" by (simp add: push_bit_eq_mult mask_eq_exp_minus_1)
  show ?thesis unfolding mask
    by (rule bit_eqI)
      (auto simp: bit_and_iff bit_push_bit_iff bit_take_bit_iff bit_drop_bit_eq bit_mask_iff)
qed

lemma ucs2_low: "extra < 0x10000 \<Longrightarrow> extra AND 0xFC00 = 0xDC00 \<longleftrightarrow> is_low extra"
proof -
  assume extra: "extra < 0x10000"
  then have "extra div 1024 < 64" by simp
  then have "extra AND 0xFC00 = extra div 1024 * 1024"
    by (simp add: and_FC00 push_bit_eq_mult take_bit_eq_mod drop_bit_eq_div)
  moreover have "extra div 1024 * 1024 = 0xDC00 \<longleftrightarrow> extra div 1024 = 55" by auto
  moreover have "extra div 1024 = 55 \<longleftrightarrow> is_low extra" by (auto simp: is_low_def)
  ultimately show ?thesis by simp
qed

lemma ucs2_pair:
  "is_high v \<Longrightarrow> is_low d \<Longrightarrow>
     push_bit 10 (v AND 0x3FF) + (d AND 0x3FF) + 0x10000 = pair_value v d"
proof -
  assume "is_high v" "is_low d"
  then obtain a b where "v = 1024 * 54 + a" "a < 1024" "d = 1024 * 55 + b" "b < 1024"
    by (auto simp: is_high_def is_low_def dest!: le_Suc_ex)
  moreover have "(1024 * 54 + a) mod 1024 = a" "(1024 * 55 + b) mod 1024 = b"
    using calculation by (simp_all only: mod_mult_self4 mod_less)
  moreover have "(x :: nat) AND 0x3FF = x mod 1024" for x
    using take_bit_eq_mask [of 10 x] by (simp add: mask_eq_exp_minus_1 take_bit_eq_mod)
  ultimately show ?thesis by (simp add: pair_value_def push_bit_eq_mult)
qed

lemma ucs2decode_code_points: "wf_jstr s \<Longrightarrow> ucs2decode s = code_points s"
proof (induction s rule: ucs2decode.induct)
  case (3 v extra cs)
  have "(0xD800 \<le> v \<and> v \<le> 0xDBFF) = is_high v" by (simp add: is_high_def)
  then show ?case using 3 ucs2_low [of extra] ucs2_pair [of v extra]
    by (auto simp: wf_jstr_def)
qed simp_all

lemma code_points_bound: "wf_jstr s \<Longrightarrow> \<forall>c\<in>set (code_points s). c < 0x110000"
  by (induction s rule: code_points.induct)
    (auto simp: wf_jstr_def pair_value_def is_high_def is_low_def)

lemma length_code_points: "length (code_points s) \<le> length s"
  by (induction s rule: code_points.induct) auto

section \<open>The round trip\<close>

text \<open>The state in which encoder and decoder start the passes.\<close>

lemma puny_start:
  "puny_rel [] cps 128 (length (filter (\<lambda>c. c < 0x80) cps))
     \<lparr>dec_out = filter (\<lambda>c. c < 0x80) cps, dec_i = 0, dec_n = initialN, dec_bias = initialBias\<rparr>
     \<lparr>enc_out = out, enc_delta = 0, enc_bias = initialBias,
      enc_handled = length (filter (\<lambda>c. c < 0x80) cps)\<rparr>"
  by (simp add: puny_rel_def)

lemma dec_basic_split:
  assumes "\<forall>c\<in>set digits. c \<noteq> HYPHEN"
  shows "dec_basic ((if basic \<noteq> [] then basic @ [HYPHEN] else []) @ digits) = length basic"
    "basic \<noteq> [] \<Longrightarrow> dec_basic (basic @ HYPHEN # digits) = length basic"
proof -
  have "HYPHEN \<notin> set digits" using assms by blast
  then show "basic \<noteq> [] \<Longrightarrow> dec_basic (basic @ HYPHEN # digits) = length basic"
    "dec_basic ((if basic \<noteq> [] then basic @ [HYPHEN] else []) @ digits) = length basic"
    by (auto simp: dec_basic_def lastIndexOf_char_last lastIndexOf_char_notin)
qed

lemma puny_points_sim:
  assumes "\<forall>c\<in>set cps. c < 0x110000" and small: "small \<Longrightarrow> length cps \<le> 54"
  shows "case puny_encode_points cps of
     Inl e \<Rightarrow> e = overflow_error \<and> \<not> small
   | Inr e \<Rightarrow> puny_decode e = Inr (utf16s cps) \<or> (puny_decode e = Inl overflow_error \<and> \<not> small)"
proof -
  let ?basic = "filter (\<lambda>c. c < 0x80) cps"
  let ?out = "if length ?basic > 0 then ?basic @ [HYPHEN] else ?basic"
  let ?est = "\<lparr>enc_out = ?out, enc_delta = 0, enc_bias = initialBias, enc_handled = length ?basic\<rparr>"
  let ?dst = "\<lparr>dec_out = ?basic, dec_i = 0, dec_n = initialN, dec_bias = initialBias\<rparr>"
  let ?res = "enc_loop (length cps) cps (length ?basic) 128 ?est"
  have sim: "pass_result small ?est ?dst (\<lambda>dst' est'. dec_out dst' = cps) ?res"
  proof (rule enc_loop_sim [OF puny_start assms(1)])
    show "0x110000 \<le> maxInt" by (simp add: maxInt_def)
    show "puny_small 0x110000 (length cps)" if small
      using small [OF that] by (simp add: puny_small_def maxInt_def)
  qed simp
  have enc: "puny_encode_points cps = bindE ?res (\<lambda>st. Inr (enc_out st))"
    by (simp add: puny_encode_points_def Let_def)
  show ?thesis
  proof (cases ?res)
    case (Inl e)
    then show ?thesis using sim by (simp add: enc pass_result_def)
  next
    case (Inr est')
    then obtain digits dst' where d: "enc_out est' = ?out @ digits" "digits_step digits ?dst dst' small"
      "dec_out dst' = cps"
      using sim by (auto simp: pass_result_def)
    have hy: "\<forall>c\<in>set digits. c \<noteq> HYPHEN" using d(2) by (simp add: digits_step_def)
    have basic: "\<not> list_ex (\<lambda>c. c \<ge> 0x80) ?basic" by (auto simp: list_ex_iff)
    have dec: "puny_decode (?out @ digits) = bindE (dec_loop digits ?dst) (\<lambda>st. ucs2encode (dec_out st))"
      using dec_basic_split [OF hy, of ?basic] basic by (cases "?basic = []") (simp_all add: puny_decode_def)
    have "dec_loop digits ?dst = dec_loop [] dst' \<or> (dec_loop digits ?dst = Inl overflow_error \<and> \<not> small)"
      using d(2) unfolding digits_step_def by (metis append_Nil2)
    moreover have "dec_loop [] dst' = Inr dst'" by (subst dec_loop.simps) simp
    moreover have "ucs2encode cps = Inr (utf16s cps)"
      using assms(1) by (fastforce simp: ucs2encode_def list_all_iff)
    ultimately show ?thesis using Inr d(1,3) dec by (auto simp: enc)
  qed
qed

text \<open>
  Decoding an encoded string gives the string back, or reports an overflow; the encoder itself
  reports an overflow or succeeds, and never needs more passes than the input has code points.
\<close>

theorem puny_round_trip:
  assumes "wf_jstr s"
  shows "case puny_encode s of
     Inl e \<Rightarrow> e = overflow_error
   | Inr e \<Rightarrow> puny_decode e = Inr s \<or> puny_decode e = Inl overflow_error"
  using puny_points_sim [of "code_points s" False] code_points_bound [OF assms]
    ucs2decode_code_points [OF assms] utf16s_code_points [OF assms]
  by (auto simp: puny_encode_def split: sum.splits)

lemma puny_round_trip_witness:
  "case puny_encode [97, 0x20AC] of
     Inl e \<Rightarrow> e = overflow_error
   | Inr e \<Rightarrow> puny_decode e = Inr [97, 0x20AC] \<or> puny_decode e = Inl overflow_error"
  by (rule puny_round_trip) (simp add: wf_jstr_def)

text \<open>
  C19: strings of up to 54 UTF-16 code units (a DNS label has at most 63 octets) are encoded and
  decoded back without an overflow.
\<close>

theorem puny_round_trip_labels:
  assumes "wf_jstr s" and "length s \<le> 54"
  shows "\<exists>e. puny_encode s = Inr e \<and> puny_decode e = Inr s"
  using puny_points_sim [of "code_points s" True] code_points_bound [OF assms(1)]
    ucs2decode_code_points [OF assms(1)] utf16s_code_points [OF assms(1)]
    length_code_points [of s] assms(2)
  by (auto simp: puny_encode_def split: sum.splits)

lemma puny_round_trip_labels_witness:
  "\<exists>e. puny_encode [109, 0xF1, 0x20AC] = Inr e \<and> puny_decode e = Inr [109, 0xF1, 0x20AC]"
  by (rule puny_round_trip_labels) (simp_all add: wf_jstr_def)

end
