(* ===== verification/JS_Bits.thy ===== *)
theory JS_Bits
  imports JS_Prelude "HOL-Library.Word"
begin

unbundle bit_operations_syntax

text \<open>
  Bit operations of the language. On values known to be small and non-negative the models use
  \<open>nat\<close>; the lemmas relate masks, shifts and disjunctions to arithmetic. The 32-bit conversions
  \<open>ToInt32\<close> and \<open>ToUint32\<close> of ECMA-262 are words.
\<close>

section \<open>Masks and shifts of natural numbers\<close>

lemma and_mask_mod: "(b::nat) AND (2 ^ n - 1) = b mod 2 ^ n"
  by (metis mask_eq_exp_minus_1 take_bit_eq_mask take_bit_eq_mod)

lemma and_masks:
  "(b::nat) AND 0xFF = b mod 256" "b AND 0x7F = b mod 128" "b AND 0x3F = b mod 64"
  "b AND 0x1F = b mod 32" "b AND 0xF = b mod 16" "b AND 7 = b mod 8" "b AND 3 = b mod 4"
  using and_mask_mod [of b 8] and_mask_mod [of b 7] and_mask_mod [of b 6] and_mask_mod [of b 5]
    and_mask_mod [of b 4] and_mask_mod [of b 3] and_mask_mod [of b 2] by simp_all

lemma or_disjoint: "x < 2 ^ n \<Longrightarrow> (a * 2 ^ n) OR x = a * 2 ^ n + (x::nat)"
proof -
  assume "x < 2 ^ n"
  then have "push_bit n a AND x = 0"
    by (metis (no_types, lifting) and_zero_eq bit_and_iff bit_eqI bit_push_bit_iff_nat bit_take_bit_iff
        not_le semiring_bit_operations_class.zero_and_eq take_bit_nat_eq_self)
  then show ?thesis by (metis disjunctive_add_eq_or push_bit_eq_mult)
qed

lemma or_disjoints:
  "x < 4 \<Longrightarrow> a * 4 OR x = a * 4 + (x::nat)" "x < 16 \<Longrightarrow> a * 16 OR x = a * 16 + x"
  "x < 64 \<Longrightarrow> a * 64 OR x = a * 64 + x" "x < 128 \<Longrightarrow> a * 128 OR x = a * 128 + x"
  "x < 256 \<Longrightarrow> a * 256 OR x = a * 256 + x"
  using or_disjoint [of x 2 a] or_disjoint [of x 4 a] or_disjoint [of x 6 a] or_disjoint [of x 7 a]
    or_disjoint [of x 8 a] by simp_all

section \<open>Numbers\<close>

text \<open>
  Comparisons of numbers: NaN is unordered, \<open>Infinity True\<close> is the positive infinity.
\<close>

fun num_less :: "jsnum \<Rightarrow> jsnum \<Rightarrow> bool" where
  "num_less (Num x) (Num y) = (x < y)"
| "num_less (Infinity p) (Num y) = (\<not> p)"
| "num_less (Num x) (Infinity q) = q"
| "num_less (Infinity p) (Infinity q) = (\<not> p \<and> q)"
| "num_less _ _ = False"

definition num_le :: "jsnum \<Rightarrow> jsnum \<Rightarrow> bool" where
  [js_eval]: "num_le x y = (num_less x y \<or> (x = y \<and> x \<noteq> NaN))"

definition trunc :: "rat \<Rightarrow> int" where
  [js_eval]: "trunc x = (if 0 \<le> x then \<lfloor>x\<rfloor> else \<lceil>x\<rceil>)"

definition is_integer :: "jsnum \<Rightarrow> bool" where
  [js_eval]: "is_integer x = (case x of Num r \<Rightarrow> of_int \<lfloor>r\<rfloor> = r | _ \<Rightarrow> False)"

abbreviation int_num :: "int \<Rightarrow> jsnum" where
  "int_num i \<equiv> Num (of_int i)"

abbreviation nat_num :: "nat \<Rightarrow> jsnum" where
  "nat_num n \<equiv> Num (of_nat n)"

lemma is_integer_int [simp]: "is_integer (int_num i)"
  by (simp add: is_integer_def)

lemma is_integerE: "is_integer x \<Longrightarrow> (\<And>i. x = int_num i \<Longrightarrow> P) \<Longrightarrow> P"
  by (cases x) (simp_all add: is_integer_def, metis)

lemma trunc_int [simp]: "trunc (of_int i) = i"
  by (simp add: trunc_def)

lemma trunc_nat [simp]: "trunc (of_nat n) = int n"
  using trunc_int [of "int n"] by (simp del: trunc_int)

text \<open>\<open>ToInt32\<close> and \<open>ToUint32\<close>: the integer part modulo \<open>2 ^ 32\<close>; NaN and infinities give 0.\<close>

definition ToInt32 :: "jsnum \<Rightarrow> 32 word" where
  [js_eval]: "ToInt32 x = (case x of Num r \<Rightarrow> word_of_int (trunc r) | _ \<Rightarrow> 0)"

definition ToUint32 :: "jsnum \<Rightarrow> nat" where
  [js_eval]: "ToUint32 x = unat (ToInt32 x)"

lemma ToInt32_int [simp]: "ToInt32 (int_num i) = word_of_int i"
  by (simp add: ToInt32_def)

lemma trunc_0 [simp]: "trunc 0 = 0"
  by (simp add: trunc_def)

lemma ToUint32_0 [simp]: "ToUint32 (Num 0) = 0"
  by (simp add: ToUint32_def ToInt32_def)

lemma ToUint32_nat: "n < 2 ^ 32 \<Longrightarrow> ToUint32 (nat_num n) = n"
  by (simp add: ToUint32_def ToInt32_def unsigned_of_nat take_bit_nat_eq_self)

end
