(* ===== verification/Base64.thy ===== *)
theory Base64
  imports JS_Bits
begin

unbundle bit_operations_syntax

text \<open>
  The module \<open>builtin/base64.js\<close>: the two lookup tables, \<open>byteLength\<close>, \<open>toByteArray\<close> and
  \<open>fromByteArray\<close>, with the reference encoding of RFC 4648 (\<open>rfc4648\<close>), the equivalence of the chunked
  encoder with it, and the round trip.
\<close>

section \<open>Tables\<close>

definition b64_code :: jstr where
  [js_eval]: "b64_code = js ''ABCDEFGHIJKLMNOPQRSTUVWXYZabcdefghijklmnopqrstuvwxyz0123456789+/''"

definition b64_lookup :: "nat \<Rightarrow> nat" where
  [js_eval]: "b64_lookup i = b64_code ! i"

abbreviation EQUALS :: nat where "EQUALS \<equiv> 61"

text \<open>\<open>revLookup\<close>; an entry that is undefined counts as 0 in the bit operations.\<close>

definition revLookup :: "nat \<Rightarrow> nat option" where
  [js_eval]: "revLookup c =
     (if c = 45 then Some 62 else if c = 95 then Some 63
      else case find (\<lambda>i. b64_code ! i = c) [0..<length b64_code] of None \<Rightarrow> None | Some i \<Rightarrow> Some i)"

definition b64_bits :: "jstr \<Rightarrow> nat \<Rightarrow> nat" where
  [js_eval]: "b64_bits b64 i =
     (if i < length b64 then case revLookup (b64 ! i) of Some v \<Rightarrow> v | None \<Rightarrow> 0 else 0)"

section \<open>Decoding\<close>

definition getLens :: "jstr \<Rightarrow> js_error + nat \<times> nat" where
  [js_eval]: "getLens b64 =
     (let len = length b64
      in if len mod 4 > 0 then Inl (PlainError ''Invalid string. Length must be a multiple of 4'')
         else let i = indexOf b64 [EQUALS] 0; validLen = (if i = -1 then len else nat i);
                  placeHoldersLen = (if validLen = len then 0 else 4 - validLen mod 4)
              in Inr (validLen, placeHoldersLen))"

definition b64_placeholder_length :: "nat \<Rightarrow> nat \<Rightarrow> int" where
  [js_eval]: "b64_placeholder_length validLen placeHoldersLen =
     int ((validLen + placeHoldersLen) * 3 div 4) - int placeHoldersLen"

definition b64_byteLength :: "jstr \<Rightarrow> js_error + int" where
  [js_eval]: "b64_byteLength b64 =
     bindE (getLens b64) (\<lambda>(validLen, placeHoldersLen). Inr (b64_placeholder_length validLen placeHoldersLen))"

definition b64_quad :: "jstr \<Rightarrow> nat \<Rightarrow> bytes" where
  [js_eval]: "b64_quad b64 i =
     (let tmp = push_bit 18 (b64_bits b64 i) OR push_bit 12 (b64_bits b64 (i + 1)) OR
                push_bit 6 (b64_bits b64 (i + 2)) OR b64_bits b64 (i + 3)
      in [drop_bit 16 tmp AND 0xFF, drop_bit 8 tmp AND 0xFF, tmp AND 0xFF])"

text \<open>The loop over the groups: the bytes, and the index where it stops.\<close>

function b64_quads :: "jstr \<Rightarrow> nat \<Rightarrow> int \<Rightarrow> bytes \<times> nat" where
  "b64_quads b64 i len =
     (if int i < len then let (bs, i') = b64_quads b64 (i + 4) len in (b64_quad b64 i @ bs, i')
      else ([], i))"
  by pat_completeness auto
termination
  by (relation "measure (\<lambda>(b64, i, len). nat (len - int i))") auto

declare b64_quads.simps [simp del]

text \<open>The bytes stored into a new array of a given length: later stores are lost, the rest is 0.\<close>

definition into_array :: "nat \<Rightarrow> bytes \<Rightarrow> bytes" where
  [js_eval]: "into_array n bs = take n (bs @ replicate n 0)"

text \<open>The bytes of a last group with placeholders.\<close>

definition b64_tail :: "jstr \<Rightarrow> nat \<Rightarrow> nat \<Rightarrow> bytes" where
  [js_eval]: "b64_tail b64 i placeHoldersLen =
     (if placeHoldersLen = 2
      then [(push_bit 2 (b64_bits b64 i) OR drop_bit 4 (b64_bits b64 (i + 1))) AND 0xFF]
      else if placeHoldersLen = 1
      then let tmp = push_bit 10 (b64_bits b64 i) OR push_bit 4 (b64_bits b64 (i + 1)) OR
                     drop_bit 2 (b64_bits b64 (i + 2))
           in [drop_bit 8 tmp AND 0xFF, tmp AND 0xFF]
      else [])"

definition toByteArray :: "jstr \<Rightarrow> js_error + bytes" where
  [js_eval]: "toByteArray b64 =
     bindE (getLens b64) (\<lambda>(validLen, placeHoldersLen).
       let n = b64_placeholder_length validLen placeHoldersLen;
           len = (if placeHoldersLen > 0 then int validLen - 4 else int validLen);
           (bs, i) = b64_quads b64 0 len
       in if n < 0 then Inl (RangeError ''Invalid array length'')
          else Inr (into_array (nat n) (bs @ b64_tail b64 i placeHoldersLen)))"

section \<open>Encoding\<close>

definition tripletToBase64 :: "nat \<Rightarrow> jstr" where
  [js_eval]: "tripletToBase64 num =
     [b64_lookup (drop_bit 18 num AND 0x3F), b64_lookup (drop_bit 12 num AND 0x3F),
      b64_lookup (drop_bit 6 num AND 0x3F), b64_lookup (num AND 0x3F)]"

text \<open>\<open>encodeChunk\<close> runs on whole triples, so every index it reads is below \<open>stop\<close>.\<close>

function encodeChunk :: "bytes \<Rightarrow> nat \<Rightarrow> nat \<Rightarrow> jstr" where
  "encodeChunk uint8 i stop =
     (if i < stop
      then let tmp = (push_bit 16 (uint8 ! i) AND 0xFF0000) + (push_bit 8 (uint8 ! (i + 1)) AND 0xFF00) +
                     (uint8 ! (i + 2) AND 0xFF)
           in tripletToBase64 tmp @ encodeChunk uint8 (i + 3) stop
      else [])"
  by pat_completeness auto
termination
  by (relation "measure (\<lambda>(uint8, i, stop). stop - i)") auto

declare encodeChunk.simps [simp del]

abbreviation maxChunkLength :: nat where "maxChunkLength \<equiv> 16383"

function encodeChunks :: "bytes \<Rightarrow> nat \<Rightarrow> nat \<Rightarrow> jstr" where
  "encodeChunks uint8 i len2 =
     (if i < len2
      then encodeChunk uint8 i (if i + maxChunkLength > len2 then len2 else i + maxChunkLength) @
           encodeChunks uint8 (i + maxChunkLength) len2
      else [])"
  by pat_completeness auto
termination
  by (relation "measure (\<lambda>(uint8, i, len2). len2 - i)") auto

declare encodeChunks.simps [simp del]

definition fromByteArray :: "bytes \<Rightarrow> jstr" where
  [js_eval]: "fromByteArray uint8 =
     (let len = length uint8; extraBytes = len mod 3
      in encodeChunks uint8 0 (len - extraBytes) @
         (if extraBytes = 1
          then let tmp = uint8 ! (len - 1)
               in [b64_lookup (drop_bit 2 tmp), b64_lookup (push_bit 4 tmp AND 0x3F), EQUALS, EQUALS]
          else if extraBytes = 2
          then let tmp = push_bit 8 (uint8 ! (len - 2)) + uint8 ! (len - 1)
               in [b64_lookup (drop_bit 10 tmp), b64_lookup (drop_bit 4 tmp AND 0x3F),
                   b64_lookup (push_bit 2 tmp AND 0x3F), EQUALS]
          else []))"

section \<open>The reference encoding\<close>

fun rfc4648 :: "bytes \<Rightarrow> jstr" where
  "rfc4648 (a # b # c # bs) =
     [b64_lookup (a div 4), b64_lookup (a mod 4 * 16 + b div 16), b64_lookup (b mod 16 * 4 + c div 64),
      b64_lookup (c mod 64)] @ rfc4648 bs"
| "rfc4648 [a, b] =
     [b64_lookup (a div 4), b64_lookup (a mod 4 * 16 + b div 16), b64_lookup (b mod 16 * 4), EQUALS]"
| "rfc4648 [a] = [b64_lookup (a div 4), b64_lookup (a mod 4 * 16), EQUALS, EQUALS]"
| "rfc4648 [] = []"

lemma rfc4648_append: "length xs = 3 * n \<Longrightarrow> rfc4648 (xs @ ys) = rfc4648 xs @ rfc4648 ys"
proof (induction n arbitrary: xs)
  case (Suc n)
  then obtain a b c bs where "xs = a # b # c # bs"
    by (auto simp: length_Suc_conv numeral_3_eq_3 eval_nat_numeral)
  then show ?case using Suc by simp
qed simp

text \<open>Three bytes as four digits of six bits.\<close>

lemma sextets:
  fixes a b c :: nat
  assumes "a < 256" "b < 256" "c < 256"
  defines "num \<equiv> a * 65536 + b * 256 + c"
  shows "num div 262144 mod 64 = a div 4" "num div 4096 mod 64 = a mod 4 * 16 + b div 16"
    "num div 64 mod 64 = b mod 16 * 4 + c div 64" "num mod 64 = c mod 64"
proof -
  define x y z where "x = a div 4" and "y = a mod 4 * 16 + b div 16" and "z = b mod 16 * 4 + c div 64"
  have lt: "x < 64" "y < 64" "z < 64" "c mod 64 < 64"
    using assms(1-3) by (auto simp: x_def y_def z_def)
  define p q q' r r' where "p = a mod 4" and "q = b div 16" and "q' = b mod 16" and "r = c div 64"
    and "r' = c mod 64"
  have "a = x * 4 + p" "b = q * 16 + q'" "c = r * 64 + r'" "y = p * 16 + q" "z = q' * 4 + r"
    by (simp_all add: x_def y_def z_def p_def q_def q'_def r_def r'_def)
  then have num: "num = ((x * 64 + y) * 64 + z) * 64 + c mod 64"
    unfolding num_def r'_def [symmetric] by simp
  have d64: "num div 64 = (x * 64 + y) * 64 + z" unfolding num by simp
  have d4096: "num div 4096 = x * 64 + y"
    using div_mult2_eq [of num 64 64] lt by (simp add: d64)
  have "num div 262144 = x" using div_mult2_eq [of num 4096 64] lt by (simp add: d4096)
  then show "num div 262144 mod 64 = a div 4" using lt by (simp add: x_def)
  show "num div 4096 mod 64 = a mod 4 * 16 + b div 16" unfolding d4096 using lt by (simp add: y_def)
  show "num div 64 mod 64 = b mod 16 * 4 + c div 64" 
    unfolding d64 z_def [symmetric] using lt by (simp only: mod_mult_self3 mod_less)
  show "num mod 64 = c mod 64" unfolding num by (simp only: mod_mult_self3 mod_mod_trivial)
qed

lemma sextets_two:
  fixes a b :: nat
  assumes "a < 256" "b < 256"
  shows "(a * 256 + b) div 1024 = a div 4" "(a * 256 + b) div 16 mod 64 = a mod 4 * 16 + b div 16"
    "(a * 256 + b) * 4 mod 64 = b mod 16 * 4"
proof -
  define tmp where "tmp = a * 256 + b"
  have num: "a * 65536 + b * 256 + 0 = tmp * 256" by (simp add: tmp_def)
  have "tmp * 256 div 262144 = tmp div 1024" "tmp * 256 div 4096 = tmp div 16" "tmp * 256 div 64 = tmp * 4"
    using div_mult_mult2 [of 256 tmp 1024] div_mult_mult2 [of 256 tmp 16] div_mult_mult2 [of 64 "tmp * 4" 1]
    by simp_all
  then have "tmp div 1024 mod 64 = a div 4" "tmp div 16 mod 64 = a mod 4 * 16 + b div 16"
    "tmp * 4 mod 64 = b mod 16 * 4"
    using sextets [OF assms, of 0] unfolding num by (simp_all add: mult.commute)
  moreover have "tmp div 1024 < 64" using assms by (simp add: tmp_def)
  ultimately show "(a * 256 + b) div 1024 = a div 4" "(a * 256 + b) div 16 mod 64 = a mod 4 * 16 + b div 16"
    "(a * 256 + b) * 4 mod 64 = b mod 16 * 4"
    by (simp_all add: tmp_def)
qed

lemma short_list:
  assumes "length xs < 3"
  obtains "xs = []" | a where "xs = [a]" | a b where "xs = [a, b]"
  using assms by (auto simp: less_Suc_eq eval_nat_numeral length_Suc_conv)

lemma triplet_bits:
  assumes "a < 256" "b < 256" "c < 256"
  shows "tripletToBase64 ((push_bit 16 a AND 0xFF0000) + (push_bit 8 b AND 0xFF00) + (c AND 0xFF)) = rfc4648 [a, b, c]"
proof -
  have "push_bit 16 a AND push_bit 16 0xFF = push_bit 16 (a AND 0xFF)"
    "push_bit 8 b AND push_bit 8 0xFF = push_bit 8 (b AND 0xFF)" by (simp_all only: push_bit_and)
  then have "(push_bit 16 a AND 0xFF0000) + (push_bit 8 b AND 0xFF00) + (c AND 0xFF) = a * 65536 + b * 256 + c"
    using assms by (simp add: and_masks push_bit_eq_mult)
  then show ?thesis using sextets [OF assms]
    by (simp only: tripletToBase64_def drop_bit_eq_div and_masks) simp
qed

lemma encodeChunk_eq:
  assumes "\<forall>b\<in>set bs. b < 256" "stop = i + 3 * n" "stop \<le> length bs"
  shows "encodeChunk bs i stop = rfc4648 (take (3 * n) (drop i bs))"
  using assms(2,3)
proof (induction n arbitrary: i)
  case 0
  then show ?case by (simp add: encodeChunk.simps)
next
  case (Suc n)
  define a b c where "a = bs ! i" and "b = bs ! (i + 1)" and "c = bs ! (i + 2)"
  have lt: "i + 2 < length bs" using Suc.prems by simp
  then have abc: "a < 256" "b < 256" "c < 256"
    using assms(1) by (auto simp: a_def b_def c_def)
  have drop: "drop i bs = a # b # c # drop (i + 3) bs"
    using lt Cons_nth_drop_Suc [of i bs] Cons_nth_drop_Suc [of "Suc i" bs] Cons_nth_drop_Suc [of "Suc (Suc i)" bs]
    by (simp add: a_def b_def c_def numeral_3_eq_3 numeral_2_eq_2)
  have "encodeChunk bs i stop = rfc4648 [a, b, c] @ encodeChunk bs (i + 3) stop"
    using triplet_bits [OF abc] Suc.prems(1)
    by (subst encodeChunk.simps) (simp add: a_def b_def c_def Let_def)
  also have "... = rfc4648 [a, b, c] @ rfc4648 (take (3 * n) (drop (i + 3) bs))"
    using Suc.IH [of "i + 3"] Suc.prems by simp
  also have "... = rfc4648 ([a, b, c] @ take (3 * n) (drop (i + 3) bs))" by simp
  also have "[a, b, c] @ take (3 * n) (drop (i + 3) bs) = take (3 * Suc n) (drop i bs)"
    by (simp add: drop eval_nat_numeral)
  finally show ?case .
qed

lemma encodeChunks_eq:
  assumes "\<forall>b\<in>set bs. b < 256" "len2 \<le> length bs" "len2 - i = 3 * n"
  shows "encodeChunks bs i len2 = rfc4648 (take (len2 - i) (drop i bs))"
  using assms
proof (induction bs i len2 arbitrary: n rule: encodeChunks.induct)
  case (1 bs i len2)
  show ?case
  proof (cases "i < len2")
    case True
    define stop where "stop = (if i + maxChunkLength > len2 then len2 else i + maxChunkLength)"
    obtain k where k: "stop = i + 3 * k" "stop \<le> len2" "len2 - (i + maxChunkLength) = 3 * (n - k)" "len2 - stop = 3 * (n - k)"
    proof (cases "i + maxChunkLength > len2")
      case True
      then show ?thesis using that [of n] \<open>i < len2\<close> 1(4) by (simp add: stop_def)
    next
      case False
      then show ?thesis using that [of 5461] \<open>i < len2\<close> 1(4) by (simp add: stop_def)
    qed
    have "encodeChunks bs i len2 = encodeChunk bs i stop @ encodeChunks bs (i + maxChunkLength) len2"
      using True by (subst encodeChunks.simps) (simp add: stop_def)
    also have "encodeChunks bs (i + maxChunkLength) len2 = rfc4648 (take (len2 - stop) (drop stop bs))"
      using 1(1) [OF True 1(2,3) k(3)] k(3,4) by (auto simp: stop_def)
    also have "encodeChunk bs i stop = rfc4648 (take (3 * k) (drop i bs))"
      using encodeChunk_eq [OF 1(2) k(1)] k(2) 1(3) by simp
    also have "rfc4648 (take (3 * k) (drop i bs)) @ rfc4648 (take (len2 - stop) (drop stop bs)) =
        rfc4648 (take (3 * k) (drop i bs) @ take (len2 - stop) (drop stop bs))"
      using rfc4648_append [of "take (3 * k) (drop i bs)" k] k(1,2) 1(3) by simp
    also have "take (3 * k) (drop i bs) @ take (len2 - stop) (drop stop bs) = take (len2 - i) (drop i bs)"
      using k(1,2) take_add [of "3 * k" "len2 - stop" "drop i bs"] by (simp add: add.commute)
    finally show ?thesis .
  qed (simp add: encodeChunks.simps)
qed

theorem fromByteArray_rfc4648:
  assumes "wf_bytes bs"
  shows "fromByteArray bs = rfc4648 bs"
proof -
  define n where "n = length bs div 3"
  define xs ys where "xs = take (3 * n) bs" and "ys = drop (3 * n) bs"
  have len: "length xs = 3 * n" "length bs - length bs mod 3 = 3 * n" "length ys = length bs mod 3"
    by (simp_all add: xs_def ys_def n_def minus_mod_eq_mult_div minus_mult_div_eq_mod)
  have bs: "bs = xs @ ys" by (simp add: xs_def ys_def)
  have bytes: "\<forall>b\<in>set bs. b < 256" using assms by (simp add: wf_bytes_def)
  have "encodeChunks bs 0 (3 * n) = rfc4648 xs"
    using encodeChunks_eq [OF bytes, of "3 * n" 0 n] len by (simp add: xs_def n_def)
  moreover have "fromByteArray bs = encodeChunks bs 0 (3 * n) @ rfc4648 ys"
  proof -
    have ys: "\<forall>b\<in>set ys. b < 256" using bytes by (auto simp: ys_def dest: in_set_dropD)
    have "length ys < 3" using len(3) by simp
    then show ?thesis
    proof (cases rule: short_list)
      case 1
      then show ?thesis using len by (simp add: fromByteArray_def)
    next
      case (2 a)
      then have "length bs mod 3 = 1" "bs ! (length bs - 1) = a" using len(1,3) bs by (simp_all add: nth_append)
      then show ?thesis using 2 ys len(2) mod_mult_mult2 [of a 16 4]
        by (simp add: fromByteArray_def drop_bit_eq_div push_bit_eq_mult and_masks)
    next
      case (3 a b)
      then have mod: "length bs mod 3 = 2" using len(3) by simp
      have "(xs @ [a, b]) ! (length (xs @ [a, b]) - 2) = a" "(xs @ [a, b]) ! (length (xs @ [a, b]) - 1) = b"
        by (simp_all add: nth_append)
      then have bs': "length bs mod 3 = 2" "bs ! (length bs - 2) = a" "bs ! (length bs - 1) = b"
        using mod bs 3 by (simp_all only:)
      show ?thesis using 3 ys len(2) bs' sextets_two [of a b]
        by (simp add: fromByteArray_def drop_bit_eq_div push_bit_eq_mult and_masks Let_def algebra_simps)
    qed
  qed
  ultimately show ?thesis using rfc4648_append [OF len(1), of ys] bs by simp
qed

section \<open>Round trip\<close>

lemma b64_code_codes:
  "length b64_code = 64" "distinct b64_code" "45 \<notin> set b64_code" "95 \<notin> set b64_code"
  "EQUALS \<notin> set b64_code"
  by (simp_all add: b64_code_def js_def)

lemma find_nth_distinct:
  assumes "distinct xs" "i < length xs"
  shows "find (\<lambda>j. xs ! j = xs ! i) [0..<length xs] = Some i"
  using assms by (intro find_upt_append) (auto simp: nth_eq_iff_index_eq)

lemma b64_lookup_mem: "i < 64 \<Longrightarrow> b64_lookup i \<in> set b64_code"
  by (simp add: b64_lookup_def b64_code_codes)

lemma revLookup_lookup: "i < 64 \<Longrightarrow> revLookup (b64_lookup i) = Some i"
proof -
  assume i: "i < 64"
  then have "b64_lookup i \<noteq> 45" "b64_lookup i \<noteq> 95" using b64_lookup_mem [OF i] b64_code_codes(3,4) by auto
  then show ?thesis using find_nth_distinct [of b64_code i] i b64_code_codes
    by (simp add: revLookup_def b64_lookup_def)
qed

lemma lookup_not_EQUALS: "i < 64 \<Longrightarrow> b64_lookup i \<noteq> EQUALS"
  using b64_lookup_mem b64_code_codes(5) by metis

lemma b64_bits_at: "i < 64 \<Longrightarrow> b64_bits (pre @ b64_lookup i # rest) (length pre) = i"
  by (simp add: b64_bits_def revLookup_lookup)

lemma or_digits:
  assumes "y < 64" "z < 64" "w < 64"
  shows "push_bit 18 x OR push_bit 12 y OR push_bit 6 z OR w = ((x * 64 + y) * 64 + z) * 64 + (w::nat)"
proof -
  have "z * 64 OR w = z * 64 + w" using or_disjoint [of w 6 z] assms by simp
  moreover have "y * 4096 OR (z * 64 + w) = y * 4096 + (z * 64 + w)"
    using or_disjoint [of "z * 64 + w" 12 y] assms by simp
  moreover have "x * 262144 OR (y * 4096 + (z * 64 + w)) = x * 262144 + (y * 4096 + (z * 64 + w))"
    using or_disjoint [of "y * 4096 + (z * 64 + w)" 18 x] assms by simp
  ultimately show ?thesis by (simp add: push_bit_eq_mult)
qed

lemma quad_bytes:
  fixes a b c :: nat
  assumes "a < 256" "b < 256" "c < 256"
  defines "tmp \<equiv> push_bit 18 (a div 4) OR push_bit 12 (a mod 4 * 16 + b div 16) OR
     push_bit 6 (b mod 16 * 4 + c div 64) OR c mod 64"
  shows "[drop_bit 16 tmp AND 0xFF, drop_bit 8 tmp AND 0xFF, tmp AND 0xFF] = [a, b, c]"
proof -
  define p q q' r r' where "p = a mod 4" and "q = b div 16" and "q' = b mod 16" and "r = c div 64"
    and "r' = c mod 64"
  define x where "x = a div 4"
  have abc: "a = x * 4 + p" "b = q * 16 + q'" "c = r * 64 + r'"
    by (simp_all add: x_def p_def q_def q'_def r_def r'_def)
  have lt: "p < 4" "q < 16" "q' < 16" "r < 4" "r' < 64"
    using assms(1-3) by (auto simp: p_def q_def q'_def r_def r'_def)
  have "tmp = ((x * 64 + (p * 16 + q)) * 64 + (q' * 4 + r)) * 64 + r'"
    unfolding tmp_def using or_digits [of "p * 16 + q" "q' * 4 + r" r' x] lt
    by (simp add: x_def p_def q_def q'_def r_def r'_def)
  then have tmp: "tmp = (a * 256 + b) * 256 + c" unfolding abc by simp
  have "tmp div 256 = a * 256 + b" "tmp mod 256 = c"
    unfolding tmp using assms(3) by (simp, simp only: mod_mult_self3 mod_less)
  moreover then have "tmp div 65536 = a" using div_mult2_eq [of tmp 256 256] assms(2) by simp
  ultimately show ?thesis using assms(1,2) by (simp add: drop_bit_eq_div and_masks)
qed

lemma b64_quad_rfc:
  assumes "a < 256" "b < 256" "c < 256"
  shows "b64_quad (pre @ rfc4648 [a, b, c] @ rest) (length pre) = [a, b, c]"
proof -
  define q where "q = [a div 4, a mod 4 * 16 + b div 16, b mod 16 * 4 + c div 64, c mod 64]"
  have q: "\<forall>x\<in>set q. x < 64" using assms by (auto simp: q_def)
  have at: "b64_bits (pre @ rfc4648 [a, b, c] @ rest) (length pre + k) =
      (case revLookup (([b64_lookup (q ! 0), b64_lookup (q ! 1), b64_lookup (q ! 2), b64_lookup (q ! 3)] @ rest) ! k)
       of Some v \<Rightarrow> v | None \<Rightarrow> 0)" if "k < 4" for k
    using that by (simp add: b64_bits_def q_def)
  have rev: "revLookup (b64_lookup (q ! k)) = Some (q ! k)" if "k < 4" for k
    using that q nth_mem [of k q] by (intro revLookup_lookup) (auto simp: q_def)
  have "b64_quad (pre @ rfc4648 [a, b, c] @ rest) (length pre) =
      (let tmp = push_bit 18 (q ! 0) OR push_bit 12 (q ! 1) OR push_bit 6 (q ! 2) OR q ! 3
       in [drop_bit 16 tmp AND 0xFF, drop_bit 8 tmp AND 0xFF, tmp AND 0xFF])"
    using at [of 0] at [of 1] at [of 2] at [of 3] rev [of 0] rev [of 1] rev [of 2] rev [of 3]
    by (simp add: b64_quad_def)
  then show ?thesis using quad_bytes [OF assms] by (simp add: q_def Let_def)
qed

lemma b64_quads_rfc:
  assumes "length xs = 3 * n" "\<forall>b\<in>set xs. b < 256"
    and "int (length pre + 4 * n) - 4 < len" "len \<le> int (length pre + 4 * n)"
  shows "b64_quads (pre @ rfc4648 xs @ rest) (length pre) len = (xs, length pre + 4 * n)"
  using assms
proof (induction n arbitrary: pre xs)
  case 0
  then show ?case by (simp add: b64_quads.simps)
next
  case (Suc n)
  then obtain a b c ys where xs: "xs = a # b # c # ys"
    by (auto simp: length_Suc_conv eval_nat_numeral)
  have abc: "a < 256" "b < 256" "c < 256" using Suc.prems(2) by (simp_all add: xs)
  define pre' where "pre' = pre @ rfc4648 [a, b, c]"
  have whole: "pre @ rfc4648 xs @ rest = pre' @ rfc4648 ys @ rest" and len: "length pre' = length pre + 4"
    by (simp_all add: xs pre'_def)
  have "b64_quads (pre' @ rfc4648 ys @ rest) (length pre') len = (ys, length pre' + 4 * n)"
    by (rule Suc.IH) (use Suc.prems xs len in auto)
  moreover have "b64_quad (pre' @ rfc4648 ys @ rest) (length pre) = [a, b, c]"
    using b64_quad_rfc [OF abc, of pre "rfc4648 ys @ rest"] by (simp add: pre'_def)
  moreover have "int (length pre) < len" using Suc.prems(3) by simp
  ultimately show ?case
    unfolding whole by (subst b64_quads.simps) (simp add: len xs)
qed

lemma rfc4648_triples:
  assumes "length xs = 3 * n" "\<forall>b\<in>set xs. b < 256"
  shows "length (rfc4648 xs) = 4 * n \<and> EQUALS \<notin> set (rfc4648 xs)"
  using assms
proof (induction n arbitrary: xs)
  case (Suc n)
  then obtain a b c ys where xs: "xs = a # b # c # ys"
    by (auto simp: length_Suc_conv eval_nat_numeral)
  then have "a div 4 < 64" "a mod 4 * 16 + b div 16 < 64" "b mod 16 * 4 + c div 64 < 64" "c mod 64 < 64"
    using Suc.prems(2) by auto
  then have "EQUALS \<notin> set (rfc4648 [a, b, c])"
    by (simp only: rfc4648.simps append_Nil2 list.set Un_iff insert_iff empty_iff simp_thms lookup_not_EQUALS not_sym)
  then show ?case using Suc.IH [of ys] Suc.prems xs by simp
qed simp

lemma b64_bits_app:
  "length pre = n \<Longrightarrow> b64_bits (pre @ rest) (n + k) = b64_bits rest k"
  by (auto simp: b64_bits_def)

lemma b64_bits_Cons:
  "i < 64 \<Longrightarrow> b64_bits (b64_lookup i # rest) 0 = i"
  "b64_bits (c # rest) (Suc k) = b64_bits rest k"
  by (simp_all add: b64_bits_def revLookup_lookup)

lemma into_array_exact [simp]: "into_array (length bs) bs = bs"
  by (simp add: into_array_def)

lemma toByteArray_parts:
  assumes "getLens s = Inr (v, ph)" "b64_quads s 0 (if ph > 0 then int v - 4 else int v) = (bs, i)"
    and "b64_tail s i ph = t" "b64_placeholder_length v ph = int (length (bs @ t))"
  shows "toByteArray s = Inr (bs @ t)"
  using assms into_array_exact [of "bs @ t"] by (simp add: toByteArray_def del: length_append into_array_exact)

lemma getLens_placeholders:
  assumes "EQUALS \<notin> set s" "length s = 4 * n + k" "0 < k" "k < 4"
  shows "getLens (s @ replicate (4 - k) EQUALS) = Inr (4 * n + k, 4 - k)"
proof -
  obtain m where m: "4 - k = Suc m" using assms(4) by (cases "4 - k") auto
  then have "indexOf (s @ replicate (4 - k) EQUALS) [EQUALS] 0 = int (4 * n + k)"
    using indexOf_char_first [OF assms(1), of "replicate m EQUALS"] assms(2) by simp
  moreover have "(4 * n + k + (4 - k)) mod 4 = 0" "(4 * n + k) mod 4 = k"
    using assms(3,4) by simp_all
  moreover have "nat (4 * int n + int k) = 4 * n + k" by linarith
  ultimately show ?thesis using assms by (simp add: getLens_def)
qed

lemma tail_one:
  assumes "a < 256" "length Q = i"
  shows "b64_tail (Q @ b64_lookup (a div 4) # b64_lookup (a mod 4 * 16) # rest) i 2 = [a]"
proof -
  have lt: "a div 4 < 64" "a mod 4 * 16 < 64" using assms(1) by auto
  have "a div 4 * 4 OR a mod 4 = a" using or_disjoints(1) [of "a mod 4" "a div 4"] by simp
  then show ?thesis using assms lt b64_bits_app [OF assms(2), of _ 0] b64_bits_app [OF assms(2), of _ 1]
    by (simp add: b64_tail_def b64_bits_Cons drop_bit_eq_div push_bit_eq_mult and_masks)
qed

lemma tail_two:
  assumes "a < 256" "b < 256" "length Q = i"
  shows "b64_tail (Q @ b64_lookup (a div 4) # b64_lookup (a mod 4 * 16 + b div 16) #
     b64_lookup (b mod 16 * 4) # rest) i 1 = [a, b]"
proof -
  have lt: "a div 4 < 64" "a mod 4 * 16 + b div 16 < 64" "b mod 16 * 4 < 64" using assms by auto
  have a: "a div 4 * 1024 + 256 * (a mod 4) = a * 256" using div_mult_mod_eq [of a 4] by linarith
  define tmp where "tmp = push_bit 10 (a div 4) OR push_bit 4 (a mod 4 * 16 + b div 16) OR b mod 16"
  have "(a mod 4 * 16 + b div 16) * 16 OR b mod 16 = (a mod 4 * 16 + b div 16) * 16 + b mod 16"
    by (rule or_disjoints) simp
  moreover have "a div 4 * 1024 OR ((a mod 4 * 16 + b div 16) * 16 + b mod 16) =
      a div 4 * 1024 + ((a mod 4 * 16 + b div 16) * 16 + b mod 16)"
    using or_disjoint [of "(a mod 4 * 16 + b div 16) * 16 + b mod 16" 10 "a div 4"] lt(2) by simp
  ultimately have "tmp = a * 256 + b"
    unfolding tmp_def push_bit_eq_mult using a by simp
  then have "drop_bit 8 tmp AND 0xFF = a" "tmp AND 0xFF = b"
    using assms by (simp_all add: drop_bit_eq_div and_masks mod_mult_self3)
  moreover have "drop_bit 2 (b mod 16 * 4) = b mod 16" by (simp add: drop_bit_eq_div)
  moreover have "b64_bits (Q @ rest') (i + 1) = b64_bits rest' (Suc 0)"
    "b64_bits (Q @ rest') (i + 2) = b64_bits rest' (Suc (Suc 0))" "b64_bits (Q @ rest') i = b64_bits rest' 0" for rest'
    using b64_bits_app [OF assms(3), of rest' 0] b64_bits_app [OF assms(3), of rest' 1]
      b64_bits_app [OF assms(3), of rest' 2] by (simp_all add: eval_nat_numeral)
  ultimately show ?thesis
    unfolding b64_tail_def by (simp only: b64_bits_Cons lt tmp_def [symmetric] Let_def) simp
qed

lemma toByteArray_rfc4648:
  assumes "wf_bytes bs"
  shows "toByteArray (rfc4648 bs) = Inr bs"
proof -
  define n where "n = length bs div 3"
  define xs ys where "xs = take (3 * n) bs" and "ys = drop (3 * n) bs"
  have len: "length xs = 3 * n" "length ys < 3"
    by (simp_all add: xs_def ys_def n_def minus_mult_div_eq_mod)
  have bs: "bs = xs @ ys" by (simp add: xs_def ys_def)
  have bytes: "\<forall>b\<in>set xs. b < 256" "\<forall>b\<in>set ys. b < 256"
    using assms by (auto simp: wf_bytes_def bs)
  define Q where "Q = rfc4648 xs"
  have Q: "length Q = 4 * n" "EQUALS \<notin> set Q" using rfc4648_triples [OF len(1) bytes(1)] by (simp_all add: Q_def)
  have enc: "rfc4648 bs = Q @ rfc4648 ys" unfolding bs Q_def by (rule rfc4648_append [OF len(1)])
  have quads: "b64_quads (Q @ rest) 0 len = (xs, 4 * n)" if "int (4 * n) - 4 < len" "len \<le> int (4 * n)" for rest len
    using b64_quads_rfc [OF len(1) bytes(1), of "[]" len rest] that by (simp add: Q_def)
  from len(2) show ?thesis
  proof (cases rule: short_list)
    case 1
    have "toByteArray (rfc4648 bs) = Inr (xs @ [])"
    proof (rule toByteArray_parts)
      show "getLens (rfc4648 bs) = Inr (4 * n, 0)"
        using Q by (simp add: enc 1 getLens_def indexOf_char_notin)
    qed (use quads [of "int (4 * n)" "[]"] len(1) in \<open>simp_all add: enc 1 b64_tail_def b64_placeholder_length_def\<close>)
    then show ?thesis by (simp add: bs 1)
  next
    case (2 a)
    have a: "a < 256" using bytes(2) 2 by simp
    then have "EQUALS \<notin> set (Q @ [b64_lookup (a div 4), b64_lookup (a mod 4 * 16)])"
      using Q(2) lookup_not_EQUALS [of "a div 4"] lookup_not_EQUALS [of "a mod 4 * 16"] by auto
    moreover have "replicate (4 - 2) EQUALS = [EQUALS, EQUALS]" by (simp add: numeral_2_eq_2)
    ultimately have "getLens (rfc4648 bs) = Inr (4 * n + 2, 2)"
      using getLens_placeholders [of "Q @ [b64_lookup (a div 4), b64_lookup (a mod 4 * 16)]" n 2] Q(1)
      by (simp add: enc 2)
    then have "toByteArray (rfc4648 bs) = Inr (xs @ [a])"
    proof (rule toByteArray_parts)
      show "b64_quads (rfc4648 bs) 0 (if 2 > (0::nat) then int (4 * n + 2) - 4 else int (4 * n + 2)) = (xs, 4 * n)"
        using quads [of "int (4 * n) - 2" "rfc4648 [a]"] by (simp add: enc 2)
      show "b64_tail (rfc4648 bs) (4 * n) 2 = [a]" using tail_one [OF a Q(1)] by (simp add: enc 2)
      show "b64_placeholder_length (4 * n + 2) 2 = int (length (xs @ [a]))"
        using len(1) by (simp add: b64_placeholder_length_def)
    qed
    then show ?thesis by (simp add: bs 2)
  next
    case (3 a b)
    have ab: "a < 256" "b < 256" using bytes(2) 3 by simp_all
    then have "EQUALS \<notin> set (Q @ [b64_lookup (a div 4), b64_lookup (a mod 4 * 16 + b div 16), b64_lookup (b mod 16 * 4)])"
      using Q(2) lookup_not_EQUALS [of "a div 4"] lookup_not_EQUALS [of "a mod 4 * 16 + b div 16"]
        lookup_not_EQUALS [of "b mod 16 * 4"] by auto
    then have "getLens (rfc4648 bs) = Inr (4 * n + 3, 1)"
      using getLens_placeholders [of "Q @ [b64_lookup (a div 4), b64_lookup (a mod 4 * 16 + b div 16),
        b64_lookup (b mod 16 * 4)]" n 3] Q(1)
      by (simp add: enc 3)
    then have "toByteArray (rfc4648 bs) = Inr (xs @ [a, b])"
    proof (rule toByteArray_parts)
      show "b64_quads (rfc4648 bs) 0 (if 1 > (0::nat) then int (4 * n + 3) - 4 else int (4 * n + 3)) = (xs, 4 * n)"
        using quads [of "int (4 * n) - 1" "rfc4648 [a, b]"] by (simp add: enc 3)
      show "b64_tail (rfc4648 bs) (4 * n) 1 = [a, b]" using tail_two [OF ab Q(1)] by (simp add: enc 3)
      show "b64_placeholder_length (4 * n + 3) 1 = int (length (xs @ [a, b]))"
        using len(1) by (simp add: b64_placeholder_length_def)
    qed
    then show ?thesis by (simp add: bs 3)
  qed
qed

theorem base64_round_trip:
  assumes "wf_bytes bs"
  shows "toByteArray (fromByteArray bs) = Inr bs"
  by (simp add: assms fromByteArray_rfc4648 toByteArray_rfc4648)

end
