(* ===== verification/Utf8_Decoder.thy ===== *)
theory Utf8_Decoder
  imports Unicode JS_Bits
begin

unbundle bit_operations_syntax

text \<open>
  The native UTF-8 decoder behind \<open>Buffer.toString\<close> and \<open>StringDecoder\<close>
  (\<open>builtin/string_decoder.rs\<close>, \<open>utf8_decode_v8\<close>): a byte-class table, a transition table and a
  loop that emits U+FFFD for every maximal ill-formed subsequence. The lemmas give its value on
  encoded text and say where its input can be cut without changing the result.
\<close>

section \<open>The automaton\<close>

abbreviation (input) REJECT :: nat where "REJECT \<equiv> 0"
abbreviation (input) ACCEPT :: nat where "ACCEPT \<equiv> 12"
abbreviation REPLACEMENT :: nat where "REPLACEMENT \<equiv> 0xFFFD"

definition BYTE_CLASS :: "nat list" where
  [js_eval]: "BYTE_CLASS =
     replicate 128 0 @ replicate 16 1 @ replicate 16 2 @ replicate 32 3 @ [9, 9] @ replicate 30 4 @
     [10] @ replicate 12 5 @ [6] @ [5, 5] @ [11] @ [7, 7, 7] @ [8] @ replicate 11 9"

definition TRANSITIONS :: "nat list" where
  [js_eval]: "TRANSITIONS =
     [ 0, 0, 0, 0, 0, 0, 0, 0, 0, 0, 0, 0,
      12, 0, 0, 0,24,36,84,60,72, 0,48,96,
       0,12,12,12, 0, 0, 0, 0, 0, 0, 0, 0,
       0,24,24,24, 0, 0, 0, 0, 0, 0, 0, 0,
       0, 0,24,24, 0, 0, 0, 0, 0, 0, 0, 0,
       0,36,36,36, 0, 0, 0, 0, 0, 0, 0, 0,
       0,36, 0, 0, 0, 0, 0, 0, 0, 0, 0, 0,
       0,24,24, 0, 0, 0, 0, 0, 0, 0, 0, 0,
       0, 0,36,36, 0, 0, 0, 0, 0, 0, 0, 0]"

definition dfa_next :: "nat \<Rightarrow> nat \<Rightarrow> nat" where
  [js_eval]: "dfa_next state byte = TRANSITIONS ! (state + BYTE_CLASS ! byte)"

text \<open>The accumulated bits: the lead mask depends on the byte class; \<open>u32\<close> arithmetic.\<close>

definition add_bits :: "nat \<Rightarrow> nat \<Rightarrow> nat" where
  [js_eval]: "add_bits codepoint byte =
     take_bit 32 (push_bit 6 codepoint) OR (byte AND drop_bit (drop_bit 1 (BYTE_CLASS ! byte)) 0x7F)"

function v8_loop :: "nat \<Rightarrow> nat \<Rightarrow> bytes \<Rightarrow> jstr" where
  "v8_loop state codepoint [] = (if state \<noteq> ACCEPT then [REPLACEMENT] else [])"
| "v8_loop state codepoint (byte # rest) =
     (let state' = dfa_next state byte; codepoint' = add_bits codepoint byte
      in if state' = REJECT
         then REPLACEMENT # v8_loop ACCEPT 0 (if state \<noteq> ACCEPT then byte # rest else rest)
         else if state' = ACCEPT
         then (if scalar codepoint' then utf16 codepoint' else [REPLACEMENT]) @ v8_loop ACCEPT 0 rest
         else v8_loop state' codepoint' rest)"
  by pat_completeness auto
termination
  by (relation "measure (\<lambda>(state, codepoint, bs). 2 * length bs + (if state \<noteq> ACCEPT then 1 else 0))") auto

declare v8_loop.simps [simp del]

definition utf8_decode_v8 :: "bytes \<Rightarrow> jstr" where
  [js_eval]: "utf8_decode_v8 bs = v8_loop ACCEPT 0 bs"

text \<open>\<open>native_module::utf8_decode\<close> clamps its two offsets.\<close>

definition utf8_decode :: "bytes \<Rightarrow> nat \<Rightarrow> nat \<Rightarrow> jstr" where
  [js_eval]: "utf8_decode buf start stop =
     (let hi = min stop (length buf); lo = min start hi
      in utf8_decode_v8 (take (hi - lo) (drop lo buf)))"

section \<open>The tables by ranges\<close>

lemma BYTE_CLASS_nth:
  "b < 256 \<Longrightarrow> BYTE_CLASS ! b =
     (if b < 0x80 then 0 else if b < 0x90 then 1 else if b < 0xA0 then 2 else if b < 0xC0 then 3
      else if b < 0xC2 then 9 else if b < 0xE0 then 4 else if b = 0xE0 then 10 else if b < 0xED then 5
      else if b = 0xED then 6 else if b < 0xF0 then 5 else if b = 0xF0 then 11 else if b < 0xF4 then 7
      else if b = 0xF4 then 8 else 9)"
  by (auto simp: BYTE_CLASS_def nth_append nth_Cons')

lemma dfa_next_ranges:
  assumes "b < 256"
  shows
    "dfa_next 12 b =
       (if b < 0x80 then 12 else if b < 0xC2 then 0 else if b < 0xE0 then 24 else if b = 0xE0 then 48
        else if b < 0xED then 36 else if b = 0xED then 84 else if b < 0xF0 then 36 else if b = 0xF0 then 96
        else if b < 0xF4 then 60 else if b = 0xF4 then 72 else 0)"
    "dfa_next 24 b = (if 0x80 \<le> b \<and> b < 0xC0 then 12 else 0)"
    "dfa_next 36 b = (if 0x80 \<le> b \<and> b < 0xC0 then 24 else 0)"
    "dfa_next 48 b = (if 0x90 \<le> b \<and> b < 0xC0 then 24 else 0)"
    "dfa_next 60 b = (if 0x80 \<le> b \<and> b < 0xC0 then 36 else 0)"
    "dfa_next 72 b = (if 0x80 \<le> b \<and> b < 0x90 then 36 else 0)"
    "dfa_next 84 b = (if 0x80 \<le> b \<and> b < 0xA0 then 24 else 0)"
    "dfa_next 96 b = (if 0x90 \<le> b \<and> b < 0xC0 then 36 else 0)"
  unfolding dfa_next_def BYTE_CLASS_nth [OF assms] TRANSITIONS_def by simp_all

text \<open>The live states, with the number of continuation bytes each still expects.\<close>

definition need :: "nat \<Rightarrow> nat" where
  [js_eval]: "need state =
     (if state = 24 then 1 else if state \<in> {36, 48, 84} then 2 else if state \<in> {60, 72, 96} then 3 else 0)"

definition live :: "nat \<Rightarrow> bool" where
  [js_eval]: "live state = (state \<in> {12, 24, 36, 48, 60, 72, 84, 96})"

lemma live_cases:
  assumes "live state"
  obtains "state = 12" | "state = 24" | "state = 36" | "state = 48" | "state = 60" | "state = 72"
    | "state = 84" | "state = 96"
  using assms by (auto simp: live_def)

lemma live_ACCEPT [simp]: "live ACCEPT"
  by (simp add: live_def)

lemma need_ACCEPT [simp]: "need ACCEPT = 0"
  by (simp add: need_def)

lemma need_live: "live state \<Longrightarrow> need state = 0 \<longleftrightarrow> state = ACCEPT"
  by (auto simp: need_def live_def)

text \<open>
  The crude classification of \<open>string_decoder.js\<close> (\<open>utf8CheckByte\<close>) bounds what the automaton
  expects: \<open>crude n b\<close> is the number of bytes still expected after \<open>b\<close>, when \<open>n\<close> were before.
\<close>

definition crude :: "nat \<Rightarrow> nat \<Rightarrow> nat" where
  [js_eval]: "crude n b =
     (if b < 0x80 then 0 else if b < 0xC0 then n - 1 else if b < 0xE0 then 1 else if b < 0xF0 then 2
      else if b < 0xF8 then 3 else 0)"

lemma dfa_next_live: "live state \<Longrightarrow> b < 256 \<Longrightarrow> dfa_next state b = REJECT \<or> live (dfa_next state b)"
  by (elim live_cases; simp add: dfa_next_ranges live_def)

lemma dfa_next_need: "live state \<Longrightarrow> b < 256 \<Longrightarrow> need (dfa_next state b) \<le> crude (need state) b"
  by (elim live_cases; simp add: dfa_next_ranges need_def crude_def)

section \<open>Cutting the input\<close>

text \<open>The output of a prefix with the state it leaves.\<close>

function v8_run :: "nat \<Rightarrow> nat \<Rightarrow> bytes \<Rightarrow> jstr \<times> nat \<times> nat" where
  "v8_run state codepoint [] = ([], state, codepoint)"
| "v8_run state codepoint (byte # rest) =
     (let state' = dfa_next state byte; codepoint' = add_bits codepoint byte
      in if state' = REJECT
         then map_prod (Cons REPLACEMENT) id (v8_run ACCEPT 0 (if state \<noteq> ACCEPT then byte # rest else rest))
         else if state' = ACCEPT
         then map_prod ((@) (if scalar codepoint' then utf16 codepoint' else [REPLACEMENT])) id (v8_run ACCEPT 0 rest)
         else v8_run state' codepoint' rest)"
  by pat_completeness auto
termination
  by (relation "measure (\<lambda>(state, codepoint, bs). 2 * length bs + (if state \<noteq> ACCEPT then 1 else 0))") auto

declare v8_run.simps [simp del]

lemma v8_loop_append:
  "v8_loop state cp (xs @ ys) =
     (case v8_run state cp xs of (out, state', cp') \<Rightarrow> out @ v8_loop state' cp' ys)"
proof (induction state cp xs rule: v8_run.induct)
  case (1 state cp)
  then show ?case by (simp add: v8_run.simps)
next
  case (2 state cp b xs)
  then show ?case
    by (subst v8_run.simps(2), subst append_Cons, subst v8_loop.simps(2))
      (auto simp: Let_def map_prod_def split: prod.splits if_splits)
qed

lemma crude_mono: "m \<le> n \<Longrightarrow> crude m b \<le> crude n b"
  by (auto simp: crude_def)

lemma foldl_crude_mono: "m \<le> n \<Longrightarrow> foldl crude m xs \<le> foldl crude n xs"
  by (induction xs arbitrary: m n) (simp_all add: crude_mono)

lemma v8_run_state:
  assumes "live state" "state = ACCEPT \<longrightarrow> cp = 0" "\<forall>b\<in>set xs. b < 256"
  shows "case v8_run state cp xs of (out, state', cp') \<Rightarrow>
     live state' \<and> (state' = ACCEPT \<longrightarrow> cp' = 0) \<and> need state' \<le> foldl crude (need state) xs"
  using assms
proof (induction state cp xs rule: v8_run.induct)
  case (1 state cp)
  then show ?case by (simp add: v8_run.simps)
next
  case (2 state cp b xs)
  define s' where "s' = dfa_next state b"
  have b: "b < 256" and xs: "\<forall>b\<in>set xs. b < 256" using "2.prems"(3) by auto
  have need: "need s' \<le> crude (need state) b" using dfa_next_need "2.prems"(1) b by (simp add: s'_def)
  have le: "foldl crude m xs \<le> foldl crude (need state) (b # xs)" if "m \<le> crude (need state) b" for m
    using foldl_crude_mono [OF that] by simp
  consider (reject) "s' = REJECT" "state \<noteq> ACCEPT" | (skip) "s' = REJECT" "state = ACCEPT"
    | (acc) "s' = ACCEPT" | (inter) "s' \<noteq> REJECT" "s' \<noteq> ACCEPT" by blast
  then show ?case
  proof cases
    case reject
    then have run: "v8_run state cp (b # xs) = map_prod (Cons REPLACEMENT) id (v8_run ACCEPT 0 (b # xs))"
      by (subst v8_run.simps) (simp add: s'_def Let_def)
    have "foldl crude (need ACCEPT) (b # xs) \<le> foldl crude (need state) (b # xs)"
      by (rule foldl_crude_mono) simp
    then show ?thesis using "2.IH"(1) [OF s'_def refl] reject "2.prems"(3)
      unfolding run by (simp add: case_prod_unfold del: foldl_Cons)
  next
    case skip
    then have run: "v8_run state cp (b # xs) = map_prod (Cons REPLACEMENT) id (v8_run ACCEPT 0 xs)"
      by (subst v8_run.simps) (simp add: s'_def Let_def)
    then show ?thesis using "2.IH"(1) [OF s'_def refl] skip xs le [of 0]
      unfolding run by (simp add: case_prod_unfold del: foldl_Cons)
  next
    case acc
    define out where "out = (if scalar (add_bits cp b) then utf16 (add_bits cp b) else [REPLACEMENT])"
    have run: "v8_run state cp (b # xs) = map_prod ((@) out) id (v8_run ACCEPT 0 xs)"
      using acc by (subst v8_run.simps) (simp add: s'_def Let_def out_def)
    show ?thesis using "2.IH"(2) [OF s'_def refl] acc xs le [of 0]
      unfolding run by (simp add: case_prod_unfold del: foldl_Cons)
  next
    case inter
    then have run: "v8_run state cp (b # xs) = v8_run s' (add_bits cp b) xs"
      by (subst v8_run.simps) (simp add: s'_def Let_def)
    have "live s'" using dfa_next_live [OF "2.prems"(1) b] inter by (auto simp: s'_def)
    then show ?thesis using "2.IH"(3) [OF s'_def refl inter] inter xs le [OF need]
      unfolding run by (simp add: case_prod_unfold del: foldl_Cons)
  qed
qed

text \<open>
  The decoder gives the same text on a cut input when nothing is expected at the cut, or when the
  second part does not start with a continuation byte.
\<close>

definition continuation :: "nat \<Rightarrow> bool" where
  [js_eval]: "continuation b = (0x80 \<le> b \<and> b < 0xC0)"

lemma dfa_next_break:
  "live state \<Longrightarrow> state \<noteq> ACCEPT \<Longrightarrow> b < 256 \<Longrightarrow> \<not> continuation b \<Longrightarrow> dfa_next state b = REJECT"
  by (elim live_cases; auto simp: dfa_next_ranges continuation_def)

lemma v8_loop_break:
  assumes "live state" "state \<noteq> ACCEPT" "\<forall>b\<in>set ys. b < 256" "ys \<noteq> [] \<longrightarrow> \<not> continuation (hd ys)"
  shows "v8_loop state cp ys = REPLACEMENT # v8_loop ACCEPT 0 ys"
proof (cases ys)
  case (Cons y ys')
  then have "dfa_next state y = REJECT" using dfa_next_break [OF assms(1,2), of y] assms(3,4) by simp
  then show ?thesis unfolding Cons using assms(2) by (subst v8_loop.simps(2)) simp
qed (use assms in \<open>simp add: v8_loop.simps\<close>)

lemma decode_cut:
  assumes "\<forall>b\<in>set xs. b < 256" "\<forall>b\<in>set ys. b < 256"
    and "foldl crude 0 xs = 0 \<or> (ys \<noteq> [] \<longrightarrow> \<not> continuation (hd ys))"
  shows "utf8_decode_v8 (xs @ ys) = utf8_decode_v8 xs @ utf8_decode_v8 ys"
proof -
  obtain out s cp where run: "v8_run ACCEPT 0 xs = (out, s, cp)" by (cases "v8_run ACCEPT 0 xs")
  have s: "live s" "s = ACCEPT \<longrightarrow> cp = 0" "need s \<le> foldl crude 0 xs"
    using v8_run_state [of ACCEPT 0 xs] run assms(1) by auto
  have xs: "utf8_decode_v8 xs = out @ v8_loop s cp []"
    using v8_loop_append [of ACCEPT 0 xs "[]"] run by (simp add: utf8_decode_v8_def)
  have both: "utf8_decode_v8 (xs @ ys) = out @ v8_loop s cp ys"
    using v8_loop_append [of ACCEPT 0 xs ys] run by (simp add: utf8_decode_v8_def)
  show ?thesis
  proof (cases "s = ACCEPT")
    case True
    then show ?thesis using s(2) xs both by (simp add: utf8_decode_v8_def v8_loop.simps(1))
  next
    case False
    then have "ys \<noteq> [] \<longrightarrow> \<not> continuation (hd ys)" using assms(3) s(1,3) need_live by auto
    then show ?thesis using xs both False v8_loop_break [OF s(1) False assms(2)]
      by (simp add: utf8_decode_v8_def v8_loop.simps(1))
  qed
qed

section \<open>Encoded text\<close>

lemma add_bits_lead:
  assumes "b < 256"
  shows "add_bits 0 b = b mod 2 ^ (7 - BYTE_CLASS ! b div 2)"
proof -
  have "BYTE_CLASS ! b div 2 \<in> {0, 1, 2, 3, 4, 5}" using BYTE_CLASS_nth [OF assms] by simp
  then show ?thesis
    by (elim insertE) (simp_all add: add_bits_def drop_bit_eq_div and_masks)
qed

lemma add_bits_cont:
  assumes "x < 64" "cp < 0x2000000"
  shows "add_bits cp (128 + x) = cp * 64 + x"
proof -
  have "(128 + x) mod 64 = x" "(x < 16 \<Longrightarrow> (128 + x) mod 128 = x)" using low_bits(4) [OF assms(1)] by simp_all
  then have "(128 + x) AND drop_bit (drop_bit 1 (BYTE_CLASS ! (128 + x))) 0x7F = x"
    using assms(1) by (auto simp: BYTE_CLASS_nth drop_bit_eq_div and_masks)
  moreover have "take_bit 32 (push_bit 6 cp) = cp * 64"
    using assms(2) by (simp add: push_bit_eq_mult take_bit_nat_eq_self)
  ultimately show ?thesis using assms(1) by (simp add: add_bits_def or_disjoints)
qed

lemma v8_loop_next:
  "dfa_next state b = s' \<Longrightarrow> s' \<noteq> REJECT \<Longrightarrow> s' \<noteq> ACCEPT \<Longrightarrow>
     v8_loop state cp (b # bs) = v8_loop s' (add_bits cp b) bs"
  by (simp add: v8_loop.simps)

lemma v8_loop_accept:
  "dfa_next state b = ACCEPT \<Longrightarrow> add_bits cp b = v \<Longrightarrow> scalar v \<Longrightarrow>
     v8_loop state cp (b # bs) = utf16 v @ v8_loop ACCEPT 0 bs"
  by (simp add: v8_loop.simps)

lemma decode_scalar:
  assumes "scalar cp"
  shows "utf8_decode_v8 (utf8 cp @ rest) = utf16 cp @ utf8_decode_v8 rest"
  using assms
proof (cases rule: utf8_cases)
  case one
  then show ?thesis using assms
    by (simp add: utf8_decode_v8_def v8_loop_accept dfa_next_ranges add_bits_lead BYTE_CLASS_nth)
next
  case (two a b)
  then have lead: "dfa_next 12 (192 + a) = 24" "add_bits 0 (192 + a) = a"
    by (simp_all add: dfa_next_ranges add_bits_lead BYTE_CLASS_nth low_bits)
  have last: "dfa_next 24 (128 + b) = 12" "add_bits a (128 + b) = cp"
    using two by (simp_all add: dfa_next_ranges add_bits_cont)
  show ?thesis unfolding two(1) utf8_decode_v8_def
    using v8_loop_next [OF lead(1)] v8_loop_accept [OF last assms] lead(2) by simp
next
  case (three a b c)
  define s where "s = (if a = 0 then 48 else if a = 13 then 84 else 36::nat)"
  have b: "a = 0 \<Longrightarrow> 32 \<le> b" "a = 13 \<Longrightarrow> b < 32"
    using three assms by (auto simp: scalar_def surrogate_def)
  have lead: "dfa_next 12 (224 + a) = s" "add_bits 0 (224 + a) = a"
    using three(2) mod_mult_self4 [of 32 7 a] low_bits(2) [of a]
    by (auto simp: dfa_next_ranges add_bits_lead BYTE_CLASS_nth s_def)
  have mid: "dfa_next s (128 + b) = 24" "add_bits a (128 + b) = a * 64 + b"
    using three b by (auto simp: dfa_next_ranges add_bits_cont s_def)
  have last: "dfa_next 24 (128 + c) = 12" "add_bits (a * 64 + b) (128 + c) = cp"
    using three by (simp_all add: dfa_next_ranges add_bits_cont)
  have "s \<noteq> REJECT" "s \<noteq> ACCEPT" by (simp_all add: s_def)
  then show ?thesis unfolding three(1) utf8_decode_v8_def
    using v8_loop_next [OF lead(1)] v8_loop_next [OF mid(1)] v8_loop_accept [OF last assms]
      lead(2) mid(2) by simp
next
  case (four a b c d)
  define s where "s = (if a = 0 then 96 else if a = 4 then 72 else 60::nat)"
  have b: "a = 0 \<Longrightarrow> 16 \<le> b" "a = 4 \<Longrightarrow> b < 16"
    using four assms by (auto simp: scalar_def)
  have lead: "dfa_next 12 (240 + a) = s" "add_bits 0 (240 + a) = a"
    using four(2) mod_mult_self4 [of 16 15 a] low_bits(3) [of a]
    by (auto simp: dfa_next_ranges add_bits_lead BYTE_CLASS_nth s_def)
  have mid: "dfa_next s (128 + b) = 36" "add_bits a (128 + b) = a * 64 + b"
    using four b by (auto simp: dfa_next_ranges add_bits_cont s_def)
  have mid2: "dfa_next 36 (128 + c) = 24" "add_bits (a * 64 + b) (128 + c) = (a * 64 + b) * 64 + c"
    using four by (simp_all add: dfa_next_ranges add_bits_cont)
  have last: "dfa_next 24 (128 + d) = 12" "add_bits ((a * 64 + b) * 64 + c) (128 + d) = cp"
    using four by (simp_all add: dfa_next_ranges add_bits_cont)
  have "s \<noteq> REJECT" "s \<noteq> ACCEPT" by (simp_all add: s_def)
  then show ?thesis unfolding four(1) utf8_decode_v8_def
    using v8_loop_next [OF lead(1)] v8_loop_next [OF mid(1)] v8_loop_next [OF mid2(1)]
      v8_loop_accept [OF last assms] lead(2) mid(2) mid2(2) by simp
qed

definition utf8s :: "nat list \<Rightarrow> bytes" where
  [js_eval]: "utf8s cps = concat (map utf8 cps)"

lemma utf8s_simps [simp]:
  "utf8s [] = []" "utf8s (c # cs) = utf8 c @ utf8s cs" "utf8s (xs @ ys) = utf8s xs @ utf8s ys"
  by (simp_all add: utf8s_def)

lemma decode_Nil [simp]: "utf8_decode_v8 [] = []"
  by (simp add: utf8_decode_v8_def v8_loop.simps)

lemma decode_utf8s: "list_all scalar cps \<Longrightarrow> utf8_decode_v8 (utf8s cps) = utf16s cps"
  by (induction cps) (simp_all add: decode_scalar)

lemma utf8_decode_all: "utf8_decode buf i (length buf) = utf8_decode_v8 (drop i buf)"
  by (cases "i \<le> length buf") (simp_all add: utf8_decode_def)

lemma utf8_decode_range: "i \<le> j \<Longrightarrow> j \<le> length buf \<Longrightarrow>
    utf8_decode buf i j = utf8_decode_v8 (take (j - i) (drop i buf))"
  by (simp add: utf8_decode_def)

text \<open>
  The row of state 48 (after E0) also accepts the class of 90 to 9F, so overlong three-byte
  sequences are decoded instead of being replaced.
\<close>

lemma decode_overlong: "utf8_decode_v8 [0xE0, 0x90, 0x80] = [0x400]"
proof -
  have "v8_loop 12 0 [0xE0, 0x90, 0x80] = v8_loop 48 0 [0x90, 0x80]"
    by (subst v8_loop_next [of _ _ 48]) (simp_all add: dfa_next_ranges add_bits_lead BYTE_CLASS_nth)
  also have "... = v8_loop 24 16 [0x80]"
    using add_bits_cont [of 16 0] by (subst v8_loop_next [of _ _ 24]) (simp_all add: dfa_next_ranges)
  also have "... = [0x400]"
    using v8_loop_accept [of 24 128 16 1024 "[]"] add_bits_cont [of 0 16]
    by (simp add: dfa_next_ranges scalar_def surrogate_def v8_loop.simps(1))
  finally show ?thesis by (simp add: utf8_decode_v8_def)
qed

end
