(* ===== verification/Buffer_Codec.thy ===== *)
theory Buffer_Codec
  imports Base64 Utf8_Decoder
begin

unbundle bit_operations_syntax

text \<open>
  The text encodings of \<open>builtin/buffer.js\<close>: the slice functions behind \<open>toString\<close>, the
  conversions to bytes, \<open>write\<close>, \<open>byteLength\<close>, \<open>fromString\<close>, \<open>isAscii\<close> and \<open>isUtf8\<close>. The argument
  \<open>lc\<close> is \<open>String.prototype.toLowerCase\<close>; a buffer is the list of its bytes.
\<close>

section \<open>Encoding names\<close>

datatype encoding = Hex | Utf8 | Ascii | Latin1 | Base64 | Base64url | Utf16le

text \<open>The cases of the switches in \<open>slowToString\<close> and \<open>write\<close>.\<close>

definition encoding_case :: "jstr \<Rightarrow> encoding option" where
  [js_eval]: "encoding_case s =
     (if s = js ''hex'' then Some Hex
      else if s = js ''utf8'' \<or> s = js ''utf-8'' then Some Utf8
      else if s = js ''ascii'' then Some Ascii
      else if s = js ''latin1'' \<or> s = js ''binary'' then Some Latin1
      else if s = js ''base64'' then Some Base64
      else if s = js ''base64url'' then Some Base64url
      else if s = js ''ucs2'' \<or> s = js ''ucs-2'' \<or> s = js ''utf16le'' \<or> s = js ''utf-16le''
      then Some Utf16le
      else None)"

definition isEncoding :: "(jstr \<Rightarrow> jstr) \<Rightarrow> jstr \<Rightarrow> bool" where
  [js_eval]: "isEncoding lc encoding = (encoding_case (lc encoding) \<noteq> None)"

text \<open>One round of the switch, a second one on the lower-cased name, then the error.\<close>

definition find_encoding :: "(jstr \<Rightarrow> jstr) \<Rightarrow> jstr \<Rightarrow> js_error + encoding" where
  [js_eval]: "find_encoding lc s =
     (case encoding_case s of
        Some e \<Rightarrow> Inr e
      | None \<Rightarrow>
          (case encoding_case (lc s) of Some e \<Rightarrow> Inr e | None \<Rightarrow> Inl (ERR_UNKNOWN_ENCODING (JStr (lc s)))))"

text \<open>The encoding a value names once a falsy one has been replaced by UTF-8.\<close>

definition falsy :: "jsval \<Rightarrow> bool" where
  [js_eval]: "falsy v = (v \<in> {JUndefined, JNull, JBool False, JNum NaN, JNum (Num 0), JBigInt 0, JStr []})"

definition named_encoding :: "(jsval \<Rightarrow> js_error + jstr) \<Rightarrow> (jstr \<Rightarrow> jstr) \<Rightarrow> jsval \<Rightarrow> js_error + encoding" where
  [js_eval]: "named_encoding to_string lc encoding =
     (if falsy encoding then Inr Utf8
      else case encoding of
             JStr s \<Rightarrow> find_encoding lc s
           | _ \<Rightarrow> bindE (to_string encoding) (\<lambda>s.
                    case encoding_case (lc s) of
                      Some e \<Rightarrow> Inr e
                    | None \<Rightarrow> Inl (ERR_UNKNOWN_ENCODING (JStr (lc s)))))"

section \<open>From bytes to text\<close>

definition K_STRING_MAX_LENGTH :: nat where
  [js_eval]: "K_STRING_MAX_LENGTH = 268435440"

definition hex_lower :: "nat \<Rightarrow> nat" where
  [js_eval]: "hex_lower d = js ''0123456789abcdef'' ! d"

definition hexSliceLookupTable :: "jstr list" where
  [js_eval]: "hexSliceLookupTable =
     concat (map (\<lambda>i. map (\<lambda>j. [hex_lower i, hex_lower j]) [0..<16]) [0..<16])"

definition bytes_of :: "bytes \<Rightarrow> nat \<Rightarrow> nat \<Rightarrow> bytes" where
  [js_eval]: "bytes_of buf start stop = take (min (length buf) stop - start) (drop start buf)"

definition hexSlice :: "bytes \<Rightarrow> nat \<Rightarrow> nat \<Rightarrow> jstr" where
  [js_eval]: "hexSlice buf start stop =
     (let len = length buf; stop' = (if stop = 0 \<or> stop > len then len else stop)
      in concat (map (\<lambda>b. hexSliceLookupTable ! b) (bytes_of buf start stop')))"

definition asciiSlice :: "bytes \<Rightarrow> nat \<Rightarrow> nat \<Rightarrow> jstr" where
  [js_eval]: "asciiSlice buf start stop = map (\<lambda>b. b AND 0x7F) (bytes_of buf start stop)"

definition latin1Slice :: "bytes \<Rightarrow> nat \<Rightarrow> nat \<Rightarrow> jstr" where
  [js_eval]: "latin1Slice buf start stop = bytes_of buf start stop"

fun utf16_units_of :: "bytes \<Rightarrow> jstr" where
  "utf16_units_of (lo # hi # bs) = (lo + hi * 256) # utf16_units_of bs"
| "utf16_units_of _ = []"

definition utf16leSlice :: "bytes \<Rightarrow> nat \<Rightarrow> nat \<Rightarrow> jstr" where
  [js_eval]: "utf16leSlice buf start stop = utf16_units_of (bytes_of buf start stop)"

definition utf8Slice :: "bytes \<Rightarrow> nat \<Rightarrow> nat \<Rightarrow> js_error + jstr" where
  [js_eval]: "utf8Slice buf start stop =
     (let stop' = min (length buf) stop
      in if stop' - start > K_STRING_MAX_LENGTH then Inl (ERR_STRING_TOO_LONG K_STRING_MAX_LENGTH)
         else Inr (utf8_decode buf start stop'))"

definition base64Slice :: "bytes \<Rightarrow> nat \<Rightarrow> nat \<Rightarrow> jstr" where
  [js_eval]: "base64Slice buf start stop =
     (if start = 0 \<and> stop = length buf then fromByteArray buf
      else fromByteArray (bytes_of buf start stop))"

definition strip_padding :: "jstr \<Rightarrow> jstr" where
  [js_eval]: "strip_padding s = rev (dropWhile (\<lambda>c. c = EQUALS) (rev s))"

definition base64urlSlice :: "bytes \<Rightarrow> nat \<Rightarrow> nat \<Rightarrow> jstr" where
  [js_eval]: "base64urlSlice buf start stop =
     strip_padding (map (\<lambda>c. if c = 43 then 45 else if c = 47 then 95 else c) (base64Slice buf start stop))"

definition encoded_slice :: "encoding \<Rightarrow> bytes \<Rightarrow> nat \<Rightarrow> nat \<Rightarrow> js_error + jstr" where
  [js_eval]: "encoded_slice e buf start stop =
     (case e of
        Hex \<Rightarrow> Inr (hexSlice buf start stop)
      | Utf8 \<Rightarrow> utf8Slice buf start stop
      | Ascii \<Rightarrow> Inr (asciiSlice buf start stop)
      | Latin1 \<Rightarrow> Inr (latin1Slice buf start stop)
      | Base64 \<Rightarrow> Inr (base64Slice buf start stop)
      | Base64url \<Rightarrow> Inr (base64urlSlice buf start stop)
      | Utf16le \<Rightarrow> Inr (utf16leSlice buf start stop))"

text \<open>
  \<open>slowToString\<close>: the two offsets are numbers or undefined; the encoding is any value, \<open>to_string\<close>
  the conversion applied to one that is no string.
\<close>

definition named_slice :: "(jsval \<Rightarrow> js_error + jstr) \<Rightarrow> (jstr \<Rightarrow> jstr) \<Rightarrow> jsval \<Rightarrow> bytes \<Rightarrow> nat \<Rightarrow> nat \<Rightarrow> js_error + jstr" where
  [js_eval]: "named_slice to_string lc encoding buf start stop =
     (if encoding = JNull \<or> (case encoding of JNum _ \<Rightarrow> True | _ \<Rightarrow> False)
      then Inl (ERR_UNKNOWN_ENCODING encoding)
      else bindE (named_encoding to_string lc encoding) (\<lambda>e. encoded_slice e buf start stop))"

definition slowToString :: "(jsval \<Rightarrow> js_error + jstr) \<Rightarrow> (jstr \<Rightarrow> jstr) \<Rightarrow> bytes \<Rightarrow> jsval \<Rightarrow> jsnum option \<Rightarrow> jsnum option \<Rightarrow> js_error + jstr" where
  [js_eval]: "slowToString to_string lc buf encoding start stop =
     (let len = nat_num (length buf);
          start1 = (case start of None \<Rightarrow> Num 0 | Some x \<Rightarrow> if num_less x (Num 0) then Num 0 else x);
          stop1 = (case stop of None \<Rightarrow> len | Some x \<Rightarrow> if num_less len x then len else x)
      in if num_less len start1 then Inr []
         else if num_le stop1 (Num 0) then Inr []
         else let stop2 = ToUint32 stop1; start2 = ToUint32 start1
              in if stop2 \<le> start2 then Inr [] else named_slice to_string lc encoding buf start2 stop2)"

text \<open>\<open>toString\<close> with its argument list: none, or an encoding and two optional offsets.\<close>

definition buf_toString :: "(jsval \<Rightarrow> js_error + jstr) \<Rightarrow> (jstr \<Rightarrow> jstr) \<Rightarrow> bytes \<Rightarrow> (jsval \<times> jsnum option \<times> jsnum option) option \<Rightarrow> js_error + jstr" where
  [js_eval]: "buf_toString to_string lc buf arguments =
     (if buf = [] then Inr []
      else case arguments of
             None \<Rightarrow> utf8Slice buf 0 (length buf)
           | Some (encoding, start, stop) \<Rightarrow> slowToString to_string lc buf encoding start stop)"

section \<open>From text to bytes\<close>

text \<open>\<open>units\<close> is the room left; \<open>None\<close> is the default Infinity.\<close>

definition spend :: "int option \<Rightarrow> int \<Rightarrow> int option" where
  [js_eval]: "spend units n = map_option (\<lambda>u. u - n) units"

definition room :: "int option \<Rightarrow> bool" where
  [js_eval]: "room units = (case units of None \<Rightarrow> True | Some u \<Rightarrow> u \<ge> 0)"

definition utf8_bytes :: "nat \<Rightarrow> bytes" where
  [js_eval]: "utf8_bytes codePoint =
     (if codePoint < 0x80 then [codePoint]
      else if codePoint < 0x800
      then [drop_bit 6 codePoint OR 0xC0, codePoint AND 0x3F OR 0x80]
      else if codePoint < 0x10000
      then [drop_bit 12 codePoint OR 0xE0, drop_bit 6 codePoint AND 0x3F OR 0x80, codePoint AND 0x3F OR 0x80]
      else [drop_bit 18 codePoint OR 0xF0, drop_bit 12 codePoint AND 0x3F OR 0x80,
            drop_bit 6 codePoint AND 0x3F OR 0x80, codePoint AND 0x3F OR 0x80])"

abbreviation replacement_bytes :: bytes where "replacement_bytes \<equiv> [0xEF, 0xBF, 0xBD]"

text \<open>The loop of \<open>utf8ToBytes\<close>; \<open>lead\<close> is 0 where \<open>leadSurrogate\<close> is null.\<close>

function utf8_loop :: "int option \<Rightarrow> nat \<Rightarrow> jstr \<Rightarrow> bytes" where
  "utf8_loop units lead [] = []"
| "utf8_loop units lead (c # cs) =
     (let units3 = spend units 3;
          pushed = (if room units3 then replacement_bytes else []);
          store = (\<lambda>u cp. let bs = utf8_bytes cp; u' = spend u (int (length bs))
                        in if room u' then bs @ utf8_loop u' 0 cs else [])
      in if 0xD7FF < c \<and> c < 0xE000
         then if lead = 0
              then if c > 0xDBFF \<or> cs = [] then pushed @ utf8_loop units3 0 cs else utf8_loop units c cs
              else if c < 0xDC00 then pushed @ utf8_loop units3 c cs
              else store units ((push_bit 10 (lead - 0xD800) OR (c - 0xDC00)) + 0x10000)
         else if lead \<noteq> 0 then pushed @ store units3 c
         else store units c)"
  by pat_completeness auto
termination
  by (relation "measure (\<lambda>(units, lead, s). length s)") auto

declare utf8_loop.simps [simp del]

definition utf8ToBytes :: "jstr \<Rightarrow> int option \<Rightarrow> bytes" where
  [js_eval]: "utf8ToBytes string units = utf8_loop (if units = Some 0 then None else units) 0 string"

definition asciiToBytes :: "jstr \<Rightarrow> bytes" where
  [js_eval]: "asciiToBytes str = map (\<lambda>c. c AND 0xFF) str"

fun utf16leToBytes :: "jstr \<Rightarrow> int \<Rightarrow> bytes" where
  "utf16leToBytes [] units = []"
| "utf16leToBytes (c # cs) units =
     (if units - 2 < 0 then [] else [c mod 256, drop_bit 8 c] @ utf16leToBytes cs (units - 2))"

text \<open>White space and line terminators, as \<open>trim\<close> removes them.\<close>

definition is_space :: "nat \<Rightarrow> bool" where
  [js_eval]: "is_space c =
     ((9 \<le> c \<and> c \<le> 13) \<or> c = 32 \<or> c = 0xA0 \<or> c = 0x1680 \<or> (0x2000 \<le> c \<and> c \<le> 0x200A) \<or>
      c = 0x2028 \<or> c = 0x2029 \<or> c = 0x202F \<or> c = 0x205F \<or> c = 0x3000 \<or> c = 0xFEFF)"

definition trim :: "jstr \<Rightarrow> jstr" where
  [js_eval]: "trim s = rev (dropWhile is_space (rev (dropWhile is_space s)))"

definition base64_char :: "nat \<Rightarrow> bool" where
  [js_eval]: "base64_char c =
     (c = 43 \<or> c = 47 \<or> (48 \<le> c \<and> c \<le> 57) \<or> (65 \<le> c \<and> c \<le> 90) \<or> (97 \<le> c \<and> c \<le> 122) \<or> c = 45 \<or> c = 95)"

definition base64clean :: "jstr \<Rightarrow> jstr" where
  [js_eval]: "base64clean str =
     (let s = filter base64_char (trim (hd (splitP (\<lambda>c. c = EQUALS) str)))
      in if length s < 2 then [] else s @ replicate ((4 - length s mod 4) mod 4) EQUALS)"

definition base64ToBytes :: "jstr \<Rightarrow> js_error + bytes" where
  [js_eval]: "base64ToBytes str = toByteArray (base64clean str)"

definition base64UrlToBase64 :: "jstr \<Rightarrow> jstr" where
  [js_eval]: "base64UrlToBase64 str =
     (let s = map (\<lambda>c. if c = 45 then 43 else if c = 95 then 47 else c) str; pad = length s mod 4
      in if pad = 2 then s @ [EQUALS, EQUALS] else if pad = 3 then s @ [EQUALS] else s)"

section \<open>Writing text into a buffer\<close>

text \<open>\<open>hexCharValueTable\<close>, indexed by the low seven bits of a code unit.\<close>

definition hexCharValueTable :: "int list" where
  [js_eval]: "hexCharValueTable =
     replicate 48 (-1) @ [0, 1, 2, 3, 4, 5, 6, 7, 8, 9] @ replicate 7 (-1) @ [10, 11, 12, 13, 14, 15] @
     replicate 26 (-1) @ [10, 11, 12, 13, 14, 15] @ replicate 25 (-1)"

function hex_write_loop :: "jstr \<Rightarrow> nat \<Rightarrow> int \<Rightarrow> nat \<Rightarrow> bytes \<Rightarrow> int \<times> bytes" where
  "hex_write_loop string i len offset buf =
     (if int i < len
      then let a = string ! (i * 2); b = string ! (i * 2 + 1);
               hi = hexCharValueTable ! (a AND 0x7F); lo = hexCharValueTable ! (b AND 0x7F)
           in if (int a OR int b OR hi OR lo) AND NOT 0x7F \<noteq> 0 then (int i, buf)
              else hex_write_loop string (i + 1) len offset (buf[offset + i := nat (push_bit 4 hi OR lo)])
      else (len, buf))"
  by pat_completeness auto
termination
  by (relation "measure (\<lambda>(string, i, len, offset, buf). nat (len - int i))") auto

declare hex_write_loop.simps [simp del]

definition hexWrite :: "bytes \<Rightarrow> jstr \<Rightarrow> nat \<Rightarrow> nat option \<Rightarrow> int \<times> bytes" where
  [js_eval]: "hexWrite buf string offset len =
     (let remaining = int (length buf) - int offset;
          len1 = (case len of
             None \<Rightarrow> remaining
           | Some n \<Rightarrow> if n = 0 then remaining else if int n > remaining then remaining else int n);
          half = int (length string div 2);
          len2 = (if len1 > half then half else len1)
      in hex_write_loop string 0 len2 offset buf)"

function blit_loop :: "bytes \<Rightarrow> nat \<Rightarrow> nat \<Rightarrow> nat \<Rightarrow> bytes \<Rightarrow> nat \<times> bytes" where
  "blit_loop src offset len i dst =
     (if i < len
      then if i + offset \<ge> length dst \<or> i \<ge> length src then (i, dst)
           else blit_loop src offset len (i + 1) (dst[i + offset := src ! i])
      else (i, dst))"
  by pat_completeness auto
termination
  by (relation "measure (\<lambda>(src, offset, len, i, dst). len - i)") auto

declare blit_loop.simps [simp del]

definition blitBuffer :: "bytes \<Rightarrow> bytes \<Rightarrow> nat \<Rightarrow> nat \<Rightarrow> nat \<times> bytes" where
  [js_eval]: "blitBuffer src dst offset len = blit_loop src offset len 0 dst"

definition utf8Write :: "bytes \<Rightarrow> jstr \<Rightarrow> nat \<Rightarrow> nat \<Rightarrow> nat \<times> bytes" where
  [js_eval]: "utf8Write buf string offset len =
     blitBuffer (utf8ToBytes string (Some (int (length buf) - int offset))) buf offset len"

definition asciiWrite :: "bytes \<Rightarrow> jstr \<Rightarrow> nat \<Rightarrow> nat \<Rightarrow> nat \<times> bytes" where
  [js_eval]: "asciiWrite buf string offset len = blitBuffer (asciiToBytes string) buf offset len"

definition base64Write :: "bytes \<Rightarrow> jstr \<Rightarrow> nat \<Rightarrow> nat \<Rightarrow> js_error + nat \<times> bytes" where
  [js_eval]: "base64Write buf string offset len =
     bindE (base64ToBytes string) (\<lambda>bs. Inr (blitBuffer bs buf offset len))"

definition ucs2Write :: "bytes \<Rightarrow> jstr \<Rightarrow> nat \<Rightarrow> nat \<Rightarrow> nat \<times> bytes" where
  [js_eval]: "ucs2Write buf string offset len =
     blitBuffer (utf16leToBytes string (int (length buf) - int offset)) buf offset len"

definition write_encoded :: "encoding \<Rightarrow> bytes \<Rightarrow> jstr \<Rightarrow> nat \<Rightarrow> nat \<Rightarrow> js_error + nat \<times> bytes" where
  [js_eval]: "write_encoded e buf string offset len =
     (case e of
        Hex \<Rightarrow> (let (n, buf') = hexWrite buf string offset (Some len) in Inr (nat n, buf'))
      | Utf8 \<Rightarrow> Inr (utf8Write buf string offset len)
      | Ascii \<Rightarrow> Inr (asciiWrite buf string offset len)
      | Latin1 \<Rightarrow> Inr (asciiWrite buf string offset len)
      | Base64 \<Rightarrow> base64Write buf string offset len
      | Base64url \<Rightarrow> base64Write buf string offset len
      | Utf16le \<Rightarrow> Inr (ucs2Write buf string offset len))"

text \<open>
  \<open>Buffer.prototype.write\<close>: the argument list is resolved to an encoding, an offset and a length
  (\<open>None\<close> where it stays undefined); \<open>to_number\<close> is the conversion \<open>isFinite\<close> applies.
\<close>

definition write_offset_error :: "bytes \<Rightarrow> jsval \<Rightarrow> js_error" where
  [js_eval]: "write_offset_error buf offset =
     ERR_OUT_OF_RANGE ''offset'' (''>= 0 && <= '' @ nat_string (length buf)) offset"

definition write_args :: "(jsval \<Rightarrow> jsnum) \<Rightarrow> bytes \<Rightarrow> jsval \<Rightarrow> jsval \<Rightarrow> jsval \<Rightarrow> js_error + jsval \<times> nat \<times> nat option" where
  [js_eval]: "write_args to_number buf offset len encoding =
     (case offset of
        JUndefined \<Rightarrow> Inr (JStr (js ''utf8''), 0, Some (length buf))
      | JStr s \<Rightarrow>
          if len = JUndefined then Inr (offset, 0, Some (length buf))
          else Inl (ERR_INVALID_ARG_TYPE ''offset'' ''number'' offset)
      | JNum (Num x) \<Rightarrow>
          let off = ToUint32 (Num x)
          in if off > length buf then Inl (write_offset_error buf offset)
             else (case to_number len of
                     Num n \<Rightarrow> Inr (if encoding = JUndefined then JStr (js ''utf8'') else encoding, off,
                                   Some (ToUint32 (Num n)))
                   | _ \<Rightarrow> Inr (len, off, None))
      | JNum _ \<Rightarrow> Inl (write_offset_error buf offset)
      | _ \<Rightarrow> Inl (ERR_INVALID_ARG_TYPE ''offset'' ''number'' offset))"

definition buf_write :: "(jsval \<Rightarrow> js_error + jstr) \<Rightarrow> (jsval \<Rightarrow> jsnum) \<Rightarrow> (jstr \<Rightarrow> jstr) \<Rightarrow> bytes \<Rightarrow> jstr \<Rightarrow> jsval \<Rightarrow> jsval \<Rightarrow> jsval \<Rightarrow> js_error + nat \<times> bytes" where
  [js_eval]: "buf_write to_string to_number lc buf string offset len encoding =
     bindE (write_args to_number buf offset len encoding) (\<lambda>(enc, off, n).
       let remaining = length buf - off;
           n' = (case n of None \<Rightarrow> remaining | Some m \<Rightarrow> if m > remaining then remaining else m)
       in bindE (named_encoding to_string lc enc) (\<lambda>e. write_encoded e buf string off n'))"

section \<open>byteLength and fromString\<close>

definition encoded_length :: "encoding \<Rightarrow> jstr \<Rightarrow> js_error + nat" where
  [js_eval]: "encoded_length e string =
     (case e of
        Ascii \<Rightarrow> Inr (length string)
      | Latin1 \<Rightarrow> Inr (length string)
      | Utf8 \<Rightarrow> Inr (length (utf8ToBytes string None))
      | Utf16le \<Rightarrow> Inr (length string * 2)
      | Hex \<Rightarrow> Inr (length string div 2)
      | Base64 \<Rightarrow> bindE (base64ToBytes string) (\<lambda>bs. Inr (length bs))
      | Base64url \<Rightarrow> bindE (base64ToBytes (base64UrlToBase64 string)) (\<lambda>bs. Inr (length bs)))"

text \<open>\<open>byteLength\<close> of a string, for an encoding given as a string; unknown names count as UTF-8.\<close>

definition byteLength :: "(jstr \<Rightarrow> jstr) \<Rightarrow> jstr \<Rightarrow> jstr \<Rightarrow> js_error + nat" where
  [js_eval]: "byteLength lc string encoding =
     (if string = [] then Inr 0
      else case find_encoding lc encoding of
             Inr e \<Rightarrow> encoded_length e string
           | Inl _ \<Rightarrow> Inr (length (utf8ToBytes string None)))"

text \<open>
  \<open>fromString\<close>: a fresh buffer of the computed length (from the pool or not), the write, and the
  slice to what was written.
\<close>

definition fromString :: "(jsval \<Rightarrow> js_error + jstr) \<Rightarrow> (jsval \<Rightarrow> jsnum) \<Rightarrow> (jstr \<Rightarrow> jstr) \<Rightarrow> jstr \<Rightarrow> jsval \<Rightarrow> js_error + bytes" where
  [js_eval]: "fromString to_string to_number lc string encoding =
     (let enc = (case encoding of JStr s \<Rightarrow> if s = [] then js ''utf8'' else s | _ \<Rightarrow> js ''utf8'')
      in if \<not> isEncoding lc enc then Inl (ERR_UNKNOWN_ENCODING (JStr enc))
         else bindE (byteLength lc string enc) (\<lambda>n.
              bindE (buf_write to_string to_number lc (replicate n 0) string (JStr enc) JUndefined JUndefined) (\<lambda>(actual, buf).
              Inr (if actual \<noteq> n then take actual buf else buf))))"

section \<open>isAscii and isUtf8\<close>

definition isAscii :: "bytes \<Rightarrow> bool" where
  [js_eval]: "isAscii bytes = list_all (\<lambda>b. b \<le> 127) bytes"

definition cont_byte :: "nat \<Rightarrow> bool" where
  [js_eval]: "cont_byte b = (b AND 0xC0 = 0x80)"

fun isUtf8 :: "bytes \<Rightarrow> bool" where
  "isUtf8 [] = True"
| "isUtf8 (b # rest) =
     (if b \<le> 0x7F then isUtf8 rest
      else if b AND 0xE0 = 0xC0
      then b \<ge> 0xC2 \<and>
           (case rest of b1 # rest' \<Rightarrow> cont_byte b1 \<and> isUtf8 rest' | _ \<Rightarrow> False)
      else if b AND 0xF0 = 0xE0
      then (case rest of
              b1 # b2 # rest' \<Rightarrow>
                cont_byte b1 \<and> cont_byte b2 \<and> \<not> (b = 0xE0 \<and> b1 < 0xA0) \<and> \<not> (b = 0xED \<and> b1 \<ge> 0xA0) \<and> isUtf8 rest'
            | _ \<Rightarrow> False)
      else if b AND 0xF8 = 0xF0
      then b \<le> 0xF4 \<and>
           (case rest of
              b1 # b2 # b3 # rest' \<Rightarrow>
                cont_byte b1 \<and> cont_byte b2 \<and> cont_byte b3 \<and> \<not> (b = 0xF0 \<and> b1 < 0x90) \<and> \<not> (b = 0xF4 \<and> b1 \<ge> 0x90) \<and> isUtf8 rest'
            | _ \<Rightarrow> False)
      else False)"

end
