(* ===== verification/Buffer_Codec_Laws.thy ===== *)
theory Buffer_Codec_Laws
  imports Buffer_Codec
begin

unbundle bit_operations_syntax

text \<open>
  What the encodings of \<open>Buffer_Codec\<close> guarantee: UTF-8 encoding and validation against the
  definition of UTF-8, and the round trips of every lossless encoding through \<open>toString\<close> and
  \<open>fromString\<close>.
\<close>

section \<open>UTF-8\<close>

lemma utf8_bytes_utf8: "cp < 0x110000 \<Longrightarrow> utf8_bytes cp = utf8 cp"
proof -
  assume cp: "cp < 0x110000"
  have or: "x < 64 \<Longrightarrow> x OR 0x80 = 0x80 + x" "x < 32 \<Longrightarrow> x OR 0xC0 = 0xC0 + x" "x < 16 \<Longrightarrow> x OR 0xE0 = 0xE0 + x"
    "x < 8 \<Longrightarrow> x OR 0xF0 = 0xF0 + x" for x :: nat
    using or_disjoint [of x 6 2] or_disjoint [of x 5 6] or_disjoint [of x 4 14] or_disjoint [of x 3 30]
    by (simp_all add: or.commute)
  have "cp div 262144 < 8" using cp by simp
  then show ?thesis
    by (auto simp: utf8_bytes_def utf8_def drop_bit_eq_div and_masks or)
qed

definition scalars :: "jstr \<Rightarrow> nat list" where
  [js_eval]: "scalars s = map (\<lambda>cp. if surrogate cp then REPLACEMENT else cp) (code_points s)"

text \<open>The string ends with two leading surrogates.\<close>

definition two_leads :: "jstr \<Rightarrow> bool" where
  [js_eval]: "two_leads s = (case rev s of a # b # _ \<Rightarrow> is_high a \<and> is_high b | _ \<Rightarrow> False)"

lemma two_leads_simps [simp]:
  "\<not> two_leads []" "\<not> two_leads [c]" "two_leads [c, d] \<longleftrightarrow> is_high c \<and> is_high d"
  by (auto simp: two_leads_def)

lemma two_leads_Cons [simp]: "two_leads (c # d # e # s) = two_leads (d # e # s)"
proof -
  consider "rev s = []" | x where "rev s = [x]" | x y t where "rev s = x # y # t"
    by (cases "rev s"; cases "tl (rev s)") auto
  then show ?thesis by cases (auto simp: two_leads_def)
qed

lemma two_leads_tl: "two_leads s \<Longrightarrow> two_leads (c # s)"
  by (cases s; cases "tl s") auto

lemma code_points_bounds: "wf_jstr s \<Longrightarrow> cp \<in> set (code_points s) \<Longrightarrow> cp < 0x110000"
proof (induction s rule: code_points.induct)
  case (3 c d cs)
  have "pair_value c d < 0x110000" if "is_high c" "is_low d"
    using that by (auto simp: pair_value_def is_high_def is_low_def)
  then show ?case using 3 by (auto simp: wf_jstr_def split: if_splits)
qed (auto simp: wf_jstr_def)

lemma replacement_utf8: "utf8 REPLACEMENT = replacement_bytes"
  by (simp add: utf8_def)

lemma pair_bits:
  "is_high l \<Longrightarrow> is_low c \<Longrightarrow> (push_bit 10 (l - 0xD800) OR (c - 0xDC00)) + 0x10000 = pair_value l c"
  using or_disjoint [of "c - 0xDC00" 10 "l - 0xD800"]
  by (auto simp: pair_value_def is_high_def is_low_def push_bit_eq_mult)

lemma spend_None [simp]: "spend None n = None" "room None"
  by (simp_all add: spend_def room_def)

lemma scalars_simps:
  "scalars [] = []"
  "\<not> is_high c \<Longrightarrow> scalars (c # cs) = (if is_low c then REPLACEMENT else c) # scalars cs"
  "scalars [c] = [if surrogate c then REPLACEMENT else c]"
  "is_high c \<Longrightarrow> \<not> is_low d \<Longrightarrow> scalars (c # d # cs) = REPLACEMENT # scalars (d # cs)"
  "is_high c \<Longrightarrow> is_low d \<Longrightarrow> scalars (c # d # cs) = pair_value c d # scalars cs"
  by (auto simp: scalars_def code_points_cons surrogate_def is_high_def is_low_def pair_value_def)

text \<open>
  The scalars that \<open>utf8ToBytes\<close> encodes: of two leading surrogates at the end of the string the last one
  is lost.
\<close>

definition encoded :: "jstr \<Rightarrow> nat list" where
  [js_eval]: "encoded s = (if two_leads s then butlast (scalars s) else scalars s)"

lemma two_leads_not_high: "\<not> is_high c \<Longrightarrow> two_leads (c # s) = two_leads s"
  by (cases s; cases "tl s") auto

lemma scalars_Nil_iff: "scalars s = [] \<longleftrightarrow> s = []"
  by (cases s rule: code_points.cases) (auto simp: scalars_def)

lemma encoded_simps:
  "encoded [] = []"
  "encoded [c] = [if surrogate c then REPLACEMENT else c]"
  "\<not> is_high c \<Longrightarrow> encoded (c # cs) = (if is_low c then REPLACEMENT else c) # encoded cs"
  "is_high c \<Longrightarrow> is_high d \<Longrightarrow> encoded [c, d] = [REPLACEMENT]"
  "is_high c \<Longrightarrow> \<not> is_low d \<Longrightarrow> \<not> (is_high d \<and> cs = []) \<Longrightarrow> encoded (c # d # cs) = REPLACEMENT # encoded (d # cs)"
  "is_high c \<Longrightarrow> is_low d \<Longrightarrow> encoded (c # d # cs) = pair_value c d # encoded cs"
proof -
  have ne: "two_leads s \<Longrightarrow> scalars s \<noteq> []" for s by (auto simp: scalars_Nil_iff)
  have disj: "is_high c \<Longrightarrow> \<not> is_low c" "is_low c \<Longrightarrow> \<not> is_high c" for c by (auto simp: is_high_def is_low_def)
  show "\<not> is_high c \<Longrightarrow> encoded (c # cs) = (if is_low c then REPLACEMENT else c) # encoded cs"
    using ne by (simp add: encoded_def scalars_simps two_leads_not_high)
  show "is_high c \<Longrightarrow> is_low d \<Longrightarrow> encoded (c # d # cs) = pair_value c d # encoded cs"
    using ne disj(2) [of d] by (cases cs) (simp_all add: encoded_def scalars_simps two_leads_not_high)
  show "is_high c \<Longrightarrow> is_high d \<Longrightarrow> encoded [c, d] = [REPLACEMENT]"
    using disj(1) [of d] by (simp add: encoded_def scalars_simps)
  show "is_high c \<Longrightarrow> \<not> is_low d \<Longrightarrow> \<not> (is_high d \<and> cs = []) \<Longrightarrow> encoded (c # d # cs) = REPLACEMENT # encoded (d # cs)"
    using ne by (cases cs) (auto simp: encoded_def scalars_simps)
qed (simp_all add: encoded_def scalars_simps)

lemma encoded_no_leads: "\<not> two_leads s \<Longrightarrow> encoded s = scalars s"
  by (simp add: encoded_def)

lemma utf8_loop_store:
  assumes "cp < 0x110000"
  shows "(let bs = utf8_bytes cp; u' = spend None (int (length bs))
          in if room u' then bs @ utf8_loop u' 0 cs else []) = utf8 cp @ utf8_loop None 0 cs"
  by (simp add: utf8_bytes_utf8 [OF assms])

lemma utf8_loop_None:
  assumes "wf_jstr s"
  shows "utf8_loop None 0 s = utf8s (encoded s) \<and>
    (\<forall>l. is_high l \<and> s \<noteq> [] \<longrightarrow> utf8_loop None l s = utf8s (encoded (l # s)))"
  using assms
proof (induction s)
  case Nil
  then show ?case by (simp add: utf8_loop.simps encoded_simps)
next
  case (Cons c cs)
  have wf: "c < 65536" "wf_jstr cs" using Cons.prems by (simp_all add: wf_jstr_def)
  have IH: "utf8_loop None 0 cs = utf8s (encoded cs)"
    "is_high l \<Longrightarrow> cs \<noteq> [] \<Longrightarrow> utf8_loop None l cs = utf8s (encoded (l # cs))" for l
    using Cons.IH wf(2) by auto
  consider (high) "is_high c" | (low) "is_low c" | (plain) "\<not> is_high c" "\<not> is_low c" by blast
  then show ?case
  proof cases
    case high
    then have c: "0xD7FF < c" "c < 0xE000" "\<not> c > 0xDBFF" "c < 0xDC00" "surrogate c" "\<not> is_low c"
      by (auto simp: is_high_def surrogate_def is_low_def)
    have "utf8_loop None 0 (c # cs) = (if cs = [] then replacement_bytes @ utf8_loop None 0 cs else utf8_loop None c cs)"
      using c by (simp add: utf8_loop.simps(2))
    moreover have "utf8_loop None l (c # cs) = replacement_bytes @ utf8_loop None c cs" if "is_high l" for l
      using c that by (auto simp: utf8_loop.simps(2) is_high_def)
    ultimately show ?thesis using IH(2) [OF high] high c
      by (cases cs) (auto simp: encoded_simps utf8_loop.simps(1) replacement_utf8)
  next
    case low
    then have c: "0xD7FF < c" "c < 0xE000" "c > 0xDBFF" "\<not> c < 0xDC00" "\<not> is_high c"
      by (auto simp: is_high_def is_low_def)
    have "utf8_loop None 0 (c # cs) = replacement_bytes @ utf8_loop None 0 cs"
      using c by (simp add: utf8_loop.simps(2))
    moreover have "utf8_loop None l (c # cs) = utf8 (pair_value l c) @ utf8_loop None 0 cs" if "is_high l" for l
    proof -
      have "pair_value l c < 0x110000" using that low by (auto simp: pair_value_def is_high_def is_low_def)
      then show ?thesis using c that low utf8_loop_store [of "pair_value l c" cs] pair_bits [OF that low]
        by (auto simp: utf8_loop.simps(2) is_high_def)
    qed
    ultimately show ?thesis using IH(1) low c by (auto simp: encoded_simps replacement_utf8)
  next
    case plain
    then have c: "\<not> (0xD7FF < c \<and> c < 0xE000)" by (auto simp: is_high_def is_low_def)
    have "utf8_loop None l (c # cs) = (if l \<noteq> 0 then replacement_bytes else []) @ utf8 c @ utf8_loop None 0 cs" for l
      using c utf8_loop_store [of c cs] wf(1) by (subst utf8_loop.simps(2)) (auto simp: Let_def)
    moreover have "is_high l \<Longrightarrow> l \<noteq> 0" for l by (simp add: is_high_def)
    ultimately show ?thesis using IH(1) plain by (auto simp: encoded_simps replacement_utf8)
  qed
qed

lemma utf8ToBytes_encoded: "wf_jstr s \<Longrightarrow> utf8ToBytes s None = utf8s (encoded s)"
  using utf8_loop_None [of s] by (simp add: utf8ToBytes_def)

lemma utf8ToBytes_scalars: "wf_jstr s \<Longrightarrow> \<not> two_leads s \<Longrightarrow> utf8ToBytes s None = utf8s (scalars s)"
  by (simp add: utf8ToBytes_encoded encoded_no_leads)

text \<open>
  Of two unpaired leads at the end only the first is replaced; the last one is lost.
\<close>

lemma utf8ToBytes_two_leads: "utf8ToBytes [0xD800, 0xD800] None = replacement_bytes"
  by (simp add: utf8ToBytes_def utf8_loop.simps)

section \<open>isUtf8\<close>

lemma and_push_bit: "(b::nat) AND push_bit n m = push_bit n (drop_bit n b AND m)"
  by (rule bit_eqI) (auto simp: bit_simps)

lemma div_range: "0 < k \<Longrightarrow> b div k = q \<longleftrightarrow> q * k \<le> b \<and> b < Suc q * (k::nat)"
  using less_eq_div_iff_mult_less_eq [of k q b] div_less_iff_less_mult [of k b "Suc q"]
  by auto

lemma lead_ranges:
  assumes "b < (256::nat)"
  shows "b AND 0xC0 = 0x80 \<longleftrightarrow> 0x80 \<le> b \<and> b < 0xC0" "b AND 0xE0 = 0xC0 \<longleftrightarrow> 0xC0 \<le> b \<and> b < 0xE0"
    "b AND 0xF0 = 0xE0 \<longleftrightarrow> 0xE0 \<le> b \<and> b < 0xF0" "b AND 0xF8 = 0xF0 \<longleftrightarrow> 0xF0 \<le> b \<and> b < 0xF8"
proof -
  have "b div 64 < 4" "b div 32 < 8" "b div 16 < 16" "b div 8 < 32" using assms by simp_all
  then have "b AND 0xC0 = b div 64 * 64" "b AND 0xE0 = b div 32 * 32" "b AND 0xF0 = b div 16 * 16"
    "b AND 0xF8 = b div 8 * 8"
    using and_push_bit [of b 6 3] and_push_bit [of b 5 7] and_push_bit [of b 4 15] and_push_bit [of b 3 31]
    by (simp_all add: push_bit_eq_mult drop_bit_eq_div and_masks)
  moreover have "b div 64 * 64 = 0x80 \<longleftrightarrow> b div 64 = 2" "b div 32 * 32 = 0xC0 \<longleftrightarrow> b div 32 = 6"
    "b div 16 * 16 = 0xE0 \<longleftrightarrow> b div 16 = 14" "b div 8 * 8 = 0xF0 \<longleftrightarrow> b div 8 = 30" by simp_all
  ultimately show "b AND 0xC0 = 0x80 \<longleftrightarrow> 0x80 \<le> b \<and> b < 0xC0" "b AND 0xE0 = 0xC0 \<longleftrightarrow> 0xC0 \<le> b \<and> b < 0xE0"
    "b AND 0xF0 = 0xE0 \<longleftrightarrow> 0xE0 \<le> b \<and> b < 0xF0" "b AND 0xF8 = 0xF0 \<longleftrightarrow> 0xF0 \<le> b \<and> b < 0xF8"
    using div_range [of 64 b 2] div_range [of 32 b 6] div_range [of 16 b 14] div_range [of 8 b 30]
    by simp_all
qed

lemma cont_byte_range: "b < 256 \<Longrightarrow> cont_byte b \<longleftrightarrow> 0x80 \<le> b \<and> b < 0xC0"
  by (simp add: cont_byte_def lead_ranges)

lemma isUtf8_scalar:
  assumes "scalar cp"
  shows "isUtf8 (utf8 cp @ rest) = isUtf8 rest"
  using assms
proof (cases rule: utf8_cases)
  case (three a b c)
  then have "a = 0 \<longrightarrow> 32 \<le> b" "a = 13 \<longrightarrow> b < 32"
    using assms by (auto simp: scalar_def surrogate_def)
  then show ?thesis using three by (auto simp: lead_ranges cont_byte_range)
next
  case (four a b c d)
  then have "a = 0 \<longrightarrow> 16 \<le> b" "a = 4 \<longrightarrow> b < 16"
    using assms by (auto simp: scalar_def)
  then show ?thesis using four by (auto simp: lead_ranges cont_byte_range)
qed (auto simp: lead_ranges cont_byte_range)

lemma isUtf8_utf8s: "list_all scalar cps \<Longrightarrow> isUtf8 (utf8s cps)"
  by (induction cps) (simp_all add: isUtf8_scalar)

text \<open>Every sequence the validator passes over is the encoding of a scalar value.\<close>

lemma utf8_two:
  assumes "0xC2 \<le> b" "b < 0xE0" "0x80 \<le> b1" "b1 < 0xC0"
  shows "\<exists>cp. scalar cp \<and> utf8 cp = [b, b1]"
proof -
  define x y where "x = b - 0xC0" and "y = b1 - 0x80"
  have xy: "b = 0xC0 + x" "b1 = 0x80 + y" "2 \<le> x" "x < 32" "y < 64" using assms by (auto simp: x_def y_def)
  then show ?thesis
    by (intro exI [of _ "x * 64 + y"]) (simp add: scalar_def surrogate_def utf8_def)
qed

lemma utf8_three:
  assumes "0xE0 \<le> b" "b < 0xF0" "0x80 \<le> b1" "b1 < 0xC0" "0x80 \<le> b2" "b2 < 0xC0"
    and "\<not> (b = 0xE0 \<and> b1 < 0xA0)" "\<not> (b = 0xED \<and> b1 \<ge> 0xA0)"
  shows "\<exists>cp. scalar cp \<and> utf8 cp = [b, b1, b2]"
proof -
  define x y z where "x = b - 0xE0" and "y = b1 - 0x80" and "z = b2 - 0x80"
  have xyz: "b = 0xE0 + x" "b1 = 0x80 + y" "b2 = 0x80 + z" "x < 16" "y < 64" "z < 64"
    using assms by (auto simp: x_def y_def z_def)
  define cp where "cp = (x * 64 + y) * 64 + z"
  have d: "cp div 64 = x * 64 + y" "cp mod 64 = z" unfolding cp_def using xyz by (simp, simp only: mod_mult_self3 mod_less)
  then have "cp div 4096 = x" using div_mult2_eq [of cp 64 64] xyz by simp
  moreover have "(x * 64 + y) mod 64 = y" using xyz by simp
  moreover have "0x800 \<le> cp" "cp < 0x10000" using assms(7) xyz by (auto simp: cp_def)
  moreover have "\<not> surrogate cp"
  proof -
    consider "x < 13" | "x = 13" "y < 32" | "13 < x" using assms(8) xyz by fastforce
    then show ?thesis using xyz by cases (auto simp: cp_def surrogate_def)
  qed
  ultimately show ?thesis
    using d xyz by (intro exI [of _ cp]) (simp add: scalar_def utf8_def)
qed

lemma utf8_four:
  assumes "0xF0 \<le> b" "b \<le> 0xF4" "0x80 \<le> b1" "b1 < 0xC0" "0x80 \<le> b2" "b2 < 0xC0" "0x80 \<le> b3" "b3 < 0xC0"
    and "\<not> (b = 0xF0 \<and> b1 < 0x90)" "\<not> (b = 0xF4 \<and> b1 \<ge> 0x90)"
  shows "\<exists>cp. scalar cp \<and> utf8 cp = [b, b1, b2, b3]"
proof -
  define x y z w where "x = b - 0xF0" and "y = b1 - 0x80" and "z = b2 - 0x80" and "w = b3 - 0x80"
  have xyz: "b = 0xF0 + x" "b1 = 0x80 + y" "b2 = 0x80 + z" "b3 = 0x80 + w" "x \<le> 4" "y < 64" "z < 64" "w < 64"
    using assms by (auto simp: x_def y_def z_def w_def)
  define cp where "cp = ((x * 64 + y) * 64 + z) * 64 + w"
  have d: "cp div 64 = (x * 64 + y) * 64 + z" "cp mod 64 = w"
    unfolding cp_def using xyz by (simp, simp only: mod_mult_self3 mod_less)
  then have d2: "cp div 4096 = x * 64 + y" using div_mult2_eq [of cp 64 64] xyz by simp
  then have "cp div 262144 = x" using div_mult2_eq [of cp 4096 64] xyz by simp
  moreover have "(x * 64 + y) mod 64 = y" "((x * 64 + y) * 64 + z) mod 64 = z"
    using xyz by (simp, simp only: mod_mult_self3 mod_less)
  moreover have "0x10000 \<le> cp" "cp < 0x110000"
    using assms(9,10) xyz by (auto simp: cp_def)
  ultimately show ?thesis
    using d d2 xyz by (intro exI [of _ cp]) (simp add: scalar_def surrogate_def utf8_def)
qed

lemma isUtf8_step:
  assumes "isUtf8 (b # rest)" "\<forall>x\<in>set (b # rest). x < 256"
  shows "\<exists>cp rest'. scalar cp \<and> b # rest = utf8 cp @ rest' \<and> isUtf8 rest'"
proof -
  have b: "b < 256" using assms(2) by simp
  consider "b \<le> 0x7F" | "0x80 \<le> b" "b < 0xC0" | "0xC0 \<le> b" "b < 0xE0" | "0xE0 \<le> b" "b < 0xF0"
    | "0xF0 \<le> b" "b < 0xF8" | "0xF8 \<le> b" by linarith
  then show ?thesis
  proof cases
    case 1
    then show ?thesis using assms by (intro exI [of _ b] exI [of _ rest]) (simp add: scalar_def surrogate_def utf8_def)
  next
    case 3
    then obtain b1 rest' where r: "rest = b1 # rest'" "0xC2 \<le> b" "cont_byte b1" "isUtf8 rest'"
      using assms(1) b by (auto simp: lead_ranges split: list.splits)
    then obtain cp where "scalar cp" "utf8 cp = [b, b1]"
      using utf8_two [of b b1] 3 assms(2) by (auto simp: cont_byte_range)
    then show ?thesis using r by (intro exI [of _ cp] exI [of _ rest']) simp
  next
    case 4
    then obtain b1 b2 rest' where r: "rest = b1 # b2 # rest'" "cont_byte b1" "cont_byte b2"
        "\<not> (b = 0xE0 \<and> b1 < 0xA0)" "\<not> (b = 0xED \<and> b1 \<ge> 0xA0)" "isUtf8 rest'"
      using assms(1) b by (auto simp: lead_ranges split: list.splits)
    then obtain cp where "scalar cp" "utf8 cp = [b, b1, b2]"
      using utf8_three [of b b1 b2] 4 assms(2) by (auto simp: cont_byte_range)
    then show ?thesis using r by (intro exI [of _ cp] exI [of _ rest']) simp
  next
    case 5
    then obtain b1 b2 b3 rest' where r: "rest = b1 # b2 # b3 # rest'" "b \<le> 0xF4" "cont_byte b1" "cont_byte b2"
        "cont_byte b3" "\<not> (b = 0xF0 \<and> b1 < 0x90)" "\<not> (b = 0xF4 \<and> b1 \<ge> 0x90)" "isUtf8 rest'"
      using assms(1) b by (auto simp: lead_ranges split: list.splits)
    then obtain cp where "scalar cp" "utf8 cp = [b, b1, b2, b3]"
      using utf8_four [of b b1 b2 b3] 5 assms(2) by (auto simp: cont_byte_range)
    then show ?thesis using r by (intro exI [of _ cp] exI [of _ rest']) simp
  qed (use assms(1) b in \<open>simp_all add: lead_ranges\<close>)
qed

lemma isUtf8_utf8s_of:
  assumes "wf_bytes bs" "isUtf8 bs"
  shows "\<exists>cps. list_all scalar cps \<and> bs = utf8s cps"
  using assms unfolding wf_bytes_def
proof (induction "length bs" arbitrary: bs rule: less_induct)
  case less
  show ?case
  proof (cases bs)
    case Nil
    then show ?thesis by (intro exI [of _ "[]"]) simp
  next
    case (Cons b rest)
    then obtain cp rest' where cp: "scalar cp" "bs = utf8 cp @ rest'" "isUtf8 rest'"
      using isUtf8_step [of b rest] less.prems by auto
    moreover have "utf8 cp \<noteq> []" by (simp add: utf8_def)
    ultimately obtain cps where "list_all scalar cps" "rest' = utf8s cps"
      using less.hyps [of rest'] less.prems(1) by auto
    then show ?thesis using cp by (intro exI [of _ "cp # cps"]) simp
  qed
qed

text \<open>
  C22: \<open>isUtf8\<close> accepts exactly the encodings of sequences of scalar values.
\<close>
theorem isUtf8_iff:
  assumes "wf_bytes bs"
  shows "isUtf8 bs \<longleftrightarrow> (\<exists>cps. list_all scalar cps \<and> bs = utf8s cps)"
  using isUtf8_utf8s_of [OF assms] isUtf8_utf8s by blast

section \<open>Writing\<close>

lemma blit_loop_state:
  assumes "i \<le> n" "n = min len (min (length src) (length dst - offset))"
  shows "blit_loop src offset len i (take offset dst @ take i src @ drop (offset + i) dst) =
     (n, take offset dst @ take n src @ drop (offset + n) dst)"
  using assms(1)
proof (induction "n - i" arbitrary: i)
  case 0
  then have "\<not> (i < len \<and> \<not> (i + offset \<ge> length dst \<or> i \<ge> length src))" using assms(2) by auto
  then show ?case using 0 by (subst blit_loop.simps) (auto simp: assms(2))
next
  case (Suc k)
  then have i: "i < len" "i < length src" "i + offset < length dst" using assms(2) by auto
  have upd: "(take offset dst @ take i src @ drop (offset + i) dst)[i + offset := src ! i] =
      take offset dst @ take (i + 1) src @ drop (offset + (i + 1)) dst"
    using i Cons_nth_drop_Suc [of "offset + i" dst]
    by (simp add: list_update_append take_Suc_conv_app_nth min_def)
      (metis add.commute drop_Suc_Cons drop0 drop_drop list_update_code(2) plus_1_eq_Suc)
  show ?case
    using i upd Suc.hyps(1) [of "i + 1"] Suc.hyps(2) by (subst blit_loop.simps) simp
qed

lemma blitBuffer_eq:
  "blitBuffer src dst offset len =
     (let n = min len (min (length src) (length dst - offset))
      in (n, take offset dst @ take n src @ drop (offset + n) dst))"
  using blit_loop_state [of 0 "min len (min (length src) (length dst - offset))" len src dst offset]
  by (simp add: blitBuffer_def Let_def)

lemma blitBuffer_exact: "length src = n \<Longrightarrow> blitBuffer src (replicate n 0) 0 n = (n, src)"
  by (simp add: blitBuffer_eq)

section \<open>Round trips through toString and fromString\<close>

definition encoding_name :: "encoding \<Rightarrow> jstr" where
  [js_eval]: "encoding_name e =
     (case e of Hex \<Rightarrow> js ''hex'' | Utf8 \<Rightarrow> js ''utf8'' | Ascii \<Rightarrow> js ''ascii'' | Latin1 \<Rightarrow> js ''latin1''
      | Base64 \<Rightarrow> js ''base64'' | Base64url \<Rightarrow> js ''base64url'' | Utf16le \<Rightarrow> js ''utf16le'')"

lemma encoding_name_simps:
  "encoding_case (encoding_name e) = Some e" "encoding_name e \<noteq> []" "\<not> falsy (JStr (encoding_name e))"
  by (cases e; simp add: js_eval)+

lemma fromString_eq:
  assumes "lc (encoding_name e) = encoding_name e"
    and "if s = [] then n = 0 else encoded_length e s = Inr n"
    and "write_encoded e (replicate n 0) s 0 n = Inr (n, bs)"
  shows "fromString to_string to_number lc s (JStr (encoding_name e)) = Inr bs"
  using assms encoding_name_simps [of e]
  by (auto simp: fromString_def isEncoding_def byteLength_def find_encoding_def buf_write_def
      write_args_def named_encoding_def split: if_splits)

text \<open>Latin-1 and UTF-16.\<close>

lemma and_255_small: "b < 256 \<Longrightarrow> b AND 0xFF = (b::nat)"
  by (simp add: and_masks)

lemma latin1_bytes: "wf_bytes bs \<Longrightarrow> asciiToBytes bs = bs"
  by (simp add: asciiToBytes_def wf_bytes_def and_255_small map_idI)

lemma utf16_bytes:
  assumes "even (length bs)" "wf_bytes bs" "int (length bs) \<le> u"
  shows "utf16leToBytes (utf16_units_of bs) u = bs \<and> 2 * length (utf16_units_of bs) = length bs"
  using assms
proof (induction bs arbitrary: u rule: utf16_units_of.induct)
  case (1 lo hi bs)
  then have "lo < 256" by (simp add: wf_bytes_def)
  then have "(lo + hi * 256) mod 256 = lo" "drop_bit 8 (lo + hi * 256) = hi" by (simp_all add: drop_bit_eq_div)
  then show ?case using 1 "1.IH" [of "u - 2"] by (simp add: wf_bytes_def)
qed auto

text \<open>Hexadecimal.\<close>

lemma hex_lower_range: "d < 16 \<Longrightarrow> hex_lower d < 128 \<and> hexCharValueTable ! hex_lower d = int d"
proof -
  have "list_all (\<lambda>d. hex_lower d < 128 \<and> hexCharValueTable ! hex_lower d = int d) [0..<16]" by code_simp
  then show "d < 16 \<Longrightarrow> ?thesis" by (simp add: list_all_iff)
qed

lemma concat_table_nth:
  "i < n \<Longrightarrow> j < 16 \<Longrightarrow> concat (map (\<lambda>i. map (f i) [0..<16]) [0..<n]) ! (i * 16 + j) = f i j"
proof (induction n)
  case (Suc n)
  have "length (concat (map (\<lambda>i. map (f i) [0..<16]) [0..<n])) = n * 16" by (induction n) simp_all
  then show ?case using Suc by (cases "i < n") (auto simp: nth_append less_Suc_eq)
qed simp

lemma hexSliceTable_nth: "b < 256 \<Longrightarrow> hexSliceLookupTable ! b = [hex_lower (b div 16), hex_lower (b mod 16)]"
  using concat_table_nth [of "b div 16" 16 "b mod 16" "\<lambda>i j. [hex_lower i, hex_lower j]"]
  by (simp add: hexSliceLookupTable_def)

definition hex_text :: "bytes \<Rightarrow> jstr" where
  "hex_text bs = concat (map (\<lambda>b. [hex_lower (b div 16), hex_lower (b mod 16)]) bs)"

lemma length_hex_text: "length (hex_text bs) = 2 * length bs"
  by (induction bs) (simp_all add: hex_text_def)

lemma hexSlice_text:
  assumes "wf_bytes bs"
  shows "hexSlice bs 0 (length bs) = hex_text bs"
  using assms
  by (auto simp: hexSlice_def hex_text_def bytes_of_def wf_bytes_def hexSliceTable_nth
      intro!: arg_cong [of _ _ concat])

lemma hex_text_nth:
  "i < length bs \<Longrightarrow> hex_text bs ! (i * 2) = hex_lower (bs ! i div 16) \<and>
     hex_text bs ! (i * 2 + 1) = hex_lower (bs ! i mod 16)"
proof (induction bs arbitrary: i)
  case (Cons b bs)
  then show ?case by (cases i) (simp_all add: hex_text_def)
qed simp

lemma and_not_7F:
  assumes "x < 128"
  shows "int x AND - 128 = 0"
proof -
  have "take_bit 7 (int x) = int x" using assms by (simp add: take_bit_int_eq_self)
  then have "int x AND NOT (mask 7) = (int x AND mask 7) AND NOT (mask 7)"
    by (metis take_bit_eq_mask)
  also have "... = int x AND (mask 7 AND NOT (mask 7))" by (rule and.assoc)
  finally show ?thesis by (simp add: mask_eq_exp_minus_1)
qed

lemma hex_write_loop_text:
  assumes "i \<le> n" "wf_bytes bs" "length bs = n"
  shows "hex_write_loop (hex_text bs) i (int n) 0 (take i bs @ replicate (n - i) 0) = (int n, bs)"
  using assms(1)
proof (induction "n - i" arbitrary: i)
  case 0
  then show ?case using assms(3) by (subst hex_write_loop.simps) simp
next
  case (Suc k)
  then have i: "i < n" by simp
  then have b: "bs ! i < 256" using assms(2,3) by (simp add: wf_bytes_def)
  define a c where "a = bs ! i div 16" and "c = bs ! i mod 16"
  have ac: "a < 16" "c < 16" using b by (auto simp: a_def c_def)
  have chars: "hex_text bs ! (i * 2) = hex_lower a" "hex_text bs ! (i * 2 + 1) = hex_lower c"
    using hex_text_nth [of i bs] i assms(3) by (simp_all add: a_def c_def)
  have low: "hex_lower a AND 0x7F = hex_lower a" "hex_lower c AND 0x7F = hex_lower c"
    using hex_lower_range ac by (simp_all add: and_masks)
  have tab: "hexCharValueTable ! hex_lower a = int a" "hexCharValueTable ! hex_lower c = int c"
    using hex_lower_range ac by simp_all
  have ok: "(int (hex_lower a) OR int (hex_lower c) OR int a OR int c) AND NOT 0x7F = 0"
    using hex_lower_range ac by (simp add: bit.conj_disj_distrib2 and_not_7F less_trans [of _ 16 128])
  have "push_bit 4 (int a) OR int c = int (push_bit 4 a OR c)"
    by (simp add: of_nat_or_eq of_nat_push_bit)
  also have "push_bit 4 a OR c = bs ! i"
    using or_disjoints(2) [OF ac(2), of a] by (simp add: push_bit_eq_mult a_def c_def)
  finally have byte: "nat (push_bit 4 (int a) OR int c) = bs ! i" by simp
  have "n - i = Suc k" "n - (i + 1) = k" using Suc.hyps(2) by simp_all
  then have upd: "(take i bs @ replicate (n - i) 0)[i := bs ! i] = take (i + 1) bs @ replicate (n - (i + 1)) 0"
    using i assms(3) by (simp add: list_update_append take_Suc_conv_app_nth)
  have "hex_write_loop (hex_text bs) i (int n) 0 (take i bs @ replicate (n - i) 0) =
      hex_write_loop (hex_text bs) (i + 1) (int n) 0 ((take i bs @ replicate (n - i) 0)[0 + i := bs ! i])"
    using i by (subst hex_write_loop.simps) (simp only: Let_def chars low tab ok byte of_nat_less_iff if_True not_True_eq_False if_False refl)
  then show ?case using upd Suc.hyps(1) [of "i + 1"] Suc.hyps(2) by simp
qed

lemma hexWrite_text:
  assumes "wf_bytes bs" "length bs = n"
  shows "hexWrite (replicate n 0) (hex_text bs) 0 (Some n) = (int n, bs)"
  using hex_write_loop_text [of 0 n bs] assms by (cases n) (simp_all add: hexWrite_def length_hex_text Let_def)

text \<open>Base64, with and without padding.\<close>

definition url_char :: "nat \<Rightarrow> nat" where
  "url_char c = (if c = 43 then 45 else if c = 47 then 95 else c)"

lemma b64_code_62: "b64_lookup 62 = 43" "b64_lookup 63 = 47"
  by (simp_all add: b64_lookup_def b64_code_def js_def)

lemma revLookup_url: "revLookup (url_char c) = revLookup c"
  using revLookup_lookup [of 62] revLookup_lookup [of 63]
  by (auto simp: url_char_def b64_code_62 revLookup_def)

lemma url_char_EQUALS: "url_char c = EQUALS \<longleftrightarrow> c = EQUALS"
  by (simp add: url_char_def)

lemma b64_bits_url: "b64_bits (map url_char s) i = b64_bits s i"
  by (simp add: b64_bits_def revLookup_url)

lemma indexOf_url: "indexOf (map url_char s) [EQUALS] 0 = indexOf s [EQUALS] 0"
proof -
  have "find (occurs_at [EQUALS] (map url_char s)) xs = find (occurs_at [EQUALS] s) xs" for xs
    by (induction xs) (auto simp: occurs_at_char url_char_EQUALS)
  then show ?thesis by (simp add: indexOf_def)
qed

lemma b64_quads_url: "b64_quads (map url_char s) i len = b64_quads s i len"
proof (induction s i len rule: b64_quads.induct)
  case (1 s i len)
  then show ?case
    by (subst (1 2) b64_quads.simps) (simp add: b64_quad_def b64_bits_url)
qed

lemma toByteArray_url: "toByteArray (map url_char s) = toByteArray s"
proof -
  have "getLens (map url_char s) = getLens s" by (simp add: getLens_def indexOf_url Let_def)
  moreover have "b64_tail (map url_char s) i n = b64_tail s i n" for i n
    by (simp add: b64_tail_def b64_bits_url)
  ultimately show ?thesis by (simp only: toByteArray_def b64_quads_url)
qed

text \<open>The digits of an encoding, its padding removed.\<close>

definition b64_digits :: "bytes \<Rightarrow> jstr" where
  "b64_digits bs = takeWhile (\<lambda>c. c \<noteq> EQUALS) (rfc4648 bs)"

lemma b64_lookup_char: "i < 64 \<Longrightarrow> base64_char (b64_lookup i) \<and> \<not> is_space (b64_lookup i)"
proof -
  assume "i < 64"
  then have "b64_lookup i \<in> set b64_code" by (rule b64_lookup_mem)
  moreover have "list_all (\<lambda>c. base64_char c \<and> \<not> is_space c) b64_code"
    by (simp add: b64_code_def js_def base64_char_def is_space_def)
  ultimately show ?thesis by (auto simp: list_all_iff)
qed

definition padding :: "nat \<Rightarrow> nat" where
  "padding n = (if n mod 3 = 0 then 0 else 3 - n mod 3)"

lemma padding_simps [simp]: "padding (Suc (Suc (Suc n))) = padding n" "padding 0 = 0" "padding (Suc 0) = 2"
  "padding (Suc (Suc 0)) = 1"
  by (simp_all add: padding_def)

lemma rfc4648_shape:
  assumes "\<forall>b\<in>set bs. b < 256"
  shows "\<exists>ds. rfc4648 bs = map b64_lookup ds @ replicate (padding (length bs)) EQUALS \<and>
    list_all (\<lambda>d. d < 64) ds \<and> (length ds + padding (length bs)) mod 4 = 0 \<and> (bs \<noteq> [] \<longrightarrow> 2 \<le> length ds)"
  using assms
proof (induction bs rule: rfc4648.induct)
  case (1 a b c bs)
  then obtain ds where ds: "rfc4648 bs = map b64_lookup ds @ replicate (padding (length bs)) EQUALS"
    "list_all (\<lambda>d. d < 64) ds" "(length ds + padding (length bs)) mod 4 = 0"
    by auto
  define qs where "qs = [a div 4, a mod 4 * 16 + b div 16, b mod 16 * 4 + c div 64, c mod 64]"
  have "list_all (\<lambda>d. d < 64) qs" using 1(2) by (auto simp: qs_def)
  moreover have "rfc4648 (a # b # c # bs) = map b64_lookup qs @ rfc4648 bs" "length qs = 4" by (simp_all add: qs_def)
  ultimately show ?case using ds by (intro exI [of _ "qs @ ds"]) (simp add: add.assoc del: rfc4648.simps)
next
  case (2 a b)
  then show ?case
    by (intro exI [of _ "[a div 4, a mod 4 * 16 + b div 16, b mod 16 * 4]"]) auto
next
  case (3 a)
  then show ?case
    by (intro exI [of _ "[a div 4, a mod 4 * 16]"]) (auto simp: numeral_2_eq_2)
qed simp

lemma dropWhile_none: "list_all (\<lambda>c. \<not> P c) t \<Longrightarrow> dropWhile P t = t"
  by (cases t) simp_all

lemma trim_id: "list_all (\<lambda>c. \<not> is_space c) s \<Longrightarrow> trim s = s"
  by (simp add: trim_def dropWhile_none)

lemma digits_plain:
  assumes "list_all (\<lambda>d. d < 64) ds"
  shows "list_all (\<lambda>c. base64_char c \<and> \<not> is_space c \<and> c \<noteq> EQUALS) (map b64_lookup ds)"
  using assms by (auto simp: list_all_iff b64_lookup_char lookup_not_EQUALS)

lemma url_char_plain:
  assumes "base64_char c"
  shows "base64_char (url_char c)" "\<not> is_space c \<Longrightarrow> \<not> is_space (url_char c)"
proof -
  have "base64_char 45" "\<not> is_space 45" "base64_char 95" "\<not> is_space 95"
    by (simp_all add: base64_char_def is_space_def)
  then show "base64_char (url_char c)" "\<not> is_space c \<Longrightarrow> \<not> is_space (url_char c)"
    using assms by (simp_all add: url_char_def)
qed

lemma url_plain:
  "list_all (\<lambda>c. base64_char c \<and> \<not> is_space c \<and> c \<noteq> EQUALS) s \<Longrightarrow>
   list_all (\<lambda>c. base64_char c \<and> \<not> is_space c \<and> c \<noteq> EQUALS) (map url_char s)"
  by (induction s) (simp_all add: url_char_plain url_char_EQUALS)

lemma mod_4_complement:
  fixes r n :: nat
  assumes "r < 4" "n < 3" "(r + n) mod 4 = 0"
  shows "(4 - r) mod 4 = n"
proof -
  have "r = 0 \<or> r = 1 \<or> r = 2 \<or> r = 3" "n = 0 \<or> n = 1 \<or> n = 2" using assms(1,2) by linarith+
  then show ?thesis using assms(3) by (elim disjE) simp_all
qed

lemma mod_4_cases:
  fixes r n :: nat
  assumes "r < 4" "n < 3" "(r + n) mod 4 = 0"
  shows "(r = 2 \<longleftrightarrow> n = 2) \<and> (r = 3 \<longleftrightarrow> n = 1) \<and> (n = 0 \<or> n = 1 \<or> n = 2)"
proof -
  have "r = 0 \<or> r = 1 \<or> r = 2 \<or> r = 3" "n = 0 \<or> n = 1 \<or> n = 2" using assms(1,2) by linarith+
  then show ?thesis using assms(3) by (elim disjE) simp_all
qed

lemma base64clean_eq:
  assumes "list_all (\<lambda>c. base64_char c \<and> \<not> is_space c \<and> c \<noteq> EQUALS) s" "2 \<le> length s"
    and "(length s + n) mod 4 = 0" "n < 3" "m = 0 \<or> m = n"
  shows "base64clean (s @ replicate m EQUALS) = s @ replicate n EQUALS"
proof -
  have "splitP (\<lambda>c. c = EQUALS) (s @ replicate m EQUALS) =
      (s @ hd (splitP (\<lambda>c. c = EQUALS) (replicate m EQUALS))) # tl (splitP (\<lambda>c. c = EQUALS) (replicate m EQUALS))"
    using assms(1) by (intro splitP_append_none) (auto simp: list_all_iff)
  moreover have "hd (splitP (\<lambda>c. c = EQUALS) (replicate m EQUALS)) = []" by (cases m) simp_all
  ultimately have "hd (splitP (\<lambda>c. c = EQUALS) (s @ replicate m EQUALS)) = s" by simp
  moreover have "trim s = s" using assms(1) by (intro trim_id) (auto simp: list_all_iff)
  moreover have "filter base64_char s = s" using assms(1) by (auto simp: list_all_iff filter_id_conv)
  moreover have "(4 - length s mod 4) mod 4 = n"
    using mod_4_complement [of "length s mod 4" n] assms(3,4) by (simp add: mod_add_left_eq)
  ultimately show ?thesis using assms(2) by (simp add: base64clean_def)
qed

lemma strip_padding_eq:
  "list_all (\<lambda>c. c \<noteq> EQUALS) s \<Longrightarrow> strip_padding (s @ replicate n EQUALS) = s"
proof -
  assume "list_all (\<lambda>c. c \<noteq> EQUALS) s"
  then have "dropWhile (\<lambda>c. c = EQUALS) (rev s) = rev s" by (intro dropWhile_none) simp
  moreover have "dropWhile (\<lambda>c. c = EQUALS) (replicate n EQUALS @ t) = dropWhile (\<lambda>c. c = EQUALS) t" for t
    by (induction n) simp_all
  ultimately show ?thesis by (simp add: strip_padding_def)
qed

lemma bytes_of_all [simp]: "bytes_of bs 0 (length bs) = bs"
  by (simp add: bytes_of_def)

lemma toByteArray_Nil: "toByteArray [] = Inr []"
  by (simp add: toByteArray_def getLens_def indexOf_char_notin b64_placeholder_length_def b64_quads.simps
      b64_tail_def into_array_def)

lemma base64ToBytes_Nil: "base64ToBytes [] = Inr []"
  by (simp add: base64ToBytes_def base64clean_def trim_def toByteArray_Nil)

lemma base64ToBytes_padded:
  assumes "wf_bytes bs"
  shows "base64ToBytes (fromByteArray bs) = Inr bs"
    and "base64ToBytes (base64urlSlice bs 0 (length bs)) = Inr bs"
    and "base64ToBytes (base64UrlToBase64 (base64urlSlice bs 0 (length bs))) = Inr bs"
proof -
  define n where "n = padding (length bs)"
  obtain ds where ds: "rfc4648 bs = map b64_lookup ds @ replicate n EQUALS" "list_all (\<lambda>d. d < 64) ds"
      "(length ds + n) mod 4 = 0" "bs \<noteq> [] \<longrightarrow> 2 \<le> length ds"
  proof -
    have "\<forall>b\<in>set bs. b < 256" using assms by (simp add: wf_bytes_def)
    from rfc4648_shape [OF this] show ?thesis unfolding n_def [symmetric] by (elim exE conjE) (rule that)
  qed
  define s where "s = map b64_lookup ds"
  define u where "u = map url_char s"
  have plain: "list_all (\<lambda>c. base64_char c \<and> \<not> is_space c \<and> c \<noteq> EQUALS) s" unfolding s_def by (rule digits_plain [OF ds(2)])
  have uplain: "list_all (\<lambda>c. base64_char c \<and> \<not> is_space c \<and> c \<noteq> EQUALS) u" unfolding u_def by (rule url_plain [OF plain])
  have n: "n < 3" by (simp add: n_def padding_def)
  have enc: "fromByteArray bs = s @ replicate n EQUALS" using fromByteArray_rfc4648 [OF assms] ds(1) by (simp add: s_def)
  have dec: "toByteArray (s @ replicate n EQUALS) = Inr bs" using base64_round_trip [OF assms] by (simp add: enc)
  have "map url_char (s @ replicate n EQUALS) = u @ replicate n EQUALS" by (simp add: u_def url_char_def)
  then have udec: "toByteArray (u @ replicate n EQUALS) = Inr bs"
    using toByteArray_url [of "s @ replicate n EQUALS"] dec by (simp only:)
  have "map (\<lambda>c. if c = 43 then 45 else if c = 47 then 95 else c) (s @ replicate n EQUALS) = u @ replicate n EQUALS"
    by (simp add: u_def url_char_def [abs_def])
  then have url: "base64urlSlice bs 0 (length bs) = u"
    using uplain by (simp add: base64urlSlice_def base64Slice_def enc strip_padding_eq list_all_iff del: map_append)
  have "(if url_char c = 45 then 43 else if url_char c = 95 then 47 else url_char c) = c" if c: "c \<in> set s" for c
  proof -
    obtain d where "d < 64" "c = b64_lookup d" using c ds(2) by (auto simp: s_def list_all_iff)
    then have "c \<in> set b64_code" using b64_lookup_mem by simp
    then show ?thesis using b64_code_codes(3,4) by (auto simp: url_char_def)
  qed
  then have "map (\<lambda>c. if c = 45 then 43 else if c = 95 then 47 else c) u = s"
    by (auto simp: u_def intro: map_idI)
  moreover have "length u = length ds" by (simp add: u_def s_def)
  moreover have "length ds mod 4 = 2 \<longleftrightarrow> n = 2" "length ds mod 4 = 3 \<longleftrightarrow> n = 1" "n = 0 \<or> n = 1 \<or> n = 2"
    using mod_4_cases [of "length ds mod 4" n] ds(3) n by (simp_all add: mod_add_left_eq)
  ultimately have std: "base64UrlToBase64 u = s @ replicate n EQUALS"
    by (auto simp: base64UrlToBase64_def numeral_2_eq_2)
  have clean: "base64clean (t @ replicate m EQUALS) = t @ replicate n EQUALS"
    if "bs \<noteq> []" "t \<in> {s, u}" "m = 0 \<or> m = n" for t m
    using that plain uplain ds(3,4) n by (intro base64clean_eq) (auto simp: s_def u_def)
  have "fromByteArray [] = []" by (simp add: fromByteArray_def encodeChunks.simps)
  note empty = this
  have nil: "s = []" "n = 0" "u = []" if "bs = []"
    using that enc by (simp_all add: n_def u_def empty)
  show "base64ToBytes (fromByteArray bs) = Inr bs"
    unfolding enc using clean [of s n] dec nil
    by (cases "bs = []") (simp_all add: base64ToBytes_Nil, simp add: base64ToBytes_def)
  show "base64ToBytes (base64urlSlice bs 0 (length bs)) = Inr bs"
    unfolding url using clean [of u 0] udec nil
    by (cases "bs = []") (simp_all add: base64ToBytes_Nil, simp add: base64ToBytes_def)
  show "base64ToBytes (base64UrlToBase64 (base64urlSlice bs 0 (length bs))) = Inr bs"
    unfolding url std using clean [of s n] dec nil
    by (cases "bs = []") (simp_all add: base64ToBytes_Nil, simp add: base64ToBytes_def)
qed

text \<open>
  C32: For every encoding that loses nothing, the bytes of a buffer survive \<open>toString\<close> followed by
  \<open>Buffer.from\<close>; the lower-casing of an encoding name that is already in lower case is
  the identity.
\<close>
theorem fromString_toString:
  assumes "wf_bytes bs" and "lc (encoding_name e) = encoding_name e"
    and "e \<in> {Hex, Latin1, Base64, Base64url} \<or> e = Utf16le \<and> even (length bs)"
  shows "\<exists>s. encoded_slice e bs 0 (length bs) = Inr s \<and>
     fromString to_string to_number lc s (JStr (encoding_name e)) = Inr bs"
proof -
  have blit: "blitBuffer bs (replicate (length bs) 0) 0 (length bs) = (length bs, bs)"
    by (rule blitBuffer_exact) simp
  have "\<exists>s n. encoded_slice e bs 0 (length bs) = Inr s \<and> (if s = [] then n = 0 else encoded_length e s = Inr n) \<and>
     write_encoded e (replicate n 0) s 0 n = Inr (n, bs)"
    using assms(3)
  proof (elim disjE insertE conjE; (elim emptyE)?)
    assume "e = Hex"
    then show ?thesis using hexSlice_text [OF assms(1)] hexWrite_text [OF assms(1) refl] length_hex_text [of bs]
      by (intro exI [of _ "hex_text bs"] exI [of _ "length bs"])
        (auto simp: encoded_slice_def encoded_length_def write_encoded_def)
  next
    assume "e = Latin1"
    then show ?thesis using blit latin1_bytes [OF assms(1)]
      by (intro exI [of _ bs] exI [of _ "length bs"])
        (auto simp: encoded_slice_def latin1Slice_def encoded_length_def write_encoded_def asciiWrite_def)
  next
    assume "e = Base64"
    then show ?thesis using blit base64ToBytes_padded(1) [OF assms(1)]
      by (intro exI [of _ "fromByteArray bs"] exI [of _ "length bs"])
        (auto simp: encoded_slice_def base64Slice_def encoded_length_def write_encoded_def base64Write_def
          base64ToBytes_Nil)
  next
    assume "e = Base64url"
    then show ?thesis using blit base64ToBytes_padded(2,3) [OF assms(1)]
      by (intro exI [of _ "base64urlSlice bs 0 (length bs)"] exI [of _ "length bs"])
        (auto simp: encoded_slice_def encoded_length_def write_encoded_def base64Write_def
          base64ToBytes_Nil)
  next
    assume "e = Utf16le" "even (length bs)"
    then show ?thesis using blit utf16_bytes [of bs "int (length bs)"] assms(1)
      by (intro exI [of _ "utf16_units_of bs"] exI [of _ "length bs"])
        (auto simp: encoded_slice_def utf16leSlice_def encoded_length_def write_encoded_def ucs2Write_def)
  qed
  then show ?thesis using fromString_eq [of lc e] assms(2) by blast
qed

definition ascii_lower :: "jstr \<Rightarrow> jstr" where
  [js_eval]: "ascii_lower s = map (\<lambda>c. if 65 \<le> c \<and> c \<le> 90 then c + 32 else c) s"

lemma ascii_lower_name: "ascii_lower (encoding_name e) = encoding_name e"
  by (cases e; simp add: js_eval)

lemma fromString_toString_witness:
  "\<exists>s. encoded_slice Base64url [0, 255, 16, 7] 0 (length [0, 255, 16, 7::nat]) = Inr s \<and>
     fromString (\<lambda>_. Inr []) (\<lambda>_. NaN) ascii_lower s (JStr (encoding_name Base64url)) = Inr [0, 255, 16, 7]"
  by (rule fromString_toString) (simp_all add: ascii_lower_name wf_bytes_def)

lemma two_leads_last: "two_leads s \<Longrightarrow> is_high (last s)"
  by (cases s rule: rev_cases) (auto simp: two_leads_def split: list.splits)

lemma utf16s_no_leads:
  assumes "list_all scalar cps"
  shows "\<not> two_leads (utf16s cps)"
proof (cases cps rule: rev_cases)
  case (snoc cs y)
  have y: "scalar y" using assms snoc by simp
  have "\<not> is_high (last (utf16 y))" "utf16 y \<noteq> []"
    using y by (auto simp: utf16_def scalar_def surrogate_def is_high_def)
  then have "\<not> is_high (last (utf16s cps))" by (simp add: snoc)
  then show ?thesis using two_leads_last by blast
qed simp

text \<open>
  C31: UTF-8 text: decoding what \<open>utf8ToBytes\<close> produced gives the string with each unpaired surrogate
  replaced by U+FFFD, except that where the string ends with two leading surrogates the last one is
  dropped; and encoding the decoded text of valid UTF-8 gives the bytes back.
\<close>
theorem utf8_round_trip:
  assumes "wf_jstr s" and "wf_bytes bs" "isUtf8 bs"
  shows "utf8_decode_v8 (utf8ToBytes s None) = utf16s (if two_leads s then butlast (scalars s) else scalars s) \<and>
    utf8ToBytes (utf8_decode_v8 bs) None = bs"
proof
  have "list_all scalar (scalars s)"
    using code_points_bounds [OF assms(1)] by (auto simp: list_all_iff scalars_def scalar_def surrogate_def)
  then have "list_all scalar (encoded s)" by (auto simp: encoded_def list_all_iff dest: in_set_butlastD)
  then show "utf8_decode_v8 (utf8ToBytes s None) = utf16s (if two_leads s then butlast (scalars s) else scalars s)"
    using assms(1) by (simp add: utf8ToBytes_encoded decode_utf8s flip: encoded_def)
next
  obtain cps where cps: "list_all scalar cps" "bs = utf8s cps" using isUtf8_utf8s_of [OF assms(2,3)] by blast
  have cp: "code_points (utf16s cps) = cps" using cps(1) by (rule code_points_utf16s)
  have "well_formed (utf16s cps)" using cps(1) by (rule well_formed_utf16s)
  then have wf: "wf_jstr (utf16s cps)" by (simp add: well_formed_def wf_jstr_def list_all_iff)
  have "scalars (utf16s cps) = cps"
    using cps(1) by (auto simp: scalars_def cp list_all_iff scalar_def intro: map_idI)
  then show "utf8ToBytes (utf8_decode_v8 bs) None = bs"
    using utf8ToBytes_scalars [OF wf utf16s_no_leads [OF cps(1)]] cps by (simp add: decode_utf8s)
qed

lemma utf8_round_trip_witness:
  "utf8_decode_v8 (utf8ToBytes [0x20AC, 0xD83D, 0xDE00] None) =
     utf16s (if two_leads [0x20AC, 0xD83D, 0xDE00] then butlast (scalars [0x20AC, 0xD83D, 0xDE00])
             else scalars [0x20AC, 0xD83D, 0xDE00]) \<and>
   utf8ToBytes (utf8_decode_v8 [0xE2, 0x82, 0xAC, 0x41]) None = [0xE2, 0x82, 0xAC, 0x41]"
  by (rule utf8_round_trip) (simp_all add: wf_jstr_def wf_bytes_def lead_ranges cont_byte_range)

lemma isUtf8_iff_witness:
  "isUtf8 [0xE0, 0x90, 0x80] \<longleftrightarrow> (\<exists>cps. list_all scalar cps \<and> [0xE0, 0x90, 0x80] = utf8s cps)"
  by (rule isUtf8_iff) (simp add: wf_bytes_def)

end
