(* ===== verification/String_Decoder.thy ===== *)
theory String_Decoder
  imports Buffer_Codec_Laws
begin

unbundle bit_operations_syntax

text \<open>
  The modules \<open>builtin/string_decoder.js\<close> and \<open>builtin/internal/normalize_encoding.js\<close>: a decoder
  object that turns a sequence of byte chunks into text without breaking characters, with its
  buffered bytes (\<open>lastChar\<close>), the number of bytes still needed (\<open>lastNeed\<close>) and the length of the
  incomplete character (\<open>lastTotal\<close>). \<open>lc\<close> is \<open>String.prototype.toLowerCase\<close>.
\<close>

section \<open>Encoding names\<close>

definition slowCases :: "(jstr \<Rightarrow> jstr) \<Rightarrow> jstr \<Rightarrow> encoding option" where
  [js_eval]: "slowCases lc enc =
     (let low = lc enc
      in if length enc = 4
         then if enc = js ''UTF8'' then Some Utf8
              else if enc = js ''ucs2'' \<or> enc = js ''UCS2'' then Some Utf16le
              else if low = js ''utf8'' then Some Utf8
              else if low = js ''ucs2'' then Some Utf16le else None
         else if length enc = 3
         then if enc = js ''hex'' \<or> enc = js ''HEX'' \<or> low = js ''hex'' then Some Hex else None
         else if length enc = 5
         then if enc = js ''ascii'' then Some Ascii
              else if enc = js ''ucs-2'' then Some Utf16le
              else if enc = js ''UTF-8'' then Some Utf8
              else if enc = js ''ASCII'' then Some Ascii
              else if enc = js ''UCS-2'' then Some Utf16le
              else if low = js ''utf-8'' then Some Utf8
              else if low = js ''ascii'' then Some Ascii
              else if low = js ''ucs-2'' then Some Utf16le else None
         else if length enc = 6
         then if enc = js ''base64'' then Some Base64
              else if enc = js ''latin1'' \<or> enc = js ''binary'' then Some Latin1
              else if enc = js ''BASE64'' then Some Base64
              else if enc = js ''LATIN1'' \<or> enc = js ''BINARY'' then Some Latin1
              else if low = js ''base64'' then Some Base64
              else if low = js ''latin1'' \<or> low = js ''binary'' then Some Latin1 else None
         else if length enc = 7
         then if enc = js ''utf16le'' \<or> enc = js ''UTF16LE'' \<or> low = js ''utf16le'' then Some Utf16le else None
         else if length enc = 8
         then if enc = js ''utf-16le'' \<or> enc = js ''UTF-16LE'' \<or> low = js ''utf-16le'' then Some Utf16le else None
         else if length enc = 9
         then if enc = js ''base64url'' \<or> enc = js ''BASE64URL'' \<or> low = js ''base64url'' then Some Base64url else None
         else if enc = [] then Some Utf8 else None)"

definition normalizeEncoding :: "(jstr \<Rightarrow> jstr) \<Rightarrow> jsval \<Rightarrow> encoding option" where
  [js_eval]: "normalizeEncoding lc enc =
     (case enc of
        JUndefined \<Rightarrow> Some Utf8
      | JNull \<Rightarrow> Some Utf8
      | JStr s \<Rightarrow> if s = js ''utf8'' \<or> s = js ''utf-8'' then Some Utf8 else slowCases lc s
      | _ \<Rightarrow> None)"

section \<open>The decoder object\<close>

record decoder =
  sd_encoding :: encoding
  lastNeed :: nat
  lastTotal :: nat
  lastChar :: bytes

definition newStringDecoder :: "(jstr \<Rightarrow> jstr) \<Rightarrow> jsval \<Rightarrow> js_error + decoder" where
  [js_eval]: "newStringDecoder lc encoding =
     (case normalizeEncoding lc encoding of
        None \<Rightarrow> Inl (ERR_UNKNOWN_ENCODING encoding)
      | Some enc \<Rightarrow>
          Inr \<lparr>sd_encoding = enc, lastNeed = 0, lastTotal = 0,
               lastChar = (case enc of Utf16le \<Rightarrow> replicate 4 0 | Utf8 \<Rightarrow> replicate 4 0
                 | Base64 \<Rightarrow> replicate 3 0 | Base64url \<Rightarrow> replicate 3 0 | _ \<Rightarrow> [])\<rparr>)"

text \<open>\<open>buf.toString(encoding, i, stop)\<close> for an encoding that cannot fail.\<close>

definition slice_text :: "encoding \<Rightarrow> bytes \<Rightarrow> nat \<Rightarrow> nat \<Rightarrow> jstr" where
  [js_eval]: "slice_text e buf i stop =
     (if min stop (length buf) \<le> i then []
      else case encoded_slice e buf i (min stop (length buf)) of Inr s \<Rightarrow> s | Inl _ \<Rightarrow> [])"

text \<open>\<open>buf.copy(target, targetStart, start, stop)\<close> for offsets inside the two buffers.\<close>

definition copy_bytes :: "bytes \<Rightarrow> bytes \<Rightarrow> nat \<Rightarrow> nat \<Rightarrow> nat \<Rightarrow> bytes" where
  [js_eval]: "copy_bytes src target targetStart start stop =
     (let n = min (min stop (length src) - start) (length target - targetStart)
      in take targetStart target @ take n (drop start src) @ drop (targetStart + n) target)"

subsection \<open>UTF-8\<close>

definition utf8CheckByte :: "nat \<Rightarrow> int" where
  [js_eval]: "utf8CheckByte byte =
     (if byte \<le> 0x7F then 0
      else if drop_bit 5 byte = 0x06 then 2
      else if drop_bit 4 byte = 0x0E then 3
      else if drop_bit 3 byte = 0x1E then 4
      else if drop_bit 6 byte = 0x02 then -1 else -2)"

definition utf8CheckIncomplete :: "decoder \<Rightarrow> bytes \<Rightarrow> nat \<Rightarrow> int \<times> decoder" where
  [js_eval]: "utf8CheckIncomplete self buf i =
     (let j = int (length buf) - 1
      in if j < int i then (0, self)
         else let nb = utf8CheckByte (buf ! nat j)
              in if nb \<ge> 0 then (nb, if nb > 0 then self\<lparr>lastNeed := nat (nb - 1)\<rparr> else self)
                 else if j - 1 < int i \<or> nb = -2 then (0, self)
                 else let nb = utf8CheckByte (buf ! nat (j - 1))
                      in if nb \<ge> 0 then (nb, if nb > 0 then self\<lparr>lastNeed := nat (nb - 2)\<rparr> else self)
                         else if j - 2 < int i \<or> nb = -2 then (0, self)
                         else let nb = utf8CheckByte (buf ! nat (j - 2))
                              in if nb \<ge> 0
                                 then if nb > 0
                                      then if nb = 2 then (0, self) else (nb, self\<lparr>lastNeed := nat (nb - 3)\<rparr>)
                                      else (nb, self)
                                 else (0, self))"

definition utf8Text :: "decoder \<Rightarrow> bytes \<Rightarrow> nat \<Rightarrow> jstr \<times> decoder" where
  [js_eval]: "utf8Text self buf i =
     (let (total, self1) = utf8CheckIncomplete self buf i
      in if lastNeed self1 = 0 then (utf8_decode buf i (length buf), self1)
         else let stop = length buf - (nat total - lastNeed self1)
              in (utf8_decode buf i stop,
                  self1\<lparr>lastTotal := nat total, lastChar := copy_bytes buf (lastChar self1) 0 stop (length buf)\<rparr>))"

definition utf8FillLast :: "decoder \<Rightarrow> bytes \<Rightarrow> jstr option \<times> decoder" where
  [js_eval]: "utf8FillLast self buf =
     (let p = lastTotal self - lastNeed self;
          consumed = length (takeWhile cont_byte (take (lastNeed self) buf))
      in if consumed < lastNeed self \<and> consumed < length buf
         then let tmp = take p (lastChar self) @ take consumed buf
              in (Some (utf8_decode tmp 0 (p + consumed)), self\<lparr>lastNeed := consumed\<rparr>)
         else if lastNeed self \<le> length buf
         then let last = copy_bytes buf (lastChar self) p 0 (lastNeed self)
              in (Some (utf8_decode last 0 (lastTotal self)), self\<lparr>lastChar := last\<rparr>)
         else (None, self\<lparr>lastChar := copy_bytes buf (lastChar self) p 0 (length buf),
                          lastNeed := lastNeed self - length buf\<rparr>))"

subsection \<open>UTF-16, Base64 and the other encodings\<close>

definition utf16Text :: "decoder \<Rightarrow> bytes \<Rightarrow> nat \<Rightarrow> jstr \<times> decoder" where
  [js_eval]: "utf16Text self buf i =
     (if (length buf - i) mod 2 = 0
      then let r = slice_text Utf16le buf i (length buf)
           in if r \<noteq> [] \<and> 0xD800 \<le> last r \<and> last r \<le> 0xDBFF
              then (butlast r,
                    self\<lparr>lastNeed := 2, lastTotal := 4,
                         lastChar := (lastChar self)[0 := buf ! (length buf - 2), 1 := buf ! (length buf - 1)]\<rparr>)
              else (r, self)
      else (slice_text Utf16le buf i (length buf - 1),
            self\<lparr>lastNeed := 1, lastTotal := 2, lastChar := (lastChar self)[0 := buf ! (length buf - 1)]\<rparr>))"

definition base64Text :: "decoder \<Rightarrow> bytes \<Rightarrow> nat \<Rightarrow> jstr \<times> decoder" where
  [js_eval]: "base64Text self buf i =
     (let n = (length buf - i) mod 3
      in if n = 0 then (slice_text (sd_encoding self) buf i (length buf), self)
         else (slice_text (sd_encoding self) buf i (length buf - n),
               self\<lparr>lastNeed := 3 - n, lastTotal := 3,
                    lastChar := (if n = 1 then (lastChar self)[0 := buf ! (length buf - 1)]
                      else (lastChar self)[0 := buf ! (length buf - 2), 1 := buf ! (length buf - 1)])\<rparr>))"

definition fillLast :: "decoder \<Rightarrow> bytes \<Rightarrow> jstr option \<times> decoder" where
  [js_eval]: "fillLast self buf =
     (let p = lastTotal self - lastNeed self
      in if lastNeed self \<le> length buf
         then let last = copy_bytes buf (lastChar self) p 0 (lastNeed self)
              in (Some (slice_text (sd_encoding self) last 0 (lastTotal self)), self\<lparr>lastChar := last\<rparr>)
         else (None, self\<lparr>lastChar := copy_bytes buf (lastChar self) p 0 (length buf),
                          lastNeed := lastNeed self - length buf\<rparr>))"

text \<open>The methods installed by the constructor for each encoding.\<close>

definition sd_text :: "decoder \<Rightarrow> bytes \<Rightarrow> nat \<Rightarrow> jstr \<times> decoder" where
  [js_eval]: "sd_text self buf i =
     (case sd_encoding self of
        Utf8 \<Rightarrow> utf8Text self buf i
      | Utf16le \<Rightarrow> utf16Text self buf i
      | _ \<Rightarrow> base64Text self buf i)"

definition sd_fillLast :: "decoder \<Rightarrow> bytes \<Rightarrow> jstr option \<times> decoder" where
  [js_eval]: "sd_fillLast self buf =
     (if sd_encoding self = Utf8 then utf8FillLast self buf else fillLast self buf)"

definition is_simple :: "encoding \<Rightarrow> bool" where
  [js_eval]: "is_simple e = (e \<in> {Hex, Ascii, Latin1})"

text \<open>\<open>write\<close> on the bytes of a buffer (\<open>simpleWrite\<close> for the single-byte encodings).\<close>

definition write_bytes :: "decoder \<Rightarrow> bytes \<Rightarrow> jstr \<times> decoder" where
  [js_eval]: "write_bytes self buf =
     (if is_simple (sd_encoding self) then (slice_text (sd_encoding self) buf 0 (length buf), self)
      else if buf = [] then ([], self)
      else if lastNeed self = 0 then sd_text self buf 0
      else let (filled, self1) = sd_fillLast self buf
           in case filled of
                None \<Rightarrow> ([], self1)
              | Some r \<Rightarrow>
                  let i = lastNeed self1; self2 = self1\<lparr>lastNeed := 0\<rparr>
                  in if i < length buf then let (t, self3) = sd_text self2 buf i in (r @ t, self3)
                     else (r, self2))"

text \<open>The held-back bytes that \<open>end\<close> decodes (\<open>utf8End\<close>, \<open>utf16End\<close>, \<open>base64End\<close>, \<open>simpleEnd\<close>).\<close>

definition flush :: "decoder \<Rightarrow> jstr \<times> decoder" where
  [js_eval]: "flush self =
     (if is_simple (sd_encoding self) \<or> lastNeed self = 0 then ([], self)
      else let held = (case sd_encoding self of
                 Base64 \<Rightarrow> 3 - lastNeed self | Base64url \<Rightarrow> 3 - lastNeed self
               | _ \<Rightarrow> lastTotal self - lastNeed self)
           in (if sd_encoding self = Utf8 then utf8_decode (lastChar self) 0 held
               else slice_text (sd_encoding self) (lastChar self) 0 held,
               self\<lparr>lastNeed := 0, lastTotal := 0\<rparr>))"

definition end_bytes :: "decoder \<Rightarrow> bytes \<Rightarrow> jstr \<times> decoder" where
  [js_eval]: "end_bytes self buf =
     (let (r, self1) = (if buf \<noteq> [] then write_bytes self buf else ([], self));
          (t, self2) = flush self1
      in (r @ t, self2))"

section \<open>The methods on arbitrary arguments\<close>

text \<open>
  An argument is a string, a Buffer, another view of bytes, or something else. The single-byte
  decoders call the argument's own \<open>toString\<close>: for a view that is no Buffer that is the decimal
  list of its bytes, for anything else the parameter \<open>other_text\<close>.
\<close>

datatype sd_input = SText jstr | SBuffer bytes | SView bytes | SOther jsval

definition invalid_buf :: "jsval \<Rightarrow> js_error" where
  [js_eval]: "invalid_buf v = ERR_INVALID_ARG_TYPE ''buf'' ''Buffer, TypedArray, DataView'' v"

definition sd_write :: "(jsval \<Rightarrow> js_error + jstr) \<Rightarrow> decoder option \<Rightarrow> sd_input \<Rightarrow> js_error + jstr \<times> decoder" where
  [js_eval]: "sd_write other_text this arg =
     (case this of
        None \<Rightarrow> Inl (ERR_INVALID_THIS ''StringDecoder'')
      | Some self \<Rightarrow>
          (case arg of
             SText s \<Rightarrow> Inr (s, self)
           | SBuffer buf \<Rightarrow> Inr (write_bytes self buf)
           | SView buf \<Rightarrow>
               if is_simple (sd_encoding self) then Inr (join [44] (map nat_digits buf), self)
               else Inr (write_bytes self buf)
           | SOther v \<Rightarrow>
               if is_simple (sd_encoding self) then bindE (other_text v) (\<lambda>s. Inr (s, self))
               else Inl (invalid_buf v)))"

end
