(* ===== verification/String_Decoder_Laws.thy ===== *)
theory String_Decoder_Laws
  imports String_Decoder
begin

unbundle bit_operations_syntax

text \<open>
  Chunk independence of the string decoder, stated once as a locale: what a decoder has written plus
  what it still holds back is the text of the bytes it was given. The locale is interpreted on the
  decoder of every encoding.
\<close>

section \<open>Stream decoders\<close>

locale stream_decoder =
  fixes feed :: "'s \<Rightarrow> bytes \<Rightarrow> jstr \<times> 's"
    and finish :: "'s \<Rightarrow> jstr \<times> 's"
    and held :: "'s \<Rightarrow> bytes"
    and ok :: "'s \<Rightarrow> bool"
    and decoded :: "bytes \<Rightarrow> jstr"
  assumes feed_ok: "ok s \<Longrightarrow> wf_bytes b \<Longrightarrow> feed s b = (r, s') \<Longrightarrow> ok s'"
    and feed_text: "ok s \<Longrightarrow> wf_bytes b \<Longrightarrow> feed s b = (r, s') \<Longrightarrow> wf_bytes rest \<Longrightarrow>
      decoded (held s @ b @ rest) = r @ decoded (held s' @ rest)"
    and finish_text: "ok s \<Longrightarrow> finish s = (r, s') \<Longrightarrow> r = decoded (held s)"
    and finish_ok: "ok s \<Longrightarrow> finish s = (r, s') \<Longrightarrow> ok s' \<and> held s' = []"
begin

fun feeds :: "'s \<Rightarrow> bytes list \<Rightarrow> jstr \<times> 's" where
  "feeds s [] = ([], s)"
| "feeds s (b # bs) = (let (r, s') = feed s b; (rs, s'') = feeds s' bs in (r @ rs, s''))"

lemma feeds_text:
  "ok s \<Longrightarrow> \<forall>b\<in>set bs. wf_bytes b \<Longrightarrow> feeds s bs = (r, s') \<Longrightarrow>
     ok s' \<and> decoded (held s @ concat bs) = r @ decoded (held s')"
proof (induction bs arbitrary: s r)
  case (Cons b bs)
  obtain r1 s1 where one: "feed s b = (r1, s1)" by fastforce
  obtain r2 where two: "feeds s1 bs = (r2, s')" "r = r1 @ r2"
    using Cons.prems(3) one by (auto split: prod.splits)
  have "wf_bytes (concat bs)" using Cons.prems(2) by (auto simp: wf_bytes_def)
  then show ?case
    using feed_text [OF Cons.prems(1) _ one] feed_ok [OF Cons.prems(1) _ one] Cons.IH [OF _ _ two(1)]
      Cons.prems(2) two(2) by simp
qed simp

theorem chunk_independence:
  assumes "ok s" "\<forall>b\<in>set bs. wf_bytes b" "feeds s bs = (r, s')" "finish s' = (t, s'')"
  shows "r @ t = decoded (held s @ concat bs) \<and> ok s'' \<and> held s'' = []"
  using feeds_text [OF assms(1-3)] finish_text [OF _ assms(4)] finish_ok [OF _ assms(4)] by simp

end

section \<open>The invariant and the text of the bytes\<close>

definition held_bytes :: "decoder \<Rightarrow> bytes" where
  [js_eval]: "held_bytes self =
     (if is_simple (sd_encoding self) \<or> lastNeed self = 0 then []
      else take (lastTotal self - lastNeed self) (lastChar self))"

text \<open>A character in progress: a lead byte and some of its continuation bytes.\<close>

definition partial_char :: "nat \<Rightarrow> bytes \<Rightarrow> bool" where
  [js_eval]: "partial_char n h =
     (case h of [] \<Rightarrow> False
      | b # bs \<Rightarrow> utf8CheckByte b = int n \<and> 2 \<le> n \<and> list_all continuation bs)"

definition decoder_ok :: "encoding \<Rightarrow> decoder \<Rightarrow> bool" where
  [js_eval]: "decoder_ok e self =
     (sd_encoding self = e \<and> wf_bytes (lastChar self) \<and>
      (is_simple e \<or>
       length (lastChar self) = (if e = Utf8 \<or> e = Utf16le then 4 else 3) \<and>
       (lastNeed self = 0 \<or>
        lastNeed self < lastTotal self \<and> lastTotal self \<le> length (lastChar self) \<and>
        (case e of
           Utf8 \<Rightarrow> partial_char (lastTotal self) (take (lastTotal self - lastNeed self) (lastChar self))
         | Utf16le \<Rightarrow> even (lastTotal self)
         | _ \<Rightarrow> lastTotal self = 3))))"

definition text_of :: "encoding \<Rightarrow> bytes \<Rightarrow> jstr" where
  [js_eval]: "text_of e bs =
     (case e of
        Hex \<Rightarrow> hex_text bs
      | Utf8 \<Rightarrow> utf8_decode_v8 bs
      | Ascii \<Rightarrow> map (\<lambda>b. b AND 0x7F) bs
      | Latin1 \<Rightarrow> bs
      | Base64 \<Rightarrow> fromByteArray bs
      | Base64url \<Rightarrow> strip_padding (map url_char (fromByteArray bs))
      | Utf16le \<Rightarrow> utf16_units_of bs)"

lemma bytes_of_range: "stop \<le> length buf \<Longrightarrow> bytes_of buf i stop = take (stop - i) (drop i buf)"
  by (simp add: bytes_of_def)

lemma wf_bytes_simps [simp]:
  "wf_bytes []" "wf_bytes (b # bs) \<longleftrightarrow> b < 256 \<and> wf_bytes bs" "wf_bytes (xs @ ys) \<longleftrightarrow> wf_bytes xs \<and> wf_bytes ys"
  by (auto simp: wf_bytes_def)

lemma wf_bytes_take_drop [intro]: "wf_bytes bs \<Longrightarrow> wf_bytes (take n bs)" "wf_bytes bs \<Longrightarrow> wf_bytes (drop n bs)"
  by (auto simp: wf_bytes_def dest: in_set_takeD in_set_dropD)

lemma text_of_Nil [simp]: "text_of e [] = []"
  by (cases e) (simp_all add: text_of_def hex_text_def fromByteArray_def encodeChunks.simps strip_padding_def)

lemma slice_text_eq:
  assumes "e \<noteq> Utf8" "wf_bytes buf" "i \<le> stop" "stop \<le> length buf"
  shows "slice_text e buf i stop = text_of e (take (stop - i) (drop i buf))"
proof (cases "stop = i")
  case True
  then show ?thesis by (simp add: slice_text_def)
next
  case False
  then have lt: "i < stop" "min stop (length buf) = stop" "stop \<noteq> 0" using assms by auto
  have wf: "wf_bytes (take (stop - i) (drop i buf))" using assms(2) by auto
  have url: "(\<lambda>c. if c = 43 then 45 else if c = 47 then 95 else c) = url_char"
    by (simp add: url_char_def fun_eq_iff)
  show ?thesis
  proof (cases e)
    case Hex
    then show ?thesis using lt assms wf
      by (auto simp: slice_text_def text_of_def encoded_slice_def hexSlice_def hex_text_def wf_bytes_def
          bytes_of_range hexSliceTable_nth Let_def intro!: arg_cong [of _ _ concat])
  qed (use assms lt url in \<open>auto simp: slice_text_def text_of_def encoded_slice_def asciiSlice_def latin1Slice_def
        base64Slice_def base64urlSlice_def utf16leSlice_def bytes_of_range\<close>)
qed

text \<open>The model of \<open>toString\<close> agrees with \<open>slice_text\<close> on the names the decoder passes.\<close>

lemma toString_slice_text:
  assumes "e \<noteq> Utf8" "buf \<noteq> []" "length buf < 2 ^ 32" "i \<le> length buf"
  shows "buf_toString to_string lc buf (Some (JStr (encoding_name e), Some (nat_num i), Some (nat_num stop))) =
     Inr (slice_text e buf i stop)"
proof -
  define m where "m = min stop (length buf)"
  have u: "ToUint32 (nat_num i) = i" "ToUint32 (nat_num m) = m"
    using assms(3,4) by (auto simp: m_def intro!: ToUint32_nat)
  have stop: "(if num_less (nat_num (length buf)) (nat_num stop) then nat_num (length buf) else nat_num stop) = nat_num m"
    by (auto simp: m_def min_def)
  have le: "num_le (nat_num m) (Num 0) \<longleftrightarrow> m = 0" by (simp add: num_le_def)
  have enc: "named_slice to_string lc (JStr (encoding_name e)) buf a b = encoded_slice e buf a b" for a b
    using encoding_name_simps [of e] by (simp add: named_slice_def named_encoding_def find_encoding_def)
  have start: "(if num_less (nat_num i) (Num 0) then Num 0 else nat_num i) = nat_num i"
    "num_less (nat_num (length buf)) (nat_num i) = False" using assms(4) by simp_all
  have "slowToString to_string lc buf (JStr (encoding_name e)) (Some (nat_num i)) (Some (nat_num stop)) =
      (if m = 0 then Inr [] else if m \<le> i then Inr [] else encoded_slice e buf i m)"
    by (simp only: slowToString_def Let_def option.case start stop le u enc if_False)
  moreover have "\<exists>s. encoded_slice e buf i m = Inr s" using assms(1) by (cases e) (simp_all add: encoded_slice_def)
  ultimately show ?thesis using assms(2) by (auto simp: buf_toString_def slice_text_def m_def [symmetric])
qed

section \<open>UTF-8\<close>

lemma utf8CheckByte_ranges:
  "b < 256 \<Longrightarrow> utf8CheckByte b =
     (if b < 0x80 then 0 else if b < 0xC0 then -1 else if b < 0xE0 then 2 else if b < 0xF0 then 3
      else if b < 0xF8 then 4 else -2)"
  using div_range [of 32 b 6] div_range [of 16 b 14] div_range [of 8 b 30] div_range [of 64 b 2]
  by (auto simp: utf8CheckByte_def drop_bit_eq_div)

lemma crude_checkByte:
  "b < 256 \<Longrightarrow> crude n b =
     (if utf8CheckByte b = -1 then n - 1 else if utf8CheckByte b > 0 then nat (utf8CheckByte b - 1) else 0)"
  by (auto simp: utf8CheckByte_ranges crude_def)

lemma checkByte_cases:
  assumes "b < 256"
  obtains "utf8CheckByte b = 0" "\<not> continuation b" | "utf8CheckByte b = 2" "\<not> continuation b"
    | "utf8CheckByte b = 3" "\<not> continuation b" | "utf8CheckByte b = 4" "\<not> continuation b"
    | "utf8CheckByte b = -1" "continuation b" | "utf8CheckByte b = -2" "\<not> continuation b"
proof (cases "continuation b")
  case True
  then show ?thesis using that(5) utf8CheckByte_ranges [OF assms] by (simp add: continuation_def)
next
  case False
  then have "utf8CheckByte b \<in> {0, 2, 3, 4, -2}" using utf8CheckByte_ranges [OF assms] by (auto simp: continuation_def)
  then show ?thesis using that False by blast
qed

lemma foldl_crude_le: "\<forall>b\<in>set xs. b < 256 \<Longrightarrow> n \<le> 3 \<Longrightarrow> foldl crude n xs \<le> 3"
proof (induction xs arbitrary: n)
  case (Cons b xs)
  have "crude n b \<le> 3" using Cons.prems by (auto simp: crude_def)
  then show ?case using Cons by simp
qed simp

text \<open>The backwards check, on the reversed unread bytes: the total and the number still needed.\<close>

fun check_rev :: "bytes \<Rightarrow> int \<times> nat" where
  "check_rev [] = (0, 0)"
| "check_rev [y] = (if utf8CheckByte y \<ge> 0 then (utf8CheckByte y, nat (utf8CheckByte y - 1)) else (0, 0))"
| "check_rev [y, x] =
     (if utf8CheckByte y \<ge> 0 then (utf8CheckByte y, nat (utf8CheckByte y - 1))
      else if utf8CheckByte y = -2 then (0, 0)
      else if utf8CheckByte x \<ge> 0 then (utf8CheckByte x, nat (utf8CheckByte x - 2)) else (0, 0))"
| "check_rev (y # x # z # r) =
     (if utf8CheckByte y \<ge> 0 then (utf8CheckByte y, nat (utf8CheckByte y - 1))
      else if utf8CheckByte y = -2 then (0, 0)
      else if utf8CheckByte x \<ge> 0 then (utf8CheckByte x, nat (utf8CheckByte x - 2))
      else if utf8CheckByte x = -2 then (0, 0)
      else if utf8CheckByte z \<ge> 0
      then if utf8CheckByte z = 2 then (0, 0) else (utf8CheckByte z, nat (utf8CheckByte z - 3))
      else (0, 0))"

lemma nth_middle: "length pre = n \<Longrightarrow> nat (int n + int k) = n + k" by simp

lemma rev_three:
  obtains "w = []" | y where "w = [y]" | x y where "w = [x, y]" | v z x y where "w = v @ [z, x, y]"
proof (cases w rule: rev_cases)
  case (snoc w1 y)
  then show ?thesis
  proof (cases w1 rule: rev_cases)
    case (snoc w2 x)
    then show ?thesis using that(3) [of x y] that(4) [of _ _ x y] \<open>w = w1 @ [y]\<close>
      by (cases w2 rule: rev_cases) auto
  qed (use that(2) in simp)
qed (use that(1) in simp)

lemma check_incomplete_rev:
  assumes "lastNeed self = 0" "length pre = i" "\<forall>b\<in>set w. b < 256"
  shows "utf8CheckIncomplete self (pre @ w) i =
     (case check_rev (rev w) of (t, n) \<Rightarrow> (t, self\<lparr>lastNeed := n\<rparr>))"
proof -
  have zero: "self\<lparr>lastNeed := 0\<rparr> = self" using assms(1) by simp
  consider "w = []" | y where "w = [y]" | x y where "w = [x, y]" | v z x y where "w = v @ [z, x, y]"
    by (rule rev_three)
  then show ?thesis
  proof cases
    case 1
    then show ?thesis using assms(2) zero by (simp add: utf8CheckIncomplete_def)
  next
    case (2 y)
    have "int (length (pre @ [y])) - 1 = int i" "(pre @ [y]) ! nat (int i) = y" using assms(2) by auto
    then show ?thesis using 2 assms(1) zero by (simp add: utf8CheckIncomplete_def Let_def)
  next
    case (3 x y)
    have at: "int (length (pre @ [x, y])) - 1 = int i + 1" "(pre @ [x, y]) ! nat (int i + 1) = y"
      "(pre @ [x, y]) ! nat (int i + 1 - 1) = x"
      using assms(2) by (auto simp: nth_append nat_add_distrib)
    show ?thesis unfolding 3 utf8CheckIncomplete_def at Let_def using assms(1) zero by simp
  next
    case (4 v z x y)
    define u where "u = pre @ v"
    have at: "int (length (u @ [z, x, y])) - 1 = int (length u + 2)" "(u @ [z, x, y]) ! nat (int (length u + 2)) = y"
      "(u @ [z, x, y]) ! nat (int (length u + 2) - 1) = x" "(u @ [z, x, y]) ! nat (int (length u + 2) - 2) = z"
      by (simp_all add: nth_append nat_diff_distrib nat_add_distrib)
    have le: "\<not> int (length u + 2) < int i" "\<not> int (length u + 2) - 1 < int i" "\<not> int (length u + 2) - 2 < int i"
      using assms(2) by (simp_all add: u_def)
    have w: "pre @ w = u @ [z, x, y]" by (simp add: 4 u_def)
    show ?thesis unfolding w utf8CheckIncomplete_def at Let_def using assms(1) zero le by (simp add: 4)
  qed
qed

definition check_result :: "bytes \<Rightarrow> int \<Rightarrow> nat \<Rightarrow> bool" where
  "check_result w t n =
     ((n = 0 \<longrightarrow> foldl crude 0 w = 0) \<and>
      (n \<noteq> 0 \<longrightarrow> int n < t \<and> t \<le> 4 \<and>
        (\<exists>xs h. w = xs @ h \<and> length h = nat t - n \<and> partial_char (nat t) h)))"

lemma foldl_crude_cont: "list_all continuation cs \<Longrightarrow> foldl crude n cs = n - length cs"
  by (induction cs arbitrary: n) (auto simp: crude_def continuation_def)

lemma crude_lead: "l < 256 \<Longrightarrow> utf8CheckByte l = t \<Longrightarrow> 2 \<le> t \<Longrightarrow> crude n l = nat t - 1"
  by (simp add: crude_checkByte nat_diff_distrib)

lemma lead_found:
  assumes "w = v @ l # cs" "l < 256" "utf8CheckByte l = t" "2 \<le> t" "list_all continuation cs"
    and "n = nat t - 1 - length cs" "length cs < nat t"
  shows "check_result w t n"
proof -
  have "t \<le> 4" using assms(2,3) by (auto elim: checkByte_cases [of l])
  moreover have "foldl crude 0 w = n"
    using assms by (simp add: crude_lead foldl_crude_cont)
  moreover have "w = v @ (l # cs) \<and> length (l # cs) = nat t - n \<and> partial_char (nat t) (l # cs)"
    using assms by (simp add: partial_char_def)
  then have "\<exists>xs h. w = xs @ h \<and> length h = nat t - n \<and> partial_char (nat t) h" by blast
  moreover have "int n < t" using assms(4,6) by linarith
  ultimately show ?thesis by (simp add: check_result_def)
qed

lemma none_found: "foldl crude 0 w = 0 \<Longrightarrow> check_result w t 0"
  by (simp add: check_result_def)

lemma check_rev_found:
  assumes "\<forall>b\<in>set w. b < 256" "check_rev (rev w) = (t, n)"
  shows "check_result w t n"
proof -
  consider "w = []" | y where "w = [y]" | x y where "w = [x, y]" | v z x y where "w = v @ [z, x, y]"
    by (rule rev_three)
  then show ?thesis
  proof cases
    case 1
    then show ?thesis using assms(2) by (simp add: check_result_def)
  next
    case (2 y)
    then have y: "y < 256" using assms(1) by simp
    then show ?thesis
      using y assms(2) 2 lead_found [of w "[]" y "[]" t n] none_found [of w t]
      by (cases rule: checkByte_cases) (auto simp: crude_checkByte)
  next
    case (3 x y)
    then have xy: "x < 256" "y < 256" using assms(1) by simp_all
    note lead = lead_found [of w "[x]" y "[]" t n] lead_found [of w "[]" x "[y]" t n] none_found [of w t]
    from xy(2) show ?thesis
    proof (cases rule: checkByte_cases)
      case 5
      from xy(1) show ?thesis
        using assms(2) 3 xy lead 5 by (cases rule: checkByte_cases) (auto simp: crude_checkByte)
    qed (use assms(2) 3 xy lead in \<open>auto simp: crude_checkByte\<close>)
  next
    case (4 v z x y)
    then have xyz: "x < 256" "y < 256" "z < 256" and v: "\<forall>b\<in>set v. b < 256" using assms(1) by simp_all
    have le: "foldl crude 0 v \<le> 3" using foldl_crude_le [OF v, of 0] by simp
    note lead = lead_found [of w "v @ [z, x]" y "[]" t n] lead_found [of w "v @ [z]" x "[y]" t n]
      lead_found [of w v z "[x, y]" t n] none_found [of w t]
    from xyz(2) show ?thesis
    proof (cases rule: checkByte_cases)
      case y: 5
      from xyz(1) show ?thesis
      proof (cases rule: checkByte_cases)
        case x: 5
        from xyz(3) show ?thesis
          using assms(2) 4 xyz lead x y le by (cases rule: checkByte_cases) (auto simp: crude_checkByte)
      qed (use assms(2) 4 xyz lead y in \<open>auto simp: crude_checkByte\<close>)
    qed (use assms(2) 4 xyz lead in \<open>auto simp: crude_checkByte\<close>)
  qed
qed

lemma copy_bytes_inside:
  assumes "targetStart + (stop - start) \<le> length target" "start \<le> stop" "stop \<le> length src"
  shows "copy_bytes src target targetStart start stop =
     take targetStart target @ take (stop - start) (drop start src) @ drop (targetStart + (stop - start)) target"
proof -
  have "min (min stop (length src) - start) (length target - targetStart) = stop - start" using assms by simp
  then show ?thesis by (simp add: copy_bytes_def Let_def)
qed

lemma utf8Text_law:
  assumes ok: "decoder_ok Utf8 self" "lastNeed self = 0" and w: "buf = pre @ w" "length pre = i" "wf_bytes w"
    and r: "utf8Text self buf i = (r, self')"
  shows "decoder_ok Utf8 self'"
    and "wf_bytes rest \<Longrightarrow> utf8_decode_v8 (w @ rest) = r @ utf8_decode_v8 (held_bytes self' @ rest)"
proof -
  have bytes: "\<forall>b\<in>set w. b < 256" using w(3) by (simp add: wf_bytes_def)
  obtain t n where tn: "check_rev (rev w) = (t, n)" by fastforce
  have check: "utf8CheckIncomplete self buf i = (t, self\<lparr>lastNeed := n\<rparr>)"
    using check_incomplete_rev [OF ok(2) w(2) bytes] tn w(1) by simp
  have found: "check_result w t n" by (rule check_rev_found [OF bytes tn])
  have enc: "sd_encoding self = Utf8" "length (lastChar self) = 4" "wf_bytes (lastChar self)"
    using ok(1) by (auto simp: decoder_ok_def is_simple_def)
  have "decoder_ok Utf8 self' \<and> (\<forall>rest. wf_bytes rest \<longrightarrow>
      utf8_decode_v8 (w @ rest) = r @ utf8_decode_v8 (held_bytes self' @ rest))"
  proof (cases "n = 0")
    case True
    have "utf8_decode buf i (length buf) = utf8_decode_v8 w" using utf8_decode_all [of buf i] w(1,2) by simp
    moreover have "utf8CheckIncomplete self buf i = (t, self)" using check ok(2) True by simp
    ultimately have "r = utf8_decode_v8 w" "self' = self"
      using r ok(2) by (auto simp: utf8Text_def)
    moreover have "foldl crude 0 w = 0" using found True by (simp add: check_result_def)
    ultimately show ?thesis
      using decode_cut [OF bytes] ok by (simp add: held_bytes_def wf_bytes_def)
  next
    case False
    then obtain xs h where h: "w = xs @ h" "length h = nat t - n" "partial_char (nat t) h" "int n < t" "t \<le> 4"
      using found by (auto simp: check_result_def)
    have stop: "length buf - (nat t - n) = i + length xs" using h(1,2) w(1,2) by simp
    have "copy_bytes buf (lastChar self) 0 (i + length xs) (length buf) = h @ drop (length h) (lastChar self)"
      using copy_bytes_inside [of 0 "length buf" "i + length xs" "lastChar self" buf] h w(1,2) enc(2) by simp
    then have s': "r = utf8_decode_v8 xs"
      "self' = self\<lparr>lastNeed := n, lastTotal := nat t, lastChar := h @ drop (length h) (lastChar self)\<rparr>"
      using r check False stop h(1) w(1,2) by (simp_all add: utf8Text_def utf8_decode_range)
    have wf: "wf_bytes h" "wf_bytes xs" using w(3) h(1) by simp_all
    have held: "take (nat t - n) (h @ drop (length h) (lastChar self)) = h" using h(2) by simp
    have "decoder_ok Utf8 self'"
      using s' h(2-5) enc wf held
      by (auto simp: decoder_ok_def is_simple_def)
    moreover have "held_bytes self' = h" using s' False held enc(1) by (simp add: held_bytes_def is_simple_def)
    moreover have "h \<noteq> [] \<and> \<not> continuation (hd h)"
      using h(3) wf(1) utf8CheckByte_ranges [of "hd h"]
      by (cases h) (auto simp: partial_char_def continuation_def split: if_splits)
    moreover have "utf8_decode_v8 (xs @ h @ rest) = utf8_decode_v8 xs @ utf8_decode_v8 (h @ rest)"
      if "wf_bytes rest" for rest
      using decode_cut [of xs "h @ rest"] wf that \<open>h \<noteq> [] \<and> _\<close> by (auto simp: wf_bytes_def)
    ultimately show ?thesis using s'(1) h(1) by simp
  qed
  then show "decoder_ok Utf8 self'"
    "wf_bytes rest \<Longrightarrow> utf8_decode_v8 (w @ rest) = r @ utf8_decode_v8 (held_bytes self' @ rest)" by blast+
qed

lemma cont_byte_continuation: "b < 256 \<Longrightarrow> cont_byte b = continuation b"
  by (simp add: cont_byte_range continuation_def)

lemma takeWhile_cont:
  assumes "wf_bytes buf" "k = length (takeWhile cont_byte (take n buf))"
  shows "list_all continuation (take k buf)" "k \<le> n" "k \<le> length buf"
    and "k < n \<Longrightarrow> k < length buf \<Longrightarrow> \<not> continuation (buf ! k)"
proof -
  have le: "k \<le> length (take n buf)" using assms(2) length_takeWhile_le by metis
  then show kn: "k \<le> n" "k \<le> length buf" by simp_all
  have "take k buf = takeWhile cont_byte (take n buf)"
    using takeWhile_eq_take [of cont_byte "take n buf"] kn(1) assms(2) by (simp add: min_def)
  then have "\<forall>b\<in>set (take k buf). cont_byte b" by (metis set_takeWhileD)
  then show "list_all continuation (take k buf)"
    using assms(1) cont_byte_continuation by (auto simp: list_all_iff wf_bytes_def dest: in_set_takeD)
  assume "k < n" "k < length buf"
  then have "\<not> cont_byte (take n buf ! k)"
    using nth_length_takeWhile [of cont_byte "take n buf"] assms(2) by simp
  then show "\<not> continuation (buf ! k)"
    using \<open>k < n\<close> \<open>k < length buf\<close> assms(1) cont_byte_continuation [of "buf ! k"] by (simp add: wf_bytes_def)
qed

lemma partial_crude:
  assumes "partial_char n (h @ cs)" "wf_bytes h" "h \<noteq> []" "length (h @ cs) = n" 
  shows "foldl crude 0 (h @ cs) = 0"
proof -
  obtain l bs where l: "h = l # bs" using assms(3) by (cases h) auto
  then have "utf8CheckByte l = int n" "2 \<le> n" "list_all continuation (bs @ cs)" "l < 256"
    using assms(1,2) by (auto simp: partial_char_def)
  then show ?thesis using assms(4) l foldl_crude_cont [of "bs @ cs" "n - 1"]
    by (simp add: crude_lead del: foldl_append)
qed

lemma partial_append: "partial_char n h \<Longrightarrow> list_all continuation cs \<Longrightarrow> partial_char n (h @ cs)"
  by (cases h) (simp_all add: partial_char_def)

lemma utf8_write_law:
  assumes ok: "decoder_ok Utf8 self" and buf: "wf_bytes buf" and r: "write_bytes self buf = (r, self')"
  shows "decoder_ok Utf8 self' \<and> (\<forall>rest. wf_bytes rest \<longrightarrow>
     utf8_decode_v8 (held_bytes self @ buf @ rest) = r @ utf8_decode_v8 (held_bytes self' @ rest))"
proof -
  have enc: "sd_encoding self = Utf8" "length (lastChar self) = 4" "wf_bytes (lastChar self)"
    using ok by (auto simp: decoder_ok_def is_simple_def)
  consider (empty) "buf = []" | (fresh) "buf \<noteq> []" "lastNeed self = 0" | (fill) "buf \<noteq> []" "lastNeed self \<noteq> 0"
    by blast
  then show ?thesis
  proof cases
    case empty
    then show ?thesis using r ok enc by (simp add: write_bytes_def is_simple_def)
  next
    case fresh
    then have "utf8Text self buf 0 = (r, self')"
      using r enc by (simp add: write_bytes_def is_simple_def sd_text_def)
    then show ?thesis
      using utf8Text_law [OF ok fresh(2), of buf "[]" buf 0] buf fresh(2) by (simp add: held_bytes_def)
  next
    case fill
    define p h k where "p = lastTotal self - lastNeed self" and "h = held_bytes self"
      and "k = length (takeWhile cont_byte (take (lastNeed self) buf))"
    have st: "lastNeed self < lastTotal self" "lastTotal self \<le> 4" "partial_char (lastTotal self) h"
        "h = take p (lastChar self)" "length h = p" "p + lastNeed self = lastTotal self"
      using ok fill enc by (auto simp: decoder_ok_def is_simple_def h_def p_def held_bytes_def)
    have wfh: "wf_bytes h" using st(4) enc(3) by auto
    have h: "h \<noteq> []" using st(3) by (auto simp: partial_char_def)
    note k = takeWhile_cont [OF buf k_def]
    have after: "decoder_ok Utf8 self' \<and> (\<forall>rest. wf_bytes rest \<longrightarrow>
        utf8_decode_v8 (h @ buf @ rest) = r @ utf8_decode_v8 (held_bytes self' @ rest))"
      if lc: "wf_bytes lc" "length lc = 4" "self2 = self\<lparr>lastChar := lc, lastNeed := 0\<rparr>" and m: "m \<le> length buf"
        and sep: "foldl crude 0 (h @ take m buf) = 0 \<or> (m < length buf \<and> \<not> continuation (buf ! m))"
        and res: "(if m < length buf then let (t, self3) = utf8Text self2 buf m in (utf8_decode_v8 (h @ take m buf) @ t, self3)
          else (utf8_decode_v8 (h @ take m buf), self2)) = (r, self')" for lc self2 m
    proof -
      have ok2: "decoder_ok Utf8 self2" "lastNeed self2 = 0"
        using lc enc(1) by (simp_all add: decoder_ok_def is_simple_def)
      have wfm: "wf_bytes (take m buf)" "wf_bytes (drop m buf)" using buf by auto
      have cut: "utf8_decode_v8 (h @ buf @ rest) =
          utf8_decode_v8 (h @ take m buf) @ utf8_decode_v8 (drop m buf @ rest)" if wf: "wf_bytes rest" for rest
      proof -
        have "foldl crude 0 (h @ take m buf) = 0 \<or>
            (drop m buf @ rest \<noteq> [] \<and> \<not> continuation (hd (drop m buf @ rest)))"
          using sep by (auto simp: hd_append hd_drop_conv_nth)
        then have "utf8_decode_v8 ((h @ take m buf) @ drop m buf @ rest) =
            utf8_decode_v8 (h @ take m buf) @ utf8_decode_v8 (drop m buf @ rest)"
          using decode_cut [of "h @ take m buf" "drop m buf @ rest"] wfh wfm wf by (auto simp: wf_bytes_def)
        then show ?thesis by (metis append.assoc append_take_drop_id)
      qed
      show ?thesis
      proof (cases "m < length buf")
        case True
        obtain t where t: "utf8Text self2 buf m = (t, self')" "r = utf8_decode_v8 (h @ take m buf) @ t"
          using res True by (auto split: prod.splits)
        show ?thesis
          using utf8Text_law [OF ok2 _ _ wfm(2) t(1), of "take m buf"] m cut t(2) by simp
      next
        case False
        then have "r = utf8_decode_v8 (h @ buf)" "self' = self2" "m = length buf" using res m by simp_all
        then show ?thesis using cut ok2 by (simp add: held_bytes_def)
      qed
    qed
    have simple: "\<not> is_simple (sd_encoding self)" "sd_encoding self = Utf8" using enc(1) by (simp_all add: is_simple_def)
    consider (broken) "k < lastNeed self" "k < length buf" | (full) "lastNeed self \<le> length buf" "k = lastNeed self"
      | (part) "length buf < lastNeed self" "k = length buf"
      using k(2,3) by linarith
    then show ?thesis
    proof cases
      case broken
      have "utf8FillLast self buf = (Some (utf8_decode_v8 (h @ take k buf)), self\<lparr>lastNeed := k\<rparr>)"
        using broken utf8_decode_range [of 0 "p + k" "h @ take k buf"] st(5) k(3)
        by (simp add: utf8FillLast_def Let_def p_def [symmetric] k_def [symmetric] st(4) [symmetric])
      then have "(if k < length buf
            then let (t, self3) = utf8Text (self\<lparr>lastChar := lastChar self, lastNeed := 0\<rparr>) buf k
                 in (utf8_decode_v8 (h @ take k buf) @ t, self3)
            else (utf8_decode_v8 (h @ take k buf), self\<lparr>lastChar := lastChar self, lastNeed := 0\<rparr>)) = (r, self')"
        using r fill simple by (simp add: write_bytes_def sd_fillLast_def sd_text_def Let_def split: if_splits)
      from after [OF enc(3,2) refl k(3) _ this] show ?thesis using k(4) broken by (simp add: h_def)
    next
      case full
      define lc where "lc = take p (lastChar self) @ take (lastNeed self) buf @ drop (p + lastNeed self) (lastChar self)"
      have copy: "copy_bytes buf (lastChar self) p 0 (lastNeed self) = lc"
        using copy_bytes_inside [of p "lastNeed self" 0 "lastChar self" buf] full(1) st(2,6) enc(2) by (simp add: lc_def)
      have lc: "wf_bytes lc" "length lc = 4"
        using enc(2,3) buf full(1) st(2,6) by (auto simp: lc_def)
      have "lastTotal self - p = lastNeed self" using st(6) by simp
      then have "take (lastTotal self) lc = h @ take (lastNeed self) buf"
        using st(4-6) full(1) by (simp add: lc_def)
      then have dec: "utf8_decode lc 0 (lastTotal self) = utf8_decode_v8 (h @ take (lastNeed self) buf)"
        using utf8_decode_range [of 0 "lastTotal self" lc] st(2) lc(2) by (simp add: utf8_decode_range)
      have crude: "foldl crude 0 (h @ take (lastNeed self) buf) = 0"
        using partial_crude [OF partial_append [OF st(3)] wfh h, of "take (lastNeed self) buf"] k(1) full st(5,6) by simp
      have "utf8FillLast self buf = (Some (utf8_decode_v8 (h @ take (lastNeed self) buf)), self\<lparr>lastChar := lc\<rparr>)"
        using full by (simp add: utf8FillLast_def Let_def p_def [symmetric] k_def [symmetric] copy dec)
      then have "(if lastNeed self < length buf
            then let (t, self3) = utf8Text (self\<lparr>lastChar := lc, lastNeed := 0\<rparr>) buf (lastNeed self)
                 in (utf8_decode_v8 (h @ take (lastNeed self) buf) @ t, self3)
            else (utf8_decode_v8 (h @ take (lastNeed self) buf), self\<lparr>lastChar := lc, lastNeed := 0\<rparr>)) = (r, self')"
        using r fill simple by (simp add: write_bytes_def sd_fillLast_def sd_text_def Let_def split: if_splits)
      from after [OF lc refl full(1) _ this] show ?thesis using crude by (simp add: h_def)
    next
      case part
      define lc where "lc = take p (lastChar self) @ buf @ drop (p + length buf) (lastChar self)"
      have copy: "copy_bytes buf (lastChar self) p 0 (length buf) = lc"
        using copy_bytes_inside [of p "length buf" 0 "lastChar self" buf] part st(2,6) enc(2) by (simp add: lc_def)
      have lc: "wf_bytes lc" "length lc = 4"
        using enc(2,3) buf part st(2,6) by (auto simp: lc_def)
      have fl: "utf8FillLast self buf = (None, self\<lparr>lastChar := lc, lastNeed := lastNeed self - length buf\<rparr>)"
        using part k_def by (simp add: utf8FillLast_def Let_def p_def [symmetric] copy)
      then have s': "r = []" "self' = self\<lparr>lastChar := lc, lastNeed := lastNeed self - length buf\<rparr>"
        using r fill simple by (simp_all add: write_bytes_def sd_fillLast_def)
      have tk: "take (lastTotal self - (lastNeed self - length buf)) lc = h @ buf"
        using st(4-6) part by (simp add: lc_def)
      have pc: "partial_char (lastTotal self) (h @ buf)"
        using partial_append [OF st(3), of buf] k(1) part by simp
      have "held_bytes self' = h @ buf" using s' tk part simple by (simp add: held_bytes_def)
      moreover have "decoder_ok Utf8 self'"
        using s' tk pc part lc st(1,2) enc(1) by (simp add: decoder_ok_def is_simple_def)
      ultimately show ?thesis using s'(1) by (simp add: h_def)
    qed
  qed
qed

section \<open>UTF-16, Base64 and Base64url\<close>

text \<open>The number of bytes that encode to whole characters.\<close>

definition unit_size :: "encoding \<Rightarrow> nat" where
  "unit_size e = (if e = Utf16le then 2 else 3)"

lemma unit_size_pos [simp]: "0 < unit_size e" by (simp add: unit_size_def)

lemma utf16_units_append: "even (length xs) \<Longrightarrow> utf16_units_of (xs @ ys) = utf16_units_of xs @ utf16_units_of ys"
  by (induction xs rule: utf16_units_of.induct) auto

lemma strip_padding_append: "EQUALS \<notin> set xs \<Longrightarrow> strip_padding (xs @ ys) = xs @ strip_padding ys"
proof -
  assume no: "EQUALS \<notin> set xs"
  have "dropWhile (\<lambda>c. c = EQUALS) (rev ys @ rev xs) = dropWhile (\<lambda>c. c = EQUALS) (rev ys) @ rev xs"
  proof (cases "\<forall>c\<in>set (rev ys). c = EQUALS")
    case True
    then have "dropWhile (\<lambda>c. c = EQUALS) (rev ys @ rev xs) = dropWhile (\<lambda>c. c = EQUALS) (rev xs)"
      by (intro dropWhile_append2) simp
    also have "\<dots> = rev xs"
    proof (cases xs rule: rev_cases)
      case (snoc zs z)
      then have "z \<noteq> EQUALS" using no by auto
      then show ?thesis using snoc by simp
    qed simp
    finally have "dropWhile (\<lambda>c. c = EQUALS) (rev ys @ rev xs) = rev xs" .
    moreover have "dropWhile (\<lambda>c. c = EQUALS) (rev ys) = []" using True by simp
    ultimately show ?thesis by (simp only: append_Nil)
  next
    case False
    then show ?thesis by (meson dropWhile_append1)
  qed
  then show ?thesis by (simp add: strip_padding_def)
qed

lemma text_of_append:
  assumes "e \<in> {Utf16le, Base64, Base64url}" "wf_bytes xs" "unit_size e dvd length xs" "wf_bytes ys"
  shows "text_of e (xs @ ys) = text_of e xs @ text_of e ys"
proof (cases "e = Utf16le")
  case True
  then show ?thesis using assms(3) by (simp add: text_of_def utf16_units_append unit_size_def)
next
  case False
  then obtain n where n: "length xs = 3 * n" using assms(3) by (auto simp: unit_size_def elim: dvdE)
  have app: "fromByteArray (xs @ ys) = fromByteArray xs @ fromByteArray ys"
    using rfc4648_append [OF n, of ys] assms(2,4) by (simp add: fromByteArray_rfc4648)
  have "EQUALS \<notin> set (fromByteArray xs)"
    using rfc4648_triples [OF n] assms(2) by (simp add: fromByteArray_rfc4648 wf_bytes_def)
  then have no: "EQUALS \<notin> set (map url_char (fromByteArray xs))" using url_char_EQUALS by fastforce
  then show ?thesis
    using app False assms(1) strip_padding_append [OF no] strip_padding_append [OF no, of "[]"]
    by (auto simp: text_of_def strip_padding_def)
qed

lemma take_update2: "length xs \<ge> 2 \<Longrightarrow> take 2 (xs[0 := a, Suc 0 := b]) = [a, b]"
  by (cases xs; cases "tl xs") (auto simp: take_Suc numeral_2_eq_2)

lemma take_update1: "length xs \<ge> 1 \<Longrightarrow> take (Suc 0) (xs[0 := a]) = [a]"
  by (cases xs) auto

lemma wf_bytes_update: "wf_bytes xs \<Longrightarrow> a < 256 \<Longrightarrow> wf_bytes (xs[i := a])"
  using set_update_subset_insert by (fastforce simp: wf_bytes_def)

text \<open>What \<open>text\<close> does in these encodings: the whole units are written, the rest is held back.\<close>

lemma sd_text_split:
  assumes e: "e \<in> {Utf16le, Base64, Base64url}" and ok: "decoder_ok e self" "lastNeed self = 0"
    and w: "buf = pre @ w" "length pre = i" "wf_bytes buf" and r: "sd_text self buf i = (r, self')"
  obtains xs where "w = xs @ held_bytes self'" "unit_size e dvd length xs" "r = text_of e xs" "decoder_ok e self'"
proof -
  note found = that
  define n where "n = length w mod unit_size e"
  have wf: "wf_bytes w" using w(1,3) by simp
  have st: "sd_encoding self = e" "length (lastChar self) = (if e = Utf16le then 4 else 3)" "wf_bytes (lastChar self)"
    "\<not> is_simple e" "e \<noteq> Utf8"
    using e ok(1) by (auto simp: decoder_ok_def is_simple_def)
  have len: "length buf - i = length w" "drop i buf = w" using w(1,2) by simp_all
  have slice: "slice_text e buf i (length buf - m) = text_of e (take (length w - m) w)" if "m \<le> length w" for m
    using slice_text_eq [OF st(5) w(3), of i "length buf - m"] len that w(1,2) by simp
  have dvd: "unit_size e dvd length w - n"
    by (simp add: n_def minus_mod_eq_mult_div)
  have last: "buf ! (length buf - m) = w ! (length w - m)" if "0 < m" "m \<le> length w" for m
  proof -
    have "length buf - m = length pre + (length w - m)" using that w(1) by simp
    then show ?thesis using w(1) by (simp only: nth_append_length_plus)
  qed
  have w1: "drop (length w - 1) w = [w ! (length w - 1)]" if "1 \<le> length w"
    using Cons_nth_drop_Suc [of "length w - 1" w] that by simp
  have w2: "drop (length w - 2) w = [w ! (length w - 2), w ! (length w - 1)]" if "2 \<le> length w"
  proof -
    have "Suc (length w - 2) = length w - 1" using that by simp
    then show ?thesis using Cons_nth_drop_Suc [of "length w - 2" w] w1 that by simp
  qed
  have bytes: "w ! (length w - m) < 256" if "0 < m" "m \<le> length w" for m
    using wf that by (simp add: wf_bytes_def)
  have hold: thesis
    if self': "self' = self\<lparr>lastNeed := need, lastTotal := tot, lastChar := lc\<rparr>"
      and res: "r = text_of e (take (length w - m) w)"
      and lc: "take m lc = drop (length w - m) w" "wf_bytes lc" "length lc = length (lastChar self)"
      and m: "m \<le> length w" "0 < need" "need + m = tot" "0 < m" "unit_size e dvd length w - m"
        "if e = Utf16le then tot = 2 \<or> tot = 4 else tot = 3" for need tot lc m
  proof -
    have "tot - need = m" using m(3) by simp
    then have "held_bytes self' = drop (length w - m) w"
      using self' m(2) lc(1) st(1,4) by (simp add: held_bytes_def)
    moreover have "decoder_ok e self'"
      using self' lc m st e by (auto simp: decoder_ok_def split: if_splits)
    ultimately show thesis using found [of "take (length w - m) w"] res m(1,5) by simp
  qed
  have keep: thesis if "self' = self" "r = text_of e w" "n = 0"
    using that found [of w] dvd ok by (simp add: held_bytes_def)
  have upd: "wf_bytes ((lastChar self)[0 := w ! (length w - m), Suc 0 := w ! (length w - 1)])"
      "wf_bytes ((lastChar self)[0 := w ! (length w - 1)])" if "1 \<le> length w" "0 < m" "m \<le> length w" for m
    using wf_bytes_update st(3) bytes [of m] bytes [of 1] that by simp_all
  have nw: "n \<le> length w" by (simp add: n_def)
  show ?thesis
  proof (cases "e = Utf16le")
    case True
    have u: "unit_size e = 2" using True by (simp add: unit_size_def)
    have u16: "utf16Text self buf i = (r, self')" using r st(1) True by (simp add: sd_text_def)
    have lc4: "2 \<le> length (lastChar self)" "1 \<le> length (lastChar self)" using st(2) True by auto
    have mod: "(length buf - i) mod 2 = n" by (simp add: n_def u len(1))
    have whole: "slice_text Utf16le buf i (length buf) = text_of e w" using slice [of 0] True by simp
    consider (odd) "n = 1" | (lead) "n = 0" "text_of e w \<noteq> []" "0xD800 \<le> last (text_of e w)" "last (text_of e w) \<le> 0xDBFF"
      | (even) "n = 0" "\<not> (text_of e w \<noteq> [] \<and> 0xD800 \<le> last (text_of e w) \<and> last (text_of e w) \<le> 0xDBFF)"
      using u by (simp add: n_def) linarith
    then show ?thesis
    proof cases
      case odd
      show ?thesis
        by (rule hold [of "(lastChar self)[0 := w ! (length w - 1)]" 2 1 1])
          (use odd u16 slice [of 1] last [of 1] nw True dvd upd [of 1] w1 take_update1 [OF lc4(2)] in
            \<open>simp_all add: utf16Text_def mod st(1)\<close>)
    next
      case lead
      have two: "2 \<le> length w" using lead(1,2) u True
        by (cases w rule: utf16_units_of.cases) (auto simp: text_of_def n_def)
      then have dvd2: "unit_size e dvd length w - 2" using lead(1) u n_def by (simp add: dvd_diff_nat mod_eq_0_iff_dvd)
      define xs a b where "xs = take (length w - 2) w" and "a = w ! (length w - 2)" and "b = w ! (length w - 1)"
      have w3: "w = xs @ [a, b]" using w2 [OF two] unfolding xs_def a_def b_def by (metis append_take_drop_id)
      have "even (length xs)" using dvd2 u two by (simp add: xs_def)
      then have "text_of e w = text_of e xs @ [a + b * 256]"
        using utf16_units_append [of xs "[a, b]"] True by (simp add: w3 text_of_def)
      then have "text_of e w = text_of e (take (length w - 2) w) @ [a + b * 256]" by (simp add: xs_def)
      then have "butlast (text_of e w) = text_of e (take (length w - 2) w)" by simp
      then show ?thesis
        by (intro hold [of "(lastChar self)[0 := w ! (length w - 2), Suc 0 := w ! (length w - 1)]" 4 2 2])
          (use lead u16 two last [of 1] last [of 2] nw True dvd2 upd [of 2] w2 take_update2 [OF lc4(1)] whole in
            \<open>simp_all add: utf16Text_def mod st(1)\<close>)
    next
      case even
      then have "self' = self" "r = text_of e w" using u16 whole by (auto simp: utf16Text_def mod Let_def)
      then show ?thesis using keep even(1) by blast
    qed
  next
    case False
    have u: "unit_size e = 3" using False by (simp add: unit_size_def)
    have b64: "base64Text self buf i = (r, self')" using r e st(1) False by (auto simp: sd_text_def)
    have lc3: "2 \<le> length (lastChar self)" "1 \<le> length (lastChar self)" using st(2) by auto
    have mod: "(length buf - i) mod 3 = n" by (simp add: n_def u len(1))
    consider "n = 0" | "n = 1" | "n = 2" using u by (simp add: n_def) linarith
    then show ?thesis
    proof cases
      case 1
      then show ?thesis using keep b64 slice [of 0] by (simp add: base64Text_def mod st(1))
    next
      case 2
      show ?thesis
        by (rule hold [of "(lastChar self)[0 := w ! (length w - 1)]" 3 2 1])
          (use 2 b64 slice [of 1] last [of 1] nw False dvd upd [of 1] w1 take_update1 [OF lc3(2)] in
            \<open>simp_all add: base64Text_def mod st(1)\<close>)
    next
      case 3
      show ?thesis
        by (rule hold [of "(lastChar self)[0 := w ! (length w - 2), Suc 0 := w ! (length w - 1)]" 3 1 2])
          (use 3 b64 slice [of 2] last [of 1] last [of 2] nw False dvd upd [of 2] w2 take_update2 [OF lc3(1)] in
            \<open>simp_all add: base64Text_def mod st(1)\<close>)
    qed
  qed
qed

lemma block_write_law:
  assumes e: "e \<in> {Utf16le, Base64, Base64url}" and ok: "decoder_ok e self" and buf: "wf_bytes buf"
    and r: "write_bytes self buf = (r, self')"
  shows "decoder_ok e self' \<and> (\<forall>rest. wf_bytes rest \<longrightarrow>
     text_of e (held_bytes self @ buf @ rest) = r @ text_of e (held_bytes self' @ rest))"
proof -
  have enc: "sd_encoding self = e" "wf_bytes (lastChar self)" "\<not> is_simple e" "e \<noteq> Utf8"
    using ok e by (auto simp: decoder_ok_def is_simple_def)
  have held_wf: "wf_bytes (held_bytes s)" if "decoder_ok e s" for s
    using that by (auto simp: held_bytes_def decoder_ok_def)
  consider (empty) "buf = []" | (fresh) "buf \<noteq> []" "lastNeed self = 0" | (fill) "buf \<noteq> []" "lastNeed self \<noteq> 0"
    by blast
  then show ?thesis
  proof cases
    case empty
    then show ?thesis using r ok enc by (simp add: write_bytes_def)
  next
    case fresh
    then have "sd_text self buf 0 = (r, self')" using r enc by (simp add: write_bytes_def)
    then obtain xs where xs: "buf = xs @ held_bytes self'" "unit_size e dvd length xs" "r = text_of e xs" "decoder_ok e self'"
      using sd_text_split [OF e ok fresh(2), of buf "[]" buf 0 r self'] buf by auto
    have "held_bytes self = []" using fresh(2) by (simp add: held_bytes_def)
    then show ?thesis using xs text_of_append [OF e _ xs(2)] buf held_wf [OF xs(4)] by (metis append.assoc append_Nil wf_bytes_simps(3))
  next
    case fill
    define p h where "p = lastTotal self - lastNeed self" and "h = held_bytes self"
    have st: "lastNeed self < lastTotal self" "lastTotal self \<le> length (lastChar self)" "unit_size e dvd lastTotal self"
        "h = take p (lastChar self)" "length h = p" "p + lastNeed self = lastTotal self"
      using ok fill enc e by (auto simp: decoder_ok_def h_def p_def held_bytes_def unit_size_def split: if_splits)
    have wfh: "wf_bytes h" using st(4) enc(2) by auto
    show ?thesis
    proof (cases "lastNeed self \<le> length buf")
      case False
      define lc where "lc = take p (lastChar self) @ buf @ drop (p + length buf) (lastChar self)"
      have copy: "copy_bytes buf (lastChar self) p 0 (length buf) = lc"
        using copy_bytes_inside [of p "length buf" 0 "lastChar self" buf] False st(2,6) by (simp add: lc_def)
      have lc: "wf_bytes lc" "length lc = length (lastChar self)"
        using enc(2) buf False st(2,6) by (auto simp: lc_def)
      have s': "r = []" "self' = self\<lparr>lastChar := lc, lastNeed := lastNeed self - length buf\<rparr>"
        using r fill False enc copy by (simp_all add: write_bytes_def sd_fillLast_def fillLast_def Let_def p_def [symmetric])
      have "take (lastTotal self - (lastNeed self - length buf)) lc = h @ buf"
        using st(4-6) False by (simp add: lc_def)
      then have "held_bytes self' = h @ buf" using s' False enc by (simp add: held_bytes_def)
      moreover have "decoder_ok e self'" using s' lc ok False fill(2) enc(4) by (auto simp: decoder_ok_def split: encoding.splits)
      ultimately show ?thesis using s'(1) by (simp add: h_def)
    next
      case True
      define lc where "lc = take p (lastChar self) @ take (lastNeed self) buf @ drop (p + lastNeed self) (lastChar self)"
      define c where "c = h @ take (lastNeed self) buf"
      define self2 where "self2 = self\<lparr>lastChar := lc, lastNeed := 0\<rparr>"
      have copy: "copy_bytes buf (lastChar self) p 0 (lastNeed self) = lc"
        using copy_bytes_inside [of p "lastNeed self" 0 "lastChar self" buf] True st(2,6) by (simp add: lc_def)
      have lc: "wf_bytes lc" "length lc = length (lastChar self)"
        using enc(2) buf True st(2,6) by (auto simp: lc_def)
      have "lastTotal self - p = lastNeed self" using st(6) by simp
      then have "take (lastTotal self) lc = c" using st(4-6) True by (simp add: lc_def c_def)
      then have slice: "slice_text e lc 0 (lastTotal self) = text_of e c"
        using slice_text_eq [OF enc(4) lc(1), of 0 "lastTotal self"] st(2) lc(2) by simp
      have c: "unit_size e dvd length c" "wf_bytes c" using st(3,5,6) True wfh buf by (auto simp: c_def)
      have ok2: "decoder_ok e self2" "lastNeed self2 = 0" using ok lc by (auto simp: decoder_ok_def self2_def)
      have run: "(if lastNeed self < length buf then let (t, self3) = sd_text self2 buf (lastNeed self) in (text_of e c @ t, self3)
          else (text_of e c, self2)) = (r, self')"
        using r fill True enc copy slice
        by (simp add: write_bytes_def sd_fillLast_def fillLast_def Let_def p_def [symmetric] self2_def split: if_splits)
      show ?thesis
      proof (cases "lastNeed self < length buf")
        case False
        then have "r = text_of e c" "self' = self2" "held_bytes self' = []" "c = h @ buf"
          using run True by (auto simp: c_def self2_def held_bytes_def)
        then show ?thesis using text_of_append [OF e c(2,1)] ok2 by (simp add: h_def)
      next
        case more: True
        obtain t where t: "sd_text self2 buf (lastNeed self) = (t, self')" "r = text_of e c @ t"
          using run more by (auto split: prod.splits)
        obtain xs where xs: "drop (lastNeed self) buf = xs @ held_bytes self'" "unit_size e dvd length xs"
            "t = text_of e xs" "decoder_ok e self'"
          using sd_text_split [OF e ok2, of buf "take (lastNeed self) buf" "drop (lastNeed self) buf" "lastNeed self" t self']
            buf True t(1) by auto
        have "wf_bytes (xs @ held_bytes self')" using buf xs(1) by (metis wf_bytes_take_drop(2))
        then have wf: "wf_bytes xs" "wf_bytes (held_bytes self')" by simp_all
        have whole: "h @ buf = c @ xs @ held_bytes self'"
          using xs(1) append_take_drop_id [of "lastNeed self" buf] by (simp add: c_def)
        have "text_of e (h @ buf @ rest) = r @ text_of e (held_bytes self' @ rest)" if rest: "wf_bytes rest" for rest
        proof -
          have "h @ buf @ rest = c @ xs @ held_bytes self' @ rest" using whole by (metis append.assoc)
          then show ?thesis
            unfolding \<open>h @ buf @ rest = _\<close> using text_of_append [OF e c(2,1), of "xs @ held_bytes self' @ rest"]
              text_of_append [OF e wf(1) xs(2), of "held_bytes self' @ rest"] rest wf t(2) xs(3) by simp
        qed
        then show ?thesis using xs(4) by (simp add: h_def)
      qed
    qed
  qed
qed

section \<open>The interpretation on the decoders\<close>

lemma text_of_simple_append: "is_simple e \<Longrightarrow> text_of e (xs @ ys) = text_of e xs @ text_of e ys"
  by (auto simp: is_simple_def text_of_def hex_text_def)

lemma decoder_write_law:
  assumes ok: "decoder_ok e self" and buf: "wf_bytes buf" and r: "write_bytes self buf = (r, self')"
  shows "decoder_ok e self' \<and> (\<forall>rest. wf_bytes rest \<longrightarrow>
     text_of e (held_bytes self @ buf @ rest) = r @ text_of e (held_bytes self' @ rest))"
proof -
  consider (simple) "is_simple e" | (utf8) "e = Utf8" | (block) "e \<in> {Utf16le, Base64, Base64url}"
    by (cases e) (auto simp: is_simple_def)
  then show ?thesis
  proof cases
    case simple
    have "sd_encoding self = e" "e \<noteq> Utf8" using ok simple by (auto simp: decoder_ok_def is_simple_def)
    then show ?thesis
      using r ok simple slice_text_eq [of e buf 0 "length buf"] buf text_of_simple_append [OF simple]
      by (auto simp: write_bytes_def held_bytes_def)
  next
    case utf8
    then show ?thesis using utf8_write_law [of self buf r self'] ok buf r by (simp add: text_of_def)
  next
    case block
    then show ?thesis by (rule block_write_law [OF _ ok buf r])
  qed
qed

lemma flush_law:
  assumes ok: "decoder_ok e self" and r: "flush self = (r, self')"
  shows "r = text_of e (held_bytes self) \<and> decoder_ok e self' \<and> held_bytes self' = []"
proof -
  have enc: "sd_encoding self = e" "wf_bytes (lastChar self)" using ok by (simp_all add: decoder_ok_def)
  show ?thesis
  proof (cases "is_simple e \<or> lastNeed self = 0")
    case True
    then show ?thesis using r ok enc by (auto simp: flush_def held_bytes_def)
  next
    case False
    then have held: "lastTotal self \<le> length (lastChar self)" "e \<in> {Base64, Base64url} \<longrightarrow> lastTotal self = 3"
      using ok by (auto simp: decoder_ok_def is_simple_def split: encoding.splits)
    have p: "(case e of Base64 \<Rightarrow> 3 - lastNeed self | Base64url \<Rightarrow> 3 - lastNeed self
               | _ \<Rightarrow> lastTotal self - lastNeed self) = lastTotal self - lastNeed self"
      using held(2) by (cases e) simp_all
    have "self' = self\<lparr>lastNeed := 0, lastTotal := 0\<rparr>"
      "r = (if e = Utf8 then utf8_decode (lastChar self) 0 (lastTotal self - lastNeed self)
            else slice_text e (lastChar self) 0 (lastTotal self - lastNeed self))"
      using r False enc(1) p by (auto simp: flush_def Let_def)
    moreover have "(if e = Utf8 then utf8_decode (lastChar self) 0 (lastTotal self - lastNeed self)
            else slice_text e (lastChar self) 0 (lastTotal self - lastNeed self)) = text_of e (held_bytes self)"
      using held(1) False enc slice_text_eq [of e "lastChar self" 0 "lastTotal self - lastNeed self"]
      by (auto simp: utf8_decode_range held_bytes_def text_of_def)
    ultimately show ?thesis using ok by (auto simp: decoder_ok_def held_bytes_def)
  qed
qed

interpretation sd: stream_decoder write_bytes flush held_bytes "decoder_ok e" "text_of e" for e
proof
  fix s b r s' rest
  assume ok: "decoder_ok e s"
  show "decoder_ok e s'" if "wf_bytes b" "write_bytes s b = (r, s')"
    using decoder_write_law [OF ok that] by simp
  show "text_of e (held_bytes s @ b @ rest) = r @ text_of e (held_bytes s' @ rest)"
    if "wf_bytes b" "write_bytes s b = (r, s')" "wf_bytes rest"
    using decoder_write_law [OF ok that(1,2)] that(3) by simp
  show "r = text_of e (held_bytes s)" "decoder_ok e s' \<and> held_bytes s' = []" if "flush s = (r, s')"
    using flush_law [OF ok that] by simp_all
qed

section \<open>Chunks\<close>

text \<open>A client's successive calls of \<open>write\<close>.\<close>

fun write_all :: "decoder \<Rightarrow> bytes list \<Rightarrow> jstr \<times> decoder" where
  "write_all self [] = ([], self)"
| "write_all self (b # bs) = (let (r, self1) = write_bytes self b; (rs, self2) = write_all self1 bs in (r @ rs, self2))"

lemma feeds_write_all: "sd.feeds self bs = write_all self bs"
  by (induction bs arbitrary: self) simp_all

lemma newStringDecoder_ok:
  assumes "newStringDecoder lc v = Inr self"
  shows "decoder_ok (sd_encoding self) self \<and> held_bytes self = []"
proof -
  obtain e where "normalizeEncoding lc v = Some e"
    "self = \<lparr>sd_encoding = e, lastNeed = 0, lastTotal = 0,
       lastChar = (case e of Utf16le \<Rightarrow> replicate 4 0 | Utf8 \<Rightarrow> replicate 4 0
         | Base64 \<Rightarrow> replicate 3 0 | Base64url \<Rightarrow> replicate 3 0 | _ \<Rightarrow> [])\<rparr>"
    using assms by (auto simp: newStringDecoder_def split: option.splits)
  then show ?thesis
    by (cases e) (simp_all add: decoder_ok_def held_bytes_def is_simple_def wf_bytes_def)
qed

lemma toString_text_of:
  assumes "wf_bytes buf" "length buf \<le> K_STRING_MAX_LENGTH"
  shows "buf_toString to_string lc buf (Some (JStr (encoding_name e), None, None)) = Inr (text_of e buf)"
proof (cases "buf = []")
  case True
  then show ?thesis by (simp add: buf_toString_def)
next
  case False
  have u: "ToUint32 (nat_num (length buf)) = length buf" "ToUint32 (Num 0) = 0"
    using assms(2) ToUint32_nat [of "length buf"] ToUint32_nat [of 0] by (simp_all add: K_STRING_MAX_LENGTH_def)
  have enc: "named_slice to_string lc (JStr (encoding_name e)) buf a b = encoded_slice e buf a b" for a b
    using encoding_name_simps [of e] by (simp add: named_slice_def named_encoding_def find_encoding_def)
  have "num_le (nat_num (length buf)) (Num 0) = False" using False by (simp add: num_le_def)
  then have "buf_toString to_string lc buf (Some (JStr (encoding_name e), None, None)) =
      encoded_slice e buf 0 (length buf)"
    using False by (simp add: buf_toString_def slowToString_def Let_def u enc)
  also have "\<dots> = Inr (text_of e buf)"
  proof (cases "e = Utf8")
    case True
    then show ?thesis using assms(2) utf8_decode_all [of buf 0]
      by (simp add: encoded_slice_def utf8Slice_def text_of_def)
  next
    case no: False
    have "\<exists>s. encoded_slice e buf 0 (length buf) = Inr s" using no by (cases e) (simp_all add: encoded_slice_def)
    then show ?thesis
      using slice_text_eq [OF no assms(1), of 0 "length buf"] False by (auto simp: slice_text_def)
  qed
  finally show ?thesis .
qed

text \<open>
  C4: However its input is cut into chunks, a new decoder that is given the chunks and then ended
  returns in all the text that \<open>toString\<close> gives for the bytes at once, and holds nothing back.
\<close>
theorem decoder_chunks:
  assumes "newStringDecoder lc v = Inr self" "\<forall>c\<in>set bs. wf_bytes c" "wf_bytes b"
    and "length (concat bs @ b) \<le> K_STRING_MAX_LENGTH"
    and "write_all self bs = (r, self1)" "end_bytes self1 b = (t, self2)"
  shows "buf_toString to_string lc' (concat bs @ b) (Some (JStr (encoding_name (sd_encoding self)), None, None)) =
      Inr (r @ t) \<and> held_bytes self2 = []"
proof -
  define e where "e = sd_encoding self"
  obtain u self3 x where run: "write_bytes self1 b = (u, self3)" "flush self3 = (x, self2)" "t = u @ x"
    using assms(6) by (cases "b = []") (auto simp: end_bytes_def write_bytes_def slice_text_def split: prod.splits)
  have "sd.feeds self (bs @ [b]) = (r @ u, self3)"
    using assms(5) run(1) unfolding feeds_write_all by (induction bs arbitrary: self r) (auto split: prod.splits)
  then have "(r @ u) @ x = text_of e (held_bytes self @ concat (bs @ [b])) \<and> held_bytes self2 = []"
    using sd.chunk_independence [of e self "bs @ [b]" "r @ u" self3 x self2] newStringDecoder_ok [OF assms(1)]
      assms(2,3) run(2) by (simp add: e_def)
  moreover have "wf_bytes (concat bs @ b)" using assms(2,3) by (auto simp: wf_bytes_def)
  ultimately show ?thesis
    using toString_text_of [of "concat bs @ b"] assms(4) newStringDecoder_ok [OF assms(1)] run(3) by (simp add: e_def)
qed

lemma decoder_chunks_witness:
  "buf_toString (\<lambda>_. Inr []) ascii_lower [0x3D, 0xD8, 0x3C, 0xDE] (Some (JStr (encoding_name Utf16le), None, None)) =
     Inr ([0xD83D] @ [0xDE3C])"
proof -
  have new: "newStringDecoder ascii_lower (JStr (js ''ucs2'')) =
      Inr \<lparr>sd_encoding = Utf16le, lastNeed = 0, lastTotal = 0, lastChar = [0, 0, 0, 0]\<rparr>"
    by (simp add: js_eval numeral_eq_Suc)
  have run: "write_all \<lparr>sd_encoding = Utf16le, lastNeed = 0, lastTotal = 0, lastChar = [0, 0, 0, 0]\<rparr> [[0x3D], [0xD8, 0x3C]] =
      ([0xD83D], \<lparr>sd_encoding = Utf16le, lastNeed = 1, lastTotal = 2, lastChar = [0x3C, 0xD8, 0, 0]\<rparr>)"
    by (simp add: js_eval)
  have stop: "end_bytes \<lparr>sd_encoding = Utf16le, lastNeed = 1, lastTotal = 2, lastChar = [0x3C, 0xD8, 0, 0]\<rparr> [0xDE] =
      ([0xDE3C], \<lparr>sd_encoding = Utf16le, lastNeed = 0, lastTotal = 2, lastChar = [0x3C, 0xDE, 0, 0]\<rparr>)"
    by (simp add: js_eval)
  show ?thesis
    using decoder_chunks [OF new _ _ _ run stop, of "\<lambda>_. Inr []" ascii_lower] by (simp add: K_STRING_MAX_LENGTH_def wf_bytes_def)
qed

end
