(* ===== verification/Buffer_Num.thy ===== *)
theory Buffer_Num
  imports JS_Bits
begin

unbundle bit_operations_syntax

text \<open>
  The integer accessors of \<open>builtin/buffer.js\<close>: \<open>_validateOffset\<close>, \<open>checkInt\<close>, \<open>checkIntBI\<close>,
  \<open>checkBounds\<close>, \<open>boundsError\<close> and the \<open>readXxx\<close> and \<open>writeXxx\<close> methods. A buffer is its list of
  bytes; a write returns its result and the changed bytes. The value written is the number the
  source obtains by \<open>+value\<close>. Shifts and disjunctions that can leave the range of non-negative
  int32 values are done on 32-bit words.
\<close>

section \<open>Argument checks\<close>

definition int_text :: "int \<Rightarrow> string" where
  [js_eval]: "int_text i = (if i < 0 then ''-'' @ nat_string (nat (- i)) else nat_string (nat i))"

definition validateOffset :: "jsval \<Rightarrow> string \<Rightarrow> int \<Rightarrow> int \<Rightarrow> js_error + nat" where
  [js_eval]: "validateOffset v name mn mx =
     (case v of
        JNum x \<Rightarrow>
          if \<not> is_integer x \<and> (case x of Infinity _ \<Rightarrow> False | _ \<Rightarrow> True)
          then Inl (ERR_OUT_OF_RANGE name ''an integer'' v)
          else if mx < mn then Inl (ERR_BUFFER_OUT_OF_BOUNDS '''')
          else if num_less x (int_num mn) \<or> num_less (int_num mx) x
          then Inl (ERR_OUT_OF_RANGE name (''>= '' @ int_text mn @ '' and <= '' @ int_text mx) v)
          else (case x of Num r \<Rightarrow> Inr (nat \<lfloor>r\<rfloor>) | _ \<Rightarrow> Inr 0)
      | _ \<Rightarrow> Inl (ERR_INVALID_ARG_TYPE name ''number'' v))"

definition default_zero :: "jsval \<Rightarrow> jsval" where
  [js_eval]: "default_zero v = (if v = JUndefined then JNum (Num 0) else v)"

definition checkInt :: "bytes \<Rightarrow> jsnum \<Rightarrow> nat \<Rightarrow> nat \<Rightarrow> int \<Rightarrow> int \<Rightarrow> js_error + unit" where
  [js_eval]: "checkInt buf v offset ext mx mn =
     (if num_less (int_num mx) v \<or> num_less v (int_num mn)
      then let limits =
             (if ext > 4
              then if mn = 0 then ''>= 0 and < 2 ** '' @ nat_string (ext * 8)
                   else ''>= -(2 ** '' @ nat_string (ext * 8 - 1) @ '') and < 2 ** '' @ nat_string (ext * 8 - 1)
              else if mn = 0 then ''>= 0 and <= '' @ int_text mx
              else ''>= '' @ int_text mn @ '' and <= '' @ int_text mx)
           in Inl (ERR_OUT_OF_RANGE ''value'' limits (JNum v))
      else if offset + ext > length buf then Inl (ERR_BUFFER_OUT_OF_BOUNDS '''')
      else Inr ())"

section \<open>Reading\<close>

text \<open>The argument checks every fixed-width method starts with.\<close>

definition fixed_offset :: "bytes \<Rightarrow> jsval \<Rightarrow> nat \<Rightarrow> js_error + nat" where
  [js_eval]: "fixed_offset buf offset width =
     validateOffset (default_zero offset) ''offset'' 0 (int (length buf) - int width)"

definition sized_offset :: "bytes \<Rightarrow> jsval \<Rightarrow> jsval \<Rightarrow> js_error + nat \<times> nat" where
  [js_eval]: "sized_offset buf offset byteLength =
     bindE (validateOffset byteLength ''byteLength'' 1 6) (\<lambda>n.
     bindE (validateOffset offset ''offset'' 0 (int (length buf) - int n)) (\<lambda>off. Inr (off, n)))"

function read_le_loop :: "bytes \<Rightarrow> nat \<Rightarrow> nat \<Rightarrow> nat \<Rightarrow> int \<Rightarrow> int \<Rightarrow> int \<times> int" where
  "read_le_loop buf off n i mul val =
     (if i + 1 < n
      then read_le_loop buf off n (i + 1) (mul * 0x100) (val + int (buf ! (off + (i + 1))) * (mul * 0x100))
      else (val, mul))"
  by pat_completeness auto
termination
  by (relation "measure (\<lambda>(buf, off, n, i, mul, val). n - i)") auto

declare read_le_loop.simps [simp del]

fun read_be_loop :: "bytes \<Rightarrow> nat \<Rightarrow> nat \<Rightarrow> int \<Rightarrow> int \<Rightarrow> int \<times> int" where
  "read_be_loop buf off 0 mul val = (val, mul)"
| "read_be_loop buf off (Suc i) mul val =
     read_be_loop buf off i (mul * 0x100) (val + int (buf ! (off + i)) * (mul * 0x100))"

definition readUIntLE :: "bytes \<Rightarrow> jsval \<Rightarrow> jsval \<Rightarrow> js_error + int" where
  [js_eval]: "readUIntLE buf offset byteLength =
     bindE (sized_offset buf offset byteLength) (\<lambda>(off, n).
       Inr (fst (read_le_loop buf off n 0 1 (int (buf ! off)))))"

definition readUIntBE :: "bytes \<Rightarrow> jsval \<Rightarrow> jsval \<Rightarrow> js_error + int" where
  [js_eval]: "readUIntBE buf offset byteLength =
     bindE (sized_offset buf offset byteLength) (\<lambda>(off, n).
       Inr (fst (read_be_loop buf off (n - 1) 1 (int (buf ! (off + (n - 1)))))))"

definition readUInt8 :: "bytes \<Rightarrow> jsval \<Rightarrow> js_error + int" where
  [js_eval]: "readUInt8 buf offset = bindE (fixed_offset buf offset 1) (\<lambda>off. Inr (int (buf ! off)))"

definition readUInt16LE :: "bytes \<Rightarrow> jsval \<Rightarrow> js_error + int" where
  [js_eval]: "readUInt16LE buf offset =
     bindE (fixed_offset buf offset 2) (\<lambda>off. Inr (int (buf ! off OR push_bit 8 (buf ! (off + 1)))))"

definition readUInt16BE :: "bytes \<Rightarrow> jsval \<Rightarrow> js_error + int" where
  [js_eval]: "readUInt16BE buf offset =
     bindE (fixed_offset buf offset 2) (\<lambda>off. Inr (int (push_bit 8 (buf ! off) OR buf ! (off + 1))))"

definition readUInt32LE :: "bytes \<Rightarrow> jsval \<Rightarrow> js_error + int" where
  [js_eval]: "readUInt32LE buf offset =
     bindE (fixed_offset buf offset 4) (\<lambda>off.
       Inr (int ((buf ! off OR push_bit 8 (buf ! (off + 1))) OR push_bit 16 (buf ! (off + 2))) +
            int (buf ! (off + 3)) * 0x1000000))"

definition readUInt32BE :: "bytes \<Rightarrow> jsval \<Rightarrow> js_error + int" where
  [js_eval]: "readUInt32BE buf offset =
     bindE (fixed_offset buf offset 4) (\<lambda>off.
       Inr (int (buf ! off) * 0x1000000 +
            int ((push_bit 16 (buf ! (off + 1)) OR push_bit 8 (buf ! (off + 2))) OR buf ! (off + 3))))"

definition readIntLE :: "bytes \<Rightarrow> jsval \<Rightarrow> jsval \<Rightarrow> js_error + int" where
  [js_eval]: "readIntLE buf offset byteLength =
     bindE (sized_offset buf offset byteLength) (\<lambda>(off, n).
       let (val, mul) = read_le_loop buf off n 0 1 (int (buf ! off))
       in Inr (if val \<ge> mul * 0x80 then val - 2 ^ (8 * n) else val))"

definition readIntBE :: "bytes \<Rightarrow> jsval \<Rightarrow> jsval \<Rightarrow> js_error + int" where
  [js_eval]: "readIntBE buf offset byteLength =
     bindE (sized_offset buf offset byteLength) (\<lambda>(off, n).
       let (val, mul) = read_be_loop buf off (n - 1) 1 (int (buf ! (off + (n - 1))))
       in Inr (if val \<ge> mul * 0x80 then val - 2 ^ (8 * n) else val))"

definition readInt8 :: "bytes \<Rightarrow> jsval \<Rightarrow> js_error + int" where
  [js_eval]: "readInt8 buf offset =
     bindE (fixed_offset buf offset 1) (\<lambda>off.
       Inr (if buf ! off AND 0x80 = 0 then int (buf ! off) else (0xFF - int (buf ! off) + 1) * (-1)))"

definition sign_extend16 :: "nat \<Rightarrow> int" where
  [js_eval]: "sign_extend16 val =
     (if val AND 0x8000 \<noteq> 0 then sint (word_of_nat val OR 0xFFFF0000 :: 32 word) else int val)"

definition readInt16LE :: "bytes \<Rightarrow> jsval \<Rightarrow> js_error + int" where
  [js_eval]: "readInt16LE buf offset =
     bindE (fixed_offset buf offset 2) (\<lambda>off. Inr (sign_extend16 (buf ! off OR push_bit 8 (buf ! (off + 1)))))"

definition readInt16BE :: "bytes \<Rightarrow> jsval \<Rightarrow> js_error + int" where
  [js_eval]: "readInt16BE buf offset =
     bindE (fixed_offset buf offset 2) (\<lambda>off. Inr (sign_extend16 (buf ! (off + 1) OR push_bit 8 (buf ! off))))"

definition byte_word :: "bytes \<Rightarrow> nat \<Rightarrow> 32 word" where
  [js_eval]: "byte_word buf i = word_of_nat (buf ! i)"

definition readInt32LE :: "bytes \<Rightarrow> jsval \<Rightarrow> js_error + int" where
  [js_eval]: "readInt32LE buf offset =
     bindE (fixed_offset buf offset 4) (\<lambda>off.
       Inr (sint (((byte_word buf off OR push_bit 8 (byte_word buf (off + 1))) OR
                   push_bit 16 (byte_word buf (off + 2))) OR push_bit 24 (byte_word buf (off + 3)))))"

definition readInt32BE :: "bytes \<Rightarrow> jsval \<Rightarrow> js_error + int" where
  [js_eval]: "readInt32BE buf offset =
     bindE (fixed_offset buf offset 4) (\<lambda>off.
       Inr (sint (((push_bit 24 (byte_word buf off) OR push_bit 16 (byte_word buf (off + 1))) OR
                   push_bit 8 (byte_word buf (off + 2))) OR byte_word buf (off + 3))))"

subsection \<open>64-bit reads\<close>

definition boundsError :: "jsnum \<Rightarrow> int \<Rightarrow> js_error" where
  [js_eval]: "boundsError v len =
     (if (case v of NaN \<Rightarrow> True | Infinity _ \<Rightarrow> False | Num r \<Rightarrow> of_int \<lfloor>r\<rfloor> \<noteq> r)
      then ERR_OUT_OF_RANGE ''offset'' ''an integer'' (JNum v)
      else if len < 0 then ERR_BUFFER_OUT_OF_BOUNDS ''''
      else ERR_OUT_OF_RANGE ''offset'' (''>= 0 and <= '' @ int_text len) (JNum v))"

text \<open>\<open>offset\<close> is the number \<open>offset >>> 0\<close> is applied to.\<close>

definition big_offset :: "bytes \<Rightarrow> jsnum \<Rightarrow> js_error + nat" where
  [js_eval]: "big_offset buf offset =
     (let off = ToUint32 offset
      in if off < length buf \<and> off + 7 < length buf then Inr off
         else Inl (boundsError (nat_num off) (int (length buf) - 8)))"

definition weighted :: "bytes \<Rightarrow> nat \<Rightarrow> nat \<Rightarrow> int" where
  [js_eval]: "weighted buf i k = int (buf ! i) * 2 ^ k"

definition readBigUInt64LE :: "bytes \<Rightarrow> jsnum \<Rightarrow> js_error + int" where
  [js_eval]: "readBigUInt64LE buf offset =
     bindE (big_offset buf offset) (\<lambda>off.
       let lo = int (buf ! off) + weighted buf (off + 1) 8 + weighted buf (off + 2) 16 + weighted buf (off + 3) 24;
           hi = int (buf ! (off + 4)) + weighted buf (off + 5) 8 + weighted buf (off + 6) 16 + weighted buf (off + 7) 24
       in Inr (lo + push_bit 32 hi))"

definition readBigUInt64BE :: "bytes \<Rightarrow> jsnum \<Rightarrow> js_error + int" where
  [js_eval]: "readBigUInt64BE buf offset =
     bindE (big_offset buf offset) (\<lambda>off.
       let hi = weighted buf off 24 + weighted buf (off + 1) 16 + weighted buf (off + 2) 8 + int (buf ! (off + 3));
           lo = weighted buf (off + 4) 24 + weighted buf (off + 5) 16 + weighted buf (off + 6) 8 + int (buf ! (off + 7))
       in Inr (push_bit 32 hi + lo))"

definition readBigInt64LE :: "bytes \<Rightarrow> jsnum \<Rightarrow> js_error + int" where
  [js_eval]: "readBigInt64LE buf offset =
     bindE (big_offset buf offset) (\<lambda>off.
       let val = int (buf ! (off + 4)) + weighted buf (off + 5) 8 + weighted buf (off + 6) 16 +
                 sint (push_bit 24 (byte_word buf (off + 7)))
       in Inr (push_bit 32 val +
               (int (buf ! off) + weighted buf (off + 1) 8 + weighted buf (off + 2) 16 + weighted buf (off + 3) 24)))"

definition readBigInt64BE :: "bytes \<Rightarrow> jsnum \<Rightarrow> js_error + int" where
  [js_eval]: "readBigInt64BE buf offset =
     bindE (big_offset buf offset) (\<lambda>off.
       let val = sint (push_bit 24 (byte_word buf off)) + weighted buf (off + 1) 16 + weighted buf (off + 2) 8 +
                 int (buf ! (off + 3))
       in Inr (push_bit 32 val +
               (weighted buf (off + 4) 24 + weighted buf (off + 5) 16 + weighted buf (off + 6) 8 + int (buf ! (off + 7)))))"

section \<open>Writing\<close>

text \<open>Storing a number in a byte array keeps its low eight bits.\<close>

definition put :: "bytes \<Rightarrow> nat \<Rightarrow> int \<Rightarrow> bytes" where
  [js_eval]: "put buf i x = buf[i := nat (x mod 256)]"

definition num_and :: "jsnum \<Rightarrow> 32 word \<Rightarrow> int" where
  [js_eval]: "num_and x m = sint (ToInt32 x AND m)"

definition num_shr :: "jsnum \<Rightarrow> nat \<Rightarrow> int" where
  [js_eval]: "num_shr x k = uint (drop_bit k (ToInt32 x))"

fun num_div :: "jsnum \<Rightarrow> int \<Rightarrow> jsnum" where
  "num_div (Num r) m = Num (r / of_int m)"
| "num_div x m = x"

fun num_add :: "jsnum \<Rightarrow> int \<Rightarrow> jsnum" where
  "num_add (Num r) m = Num (r + of_int m)"
| "num_add x m = x"

type_synonym written = "js_error + nat \<times> bytes"

definition sized_write :: "bytes \<Rightarrow> jsnum \<Rightarrow> jsval \<Rightarrow> jsval \<Rightarrow> (nat \<Rightarrow> int \<times> int) \<Rightarrow> (nat \<Rightarrow> nat \<Rightarrow> bytes) \<Rightarrow> written" where
  [js_eval]: "sized_write buf v offset byteLength limits store =
     bindE (sized_offset buf offset byteLength) (\<lambda>(off, n).
       let (mx, mn) = limits n
       in bindE (checkInt buf v off n mx mn) (\<lambda>_. Inr (off + n, store off n)))"

function write_le_loop :: "bytes \<Rightarrow> jsnum \<Rightarrow> nat \<Rightarrow> nat \<Rightarrow> nat \<Rightarrow> int \<Rightarrow> bytes" where
  "write_le_loop buf v off n i mul =
     (if i + 1 < n
      then write_le_loop (put buf (off + (i + 1)) (num_and (num_div v (mul * 0x100)) 0xFF)) v off n (i + 1) (mul * 0x100)
      else buf)"
  by pat_completeness auto
termination
  by (relation "measure (\<lambda>(buf, v, off, n, i, mul). n - i)") auto

declare write_le_loop.simps [simp del]

fun write_be_loop :: "bytes \<Rightarrow> jsnum \<Rightarrow> nat \<Rightarrow> nat \<Rightarrow> int \<Rightarrow> bytes" where
  "write_be_loop buf v off 0 mul = buf"
| "write_be_loop buf v off (Suc i) mul =
     write_be_loop (put buf (off + i) (num_and (num_div v (mul * 0x100)) 0xFF)) v off i (mul * 0x100)"

definition writeUIntLE :: "bytes \<Rightarrow> jsnum \<Rightarrow> jsval \<Rightarrow> jsval \<Rightarrow> written" where
  [js_eval]: "writeUIntLE buf v offset byteLength =
     sized_write buf v offset byteLength (\<lambda>n. (2 ^ (8 * n) - 1, 0))
       (\<lambda>off n. write_le_loop (put buf off (num_and v 0xFF)) v off n 0 1)"

definition writeUIntBE :: "bytes \<Rightarrow> jsnum \<Rightarrow> jsval \<Rightarrow> jsval \<Rightarrow> written" where
  [js_eval]: "writeUIntBE buf v offset byteLength =
     sized_write buf v offset byteLength (\<lambda>n. (2 ^ (8 * n) - 1, 0))
       (\<lambda>off n. write_be_loop (put buf (off + (n - 1)) (num_and v 0xFF)) v off (n - 1) 1)"

text \<open>One byte of the signed loops: the quotient is truncated, so a borrow corrects it.\<close>

definition borrow :: "jsnum \<Rightarrow> int \<Rightarrow> nat \<Rightarrow> int" where
  [js_eval]: "borrow v sub prev = (if num_less v (Num 0) \<and> sub = 0 \<and> prev \<noteq> 0 then 1 else sub)"

definition signed_digit :: "jsnum \<Rightarrow> int \<Rightarrow> int \<Rightarrow> int" where
  [js_eval]: "signed_digit v mul sub = num_and (int_num (sint (ToInt32 (num_div v mul)) - sub)) 0xFF"

function write_sle_loop :: "bytes \<Rightarrow> jsnum \<Rightarrow> nat \<Rightarrow> nat \<Rightarrow> nat \<Rightarrow> int \<Rightarrow> int \<Rightarrow> bytes" where
  "write_sle_loop buf v off n i mul sub =
     (if i + 1 < n
      then let sub' = borrow v sub (buf ! (off + i))
           in write_sle_loop (put buf (off + (i + 1)) (signed_digit v (mul * 0x100) sub')) v off n (i + 1) (mul * 0x100) sub'
      else buf)"
  by pat_completeness auto
termination
  by (relation "measure (\<lambda>(buf, v, off, n, i, mul, sub). n - i)") auto

declare write_sle_loop.simps [simp del]

fun write_sbe_loop :: "bytes \<Rightarrow> jsnum \<Rightarrow> nat \<Rightarrow> nat \<Rightarrow> int \<Rightarrow> int \<Rightarrow> bytes" where
  "write_sbe_loop buf v off 0 mul sub = buf"
| "write_sbe_loop buf v off (Suc i) mul sub =
     (let sub' = borrow v sub (buf ! (off + (i + 1)))
      in write_sbe_loop (put buf (off + i) (signed_digit v (mul * 0x100) sub')) v off i (mul * 0x100) sub')"

definition writeIntLE :: "bytes \<Rightarrow> jsnum \<Rightarrow> jsval \<Rightarrow> jsval \<Rightarrow> written" where
  [js_eval]: "writeIntLE buf v offset byteLength =
     sized_write buf v offset byteLength (\<lambda>n. (2 ^ (8 * n - 1) - 1, - (2 ^ (8 * n - 1))))
       (\<lambda>off n. write_sle_loop (put buf off (num_and v 0xFF)) v off n 0 1 0)"

definition writeIntBE :: "bytes \<Rightarrow> jsnum \<Rightarrow> jsval \<Rightarrow> jsval \<Rightarrow> written" where
  [js_eval]: "writeIntBE buf v offset byteLength =
     sized_write buf v offset byteLength (\<lambda>n. (2 ^ (8 * n - 1) - 1, - (2 ^ (8 * n - 1))))
       (\<lambda>off n. write_sbe_loop (put buf (off + (n - 1)) (num_and v 0xFF)) v off (n - 1) 1 0)"

definition fixed_write :: "bytes \<Rightarrow> jsnum \<Rightarrow> jsval \<Rightarrow> nat \<Rightarrow> int \<Rightarrow> int \<Rightarrow> (nat \<Rightarrow> bytes) \<Rightarrow> written" where
  [js_eval]: "fixed_write buf v offset width mx mn store =
     bindE (fixed_offset buf offset width) (\<lambda>off.
     bindE (checkInt buf v off width mx mn) (\<lambda>_. Inr (off + width, store off)))"

definition writeUInt8 :: "bytes \<Rightarrow> jsnum \<Rightarrow> jsval \<Rightarrow> written" where
  [js_eval]: "writeUInt8 buf v offset =
     fixed_write buf v offset 1 0xFF 0 (\<lambda>off. put buf off (num_and v 0xFF))"

definition writeUInt16LE :: "bytes \<Rightarrow> jsnum \<Rightarrow> jsval \<Rightarrow> written" where
  [js_eval]: "writeUInt16LE buf v offset =
     fixed_write buf v offset 2 0xFFFF 0 (\<lambda>off. put (put buf off (num_and v 0xFF)) (off + 1) (num_shr v 8))"

definition writeUInt16BE :: "bytes \<Rightarrow> jsnum \<Rightarrow> jsval \<Rightarrow> written" where
  [js_eval]: "writeUInt16BE buf v offset =
     fixed_write buf v offset 2 0xFFFF 0 (\<lambda>off. put (put buf off (num_shr v 8)) (off + 1) (num_and v 0xFF))"

definition writeUInt32LE :: "bytes \<Rightarrow> jsnum \<Rightarrow> jsval \<Rightarrow> written" where
  [js_eval]: "writeUInt32LE buf v offset =
     fixed_write buf v offset 4 0xFFFFFFFF 0 (\<lambda>off.
       put (put (put (put buf (off + 3) (num_shr v 24)) (off + 2) (num_shr v 16)) (off + 1) (num_shr v 8)) off (num_and v 0xFF))"

definition writeUInt32BE :: "bytes \<Rightarrow> jsnum \<Rightarrow> jsval \<Rightarrow> written" where
  [js_eval]: "writeUInt32BE buf v offset =
     fixed_write buf v offset 4 0xFFFFFFFF 0 (\<lambda>off.
       put (put (put (put buf off (num_shr v 24)) (off + 1) (num_shr v 16)) (off + 2) (num_shr v 8)) (off + 3) (num_and v 0xFF))"

definition writeInt8 :: "bytes \<Rightarrow> jsnum \<Rightarrow> jsval \<Rightarrow> written" where
  [js_eval]: "writeInt8 buf v offset =
     fixed_write buf v offset 1 0x7F (-0x80) (\<lambda>off.
       let v' = (if num_less v (Num 0) then num_add v 0x100 else v) in put buf off (num_and v' 0xFF))"

definition writeInt16LE :: "bytes \<Rightarrow> jsnum \<Rightarrow> jsval \<Rightarrow> written" where
  [js_eval]: "writeInt16LE buf v offset =
     fixed_write buf v offset 2 0x7FFF (-0x8000) (\<lambda>off. put (put buf off (num_and v 0xFF)) (off + 1) (num_shr v 8))"

definition writeInt16BE :: "bytes \<Rightarrow> jsnum \<Rightarrow> jsval \<Rightarrow> written" where
  [js_eval]: "writeInt16BE buf v offset =
     fixed_write buf v offset 2 0x7FFF (-0x8000) (\<lambda>off. put (put buf off (num_shr v 8)) (off + 1) (num_and v 0xFF))"

definition writeInt32LE :: "bytes \<Rightarrow> jsnum \<Rightarrow> jsval \<Rightarrow> written" where
  [js_eval]: "writeInt32LE buf v offset =
     fixed_write buf v offset 4 0x7FFFFFFF (-0x80000000) (\<lambda>off.
       put (put (put (put buf off (num_and v 0xFF)) (off + 1) (num_shr v 8)) (off + 2) (num_shr v 16)) (off + 3) (num_shr v 24))"

definition writeInt32BE :: "bytes \<Rightarrow> jsnum \<Rightarrow> jsval \<Rightarrow> written" where
  [js_eval]: "writeInt32BE buf v offset =
     fixed_write buf v offset 4 0x7FFFFFFF (-0x80000000) (\<lambda>off.
       let v' = (if num_less v (Num 0) then num_add v 0x100000000 else v)
       in put (put (put (put buf off (num_shr v' 24)) (off + 1) (num_shr v' 16)) (off + 2) (num_shr v' 8)) (off + 3) (num_and v' 0xFF))"

subsection \<open>64-bit writes\<close>

text \<open>
  The offset is only compared, so it may be fractional or NaN: then the stores are ignored by the
  typed array.
\<close>

definition checkBounds :: "bytes \<Rightarrow> jsval \<Rightarrow> int \<Rightarrow> js_error + jsnum" where
  [js_eval]: "checkBounds buf offset byteLength =
     (case offset of
        JNum x \<Rightarrow>
          if num_less x (Num 0) \<or> num_less (nat_num (length buf)) (num_add x byteLength)
          then Inl (ERR_BUFFER_OUT_OF_BOUNDS '''') else Inr x
      | _ \<Rightarrow> Inl (ERR_INVALID_ARG_TYPE ''offset'' ''number'' offset))"

definition checkIntBI :: "int \<Rightarrow> int \<Rightarrow> int \<Rightarrow> bytes \<Rightarrow> jsval \<Rightarrow> nat \<Rightarrow> js_error + jsnum" where
  [js_eval]: "checkIntBI v mn mx buf offset byteLength =
     (if v > mx \<or> v < mn
      then let limits =
             (if byteLength > 3
              then if mn = 0 then ''>= 0n and < 2n ** '' @ nat_string ((byteLength + 1) * 8) @ ''n''
                   else ''>= -(2n ** '' @ nat_string ((byteLength + 1) * 8 - 1) @ ''n) and < 2 ** '' @
                        nat_string ((byteLength + 1) * 8 - 1) @ ''n''
              else ''>= '' @ int_text mn @ ''n and <= '' @ int_text mx @ ''n'')
           in Inl (ERR_OUT_OF_RANGE ''value'' limits (JBigInt v))
      else checkBounds buf offset (int byteLength))"

definition store_at :: "bytes \<Rightarrow> jsnum \<Rightarrow> int \<Rightarrow> bytes" where
  [js_eval]: "store_at buf x b =
     (case x of
        Num r \<Rightarrow> if of_int \<lfloor>r\<rfloor> = r \<and> 0 \<le> r \<and> \<lfloor>r\<rfloor> < int (length buf) then put buf (nat \<lfloor>r\<rfloor>) b else buf
      | _ \<Rightarrow> buf)"

definition sar8 :: "int \<Rightarrow> int" where
  [js_eval]: "sar8 x = sint (signed_drop_bit 8 (word_of_int x :: 32 word))"

definition wrtBigUInt64LE :: "bytes \<Rightarrow> int \<Rightarrow> jsval \<Rightarrow> int \<Rightarrow> int \<Rightarrow> js_error + jsnum \<times> bytes" where
  [js_eval]: "wrtBigUInt64LE buf v offset mn mx =
     bindE (checkIntBI v mn mx buf offset 7) (\<lambda>x.
       let lo = v AND 0xFFFFFFFF; lo1 = sar8 lo; lo2 = sar8 lo1; lo3 = sar8 lo2;
           hi = drop_bit 32 v AND 0xFFFFFFFF; hi1 = sar8 hi; hi2 = sar8 hi1; hi3 = sar8 hi2;
           buf = store_at buf x lo; buf = store_at buf (num_add x 1) lo1;
           buf = store_at buf (num_add x 2) lo2; buf = store_at buf (num_add x 3) lo3;
           buf = store_at buf (num_add x 4) hi; buf = store_at buf (num_add x 5) hi1;
           buf = store_at buf (num_add x 6) hi2; buf = store_at buf (num_add x 7) hi3
       in Inr (num_add x 8, buf))"

definition wrtBigUInt64BE :: "bytes \<Rightarrow> int \<Rightarrow> jsval \<Rightarrow> int \<Rightarrow> int \<Rightarrow> js_error + jsnum \<times> bytes" where
  [js_eval]: "wrtBigUInt64BE buf v offset mn mx =
     bindE (checkIntBI v mn mx buf offset 7) (\<lambda>x.
       let lo = v AND 0xFFFFFFFF; lo1 = sar8 lo; lo2 = sar8 lo1; lo3 = sar8 lo2;
           hi = drop_bit 32 v AND 0xFFFFFFFF; hi1 = sar8 hi; hi2 = sar8 hi1; hi3 = sar8 hi2;
           buf = store_at buf (num_add x 7) lo; buf = store_at buf (num_add x 6) lo1;
           buf = store_at buf (num_add x 5) lo2; buf = store_at buf (num_add x 4) lo3;
           buf = store_at buf (num_add x 3) hi; buf = store_at buf (num_add x 2) hi1;
           buf = store_at buf (num_add x 1) hi2; buf = store_at buf x hi3
       in Inr (num_add x 8, buf))"

definition writeBigUInt64LE :: "bytes \<Rightarrow> int \<Rightarrow> jsval \<Rightarrow> js_error + jsnum \<times> bytes" where
  [js_eval]: "writeBigUInt64LE buf v offset = wrtBigUInt64LE buf v (default_zero offset) 0 0xFFFFFFFFFFFFFFFF"

definition writeBigUInt64BE :: "bytes \<Rightarrow> int \<Rightarrow> jsval \<Rightarrow> js_error + jsnum \<times> bytes" where
  [js_eval]: "writeBigUInt64BE buf v offset = wrtBigUInt64BE buf v (default_zero offset) 0 0xFFFFFFFFFFFFFFFF"

definition writeBigInt64LE :: "bytes \<Rightarrow> int \<Rightarrow> jsval \<Rightarrow> js_error + jsnum \<times> bytes" where
  [js_eval]: "writeBigInt64LE buf v offset =
     wrtBigUInt64LE buf v (default_zero offset) (-0x8000000000000000) 0x7FFFFFFFFFFFFFFF"

definition writeBigInt64BE :: "bytes \<Rightarrow> int \<Rightarrow> jsval \<Rightarrow> js_error + jsnum \<times> bytes" where
  [js_eval]: "writeBigInt64BE buf v offset =
     wrtBigUInt64BE buf v (default_zero offset) (-0x8000000000000000) 0x7FFFFFFFFFFFFFFF"

end
