(* ===== verification/Buffer_Num_Laws.thy ===== *)
theory Buffer_Num_Laws
  imports Buffer_Num
begin

unbundle bit_operations_syntax

text \<open>
  The integer accessors of a buffer against their reference: a field is the positional value of its
  bytes, little or big endian, signed values in two's complement. Every read is that value, every
  write stores its digits, and a write is read back.
\<close>

section \<open>Digits\<close>

fun le_value :: "bytes \<Rightarrow> int" where
  "le_value [] = 0"
| "le_value (b # bs) = int b + 256 * le_value bs"

fun le_bytes :: "nat \<Rightarrow> int \<Rightarrow> bytes" where
  "le_bytes 0 x = []"
| "le_bytes (Suc n) x = nat (x mod 256) # le_bytes n (x div 256)"

definition signed_value :: "nat \<Rightarrow> int \<Rightarrow> int" where
  [js_eval]: "signed_value n x = (if x \<ge> 2 ^ (8 * n - 1) then x - 2 ^ (8 * n) else x)"

lemma le_bytes_numeral: "le_bytes (numeral k) x = nat (x mod 256) # le_bytes (pred_numeral k) (x div 256)"
  by (simp add: numeral_eq_Suc)

lemma length_le_bytes [simp]: "length (le_bytes n x) = n"
  by (induction n arbitrary: x) simp_all

lemma wf_le_bytes [simp]: "wf_bytes (le_bytes n x)"
  by (induction n arbitrary: x) (auto simp: wf_bytes_def)

lemma le_value_bytes: "le_value (le_bytes n x) = x mod 256 ^ n"
proof (induction n arbitrary: x)
  case (Suc n)
  have "x mod (256 * 256 ^ n) = 256 * (x div 256 mod 256 ^ n) + x mod 256" by (rule zmod_zmult2_eq) simp
  then show ?case using Suc by simp
qed simp

lemma le_bytes_snoc: "le_bytes (Suc n) x = le_bytes n x @ [nat (x div 256 ^ n mod 256)]"
proof (induction n arbitrary: x)
  case (Suc n)
  have "x div 256 div 256 ^ n = x div (256 * 256 ^ n)" by (simp add: zdiv_zmult2_eq)
  then show ?case using Suc [of "x div 256"] by simp
qed simp

lemma le_value_bounds: "wf_bytes bs \<Longrightarrow> 0 \<le> le_value bs \<and> le_value bs < 256 ^ length bs"
proof (induction bs)
  case (Cons b bs)
  then have "b < 256" "0 \<le> le_value bs" "le_value bs < 256 ^ length bs" by (auto simp: wf_bytes_def)
  then show ?case by simp
qed simp

lemma pow256: "(256::int) ^ n = 2 ^ (8 * n)"
  by (simp add: power_mult)

lemma signed_round_trip:
  assumes "0 < n" "- (2 ^ (8 * n - 1)) \<le> v" "v < 2 ^ (8 * n - 1)"
  shows "signed_value n (v mod 256 ^ n) = v"
proof -
  have two: "(2::int) ^ (8 * n) = 2 * 2 ^ (8 * n - 1)" using assms(1) by (simp flip: power_Suc)
  show ?thesis
  proof (cases "0 \<le> v")
    case True
    then have "v mod 256 ^ n = v" using assms two by (simp add: pow256)
    then show ?thesis using assms(3) by (simp add: signed_value_def)
  next
    case False
    have "(v + 2 ^ (8 * n)) mod 2 ^ (8 * n) = v + 2 ^ (8 * n)"
      using False assms(2) two by (intro mod_pos_pos_trivial) auto
    then have "v mod 256 ^ n = v + 2 ^ (8 * n)" by (simp add: pow256)
    then show ?thesis using assms(2) two by (simp add: signed_value_def)
  qed
qed

section \<open>Fields\<close>

definition field_bytes :: "bool \<Rightarrow> bytes \<Rightarrow> nat \<Rightarrow> nat \<Rightarrow> bytes" where
  [js_eval]: "field_bytes little buf off n =
     (let bs = take n (drop off buf) in if little then bs else rev bs)"

definition field_value :: "bool \<Rightarrow> bool \<Rightarrow> bytes \<Rightarrow> nat \<Rightarrow> nat \<Rightarrow> int" where
  [js_eval]: "field_value neg little buf off n =
     (let x = le_value (field_bytes little buf off n) in if neg then signed_value n x else x)"

definition set_field :: "bool \<Rightarrow> bytes \<Rightarrow> nat \<Rightarrow> nat \<Rightarrow> int \<Rightarrow> bytes" where
  [js_eval]: "set_field little buf off n v =
     take off buf @ (if little then le_bytes n v else rev (le_bytes n v)) @ drop (off + n) buf"

lemma field_of_set_field:
  "off + n \<le> length buf \<Longrightarrow> field_bytes little (set_field little buf off n v) off n = le_bytes n v"
  by (simp add: field_bytes_def set_field_def Let_def)

lemma take_drop_Suc: "off < length buf \<Longrightarrow> take (Suc n) (drop off buf) = buf ! off # take n (drop (Suc off) buf)"
  by (simp add: take_Suc_conv_app_nth Cons_nth_drop_Suc [symmetric])

lemma take_drop_nums:
  "off + 1 \<le> length buf \<Longrightarrow> take 1 (drop off buf) = [buf ! off]"
  "off + 2 \<le> length buf \<Longrightarrow> take 2 (drop off buf) = [buf ! off, buf ! (off + 1)]"
  "off + 4 \<le> length buf \<Longrightarrow>
     take 4 (drop off buf) = [buf ! off, buf ! (off + 1), buf ! (off + 2), buf ! (off + 3)]"
  by (simp_all add: numeral_eq_Suc take_drop_Suc)

lemma nth_byte: "wf_bytes buf \<Longrightarrow> i < length buf \<Longrightarrow> buf ! i < 256"
  by (simp add: wf_bytes_def)

section \<open>Reading\<close>

lemma or_shift8: "b < 256 \<Longrightarrow> push_bit 8 a OR b = a * 256 + (b::nat)" "b < 256 \<Longrightarrow> b OR push_bit 8 a = a * 256 + (b::nat)"
  using or_disjoint [of b 8 a] by (simp_all add: push_bit_eq_mult or.commute)

lemma or_shift16: "b < 65536 \<Longrightarrow> push_bit 16 a OR b = a * 65536 + (b::nat)" "b < 65536 \<Longrightarrow> b OR push_bit 16 a = a * 65536 + (b::nat)"
  using or_disjoint [of b 16 a] by (simp_all add: push_bit_eq_mult or.commute)

lemma or_shift24: "b < 16777216 \<Longrightarrow> push_bit 24 a OR b = a * 16777216 + (b::nat)" "b < 16777216 \<Longrightarrow> b OR push_bit 24 a = a * 16777216 + (b::nat)"
  using or_disjoint [of b 24 a] by (simp_all add: push_bit_eq_mult or.commute)

lemma or_bytes3:
  assumes "a < 256" "b < 256" "c < (256::nat)"
  shows "(a OR push_bit 8 b) OR push_bit 16 c = c * 65536 + (b * 256 + a)"
    "(push_bit 16 c OR push_bit 8 b) OR a = c * 65536 + (b * 256 + a)"
proof -
  have 1: "a OR push_bit 8 b = b * 256 + a" "push_bit 8 b OR a = b * 256 + a" using or_shift8 [OF assms(1)] by simp_all
  have "b * 256 + a < 65536" using assms by simp
  then show "(a OR push_bit 8 b) OR push_bit 16 c = c * 65536 + (b * 256 + a)"
    "(push_bit 16 c OR push_bit 8 b) OR a = c * 65536 + (b * 256 + a)"
    using or_shift16 [of "b * 256 + a" c] by (simp_all add: 1 or.assoc)
qed

lemma or_bytes4:
  assumes "a < 256" "b < 256" "c < 256" "d < (256::nat)"
  shows "((a OR push_bit 8 b) OR push_bit 16 c) OR push_bit 24 d = d * 16777216 + (c * 65536 + (b * 256 + a))"
    "((push_bit 24 d OR push_bit 16 c) OR push_bit 8 b) OR a = d * 16777216 + (c * 65536 + (b * 256 + a))"
proof -
  have "c * 65536 + (b * 256 + a) < 16777216" using assms by simp
  then show "((a OR push_bit 8 b) OR push_bit 16 c) OR push_bit 24 d = d * 16777216 + (c * 65536 + (b * 256 + a))"
    "((push_bit 24 d OR push_bit 16 c) OR push_bit 8 b) OR a = d * 16777216 + (c * 65536 + (b * 256 + a))"
    using or_shift24 [of "c * 65536 + (b * 256 + a)" d] or_bytes3 [OF assms(1-3)] by (simp_all add: or.assoc)
qed

lemma sint_word_of_nat: "n < 2 ^ 32 \<Longrightarrow> sint (word_of_nat n :: 32 word) = (if n < 2 ^ 31 then int n else int n - 2 ^ 32)"
proof -
  assume n: "n < 2 ^ 32"
  have "sint (word_of_nat n :: 32 word) = signed_take_bit 31 (int n)" by (simp add: signed_of_nat)
  also have "\<dots> = (if n < 2 ^ 31 then int n else int n - 2 ^ 32)"
  proof (cases "n < 2 ^ 31")
    case True
    then show ?thesis by (simp add: signed_take_bit_int_eq_self)
  next
    case False
    have "signed_take_bit 31 (int n) = signed_take_bit 31 (int n - 2 ^ 32)"
      by (simp add: signed_take_bit_eq_iff_take_bit_eq take_bit_eq_mod)
    then show ?thesis using False n by (simp add: signed_take_bit_int_eq_self)
  qed
  finally show ?thesis .
qed

lemma word_nat_or: "word_of_nat a OR word_of_nat b = (word_of_nat (a OR b) :: 'a::len word)"
  by (simp add: of_nat_or_eq)

lemma word_nat_push: "push_bit k (word_of_nat a) = (word_of_nat (push_bit k a) :: 'a::len word)"
  by (simp add: push_bit_of_nat)

lemma and_top_bit: "x < 2 * 2 ^ k \<Longrightarrow> x AND 2 ^ k = 0 \<longleftrightarrow> x < (2::nat) ^ k"
proof -
  assume "x < 2 * 2 ^ k"
  then have "x div 2 ^ k < 2" by (simp add: div_less_iff_less_mult)
  then have "odd (x div 2 ^ k) \<longleftrightarrow> \<not> x < 2 ^ k" by (auto simp: less_2_cases_iff div_eq_0_iff)
  then show ?thesis unfolding and_exp_eq_0_iff_not_bit bit_iff_odd by blast
qed

lemma sign_extend16_eq: "n < 65536 \<Longrightarrow> sign_extend16 n = signed_value 2 (int n)"
proof -
  assume n: "n < 65536"
  have bit: "n AND 0x8000 = 0 \<longleftrightarrow> n < 32768" using and_top_bit [of n 15] n by simp
  have "(0xFFFF0000 :: 32 word) = word_of_nat (push_bit 16 0xFFFF)" by (simp add: push_bit_eq_mult)
  then have "word_of_nat n OR 0xFFFF0000 = (word_of_nat (n OR push_bit 16 0xFFFF) :: 32 word)"
    by (simp only: word_nat_or)
  also have "n OR push_bit 16 0xFFFF = 0xFFFF * 65536 + n" using or_shift16(2) [OF n, of 65535] by simp
  finally have "sint (word_of_nat n OR 0xFFFF0000 :: 32 word) = int n - 65536"
    using sint_word_of_nat [of "65535 * 65536 + n"] n by simp
  then show ?thesis using bit by (simp add: sign_extend16_def signed_value_def)
qed

text \<open>The loops of the sized reads.\<close>

lemma read_le_loop_eq:
  "i < n \<Longrightarrow> off + n \<le> length buf \<Longrightarrow>
     read_le_loop buf off n i mul val =
       (val + mul * 256 * le_value (take (n - (i + 1)) (drop (off + (i + 1)) buf)), mul * 256 ^ (n - (i + 1)))"
proof (induction buf off n i mul val rule: read_le_loop.induct)
  case (1 buf off n i mul val)
  show ?case
  proof (cases "i + 1 < n")
    case True
    have "take (n - (i + 1)) (drop (off + (i + 1)) buf) =
        buf ! (off + (i + 1)) # take (n - (i + 1 + 1)) (drop (off + (i + 1 + 1)) buf)"
    proof -
      have "Suc (n - (i + 1 + 1)) = n - (i + 1)" using True by simp
      then show ?thesis using take_drop_Suc [of "off + (i + 1)" buf "n - (i + 1 + 1)"] True 1(3) by simp
    qed
    moreover have "(256::int) ^ (n - (i + 1)) = 256 * 256 ^ (n - (i + 1 + 1))"
      using True by (simp flip: power_Suc)
    ultimately show ?thesis
      using 1(1) [OF True] True 1(3) by (subst read_le_loop.simps) (simp add: algebra_simps)
  next
    case False
    then show ?thesis using 1(2) by (subst read_le_loop.simps) simp
  qed
qed

lemma read_be_loop_eq:
  "off + i \<le> length buf \<Longrightarrow>
     read_be_loop buf off i mul val = (val + mul * 256 * le_value (rev (take i (drop off buf))), mul * 256 ^ i)"
proof (induction i arbitrary: mul val)
  case (Suc i)
  then have "rev (take (Suc i) (drop off buf)) = buf ! (off + i) # rev (take i (drop off buf))"
    by (simp add: take_Suc_conv_app_nth)
  then show ?case using Suc by (simp add: algebra_simps)
qed simp

lemma read_le_field:
  assumes "0 < n" "off + n \<le> length buf"
  shows "read_le_loop buf off n 0 1 (int (buf ! off)) = (field_value False True buf off n, 256 ^ (n - 1))"
proof -
  have "take n (drop off buf) = buf ! off # take (n - 1) (drop (Suc off) buf)"
    using take_drop_Suc [of off buf "n - 1"] assms by simp
  then show ?thesis using read_le_loop_eq [OF assms] by (simp add: field_value_def field_bytes_def)
qed

lemma read_be_field:
  assumes "0 < n" "off + n \<le> length buf"
  shows "read_be_loop buf off (n - 1) 1 (int (buf ! (off + (n - 1)))) = (field_value False False buf off n, 256 ^ (n - 1))"
proof -
  have "rev (take n (drop off buf)) = buf ! (off + (n - 1)) # rev (take (n - 1) (drop off buf))"
    using take_Suc_conv_app_nth [of "n - 1" "drop off buf"] assms by simp
  then show ?thesis using read_be_loop_eq [of off "n - 1" buf] assms by (simp add: field_value_def field_bytes_def)
qed

lemma signed_threshold: "0 < n \<Longrightarrow> (256::int) ^ (n - 1) * 0x80 = 2 ^ (8 * n - 1)"
proof -
  assume "0 < n"
  then have e: "8 * n - 1 = 8 * (n - 1) + 7" by simp
  show ?thesis unfolding pow256 e by (simp add: power_add)
qed

lemma field_value_signed:
  "field_value True little buf off n = signed_value n (field_value False little buf off n)"
  by (simp add: field_value_def Let_def)

text \<open>The accessors by name: a fixed width of 1, 2 or 4 bytes, or a width given as an argument.\<close>

datatype width = Fixed nat | Sized jsval

definition read_num :: "bool \<Rightarrow> bool \<Rightarrow> width \<Rightarrow> bytes \<Rightarrow> jsval \<Rightarrow> js_error + int" where
  [js_eval]: "read_num neg little w buf offset =
     (case w of
        Fixed n \<Rightarrow>
          (if n = 1 then if neg then readInt8 else readUInt8
           else if n = 2 then if neg then if little then readInt16LE else readInt16BE
                              else if little then readUInt16LE else readUInt16BE
           else if neg then if little then readInt32LE else readInt32BE
                else if little then readUInt32LE else readUInt32BE) buf offset
      | Sized n \<Rightarrow>
          (if neg then if little then readIntLE else readIntBE
           else if little then readUIntLE else readUIntBE) buf offset n)"

definition num_place :: "width \<Rightarrow> bytes \<Rightarrow> jsval \<Rightarrow> js_error + nat \<times> nat" where
  [js_eval]: "num_place w buf offset =
     (case w of
        Fixed n \<Rightarrow> bindE (fixed_offset buf offset n) (\<lambda>off. Inr (off, n))
      | Sized n \<Rightarrow> sized_offset buf offset n)"

definition width_ok :: "width \<Rightarrow> bool" where
  [js_eval]: "width_ok w = (case w of Fixed n \<Rightarrow> n \<in> {1, 2, 4} | Sized _ \<Rightarrow> True)"

lemma validateOffset_Inr:
  assumes "validateOffset v name mn mx = Inr off" "0 \<le> mn"
  shows "mn \<le> int off \<and> int off \<le> mx \<and> v = JNum (nat_num off)"
proof -
  obtain x where x: "v = JNum x" using assms(1) by (auto simp: validateOffset_def split: jsval.splits)
  then obtain r where r: "x = Num r" "of_int \<lfloor>r\<rfloor> = r" "of_int mn \<le> r" "r \<le> of_int mx" "off = nat \<lfloor>r\<rfloor>"
    using assms(1) by (cases x) (auto simp: validateOffset_def is_integer_def split: if_splits)
  have "mn \<le> \<lfloor>r\<rfloor>" "\<lfloor>r\<rfloor> \<le> mx" using r(2-4) by (metis of_int_le_iff)+
  moreover from this have "0 \<le> \<lfloor>r\<rfloor>" using assms(2) by linarith
  then have "int off = \<lfloor>r\<rfloor>" unfolding r(5) by (simp only: int_nat_eq if_True)
  ultimately show ?thesis using r(1,2) x by (metis of_int_of_nat_eq)
qed

lemma num_place_Inr:
  assumes "num_place w buf offset = Inr (off, n)" "width_ok w"
  shows "0 < n \<and> off + n \<le> length buf"
proof (cases w)
  case (Fixed m)
  then show ?thesis
    using assms by (auto simp: num_place_def fixed_offset_def bindE_Inr_iff width_ok_def dest!: validateOffset_Inr)
next
  case (Sized v)
  then show ?thesis
    using assms by (auto simp: num_place_def sized_offset_def bindE_Inr_iff dest!: validateOffset_Inr)
qed

lemma fixed_read_field:
  assumes "wf_bytes buf" "off + n \<le> length buf" "n \<in> {1, 2, 4}" "fixed_offset buf offset n = Inr off"
  shows "read_num neg little (Fixed n) buf offset = Inr (field_value neg little buf off n)"
proof -
  define b where "b i = buf ! (off + i)" for i
  have b: "b i < 256" if "i < n" for i using nth_byte [OF assms(1)] that assms(2) by (simp add: b_def)
  have nth: "buf ! off = b 0" "buf ! (off + 1) = b 1" "buf ! (off + 2) = b 2" "buf ! (off + 3) = b 3" "buf ! Suc off = b 1"
      "buf ! Suc (Suc off) = b 2"
    by (simp_all add: b_def)
  consider "n = 1" | "n = 2" | "n = 4" using assms(3) by auto
  then show ?thesis
  proof cases
    case 1
    have "b 0 AND 0x80 = 0 \<longleftrightarrow> b 0 < 128" using and_top_bit [of "b 0" 7] b [of 0] 1 by simp
    moreover have "field_bytes little buf off 1 = [b 0]"
      using assms(2) 1 take_drop_nums(1) [of off buf] by (simp add: field_bytes_def nth Let_def)
    ultimately show ?thesis
      using 1 assms(4) by (auto simp: read_num_def readInt8_def readUInt8_def field_value_def signed_value_def nth)
  next
    case 2
    have small: "b 0 < 256" "b 1 < 256" using b 2 by simp_all
    then have sum: "b 1 * 256 + b 0 < 65536" "b 0 * 256 + b 1 < 65536" by simp_all
    have fields: "field_bytes True buf off 2 = [b 0, b 1]" "field_bytes False buf off 2 = [b 1, b 0]"
      using assms(2) 2 take_drop_nums(2) [of off buf] by (simp_all add: field_bytes_def nth)
    show ?thesis
      using 2 assms(4) small sum
      by (auto simp: read_num_def readInt16LE_def readInt16BE_def readUInt16LE_def readUInt16BE_def nth fields
          field_value_def or_shift8 sign_extend16_eq algebra_simps)
  next
    case 3
    have small: "b 0 < 256" "b 1 < 256" "b 2 < 256" "b 3 < 256" using b 3 by simp_all
    then have sum: "b 3 * 16777216 + (b 2 * 65536 + (b 1 * 256 + b 0)) < 2 ^ 32"
        "b 0 * 16777216 + (b 1 * 65536 + (b 2 * 256 + b 3)) < 2 ^ 32" by simp_all
    have fields: "field_bytes True buf off 4 = [b 0, b 1, b 2, b 3]" "field_bytes False buf off 4 = [b 3, b 2, b 1, b 0]"
      using assms(2) 3 take_drop_nums(3) [of off buf] by (simp_all add: field_bytes_def nth)
    have "readInt32LE buf offset = Inr (signed_value 4 (le_value [b 0, b 1, b 2, b 3]))"
      "readInt32BE buf offset = Inr (signed_value 4 (le_value [b 3, b 2, b 1, b 0]))"
      using 3 assms(4) sint_word_of_nat [OF sum(1)] sint_word_of_nat [OF sum(2)]
        or_bytes4 [OF small] or_bytes4 [OF small(4,3,2,1)]
      by (auto simp: readInt32LE_def readInt32BE_def nth byte_word_def word_nat_or word_nat_push signed_value_def)
    moreover have "readUInt32LE buf offset = Inr (le_value [b 0, b 1, b 2, b 3])"
      "readUInt32BE buf offset = Inr (le_value [b 3, b 2, b 1, b 0])"
      using 3 assms(4) or_bytes3 [OF small(1-3)] or_bytes3 [OF small(4,3,2)]
      by (simp_all add: readUInt32LE_def readUInt32BE_def nth)
    ultimately show ?thesis using 3 by (simp add: read_num_def field_value_def fields del: le_value.simps)
  qed
qed

lemma read_num_field:
  assumes "wf_bytes buf" "width_ok w"
  shows "read_num neg little w buf offset =
     bindE (num_place w buf offset) (\<lambda>(off, n). Inr (field_value neg little buf off n))"
proof (cases w)
  case (Fixed n)
  show ?thesis
  proof (cases "fixed_offset buf offset n")
    case (Inl e)
    then show ?thesis using Fixed assms(2)
      by (auto simp: num_place_def width_ok_def read_num_def readInt8_def readUInt8_def readInt16LE_def readInt16BE_def
          readUInt16LE_def readUInt16BE_def readInt32LE_def readInt32BE_def readUInt32LE_def readUInt32BE_def)
  next
    case (Inr off)
    then have "off + n \<le> length buf" using num_place_Inr [of w buf offset off n] assms(2) Fixed by (simp add: num_place_def)
    then show ?thesis using fixed_read_field [OF assms(1) _ _ Inr] Fixed assms(2) Inr by (simp add: num_place_def width_ok_def)
  qed
next
  case (Sized v)
  show ?thesis
  proof (cases "sized_offset buf offset v")
    case (Inl e)
    then show ?thesis using Sized
      by (simp add: num_place_def read_num_def readIntLE_def readIntBE_def readUIntLE_def readUIntBE_def)
  next
    case (Inr p)
    obtain off n where p: "p = (off, n)" by fastforce
    then have ok: "0 < n" "off + n \<le> length buf"
      using num_place_Inr [of w buf offset off n] assms(2) Sized Inr by (simp_all add: num_place_def)
    then show ?thesis
      using Sized Inr p read_le_field [OF ok] read_be_field [OF ok] signed_threshold [OF ok(1)]
      by (simp add: num_place_def read_num_def readIntLE_def readIntBE_def readUIntLE_def readUIntBE_def
          field_value_signed signed_value_def)
  qed
qed

section \<open>Writing\<close>

text \<open>Putting bytes one by one next to those already written.\<close>

definition overlay :: "bytes \<Rightarrow> nat \<Rightarrow> bytes \<Rightarrow> bytes" where
  "overlay buf off bs = take off buf @ bs @ drop (off + length bs) buf"

lemma put_overlay: "off < length buf \<Longrightarrow> put buf off x = overlay buf off [nat (x mod 256)]"
  by (simp add: put_def overlay_def upd_conv_take_nth_drop)

lemma put_overlay_right:
  "off + length bs < length buf \<Longrightarrow> k = off + length bs \<Longrightarrow>
     put (overlay buf off bs) k x = overlay buf off (bs @ [nat (x mod 256)])"
  by (simp add: put_def overlay_def list_update_append Cons_nth_drop_Suc [symmetric])

lemma put_overlay_left:
  "off + length bs < length buf \<Longrightarrow> k = Suc off \<Longrightarrow>
     put (overlay buf k bs) off x = overlay buf off (nat (x mod 256) # bs)"
  by (simp add: put_def overlay_def list_update_append take_Suc_conv_app_nth min_def)

lemma overlay_nth: "off + length bs \<le> length buf \<Longrightarrow> i < length bs \<Longrightarrow> overlay buf off bs ! (off + i) = bs ! i"
  by (simp add: overlay_def nth_append min_def)

lemma set_field_overlay:
  "set_field little buf off n v = overlay buf off (if little then le_bytes n v else rev (le_bytes n v))"
  by (simp add: set_field_def overlay_def)

text \<open>The bytes of a number.\<close>

lemma uint_mod_byte: "k \<le> 24 \<Longrightarrow> uint (drop_bit k (word_of_int t :: 32 word)) mod 256 = t div 2 ^ k mod 256"
proof -
  assume k: "k \<le> 24"
  have "uint (drop_bit k (word_of_int t :: 32 word)) mod 256 = take_bit 8 (drop_bit k (take_bit 32 t))"
    by (simp add: unsigned_drop_bit_eq unsigned_of_int take_bit_eq_mod)
  also have "\<dots> = take_bit 8 (drop_bit k t)" using k by (simp add: drop_bit_take_bit)
  also have "\<dots> = t div 2 ^ k mod 256" by (simp add: take_bit_eq_mod drop_bit_eq_div)
  finally show ?thesis .
qed

lemma num_shr_byte: "k \<le> 24 \<Longrightarrow> num_shr (Num r) k mod 256 = trunc r div 2 ^ k mod 256"
  by (simp add: num_shr_def ToInt32_def uint_mod_byte)

lemma sint_mod: "sint (word_of_int t :: 32 word) mod 256 = t mod 256"
proof -
  have "take_bit 8 (signed_take_bit 31 t) = take_bit 8 t" by (simp add: take_bit_signed_take_bit)
  then show ?thesis by (simp add: signed_of_int take_bit_eq_mod)
qed

lemma num_and_byte: "num_and (Num r) 0xFF = trunc r mod 256"
proof -
  have "(0xFF :: 32 word) = word_of_int 0xFF" by simp
  then have "ToInt32 (Num r) AND 0xFF = (word_of_int (trunc r AND 0xFF) :: 32 word)"
    by (simp only: ToInt32_def jsnum.case of_int_and_eq)
  also have "trunc r AND 0xFF = trunc r mod 256"
    using take_bit_eq_mask [of 8 "trunc r"] by (simp add: take_bit_eq_mod mask_eq_exp_minus_1)
  finally show ?thesis by (simp add: num_and_def signed_of_int signed_take_bit_int_eq_self)
qed

section \<open>The stored fields\<close>

definition num_limits :: "bool \<Rightarrow> nat \<Rightarrow> int \<times> int" where
  [js_eval]: "num_limits neg n =
     (if neg then (2 ^ (8 * n - 1) - 1, - (2 ^ (8 * n - 1))) else (2 ^ (8 * n) - 1, 0))"

lemma trunc_div_nonneg: "0 \<le> t \<Longrightarrow> 0 < m \<Longrightarrow> trunc (of_int t / of_int m) = t div m"
  by (simp add: trunc_def floor_divide_of_int_eq)

lemma trunc_div_neg: "t < 0 \<Longrightarrow> 0 < m \<Longrightarrow> trunc (of_int t / of_int m) = t div m + (if t mod m = 0 then 0 else 1)"
proof -
  assume t: "t < 0" "0 < m"
  then have "trunc (of_int t / of_int m) = \<lceil>of_int t / of_int m :: rat\<rceil>"
    by (auto simp: trunc_def divide_less_0_iff not_le zero_le_divide_iff)
  also have "\<dots> = - \<lfloor>of_int (- t) / of_int m :: rat\<rfloor>" by (simp add: ceiling_def)
  also have "\<dots> = - (- t div m)" by (simp only: floor_divide_of_int_eq)
  finally show ?thesis using zdiv_zminus1_eq_if [of m t] t(2) by auto
qed

lemma le_digit: "0 \<le> t \<Longrightarrow> num_and (num_div (int_num t) (256 ^ i)) 0xFF mod 256 = t div 256 ^ i mod 256"
  using trunc_div_nonneg [of t "256 ^ i"] by (simp add: num_and_byte)

lemma write_le_loop_eq:
  "i < n \<Longrightarrow> 0 \<le> t \<Longrightarrow> off + n \<le> length buf \<Longrightarrow>
     write_le_loop (overlay buf off (le_bytes (i + 1) t)) (int_num t) off n i (256 ^ i) = overlay buf off (le_bytes n t)"
proof (induction "n - i" arbitrary: i)
  case (Suc d)
  show ?case
  proof (cases "i + 1 < n")
    case True
    have "put (overlay buf off (le_bytes (i + 1) t)) (off + (i + 1)) (num_and (num_div (int_num t) (256 ^ i * 0x100)) 0xFF) =
        overlay buf off (le_bytes (i + 1) t @ [nat (t div 256 ^ (i + 1) mod 256)])"
      using put_overlay_right [of off "le_bytes (i + 1) t" buf "off + (i + 1)"] le_digit [of t "i + 1"] Suc.prems True
      by (simp add: mult.commute)
    also have "\<dots> = overlay buf off (le_bytes (i + 1 + 1) t)" using le_bytes_snoc [of "i + 1" t] by simp
    finally show ?thesis
      using True Suc.hyps(1) [of "i + 1"] Suc.hyps(2) Suc.prems
      by (subst write_le_loop.simps) (simp add: mult.commute del: le_bytes.simps)
  next
    case False
    then have "n = i + 1" using Suc.prems by simp
    then show ?thesis by (subst write_le_loop.simps) simp
  qed
qed simp

lemma write_be_loop_eq:
  "0 \<le> t \<Longrightarrow> off + i + length bs \<le> length buf \<Longrightarrow> length bs = k \<Longrightarrow> bs = rev (le_bytes k t) \<Longrightarrow> 0 < k \<Longrightarrow>
     write_be_loop (overlay buf (off + i) bs) (int_num t) off i (256 ^ (k - 1)) = overlay buf off (rev (le_bytes (i + k) t))"
proof (induction i arbitrary: bs k)
  case (Suc i)
  have dig: "num_and (num_div (int_num t) (256 ^ (k - 1) * 0x100)) 0xFF mod 256 = t div 256 ^ k mod 256"
    using le_digit [OF Suc.prems(1), of k] Suc.prems(5) by (cases k) (simp_all add: mult.commute)
  have "put (overlay buf (off + Suc i) bs) (off + i) (num_and (num_div (int_num t) (256 ^ (k - 1) * 0x100)) 0xFF) =
      overlay buf (off + i) (rev (le_bytes (Suc k) t))"
    using put_overlay_left [of "off + i" bs buf "off + Suc i"] Suc.prems(2,3)
    by (simp add: dig [unfolded One_nat_def] le_bytes_snoc Suc.prems(4) del: le_bytes.simps num_div.simps)
  then show ?case
    using Suc.IH [of "rev (le_bytes (Suc k) t)" "Suc k"] Suc.prems
    by (cases k) (simp_all add: mult.commute del: le_bytes.simps)
qed simp

text \<open>The borrow of the signed loops: whether a negative value has a non-zero byte below.\<close>

definition borrowed :: "int \<Rightarrow> nat \<Rightarrow> int" where
  "borrowed t i = (if t < 0 \<and> t mod 256 ^ i \<noteq> 0 then 1 else 0)"

lemma borrow_eq: "borrow (int_num t) (borrowed t i) (nat (t div 256 ^ i mod 256)) = borrowed t (i + 1)"
proof -
  define d m where "d = t div 256 ^ i mod 256" and "m = t mod 256 ^ i"
  have "t mod 256 ^ (i + 1) = 256 ^ i * d + m"
    using zmod_zmult2_eq [of 256 t "256 ^ i"] by (simp add: mult.commute d_def m_def)
  moreover have nonneg: "0 \<le> 256 ^ i * d" "0 \<le> m" "0 \<le> d" by (simp_all add: d_def m_def)
  ultimately have "(t mod 256 ^ (i + 1) = 0) = (d = 0 \<and> m = 0)"
    using add_nonneg_eq_0_iff [OF nonneg(1,2)] by simp
  then have "borrowed t (i + 1) = (if t < 0 \<and> \<not> (d = 0 \<and> m = 0) then 1 else 0)" by (simp only: borrowed_def)
  moreover have "borrowed t i = (if t < 0 \<and> m \<noteq> 0 then 1 else 0)" by (simp only: borrowed_def m_def)
  moreover have "(nat d = 0) = (d = 0)" using nonneg(3) by auto
  moreover have "num_less (int_num t) (Num 0) = (t < 0)" by simp
  ultimately show ?thesis unfolding d_def [symmetric] borrow_def by presburger
qed

lemma signed_digit_eq: "signed_digit (int_num t) (256 ^ k) (borrowed t k) mod 256 = t div 256 ^ k mod 256"
proof -
  define q where "q = trunc (of_int t / of_int (256 ^ k))"
  have q: "q - borrowed t k = t div 256 ^ k"
  proof (cases "t < 0")
    case True
    then show ?thesis using trunc_div_neg [of t "256 ^ k"] by (simp add: q_def borrowed_def)
  next
    case False
    then show ?thesis using trunc_div_nonneg [of t "256 ^ k"] by (simp add: q_def borrowed_def)
  qed
  have "signed_digit (int_num t) (256 ^ k) (borrowed t k) = (sint (word_of_int q :: 32 word) - borrowed t k) mod 256"
    using num_and_byte [of "of_int (sint (word_of_int q :: 32 word) - borrowed t k)"]
    by (simp add: signed_digit_def ToInt32_def q_def del: of_int_diff)
  also have "\<dots> = (q - borrowed t k) mod 256" by (rule mod_diff_cong) (simp_all add: sint_mod)
  finally show ?thesis by (simp add: q)
qed

lemma write_sle_loop_eq:
  "i < n \<Longrightarrow> off + n \<le> length buf \<Longrightarrow>
     write_sle_loop (overlay buf off (le_bytes (i + 1) t)) (int_num t) off n i (256 ^ i) (borrowed t i) =
       overlay buf off (le_bytes n t)"
proof (induction "n - i" arbitrary: i)
  case (Suc d)
  show ?case
  proof (cases "i + 1 < n")
    case True
    have "overlay buf off (le_bytes (i + 1) t) ! (off + i) = le_bytes (i + 1) t ! i"
      using overlay_nth [of off "le_bytes (i + 1) t" buf i] Suc.prems by (simp del: le_bytes.simps)
    also have "\<dots> = nat (t div 256 ^ i mod 256)" using le_bytes_snoc [of i t] by (simp add: nth_append del: le_bytes.simps)
    finally have at: "overlay buf off (le_bytes (i + 1) t) ! (off + i) = nat (t div 256 ^ i mod 256)" .
    have "put (overlay buf off (le_bytes (i + 1) t)) (off + (i + 1)) (signed_digit (int_num t) (256 ^ i * 0x100) (borrowed t (i + 1))) =
        overlay buf off (le_bytes (i + 1) t @ [nat (t div 256 ^ (i + 1) mod 256)])"
      using put_overlay_right [of off "le_bytes (i + 1) t" buf "off + (i + 1)"] signed_digit_eq [of t "i + 1"] Suc.prems True
      by (simp add: mult.commute)
    also have "\<dots> = overlay buf off (le_bytes (i + 1 + 1) t)" using le_bytes_snoc [of "i + 1" t] by simp
    finally show ?thesis
      using True Suc.hyps(1) [of "i + 1"] Suc.hyps(2) Suc.prems
      by (subst write_sle_loop.simps) (simp add: at [unfolded Suc_eq_plus1 [symmetric]] borrow_eq Let_def mult.commute del: le_bytes.simps)
  next
    case False
    then have "n = i + 1" using Suc.prems by simp
    then show ?thesis by (subst write_sle_loop.simps) simp
  qed
qed simp

lemma write_sbe_loop_eq:
  "off + i + k \<le> length buf \<Longrightarrow> 0 < k \<Longrightarrow>
     write_sbe_loop (overlay buf (off + i) (rev (le_bytes k t))) (int_num t) off i (256 ^ (k - 1)) (borrowed t (k - 1)) =
       overlay buf off (rev (le_bytes (i + k) t))"
proof (induction i arbitrary: k)
  case (Suc i)
  obtain j where k: "k = Suc j" using Suc.prems(2) by (cases k) auto
  have "overlay buf (off + Suc i) (rev (le_bytes k t)) ! (off + Suc i) = rev (le_bytes k t) ! 0"
    using overlay_nth [of "off + Suc i" "rev (le_bytes k t)" buf 0] Suc.prems by (simp del: le_bytes.simps)
  also have "\<dots> = nat (t div 256 ^ j mod 256)" using le_bytes_snoc [of j t] by (simp add: k del: le_bytes.simps)
  finally have at: "overlay buf (off + Suc i) (rev (le_bytes k t)) ! (off + (i + 1)) = nat (t div 256 ^ j mod 256)" by simp
  have "put (overlay buf (off + Suc i) (rev (le_bytes k t))) (off + i) (signed_digit (int_num t) (256 ^ j * 0x100) (borrowed t k)) =
      overlay buf (off + i) (rev (le_bytes (Suc k) t))"
    using put_overlay_left [of "off + i" "rev (le_bytes k t)" buf "off + Suc i"] Suc.prems(1) signed_digit_eq [of t k]
    by (simp add: le_bytes_snoc [of "Suc j"] k mult.commute del: le_bytes.simps)
  then show ?case
    using Suc.IH [of "Suc k"] Suc.prems borrow_eq [of t j] at
    by (simp add: k Let_def mult.commute del: le_bytes.simps)
qed simp

text \<open>The fixed-width stores.\<close>

lemma le_bytes_num:
  "le_bytes 1 t = [nat (t mod 256)]"
  "le_bytes 2 t = [nat (t mod 256), nat (t div 2 ^ 8 mod 256)]"
  "le_bytes 4 t = [nat (t mod 256), nat (t div 2 ^ 8 mod 256), nat (t div 2 ^ 16 mod 256), nat (t div 2 ^ 24 mod 256)]"
  by (simp_all add: numeral_eq_Suc zdiv_zmult2_eq [symmetric])

lemma ToInt32_add: "ToInt32 (num_add (int_num t) 0x100000000) = ToInt32 (int_num t)"
proof -
  have "ToInt32 (int_num (t + 4294967296)) = word_of_int t" unfolding ToInt32_int by simp
  then show ?thesis by simp
qed

lemma num_shr_int: "k \<le> 24 \<Longrightarrow> num_shr (int_num t) k mod 256 = t div 2 ^ k mod 256"
  by (simp add: num_shr_byte)

lemma num_and_int: "num_and (int_num t) 0xFF mod 256 = t mod 256"
  by (simp add: num_and_byte)

lemmas byte_simps = num_shr_int num_and_int put_overlay put_overlay_right put_overlay_left le_bytes_num set_field_overlay

definition write_num :: "bool \<Rightarrow> bool \<Rightarrow> width \<Rightarrow> bytes \<Rightarrow> jsnum \<Rightarrow> jsval \<Rightarrow> written" where
  [js_eval]: "write_num neg little w buf v offset =
     (case w of
        Fixed n \<Rightarrow>
          (if n = 1 then if neg then writeInt8 else writeUInt8
           else if n = 2 then if neg then if little then writeInt16LE else writeInt16BE
                              else if little then writeUInt16LE else writeUInt16BE
           else if neg then if little then writeInt32LE else writeInt32BE
                else if little then writeUInt32LE else writeUInt32BE) buf v offset
      | Sized n \<Rightarrow>
          (if neg then if little then writeIntLE else writeIntBE
           else if little then writeUIntLE else writeUIntBE) buf v offset n)"

definition in_limits :: "bytes \<Rightarrow> bool \<Rightarrow> jsnum \<Rightarrow> nat \<Rightarrow> nat \<Rightarrow> js_error + unit" where
  [js_eval]: "in_limits buf neg v off n = (let (mx, mn) = num_limits neg n in checkInt buf v off n mx mn)"

lemma in_limits_int:
  assumes "off + n \<le> length buf"
  shows "in_limits buf neg (int_num t) off n = Inr () \<longleftrightarrow>
      snd (num_limits neg n) \<le> t \<and> t \<le> fst (num_limits neg n)"
  using assms by (auto simp: in_limits_def checkInt_def split: prod.splits)

lemma num_limits_simps:
  "num_limits True 1 = (0x7F, -0x80)" "num_limits False 1 = (0xFF, 0)"
  "num_limits True 2 = (0x7FFF, -0x8000)" "num_limits False 2 = (0xFFFF, 0)"
  "num_limits True 4 = (0x7FFFFFFF, -0x80000000)" "num_limits False 4 = (0xFFFFFFFF, 0)"
  by (simp_all add: num_limits_def)

lemma fixed_write_field:
  assumes "n \<in> {1, 2, 4}" "fixed_offset buf offset n = Inr off" "off + n \<le> length buf"
  shows "write_num neg little (Fixed n) buf (int_num t) offset =
     bindE (in_limits buf neg (int_num t) off n) (\<lambda>_. Inr (off + n, set_field little buf off n t))"
proof -
  consider "n = 1" | "n = 2" | "n = 4" using assms(1) by auto
  then show ?thesis
  proof cases
    case 1
    have "(t + 256) mod 256 = t mod 256" by simp
    then have "num_and (int_num (t + 256)) 0xFF mod 256 = t mod 256" by (simp only: num_and_int)
    then show ?thesis
      unfolding 1 read_num_def write_num_def writeInt8_def writeUInt8_def using assms(2,3) 1
      by (auto simp: fixed_write_def in_limits_def num_limits_simps num_limits_simps(1,2) [unfolded One_nat_def] byte_simps Let_def)
  next
    case 2
    then show ?thesis
      unfolding 2 write_num_def writeInt16LE_def writeInt16BE_def writeUInt16LE_def writeUInt16BE_def
      using assms(2,3) 2
      by (auto simp: fixed_write_def in_limits_def num_limits_simps num_limits_simps(1,2) [unfolded One_nat_def] byte_simps)
  next
    case 3
    have shr: "num_shr (num_add (int_num t) 0x100000000) k = num_shr (int_num t) k" for k
      unfolding num_shr_def ToInt32_add ..
    have and': "num_and (num_add (int_num t) 0x100000000) 0xFF = num_and (int_num t) 0xFF"
      unfolding num_and_def ToInt32_add ..
    show ?thesis
      unfolding 3 write_num_def writeInt32LE_def writeInt32BE_def writeUInt32LE_def writeUInt32BE_def
      using assms(2,3) 3
      by (auto simp: fixed_write_def in_limits_def num_limits_simps num_limits_simps(1,2) [unfolded One_nat_def] byte_simps shr and' Let_def simp del: num_add.simps)
  qed
qed

lemma checkInt_limits:
  "checkInt buf v off n mx mn = Inr u \<Longrightarrow> v = int_num t \<Longrightarrow> mn \<le> t \<and> t \<le> mx"
  by (auto simp: checkInt_def split: if_splits)

lemma first_byte:
  assumes "0 < n" "off + n \<le> length buf"
  shows "put buf off (num_and (int_num t) 0xFF) = overlay buf off (le_bytes (0 + 1) t)"
    and "put buf (off + (n - 1)) (num_and (int_num t) 0xFF) = overlay buf (off + (n - 1)) (rev (le_bytes 1 t))"
  using assms by (simp_all add: put_overlay num_and_int)

lemma sized_write_field:
  assumes "sized_offset buf offset n' = Inr (off, n)" "0 < n" "off + n \<le> length buf"
  shows "write_num neg little (Sized n') buf (int_num t) offset =
     bindE (in_limits buf neg (int_num t) off n) (\<lambda>_. Inr (off + n, set_field little buf off n t))"
proof -
  have le: "write_le_loop (put buf off (num_and (int_num t) 0xFF)) (int_num t) off n 0 1 = set_field True buf off n t"
    if "0 \<le> t"
    using write_le_loop_eq [OF assms(2) that assms(3)] first_byte(1) [OF assms(2,3)] by (simp add: set_field_overlay)
  have be: "write_be_loop (put buf (off + (n - 1)) (num_and (int_num t) 0xFF)) (int_num t) off (n - 1) 1 =
      set_field False buf off n t" if "0 \<le> t"
    using write_be_loop_eq [OF that, of off "n - 1" "rev (le_bytes 1 t)" buf 1] first_byte(2) [OF assms(2,3)] assms(2,3)
    by (simp add: set_field_overlay del: le_bytes.simps)
  have sle: "write_sle_loop (put buf off (num_and (int_num t) 0xFF)) (int_num t) off n 0 1 0 = set_field True buf off n t"
    using write_sle_loop_eq [OF assms(2,3)] first_byte(1) [OF assms(2,3)] by (simp add: set_field_overlay borrowed_def)
  have sbe: "write_sbe_loop (put buf (off + (n - 1)) (num_and (int_num t) 0xFF)) (int_num t) off (n - 1) 1 0 =
      set_field False buf off n t"
    using write_sbe_loop_eq [of off "n - 1" 1 buf t] first_byte(2) [OF assms(2,3)] assms(2,3)
    by (simp add: set_field_overlay borrowed_def del: le_bytes.simps)
  show ?thesis
  proof (cases neg)
    case True
    then show ?thesis using assms(1) sle sbe
      by (auto simp: write_num_def writeIntLE_def writeIntBE_def sized_write_def in_limits_def num_limits_def)
  next
    case False
    show ?thesis
    proof (cases "in_limits buf neg (int_num t) off n")
      case (Inl e)
      then show ?thesis using False assms(1)
        by (simp add: write_num_def writeUIntLE_def writeUIntBE_def sized_write_def in_limits_def num_limits_def)
    next
      case (Inr u)
      then have "0 \<le> t" using False checkInt_limits by (fastforce simp: in_limits_def num_limits_def)
      then show ?thesis using False assms(1) Inr le be
        by (simp add: write_num_def writeUIntLE_def writeUIntBE_def sized_write_def in_limits_def num_limits_def)
    qed
  qed
qed

lemma write_num_field:
  assumes "width_ok w"
  shows "write_num neg little w buf (int_num t) offset =
     bindE (num_place w buf offset) (\<lambda>(off, n).
     bindE (in_limits buf neg (int_num t) off n) (\<lambda>_. Inr (off + n, set_field little buf off n t)))"
proof (cases "num_place w buf offset")
  case (Inl e)
  show ?thesis
  proof (cases w)
    case (Fixed m)
    then have "fixed_offset buf offset m = Inl e" using Inl by (cases "fixed_offset buf offset m") (simp_all add: num_place_def)
    then show ?thesis using Inl Fixed assms
      by (auto simp: width_ok_def write_num_def fixed_write_def writeInt8_def writeUInt8_def writeInt16LE_def
          writeInt16BE_def writeUInt16LE_def writeUInt16BE_def writeInt32LE_def writeInt32BE_def writeUInt32LE_def
          writeUInt32BE_def)
  next
    case (Sized v)
    then have "sized_offset buf offset v = Inl e" using Inl by (simp add: num_place_def)
    then show ?thesis using Inl Sized
      by (simp add: write_num_def sized_write_def writeIntLE_def writeIntBE_def writeUIntLE_def writeUIntBE_def)
  qed
next
  case (Inr p)
  obtain off n where p: "p = (off, n)" by fastforce
  have place: "0 < n" "off + n \<le> length buf" using num_place_Inr [OF Inr [unfolded p] assms] by simp_all
  show ?thesis
  proof (cases w)
    case (Fixed m)
    then have "fixed_offset buf offset m = Inr off" "m = n" using Inr p by (auto simp: num_place_def bindE_Inr_iff)
    then show ?thesis using fixed_write_field [of n buf offset off] place assms Inr p Fixed by (simp add: width_ok_def)
  next
    case (Sized v)
    then show ?thesis using sized_write_field [of buf offset v off n] place Inr p by (simp add: num_place_def)
  qed
qed

text \<open>
  C28: Every integer read returns the positional value of its field, little or big endian, signed in
  two's complement, or the error of its argument checks.
\<close>
theorem number_read:
  assumes "wf_bytes buf" "width_ok w"
  shows "read_num neg little w buf offset =
     bindE (num_place w buf offset) (\<lambda>(off, n). Inr (field_value neg little buf off n))"
  by (rule read_num_field [OF assms])

lemma number_read_witness:
  "read_num True False (Fixed 2) [1, 0xFF, 0xFE] (JNum (nat_num 1)) = Inr (-2)"
  using number_read [of "[1, 255, 254]" "Fixed 2" True False "JNum (nat_num 1)"]
  by (simp add: js_eval)

lemma length_set_field: "off + n \<le> length buf \<Longrightarrow> length (set_field little buf off n t) = length buf"
  by (simp add: set_field_def)

lemma wf_set_field: "wf_bytes buf \<Longrightarrow> wf_bytes (set_field little buf off n t)"
  using wf_le_bytes [of n t] by (auto simp: set_field_def wf_bytes_def dest: in_set_takeD in_set_dropD)

lemma int_text_0: "int_text 0 = ''0''"
  by (simp add: int_text_def nat_string_def nat_digits.simps char_of_def bit_iff_odd)

text \<open>
  C21: The outcome of a fixed-width write of an integer: the buffer is too short, the offset is out of
  range, the value is out of range, or the field is stored and the next offset returned.
\<close>
theorem number_write_outcome:
  assumes "n \<in> {1, 2, 4}" "num_limits neg n = (mx, mn)"
  shows "write_num neg little (Fixed n) buf (int_num t) (JNum (int_num off)) =
     (if length buf < n then Inl (ERR_BUFFER_OUT_OF_BOUNDS '''')
      else if off < 0 \<or> int (length buf) < off + int n
      then Inl (ERR_OUT_OF_RANGE ''offset'' (''>= 0 and <= '' @ int_text (int (length buf) - int n)) (JNum (int_num off)))
      else if t < mn \<or> mx < t
      then Inl (ERR_OUT_OF_RANGE ''value'' (''>= '' @ int_text mn @ '' and <= '' @ int_text mx) (JNum (int_num t)))
      else Inr (nat off + n, set_field little buf (nat off) n t))"
proof -
  have place: "fixed_offset buf (JNum (int_num off)) n =
      (if length buf < n then Inl (ERR_BUFFER_OUT_OF_BOUNDS '''')
       else if off < 0 \<or> int (length buf) < off + int n
       then Inl (ERR_OUT_OF_RANGE ''offset'' (''>= 0 and <= '' @ int_text (int (length buf) - int n)) (JNum (int_num off)))
       else Inr (nat off))"
    by (auto simp: fixed_offset_def default_zero_def validateOffset_def int_text_0
        simp flip: of_int_diff)
  have range: "in_limits buf neg (int_num t) o' n =
      (if t < mn \<or> mx < t
       then Inl (ERR_OUT_OF_RANGE ''value'' (''>= '' @ int_text mn @ '' and <= '' @ int_text mx) (JNum (int_num t)))
       else Inr ())" if "o' + n \<le> length buf" for o'
    using that assms by (auto simp: in_limits_def checkInt_def int_text_0)
  have ok: "width_ok (Fixed n)" using assms(1) by (simp add: width_ok_def)
  show ?thesis
    unfolding write_num_field [OF ok] num_place_def width.case place
    using range [of "nat off"] by (auto simp: nat_le_iff)
qed

lemma number_write_outcome_witness:
  "write_num True True (Fixed 2) [0, 0, 0, 0] (int_num (-2)) (JNum (int_num 1)) = Inr (3, [0, 0xFE, 0xFF, 0])"
  using number_write_outcome [of 2 True 32767 "-32768" True "[0, 0, 0, 0]" "-2" 1]
  by (simp add: js_eval numeral_eq_Suc)

text \<open>
  C13: An integer written into a buffer is read back from the same offset with the method of the
  same width, signedness and byte order.
\<close>
theorem number_write_read:
  assumes "wf_bytes buf" "width_ok w"
    and "write_num neg little w buf (int_num t) offset = Inr (next, buf')"
  shows "read_num neg little w buf' offset = Inr t"
proof -
  obtain off n where p: "num_place w buf offset = Inr (off, n)" and lim: "in_limits buf neg (int_num t) off n = Inr ()"
    and buf': "buf' = set_field little buf off n t"
    using assms(3) unfolding write_num_field [OF assms(2)] by (auto simp: bindE_Inr_iff)
  have place: "0 < n" "off + n \<le> length buf" using num_place_Inr [OF p assms(2)] by simp_all
  have "num_place w buf' offset = num_place w buf offset"
    using length_set_field [OF place(2)] by (cases w) (simp_all add: num_place_def fixed_offset_def sized_offset_def buf')
  moreover have "field_value neg little buf' off n = t"
  proof -
    have "snd (num_limits neg n) \<le> t \<and> t \<le> fst (num_limits neg n)" using lim in_limits_int [OF place(2)] by simp
    then show ?thesis
      using signed_round_trip [OF place(1), of t]
      by (auto simp: field_value_def buf' field_of_set_field [OF place(2)] le_value_bytes num_limits_def Let_def pow256)
  qed
  ultimately show ?thesis
    using read_num_field [OF wf_set_field [OF assms(1)] assms(2), of neg little little off n t offset] p
    by (simp add: buf')
qed

lemma number_write_read_witness:
  "read_num True True (Sized (JNum (nat_num 3))) [0, 0xFE, 0xFE, 0xFF] (JNum (nat_num 1)) = Inr (-258)"
proof (rule number_write_read [of "[0, 0, 0, 0]" _ _ _ "-258" _ 4])
  show "write_num True True (Sized (JNum (nat_num 3))) [0, 0, 0, 0] (int_num (-258)) (JNum (nat_num 1)) =
      Inr (4, [0, 0xFE, 0xFE, 0xFF])"
    by (subst write_num_field) (simp_all add: js_eval le_bytes_numeral)
qed (simp_all add: wf_bytes_def width_ok_def)

section \<open>What a write touches\<close>

definition changes_only :: "nat \<Rightarrow> nat \<Rightarrow> bytes \<Rightarrow> bytes \<Rightarrow> bool" where
  "changes_only off n buf buf' =
     (length buf' = length buf \<and> (\<forall>i. i < off \<or> off + n \<le> i \<longrightarrow> buf' ! i = buf ! i) \<and>
      (wf_bytes buf \<longrightarrow> wf_bytes buf'))"

lemma changes_only_refl [simp]: "changes_only off n buf buf"
  by (simp add: changes_only_def)

lemma changes_only_put: "off \<le> i \<Longrightarrow> i < off + n \<Longrightarrow> changes_only off n buf (put buf i x)"
  by (auto simp: changes_only_def put_def wf_bytes_def nat_less_iff dest!: set_update_subset_insert [THEN subsetD])

lemma changes_only_trans:
  "changes_only off n buf buf1 \<Longrightarrow> changes_only off n buf1 buf2 \<Longrightarrow> changes_only off n buf buf2"
  by (auto simp: changes_only_def)

lemmas changes_put = changes_only_put changes_only_trans [OF _ changes_only_put]

lemma write_le_loop_changes: "changes_only off n b0 buf \<Longrightarrow> changes_only off n b0 (write_le_loop buf v off n i mul)"
proof (induction buf v off n i mul rule: write_le_loop.induct)
  case (1 buf v off n i mul)
  show ?case
  proof (cases "i + 1 < n")
    case True
    then have "changes_only off n b0 (put buf (off + (i + 1)) (num_and (num_div v (mul * 256)) 255))"
      using 1(2) by (intro changes_put) auto
    then show ?thesis using 1(1) [OF True] True by (subst write_le_loop.simps) simp
  next
    case False
    then show ?thesis using 1(2) by (subst write_le_loop.simps) simp
  qed
qed

lemma write_be_loop_changes: "i \<le> n \<Longrightarrow> changes_only off n b0 buf \<Longrightarrow> changes_only off n b0 (write_be_loop buf v off i mul)"
  by (induction i arbitrary: buf mul) (simp_all add: changes_put)

lemma write_sle_loop_changes: "changes_only off n b0 buf \<Longrightarrow> changes_only off n b0 (write_sle_loop buf v off n i mul sub)"
proof (induction buf v off n i mul sub rule: write_sle_loop.induct)
  case (1 buf v off n i mul sub)
  show ?case
  proof (cases "i + 1 < n")
    case True
    have "changes_only off n b0 (put buf (off + (i + 1)) x)" for x
      using 1(2) True by (intro changes_put) auto
    then show ?thesis using 1(1) [OF True refl] True by (subst write_sle_loop.simps) (simp add: Let_def)
  next
    case False
    then show ?thesis using 1(2) by (subst write_sle_loop.simps) simp
  qed
qed

lemma write_sbe_loop_changes: "i \<le> n \<Longrightarrow> changes_only off n b0 buf \<Longrightarrow> changes_only off n b0 (write_sbe_loop buf v off i mul sub)"
  by (induction i arbitrary: buf mul sub) (simp_all add: Let_def changes_put)

lemmas loop_changes = write_le_loop_changes write_be_loop_changes write_sle_loop_changes write_sbe_loop_changes

lemma fixed_write_changes:
  assumes "fixed_write buf v offset n mx mn store = Inr (next, buf')"
    and "\<And>off. changes_only off n buf (store off)"
  shows "\<exists>off. fixed_offset buf offset n = Inr off \<and> next = off + n \<and> changes_only off n buf buf'"
  using assms by (auto simp: fixed_write_def bindE_Inr_iff)

lemma sized_write_changes:
  assumes "sized_write buf v offset n' limits store = Inr (next, buf')"
    and "\<And>off n. 0 < n \<Longrightarrow> changes_only off n buf (store off n)"
  shows "\<exists>off n. sized_offset buf offset n' = Inr (off, n) \<and> next = off + n \<and> changes_only off n buf buf'"
proof -
  obtain off n where p: "sized_offset buf offset n' = Inr (off, n)" "next = off + n" "buf' = store off n"
  proof -
    obtain off n where so: "sized_offset buf offset n' = Inr (off, n)"
      using assms(1) by (auto simp: sized_write_def bindE_Inr_iff)
    obtain mx mn where "limits n = (mx, mn)" by fastforce
    then show ?thesis using assms(1) so that by (auto simp: sized_write_def bindE_Inr_iff)
  qed
  have "0 < n" using num_place_Inr [of "Sized n'" buf offset off n] p(1) by (simp add: num_place_def width_ok_def)
  then show ?thesis using p assms(2) by blast
qed

lemma fixed_stores_change:
  assumes "n \<in> {1, 2, 4}" "write_num neg little (Fixed n) buf v offset = Inr (next, buf')"
  shows "\<exists>off. fixed_offset buf offset n = Inr off \<and> next = off + n \<and> changes_only off n buf buf'"
proof -
  consider "n = 1" | "n = 2" | "n = 4" using assms(1) by auto
  then show ?thesis
  proof cases
    case 1
    show ?thesis
      using assms(2) unfolding 1 write_num_def writeInt8_def writeUInt8_def
      by (cases neg) ((simp, drule fixed_write_changes, simp add: changes_put Let_def, simp)+)
  next
    case 2
    show ?thesis
      using assms(2) unfolding 2 write_num_def writeInt16LE_def writeInt16BE_def writeUInt16LE_def writeUInt16BE_def
      by (cases neg; cases little) ((simp, drule fixed_write_changes, simp add: changes_put, simp)+)
  next
    case 3
    show ?thesis
      using assms(2) unfolding 3 write_num_def writeInt32LE_def writeInt32BE_def writeUInt32LE_def writeUInt32BE_def
      by (cases neg; cases little) ((simp, drule fixed_write_changes, simp add: changes_put Let_def, simp)+)
  qed
qed

lemma sized_stores_change:
  assumes "write_num neg little (Sized n') buf v offset = Inr (next, buf')"
  shows "\<exists>off n. sized_offset buf offset n' = Inr (off, n) \<and> next = off + n \<and> changes_only off n buf buf'"
  using assms unfolding write_num_def writeIntLE_def writeIntBE_def writeUIntLE_def writeUIntBE_def
  by (cases neg; cases little) ((simp, drule sized_write_changes, simp add: changes_put loop_changes, simp)+)

text \<open>
  A write of any number, NaN and fractions included, that returns has stayed inside the buffer,
  changed no byte outside its field and returns the offset just after it.
\<close>
theorem number_write_bounds:
  assumes "width_ok w" "write_num neg little w buf v offset = Inr (next, buf')"
  shows "\<exists>off n. num_place w buf offset = Inr (off, n) \<and> next = off + n \<and> next \<le> length buf \<and>
     changes_only off n buf buf'"
proof -
  obtain off n where p: "num_place w buf offset = Inr (off, n)" "next = off + n" "changes_only off n buf buf'"
  proof (cases w)
    case (Fixed n)
    then show ?thesis using fixed_stores_change [of n] assms that by (fastforce simp: width_ok_def num_place_def)
  next
    case (Sized n')
    then show ?thesis using sized_stores_change assms that by (fastforce simp: num_place_def)
  qed
  then show ?thesis using num_place_Inr [OF p(1) assms(1)] by auto
qed

lemma number_write_bounds_witness:
  "\<exists>off n. num_place (Sized (JNum (Num 2))) [0, 0, 9] (JNum (Num 0)) = Inr (off, n) \<and> 2 = off + n \<and> 2 \<le> length [0, 0, 9::nat] \<and>
     changes_only off n [0, 0, 9] [0, 0, 9]"
proof (rule number_write_bounds)
  show "width_ok (Sized (JNum (Num 2)))" by (simp add: width_ok_def)
  show "write_num False True (Sized (JNum (Num 2))) [0, 0, 9] NaN (JNum (Num 0)) = Inr (2, [0, 0, 9])"
    by (simp add: js_eval write_le_loop.simps)
qed

section \<open>64-bit values\<close>

lemma take_drop_8:
  "off + 8 \<le> length buf \<Longrightarrow> take 8 (drop off buf) =
     [buf ! off, buf ! (off + 1), buf ! (off + 2), buf ! (off + 3), buf ! (off + 4), buf ! (off + 5), buf ! (off + 6), buf ! (off + 7)]"
  by (simp add: numeral_eq_Suc take_drop_Suc)

lemma sint_shift24: "b < 256 \<Longrightarrow> sint (push_bit 24 (word_of_nat b) :: 32 word) = (if b < 128 then int b * 2 ^ 24 else int b * 2 ^ 24 - 2 ^ 32)"
  using sint_word_of_nat [of "b * 2 ^ 24"] by (simp add: word_nat_push push_bit_eq_mult)

definition read_big :: "bool \<Rightarrow> bool \<Rightarrow> bytes \<Rightarrow> jsnum \<Rightarrow> js_error + int" where
  [js_eval]: "read_big neg little =
     (if neg then if little then readBigInt64LE else readBigInt64BE
      else if little then readBigUInt64LE else readBigUInt64BE)"

definition write_big :: "bool \<Rightarrow> bool \<Rightarrow> bytes \<Rightarrow> int \<Rightarrow> jsval \<Rightarrow> js_error + jsnum \<times> bytes" where
  [js_eval]: "write_big neg little =
     (if neg then if little then writeBigInt64LE else writeBigInt64BE
      else if little then writeBigUInt64LE else writeBigUInt64BE)"

lemma read_big_field:
  assumes "wf_bytes buf" "off + 8 \<le> length buf" "off < 2 ^ 32"
  shows "read_big neg little buf (nat_num off) = Inr (field_value neg little buf off 8)"
proof -
  have o: "big_offset buf (nat_num off) = Inr off" using assms(2,3) by (simp add: big_offset_def ToUint32_nat)
  obtain b0 b1 b2 b3 b4 b5 b6 b7 where b: "buf ! off = b0" "buf ! (off + 1) = b1" "buf ! (off + 2) = b2"
      "buf ! (off + 3) = b3" "buf ! (off + 4) = b4" "buf ! (off + 5) = b5" "buf ! (off + 6) = b6" "buf ! (off + 7) = b7"
    by blast
  have lt: "buf ! (off + i) < 256" if "i < 8" for i using nth_byte [OF assms(1)] that assms(2) by simp
  have lts: "b0 < 256" "b1 < 256" "b2 < 256" "b3 < 256" "b4 < 256" "b5 < 256" "b6 < 256" "b7 < 256"
    using lt [of 0] lt [of 1] lt [of 2] lt [of 3] lt [of 4] lt [of 5] lt [of 6] lt [of 7] by (simp_all only: b add_0_right)
  have f: "field_bytes True buf off 8 = [b0, b1, b2, b3, b4, b5, b6, b7]"
    "field_bytes False buf off 8 = [b7, b6, b5, b4, b3, b2, b1, b0]"
    using take_drop_8 [OF assms(2)] by (simp_all add: field_bytes_def b b [simplified])
  note defs = readBigInt64LE_def readBigInt64BE_def readBigUInt64LE_def readBigUInt64BE_def read_big_def
    weighted_def o push_bit_eq_mult field_value_def f byte_word_def b b [simplified]
  show ?thesis
  proof (cases neg)
    case True
    then show ?thesis
      using lts sint_shift24 [OF lts(8)] sint_shift24 [OF lts(1)]
      by (cases little) (simp_all add: defs signed_value_def)
  next
    case False
    then show ?thesis by (cases little) (simp_all add: defs)
  qed
qed

lemma le_bytes_map: "le_bytes n x = map (\<lambda>i. nat (x div 256 ^ i mod 256)) [0..<n]"
  by (induction n) (simp_all add: le_bytes_snoc del: le_bytes.simps(2))

lemma sar8_eq: "sar8 x = sint (word_of_int x :: 32 word) div 2 ^ 8"
  by (simp add: sar8_def sint_signed_drop_bit_eq drop_bit_eq_div)

lemma sint_quotient: "sint (word_of_int (sint w div 2 ^ k) :: 32 word) = sint (w :: 32 word) div 2 ^ k"
proof -
  have w: "- (2 ^ 31) \<le> sint w" "sint w < 2 ^ 31" using sint_greater_eq [of w] sint_less [of w] by simp_all
  have "- (2 ^ 31) \<le> sint w div 2 ^ k \<and> sint w div 2 ^ k < 2 ^ 31"
  proof (cases "sint w < 0")
    case True
    then have "sint w \<le> sint w div 2 ^ k" using zdiv_mono2_neg [of "sint w" 1 "2 ^ k"] by simp
    moreover have "sint w div 2 ^ k < 0" using True by (simp add: pos_imp_zdiv_neg_iff)
    ultimately show ?thesis using w by simp
  next
    case False
    then have "sint w div 2 ^ k \<le> sint w" "0 \<le> sint w div 2 ^ k"
      using zdiv_mono2 [of "sint w" 1 "2 ^ k"] by (simp_all add: pos_imp_zdiv_nonneg_iff)
    then show ?thesis using w by simp
  qed
  then show ?thesis by (simp add: signed_of_int signed_take_bit_int_eq_self)
qed

lemma digit_of_sint: "k \<le> 24 \<Longrightarrow> sint (word_of_int x :: 32 word) div 2 ^ k mod 256 = x div 2 ^ k mod 256"
proof -
  assume k: "k \<le> 24"
  have "take_bit 8 (drop_bit k (signed_take_bit 31 x)) = take_bit 8 (drop_bit k x)"
  proof (rule bit_eqI)
    fix n
    have "min 31 (k + n) = k + n" if "n < 8" using that k by simp
    then show "bit (take_bit 8 (drop_bit k (signed_take_bit 31 x))) n = bit (take_bit 8 (drop_bit k x)) n"
      by (auto simp: bit_simps)
  qed
  then show ?thesis by (simp add: signed_of_int take_bit_eq_mod drop_bit_eq_div)
qed

lemma sar8_digits:
  "x mod 256 = x div 2 ^ 0 mod 256" "sar8 x mod 256 = x div 2 ^ 8 mod 256"
  "sar8 (sar8 x) mod 256 = x div 2 ^ 16 mod 256" "sar8 (sar8 (sar8 x)) mod 256 = x div 2 ^ 24 mod 256"
proof -
  define w where "w = (word_of_int x :: 32 word)"
  have step: "sar8 (sint w div 2 ^ k) = sint w div 2 ^ (8 + k)" for k
    by (simp add: sar8_eq sint_quotient zdiv_zmult2_eq [symmetric] power_add mult.commute)
  have s1: "sar8 x = sint w div 2 ^ 8" by (simp add: sar8_eq w_def)
  have s2: "sar8 (sar8 x) = sint w div 2 ^ 16" using step [of 8] by (simp add: s1)
  have s3: "sar8 (sar8 (sar8 x)) = sint w div 2 ^ 24" using step [of 16] by (simp add: s2)
  show "x mod 256 = x div 2 ^ 0 mod 256" by simp
  show "sar8 x mod 256 = x div 2 ^ 8 mod 256" using digit_of_sint [of 8 x] by (simp add: s1 w_def)
  show "sar8 (sar8 x) mod 256 = x div 2 ^ 16 mod 256" using digit_of_sint [of 16 x] by (simp add: s2 w_def)
  show "sar8 (sar8 (sar8 x)) mod 256 = x div 2 ^ 24 mod 256" using digit_of_sint [of 24 x] by (simp add: s3 w_def)
qed

lemma store_at_nat: "store_at buf (nat_num i) b = (if i < length buf then put buf i b else buf)"
  by (simp add: store_at_def)

lemma length_put [simp]: "length (put buf i x) = length buf"
  by (simp add: put_def)

lemma num_add_nat: "num_add (nat_num off) 1 = nat_num (off + 1)" "num_add (nat_num off) (numeral k) = nat_num (off + numeral k)"
  by simp_all

lemma low_word: "(v AND 0xFFFFFFFF) div 2 ^ k mod 256 = v div 2 ^ k mod 256" if "k \<le> 24" for v :: int
proof -
  have "v AND 0xFFFFFFFF = take_bit 32 v" using take_bit_eq_mask [of 32 v] by (simp add: mask_eq_exp_minus_1)
  moreover have "take_bit 8 (drop_bit k (take_bit 32 v)) = take_bit 8 (drop_bit k v)"
    using that by (simp add: drop_bit_take_bit)
  ultimately show ?thesis by (simp add: take_bit_eq_mod drop_bit_eq_div)
qed

lemma word_digits:
  fixes v :: int
  defines "lo \<equiv> v AND 0xFFFFFFFF"
  shows "lo mod 256 = v mod 256" "sar8 lo mod 256 = v div 2 ^ 8 mod 256"
    "sar8 (sar8 lo) mod 256 = v div 2 ^ 16 mod 256" "sar8 (sar8 (sar8 lo)) mod 256 = v div 2 ^ 24 mod 256"
proof -
  show "lo mod 256 = v mod 256" using low_word [of 0 v] unfolding lo_def power_0 div_by_1 by blast
  show "sar8 lo mod 256 = v div 2 ^ 8 mod 256" unfolding lo_def by (rule trans [OF sar8_digits(2) low_word]) simp
  show "sar8 (sar8 lo) mod 256 = v div 2 ^ 16 mod 256" unfolding lo_def by (rule trans [OF sar8_digits(3) low_word]) simp
  show "sar8 (sar8 (sar8 lo)) mod 256 = v div 2 ^ 24 mod 256" unfolding lo_def by (rule trans [OF sar8_digits(4) low_word]) simp
qed

lemma le_bytes_8:
  fixes v :: int
  defines "lo \<equiv> v AND 0xFFFFFFFF" and "hi \<equiv> drop_bit 32 v AND 0xFFFFFFFF"
  shows "le_bytes 8 v = [nat (lo mod 256), nat (sar8 lo mod 256), nat (sar8 (sar8 lo) mod 256),
      nat (sar8 (sar8 (sar8 lo)) mod 256), nat (hi mod 256), nat (sar8 hi mod 256), nat (sar8 (sar8 hi) mod 256),
      nat (sar8 (sar8 (sar8 hi)) mod 256)]"
proof -
  have q: "drop_bit 32 v div 2 ^ k = v div 2 ^ (32 + k)" for k
    unfolding drop_bit_eq_div power_add by (rule zdiv_zmult2_eq [symmetric]) simp
  have hi: "drop_bit 32 v mod 256 = v div 256 ^ 4 mod 256" "drop_bit 32 v div 2 ^ 8 mod 256 = v div 256 ^ 5 mod 256"
      "drop_bit 32 v div 2 ^ 16 mod 256 = v div 256 ^ 6 mod 256" "drop_bit 32 v div 2 ^ 24 mod 256 = v div 256 ^ 7 mod 256"
    using drop_bit_eq_div [of 32 v] q [of 8] q [of 16] q [of 24] unfolding pow256 by simp_all
  have "[0..<8] = [0, 1, 2, 3, 4, 5, 6, 7]" by (simp add: upt_rec)
  then show ?thesis
    unfolding le_bytes_map lo_def hi_def word_digits hi by (simp add: power_mult)
qed

lemma store_next:
  assumes "off + length bs < length buf" "k = off + length bs"
  shows "store_at (overlay buf off bs) (nat_num k) x = overlay buf off (bs @ [nat (x mod 256)])"
proof -
  have "length (overlay buf off bs) = length buf" using assms(1) by (simp add: overlay_def)
  then show ?thesis using put_overlay_right [OF assms] assms by (simp only: store_at_nat if_True)
qed

lemma store_before:
  assumes "off + length bs < length buf" "k = Suc off"
  shows "store_at (overlay buf k bs) (nat_num off) x = overlay buf off (nat (x mod 256) # bs)"
proof -
  have "length (overlay buf k bs) = length buf" "off < length buf" using assms by (simp_all add: overlay_def)
  then show ?thesis using put_overlay_left [OF assms] by (simp only: store_at_nat if_True)
qed

lemma store_first: "k < length buf \<Longrightarrow> store_at buf (nat_num k) x = overlay buf k [nat (x mod 256)]"
  by (simp only: store_at_nat if_True put_overlay)

lemma store8:
  assumes "off + 8 \<le> length buf"
  shows "store_at (store_at (store_at (store_at (store_at (store_at (store_at (store_at buf
      (nat_num off) a) (nat_num (off + 1)) b) (nat_num (off + 2)) c) (nat_num (off + 3)) d)
      (nat_num (off + 4)) e) (nat_num (off + 5)) f) (nat_num (off + 6)) g) (nat_num (off + 7)) h =
    overlay buf off [nat (a mod 256), nat (b mod 256), nat (c mod 256), nat (d mod 256),
      nat (e mod 256), nat (f mod 256), nat (g mod 256), nat (h mod 256)]" (is ?up)
    and "store_at (store_at (store_at (store_at (store_at (store_at (store_at (store_at buf
      (nat_num (off + 7)) a) (nat_num (off + 6)) b) (nat_num (off + 5)) c) (nat_num (off + 4)) d)
      (nat_num (off + 3)) e) (nat_num (off + 2)) f) (nat_num (off + 1)) g) (nat_num off) h =
    overlay buf off [nat (h mod 256), nat (g mod 256), nat (f mod 256), nat (e mod 256),
      nat (d mod 256), nat (c mod 256), nat (b mod 256), nat (a mod 256)]" (is ?down)
proof -
  show ?up
    apply (subst store_first, use assms in simp)
    apply (subst store_next, use assms in simp, simp)+
    apply simp
    done
  show ?down
    apply (subst store_first, use assms in simp)
    apply (subst store_before, use assms in simp, simp)+
    apply simp
    done
qed

lemma wrt_field:
  assumes "off + 8 \<le> length buf" "mn \<le> v" "v \<le> mx"
  shows "wrtBigUInt64LE buf v (JNum (nat_num off)) mn mx = Inr (nat_num (off + 8), set_field True buf off 8 v)"
    and "wrtBigUInt64BE buf v (JNum (nat_num off)) mn mx = Inr (nat_num (off + 8), set_field False buf off 8 v)"
proof -
  have "num_less (nat_num (length buf)) (num_add (nat_num off) 7) = False"
    using assms(1) unfolding num_add_nat by simp
  then have check: "checkIntBI v mn mx buf (JNum (nat_num off)) 7 = Inr (nat_num off)"
    using assms(2,3) by (simp add: checkIntBI_def checkBounds_def del: num_add.simps)
  show "wrtBigUInt64LE buf v (JNum (nat_num off)) mn mx = Inr (nat_num (off + 8), set_field True buf off 8 v)"
    unfolding wrtBigUInt64LE_def check bindE_simps num_add_nat Let_def set_field_overlay le_bytes_8
      store8(1) [OF assms(1)] if_True ..
  show "wrtBigUInt64BE buf v (JNum (nat_num off)) mn mx = Inr (nat_num (off + 8), set_field False buf off 8 v)"
    unfolding wrtBigUInt64BE_def check bindE_simps num_add_nat Let_def set_field_overlay le_bytes_8
      store8(2) [OF assms(1)] if_False rev.simps append.simps ..
qed

lemma set_field_changes: "off + n \<le> length buf \<Longrightarrow> changes_only off n buf (set_field little buf off n v)"
  using wf_set_field [of buf little off n v]
  by (auto simp: changes_only_def length_set_field) (auto simp: set_field_def nth_append)

lemma write_big_limits:
  "write_big neg little buf v (JNum x) =
     (if little then wrtBigUInt64LE else wrtBigUInt64BE) buf v (JNum x) (snd (num_limits neg 8)) (fst (num_limits neg 8))"
  by (simp add: write_big_def writeBigInt64LE_def writeBigInt64BE_def writeBigUInt64LE_def writeBigUInt64BE_def
      num_limits_def default_zero_def)

text \<open>
  A 64-bit value written into eight bytes of a buffer is read back by the method of the same
  signedness and byte order, and a value outside its range is refused.
\<close>
theorem big_write_read:
  assumes "wf_bytes buf" "off + 8 \<le> length buf" "off < 2 ^ 32"
  shows "if snd (num_limits neg 8) \<le> v \<and> v \<le> fst (num_limits neg 8)
     then \<exists>buf'. write_big neg little buf v (JNum (nat_num off)) = Inr (nat_num (off + 8), buf') \<and>
            read_big neg little buf' (nat_num off) = Inr v \<and> changes_only off 8 buf buf'
     else \<exists>text. write_big neg little buf v (JNum (nat_num off)) = Inl (ERR_OUT_OF_RANGE ''value'' text (JBigInt v))"
proof (cases "snd (num_limits neg 8) \<le> v \<and> v \<le> fst (num_limits neg 8)")
  case True
  define buf' where "buf' = set_field little buf off 8 v"
  have "write_big neg little buf v (JNum (nat_num off)) = Inr (nat_num (off + 8), buf')"
    unfolding write_big_limits buf'_def using wrt_field [OF assms(2)] True by (cases little) simp_all
  moreover have "field_value neg little buf' off 8 = v"
    using True signed_round_trip [of 8 v]
    by (auto simp: field_value_def buf'_def field_of_set_field [OF assms(2)] le_value_bytes num_limits_def Let_def pow256)
  moreover have "changes_only off 8 buf buf'" unfolding buf'_def by (rule set_field_changes [OF assms(2)])
  ultimately show ?thesis
    using True read_big_field [of buf' off neg little] assms by (simp add: changes_only_def)
next
  case False
  then show ?thesis
    by (auto simp: write_big_limits wrtBigUInt64LE_def wrtBigUInt64BE_def checkIntBI_def)
qed

lemma big_write_read_witness:
  "\<exists>buf'. write_big True False (replicate 9 0) (-2) (JNum (nat_num 1)) = Inr (nat_num 9, buf') \<and>
     read_big True False buf' (nat_num 1) = Inr (-2) \<and> changes_only 1 8 (replicate 9 0) buf'"
  using big_write_read [of "replicate 9 0" 1 True "-2" False] by (simp add: wf_bytes_def num_limits_def)

text \<open>
  \<open>checkIntBI\<close> is called with one byte less than is written: a buffer of seven bytes is accepted and
  the last byte is dropped, although reading eight bytes from it fails.
\<close>

lemma big_write_short:
  "writeBigUInt64LE [0, 0, 0, 0, 0, 0, 0] 0x0807060504030201 JUndefined = Inr (Num 8, [1, 2, 3, 4, 5, 6, 7]) \<and>
   readBigUInt64LE [1, 2, 3, 4, 5, 6, 7] (Num 0) = Inl (ERR_BUFFER_OUT_OF_BOUNDS '''')"
  by (simp add: js_eval)

end
