(* ===== verification/Buffer_Ops.thy ===== *)
theory Buffer_Ops
  imports Buffer_Codec Buffer_Num
begin

unbundle bit_operations_syntax

text \<open>
  The operations of \<open>builtin/buffer.js\<close> on whole buffers: allocation and the allocation pool, views
  (\<open>subarray\<close>, \<open>slice\<close>) and \<open>copy\<close> over shared array buffers, \<open>fill\<close>, \<open>concat\<close>, the byte swaps,
  \<open>compare\<close>, \<open>equals\<close> and the searches. Views, the pool and \<open>copy\<close> live in an explicit memory of
  array buffers because they share bytes; the other operations are functions of the bytes of a view.
\<close>

section \<open>Memory and views\<close>

record view =
  v_array :: nat
  v_off :: nat
  v_len :: nat

record memory =
  m_arrays :: "bytes list"
  m_pool :: "nat option"
  m_poolOffset :: int
  m_poolSize :: jsnum

definition view_bytes :: "memory \<Rightarrow> view \<Rightarrow> bytes" where
  [js_eval]: "view_bytes mem v = take (v_len v) (drop (v_off v) (m_arrays mem ! v_array v))"

definition set_bytes :: "memory \<Rightarrow> view \<Rightarrow> nat \<Rightarrow> bytes \<Rightarrow> memory" where
  [js_eval]: "set_bytes mem v k bs =
     (let a = m_arrays mem ! v_array v; pos = v_off v + k
      in mem\<lparr>m_arrays := (m_arrays mem)[v_array v := take pos a @ bs @ drop (pos + length bs) a]\<rparr>)"

definition new_array :: "memory \<Rightarrow> nat \<Rightarrow> nat \<times> memory" where
  [js_eval]: "new_array mem n = (length (m_arrays mem), mem\<lparr>m_arrays := m_arrays mem @ [replicate n 0]\<rparr>)"

subsection \<open>Allocation\<close>

definition K_MAX_LENGTH :: nat where
  [js_eval]: "K_MAX_LENGTH = 0x7FFFFFFF"

definition size_error :: "jsval \<Rightarrow> js_error" where
  [js_eval]: "size_error v = ERR_OUT_OF_RANGE ''size'' ''>= 0 and <= 2147483647'' v"

definition createBuffer :: "memory \<Rightarrow> jsnum \<Rightarrow> js_error + view \<times> memory" where
  [js_eval]: "createBuffer mem len =
     (if num_less (nat_num K_MAX_LENGTH) len then Inl (size_error (JNum len))
      else if num_le len (Num (-1)) then Inl (RangeError ''Invalid typed array length'')
      else let n = (case len of Num r \<Rightarrow> nat (trunc r) | _ \<Rightarrow> 0); (i, mem') = new_array mem n
           in Inr (\<lparr>v_array = i, v_off = 0, v_len = n\<rparr>, mem'))"

definition assertSize :: "jsval \<Rightarrow> js_error + jsnum" where
  [js_eval]: "assertSize sz =
     (case sz of
        JNum x \<Rightarrow>
          if num_less x (Num 0) \<or> num_less (nat_num K_MAX_LENGTH) x \<or> x = NaN then Inl (size_error sz) else Inr x
      | _ \<Rightarrow> Inl (ERR_INVALID_ARG_TYPE ''size'' ''number'' sz))"

definition checked :: "jsnum \<Rightarrow> js_error + int" where
  [js_eval]: "checked len =
     (if num_le (nat_num K_MAX_LENGTH) len
      then Inl (RangeError ''Attempt to allocate Buffer larger than maximum sz: 0x7fffffff bytes'')
      else Inr (sint (ToInt32 len)))"

definition allocUnsafe :: "memory \<Rightarrow> jsval \<Rightarrow> js_error + view \<times> memory" where
  [js_eval]: "allocUnsafe mem sz =
     bindE (assertSize sz) (\<lambda>x.
       if num_less x (Num 0) then createBuffer mem (Num 0)
       else bindE (checked x) (\<lambda>n. createBuffer mem (int_num n)))"

text \<open>
  \<open>& 7\<close> and \<open>& ~7\<close> convert the offset to a signed 32-bit integer, so the aligned offset is negative
  when \<open>off + 7\<close> reaches \<open>2 ^ 31\<close>.
\<close>

definition alignPoolOffset :: "int \<Rightarrow> int" where
  [js_eval]: "alignPoolOffset off =
     (if (word_of_int off :: 32 word) AND 7 \<noteq> 0 then sint ((word_of_int (off + 7) :: 32 word) AND NOT 7) else off)"

definition createAllocationPool :: "memory \<Rightarrow> memory" where
  [js_eval]: "createAllocationPool mem =
     (let sz = (if num_less (Num 0) (m_poolSize mem) then ToUint32 (m_poolSize mem) else 8192);
          (i, mem') = new_array mem sz
      in mem'\<lparr>m_pool := Some i, m_poolOffset := 0\<rparr>)"

text \<open>
  The constructor of the view throws when the range leaves the pool, after the pool and its offset
  have changed.
\<close>

definition pool_for :: "memory \<Rightarrow> nat \<Rightarrow> memory" where
  [js_eval]: "pool_for mem sz =
     (case m_pool mem of
        None \<Rightarrow> createAllocationPool mem
      | Some i \<Rightarrow>
          if m_poolOffset mem + int sz > int (length (m_arrays mem ! i)) then createAllocationPool mem else mem)"

definition allocFromPool :: "memory \<Rightarrow> nat \<Rightarrow> (js_error + view) \<times> memory" where
  [js_eval]: "allocFromPool mem sz =
     (if sz = 0
      then let (i, mem') = new_array mem 0 in (Inr \<lparr>v_array = i, v_off = 0, v_len = 0\<rparr>, mem')
      else let mem1 = pool_for mem sz; i = the (m_pool mem1); start = m_poolOffset mem1
           in (if start < 0 then Inl (RangeError ''Invalid offset'')
               else if start + int sz > int (length (m_arrays mem1 ! i)) then Inl (RangeError ''Invalid typed array length'')
               else Inr \<lparr>v_array = i, v_off = nat start, v_len = sz\<rparr>,
               mem1\<lparr>m_poolOffset := alignPoolOffset (start + int sz)\<rparr>))"

text \<open>The choice \<open>fromString\<close> makes between the pool and an array of its own.\<close>

definition string_buffer :: "memory \<Rightarrow> nat \<Rightarrow> (js_error + view) \<times> memory" where
  [js_eval]: "string_buffer mem len =
     (if len \<le> ToUint32 (m_poolSize mem) div 2 then allocFromPool mem len
      else case createBuffer mem (nat_num len) of Inl e \<Rightarrow> (Inl e, mem) | Inr (v, mem') \<Rightarrow> (Inr v, mem'))"

subsection \<open>Views\<close>

definition toIntegerOrInfinity :: "jsnum \<Rightarrow> jsnum" where
  [js_eval]: "toIntegerOrInfinity x =
     (case x of NaN \<Rightarrow> Num 0 | Infinity p \<Rightarrow> Infinity p | Num r \<Rightarrow> int_num (trunc r))"

definition adjustOffset :: "jsnum \<Rightarrow> nat \<Rightarrow> nat" where
  [js_eval]: "adjustOffset offset len =
     (case toIntegerOrInfinity offset of
        Infinity False \<Rightarrow> 0
      | Num r \<Rightarrow> if r < 0 then nat (max (int len + trunc r) 0) else nat (min (trunc r) (int len))
      | _ \<Rightarrow> len)"

definition subarray :: "view \<Rightarrow> jsnum \<Rightarrow> jsnum option \<Rightarrow> view" where
  [js_eval]: "subarray v start stop =
     (let startOffset = adjustOffset start (v_len v);
          endOffset = (case stop of None \<Rightarrow> v_len v | Some e \<Rightarrow> adjustOffset e (v_len v))
      in \<lparr>v_array = v_array v, v_off = v_off v + startOffset,
          v_len = (if endOffset > startOffset then endOffset - startOffset else 0)\<rparr>)"

text \<open>An argument that must be a Uint8Array: a view, or something else.\<close>

datatype viewarg = AView view | AOther jsval

definition num_falsy :: "jsnum \<Rightarrow> bool" where
  [js_eval]: "num_falsy x = (x = Num 0 \<or> x = NaN)"

definition copy :: "memory \<Rightarrow> view \<Rightarrow> viewarg \<Rightarrow> jsnum option \<Rightarrow> jsnum option \<Rightarrow> jsnum option \<Rightarrow> js_error + int \<times> memory" where
  [js_eval]: "copy mem this target targetStart start stop =
     (case target of
        AOther v \<Rightarrow> Inl (ERR_INVALID_ARG_TYPE ''target'' ''Buffer, Uint8Array'' v)
      | AView tgt \<Rightarrow>
          let ts = (case targetStart of None \<Rightarrow> Num 0 | Some x \<Rightarrow> if num_falsy x then Num 0 else x);
              st = (case start of None \<Rightarrow> Num 0 | Some x \<Rightarrow> if num_falsy x then Num 0 else x);
              en = (case stop of None \<Rightarrow> nat_num (v_len this) | Some x \<Rightarrow> x)
          in if num_less ts (Num 0) then Inl (ERR_OUT_OF_RANGE ''targetStart'' ''>= 0'' (JNum ts))
             else if num_less st (Num 0) \<or> num_less (nat_num (v_len this)) st
             then Inl (ERR_OUT_OF_RANGE ''sourceStart'' (''>= 0 and <= '' @ nat_string (v_len this)) (JNum st))
             else if num_less en (Num 0) then Inl (ERR_OUT_OF_RANGE ''sourceEnd'' ''>= 0'' (JNum en))
             else let t0 = ToUint32 ts; s = ToUint32 st; e0 = ToUint32 en;
                      t = (if t0 \<ge> v_len tgt then v_len tgt else t0);
                      e1 = (if e0 > 0 \<and> e0 < s then s else e0)
                  in if e1 = s then Inr (0, mem)
                     else if v_len tgt = 0 \<or> v_len this = 0 then Inr (0, mem)
                     else let e2 = (if e1 > v_len this then v_len this else e1);
                              e3 = (if int (v_len tgt) - int t < int e2 - int s then v_len tgt - t + s else e2)
                          in Inr (int e3 - int s,
                                  set_bytes mem tgt t (view_bytes mem (subarray this (nat_num s) (Some (nat_num e3))))))"

section \<open>Buffers from values\<close>

text \<open>
  \<open>Buffer.from\<close> of a value other than a view or an ArrayBuffer: \<open>to_num\<close> is ToNumber, which throws
  on symbols and BigInts. Objects are plain ones, with data properties and the inherited \<open>valueOf\<close>.
  The length of an array-like object is converted by \<open>checked(\<dots>) | 0\<close>.
\<close>

fun array_bytes :: "(jsval \<Rightarrow> js_error + jsnum) \<Rightarrow> (nat \<Rightarrow> jsval) \<Rightarrow> nat list \<Rightarrow> js_error + bytes" where
  "array_bytes to_num get [] = Inr []"
| "array_bytes to_num get (i # is) =
     bindE (to_num (get i)) (\<lambda>x. bindE (array_bytes to_num get is) (\<lambda>bs. Inr (nat (num_and x 0xFF) # bs)))"

definition fromArrayLike :: "(jsval \<Rightarrow> js_error + jsnum) \<Rightarrow> jsnum \<Rightarrow> (nat \<Rightarrow> jsval) \<Rightarrow> js_error + bytes" where
  [js_eval]: "fromArrayLike to_num len get =
     bindE (if num_less len (Num 0) then Inr 0 else checked len) (\<lambda>n. array_bytes to_num get [0..<nat n])"

definition property :: "(jstr \<times> jsval) list \<Rightarrow> jstr \<Rightarrow> jsval" where
  [js_eval]: "property ps k = (case map_of ps k of None \<Rightarrow> JUndefined | Some v \<Rightarrow> v)"

definition array_get :: "jsval list \<Rightarrow> nat \<Rightarrow> jsval" where
  [js_eval]: "array_get xs i = (if i < length xs then xs ! i else JUndefined)"

definition from_error :: "jsval \<Rightarrow> js_error" where
  [js_eval]: "from_error v = ERR_INVALID_ARG_TYPE ''first argument'' ''string, Buffer, ArrayBuffer, Array, Array-like Object'' v"

definition fromObject :: "(jsval \<Rightarrow> js_error + jsnum) \<Rightarrow> (jstr \<times> jsval) list \<Rightarrow> js_error + bytes option" where
  [js_eval]: "fromObject to_num ps =
     (case property ps (js ''length'') of
        JUndefined \<Rightarrow>
          if property ps (js ''type'') = JStr (js ''Buffer'')
          then (case property ps (js ''data'') of
                  JArray xs \<Rightarrow> bindE (fromArrayLike to_num (nat_num (length xs)) (array_get xs)) (\<lambda>bs. Inr (Some bs))
                | _ \<Rightarrow> Inr None)
          else Inr None
      | JNum x \<Rightarrow>
          if x = NaN then Inr (Some [])
          else bindE (fromArrayLike to_num x (\<lambda>i. property ps (nat_digits i))) (\<lambda>bs. Inr (Some bs))
      | _ \<Rightarrow> Inr (Some []))"

definition from_value :: "(jsval \<Rightarrow> js_error + jstr) \<Rightarrow> (jsval \<Rightarrow> jsnum) \<Rightarrow> (jsval \<Rightarrow> js_error + jsnum) \<Rightarrow> (jstr \<Rightarrow> jstr) \<Rightarrow>
    jsval \<Rightarrow> jsval \<Rightarrow> js_error + bytes" where
  [js_eval]: "from_value to_string to_number to_num lc v encoding =
     (case v of
        JStr s \<Rightarrow> fromString to_string to_number lc s encoding
      | JArray xs \<Rightarrow> fromArrayLike to_num (nat_num (length xs)) (array_get xs)
      | JObject ps \<Rightarrow>
          bindE (fromObject to_num ps) (\<lambda>b. case b of Some bs \<Rightarrow> Inr bs | None \<Rightarrow> Inl (from_error v))
      | _ \<Rightarrow> Inl (from_error v))"

section \<open>Filling\<close>

text \<open>
  The value of \<open>fill\<close>: a Uint8Array, which may overlap the buffer it fills, or another value. The
  pattern written is read while the buffer is written: from a Uint8Array in memory, or from the fresh
  bytes of \<open>Buffer.from\<close>.
\<close>

datatype fill_value = FillView view | FillVal jsval

datatype pattern = PView view | PBytes bytes

definition pattern_bytes :: "memory \<Rightarrow> pattern \<Rightarrow> bytes" where
  [js_eval]: "pattern_bytes mem pat = (case pat of PView v \<Rightarrow> view_bytes mem v | PBytes bs \<Rightarrow> bs)"

function fill_number_loop :: "view \<Rightarrow> nat \<Rightarrow> nat \<Rightarrow> nat \<Rightarrow> memory \<Rightarrow> memory" where
  "fill_number_loop this b i stop mem =
     (if i < stop then fill_number_loop this b (i + 1) stop (set_bytes mem this i [b]) else mem)"
  by pat_completeness auto
termination
  by (relation "measure (\<lambda>(this, b, i, stop, mem). stop - i)") auto

declare fill_number_loop.simps [simp del]

function fill_loop :: "view \<Rightarrow> pattern \<Rightarrow> nat \<Rightarrow> nat \<Rightarrow> nat \<Rightarrow> nat \<Rightarrow> memory \<Rightarrow> memory" where
  "fill_loop this pat len start stop i mem =
     (if i < stop - start
      then fill_loop this pat len start stop (i + 1) (set_bytes mem this (i + start) [pattern_bytes mem pat ! (i mod len)])
      else mem)"
  by pat_completeness auto
termination
  by (relation "measure (\<lambda>(this, pat, len, start, stop, i, mem). stop - start - i)") auto

declare fill_loop.simps [simp del]

definition fill_range :: "nat \<Rightarrow> jsval \<Rightarrow> jsval \<Rightarrow> js_error + jsnum \<times> jsnum" where
  [js_eval]: "fill_range len start stop =
     bindE (case start of JUndefined \<Rightarrow> Inr (Num 0) | JNum x \<Rightarrow> Inr x
            | _ \<Rightarrow> Inl (ERR_INVALID_ARG_TYPE ''offset'' ''number'' start)) (\<lambda>st.
     bindE (case stop of JUndefined \<Rightarrow> Inr (nat_num len) | JNum x \<Rightarrow> Inr x
            | _ \<Rightarrow> Inl (ERR_INVALID_ARG_TYPE ''end'' ''number'' stop)) (\<lambda>en.
       if num_less st (Num 0) \<or> num_less (nat_num len) st
       then Inl (ERR_OUT_OF_RANGE ''offset'' (''>= 0 and <= '' @ nat_string len) (JNum st))
       else if num_less en (Num 0) \<or> num_less (nat_num len) en
       then Inl (ERR_OUT_OF_RANGE ''end'' (''>= 0 and <= '' @ nat_string len) (JNum en))
       else Inr (st, en)))"

text \<open>The arguments once a string value has moved an encoding given in another position.\<close>

definition fill_string_args :: "(jstr \<Rightarrow> jstr) \<Rightarrow> nat \<Rightarrow> jstr \<Rightarrow> jsval \<Rightarrow> jsval \<Rightarrow> jsval \<Rightarrow> js_error + jsval \<times> jsval \<times> jsval \<times> jsval" where
  [js_eval]: "fill_string_args lc len s start stop encoding =
     (let (st, en, enc) = (case start of JStr e \<Rightarrow> (JNum (Num 0), JNum (nat_num len), start)
                | _ \<Rightarrow> (case stop of JStr e \<Rightarrow> (start, JNum (nat_num len), stop) | _ \<Rightarrow> (start, stop, encoding)))
      in case enc of
           JUndefined \<Rightarrow> Inr (JStr s, st, en, enc)
         | JStr e \<Rightarrow>
             if \<not> isEncoding lc e then Inl (ERR_UNKNOWN_ENCODING enc)
             else Inr (if length s = 1 \<and> (e = js ''utf8'' \<and> hd s < 128 \<or> e = js ''latin1'')
                       then JNum (nat_num (hd s)) else JStr s, st, en, enc)
         | _ \<Rightarrow> Inl (ERR_INVALID_ARG_TYPE ''encoding'' ''string'' enc))"

definition fill_args :: "(jstr \<Rightarrow> jstr) \<Rightarrow> nat \<Rightarrow> fill_value \<Rightarrow> jsval \<Rightarrow> jsval \<Rightarrow> jsval \<Rightarrow> js_error + fill_value \<times> jsval \<times> jsval \<times> jsval" where
  [js_eval]: "fill_args lc len v start stop encoding =
     (case v of
        FillVal (JStr s) \<Rightarrow> bindE (fill_string_args lc len s start stop encoding) (\<lambda>(w, rest). Inr (FillVal w, rest))
      | FillVal (JNum x) \<Rightarrow> Inr (FillVal (JNum (int_num (num_and x 0xFF))), start, stop, encoding)
      | FillVal (JBool b) \<Rightarrow> Inr (FillVal (JNum (if b then Num 1 else Num 0)), start, stop, encoding)
      | _ \<Rightarrow> Inr (v, start, stop, encoding))"

text \<open>The byte written for a number or a falsy value, after \<open>fill_args\<close>.\<close>

definition fill_number :: "jsval \<Rightarrow> nat option" where
  [js_eval]: "fill_number v =
     (if falsy v then Some 0 else case v of JNum (Num r) \<Rightarrow> Some (nat (trunc r mod 256)) | _ \<Rightarrow> None)"

definition fill :: "(jsval \<Rightarrow> js_error + jstr) \<Rightarrow> (jsval \<Rightarrow> jsnum) \<Rightarrow> (jsval \<Rightarrow> js_error + jsnum) \<Rightarrow> (jstr \<Rightarrow> jstr) \<Rightarrow>
    memory \<Rightarrow> view \<Rightarrow> fill_value \<Rightarrow> jsval \<Rightarrow> jsval \<Rightarrow> jsval \<Rightarrow> js_error + memory" where
  [js_eval]: "fill to_string to_number to_num lc mem this v start stop encoding =
     bindE (fill_args lc (v_len this) v start stop encoding) (\<lambda>(w, start, stop, encoding).
     bindE (fill_range (v_len this) start stop) (\<lambda>(st, en).
       if num_le en st then Inr mem
       else let s = ToUint32 st; e = ToUint32 en
            in case w of
                 FillView p \<Rightarrow>
                   if v_len p = 0 then Inl (ERR_INVALID_ARG_VALUE ''value'' (JObject []) '''')
                   else Inr (fill_loop this (PView p) (v_len p) s e 0 mem)
               | FillVal x \<Rightarrow>
                   (case fill_number x of
                      Some b \<Rightarrow> Inr (fill_number_loop this b s e mem)
                    | None \<Rightarrow> bindE (from_value to_string to_number to_num lc x encoding) (\<lambda>bs.
                        if bs = []
                        then (case x of JArray _ \<Rightarrow> Inr (fill_number_loop this 0 s e mem)
                              | _ \<Rightarrow> Inl (ERR_INVALID_ARG_VALUE ''value'' x ''''))
                        else Inr (fill_loop this (PBytes bs) (length bs) s e 0 mem)))))"

text \<open>A string encoding of \<open>alloc\<close> is the second argument of \<open>fill\<close>.\<close>

definition alloc :: "(jsval \<Rightarrow> js_error + jstr) \<Rightarrow> (jsval \<Rightarrow> jsnum) \<Rightarrow> (jsval \<Rightarrow> js_error + jsnum) \<Rightarrow> (jstr \<Rightarrow> jstr) \<Rightarrow>
    memory \<Rightarrow> jsval \<Rightarrow> fill_value \<Rightarrow> jsval \<Rightarrow> js_error + view \<times> memory" where
  [js_eval]: "alloc to_string to_number to_num lc mem sz v encoding =
     bindE (assertSize sz) (\<lambda>x.
       if num_le x (Num 0) \<or> v = FillVal JUndefined then createBuffer mem x
       else (case encoding of
               JUndefined \<Rightarrow>
                 bindE (createBuffer mem x) (\<lambda>(b, mem').
                 bindE (fill to_string to_number to_num lc mem' b v JUndefined JUndefined JUndefined) (\<lambda>mem''. Inr (b, mem'')))
             | JStr e \<Rightarrow>
                 bindE (createBuffer mem x) (\<lambda>(b, mem').
                 bindE (fill to_string to_number to_num lc mem' b v encoding JUndefined JUndefined) (\<lambda>mem''. Inr (b, mem'')))
             | _ \<Rightarrow> Inl (ERR_INVALID_ARG_TYPE ''encoding'' ''string'' encoding)))"

section \<open>Concatenation\<close>

text \<open>A list element: the bytes of a Uint8Array, or another value.\<close>

datatype bufarg = BufArg bytes | OtherArg jsval

fun check_list :: "nat \<Rightarrow> bufarg list \<Rightarrow> js_error + bytes list" where
  "check_list i [] = Inr []"
| "check_list i (OtherArg v # xs) = Inl (ERR_INVALID_ARG_TYPE (''list['' @ nat_string i @ '']'') ''Buffer, Uint8Array'' v)"
| "check_list i (BufArg b # xs) = bindE (check_list (i + 1) xs) (\<lambda>bs. Inr (b # bs))"

fun concat_loop :: "bytes \<Rightarrow> nat \<Rightarrow> bytes list \<Rightarrow> bytes" where
  "concat_loop buffer pos [] = buffer"
| "concat_loop buffer pos (b # bs) =
     (if pos + length b > length buffer
      then take pos buffer @ take (length buffer - pos) b
      else concat_loop (take pos buffer @ b @ drop (pos + length b) buffer) (pos + length b) bs)"

definition buf_concat :: "bufarg list \<Rightarrow> jsval \<Rightarrow> js_error + bytes" where
  [js_eval]: "buf_concat list len =
     (if list = [] then Inr []
      else bindE (check_list 0 list) (\<lambda>bs.
           let len' = (if len = JUndefined then JNum (nat_num (sum_list (map length bs))) else len)
           in bindE (assertSize len') (\<lambda>x. bindE (checked x) (\<lambda>n.
                Inr (concat_loop (replicate (nat n) 0) 0 bs)))))"

section \<open>Swapping bytes\<close>

definition swap :: "bytes \<Rightarrow> nat \<Rightarrow> nat \<Rightarrow> bytes" where
  [js_eval]: "swap b n m = b[n := b ! m, m := b ! n]"

function swap_loop :: "(bytes \<Rightarrow> nat \<Rightarrow> bytes) \<Rightarrow> nat \<Rightarrow> bytes \<Rightarrow> nat \<Rightarrow> nat \<Rightarrow> bytes" where
  "swap_loop step k b i len =
     (if k > 0 \<and> i < len then swap_loop step k (step b i) (i + k) len else b)"
  by pat_completeness auto
termination
  by (relation "measure (\<lambda>(step, k, b, i, len). len - i)") auto

declare swap_loop.simps [simp del]

definition swap16 :: "bytes \<Rightarrow> js_error + bytes" where
  [js_eval]: "swap16 b =
     (if length b mod 2 \<noteq> 0 then Inl (RangeError ''Buffer size must be a multiple of 16-bits'')
      else Inr (swap_loop (\<lambda>b i. swap b i (i + 1)) 2 b 0 (length b)))"

definition swap32 :: "bytes \<Rightarrow> js_error + bytes" where
  [js_eval]: "swap32 b =
     (if length b mod 4 \<noteq> 0 then Inl (RangeError ''Buffer size must be a multiple of 32-bits'')
      else Inr (swap_loop (\<lambda>b i. swap (swap b i (i + 3)) (i + 1) (i + 2)) 4 b 0 (length b)))"

definition swap64 :: "bytes \<Rightarrow> js_error + bytes" where
  [js_eval]: "swap64 b =
     (if length b mod 8 \<noteq> 0 then Inl (RangeError ''Buffer size must be a multiple of 64-bits'')
      else Inr (swap_loop (\<lambda>b i. swap (swap (swap (swap b i (i + 7)) (i + 1) (i + 6)) (i + 2) (i + 5)) (i + 3) (i + 4))
                 8 b 0 (length b)))"

end
