(* ===== verification/Buffer_Ops_Laws.thy ===== *)
theory Buffer_Ops_Laws
  imports Buffer_Ops
begin

unbundle bit_operations_syntax

text \<open>
  Laws of the whole-buffer operations: buffers allocated from the shared pool never overlap, \<open>copy\<close>
  moves bytes as memmove does, \<open>fill\<close> repeats its pattern, \<open>concat\<close> cuts or pads the joined bytes
  and the byte swaps reverse every group.
\<close>

section \<open>Memory\<close>

definition in_bounds :: "memory \<Rightarrow> view \<Rightarrow> bool" where
  "in_bounds mem v = (v_array v < length (m_arrays mem) \<and> v_off v + v_len v \<le> length (m_arrays mem ! v_array v))"

definition disjoint :: "view \<Rightarrow> view \<Rightarrow> bool" where
  "disjoint v w = (v_array v = v_array w \<longrightarrow> v_off v + v_len v \<le> v_off w \<or> v_off w + v_len w \<le> v_off v)"

lemma disjoint_sym: "disjoint v w \<Longrightarrow> disjoint w v"
  by (auto simp: disjoint_def)

lemma length_view_bytes: "in_bounds mem v \<Longrightarrow> length (view_bytes mem v) = v_len v"
  by (auto simp: in_bounds_def view_bytes_def)

lemma arrays_set_bytes:
  assumes "in_bounds mem v" and "k + length bs \<le> v_len v"
  shows "map length (m_arrays (set_bytes mem v k bs)) = map length (m_arrays mem)"
  using assms by (intro nth_equalityI) (auto simp: set_bytes_def Let_def in_bounds_def nth_list_update)

lemma in_bounds_lengths:
  "in_bounds mem v = (v_array v < length (map length (m_arrays mem)) \<and>
     v_off v + v_len v \<le> map length (m_arrays mem) ! v_array v)"
  by (auto simp: in_bounds_def)

lemma nth_set_bytes:
  assumes "in_bounds mem v" and "k + length bs \<le> v_len v" and "i < length (m_arrays mem ! a)"
  shows "m_arrays (set_bytes mem v k bs) ! a ! i =
    (if a = v_array v \<and> v_off v + k \<le> i \<and> i < v_off v + k + length bs then bs ! (i - (v_off v + k))
     else m_arrays mem ! a ! i)"
  using assms by (cases "a = v_array v") (auto simp: set_bytes_def Let_def in_bounds_def nth_append min_def)

lemma set_bytes_other:
  assumes "in_bounds mem v" "in_bounds mem w" "disjoint v w" "k + length bs \<le> v_len v"
  shows "view_bytes (set_bytes mem v k bs) w = view_bytes mem w"
proof (rule nth_equalityI)
  have len: "length (m_arrays (set_bytes mem v k bs) ! v_array w) = length (m_arrays mem ! v_array w)"
    using arg_cong [where f = "\<lambda>xs. xs ! v_array w", OF arrays_set_bytes [OF assms(1,4)]] assms(2)
      arg_cong [where f = length, OF arrays_set_bytes [OF assms(1,4)]]
    by (simp add: in_bounds_def)
  then show "length (view_bytes (set_bytes mem v k bs) w) = length (view_bytes mem w)"
    by (simp add: view_bytes_def)
  fix i assume "i < length (view_bytes (set_bytes mem v k bs) w)"
  then have "i < v_len w" "v_off w + i < length (m_arrays mem ! v_array w)"
    using len by (auto simp: view_bytes_def)
  then show "view_bytes (set_bytes mem v k bs) w ! i = view_bytes mem w ! i"
    using assms len nth_set_bytes [OF assms(1,4), of "v_off w + i" "v_array w"]
    by (auto simp: view_bytes_def disjoint_def)
qed

section \<open>The allocation pool\<close>

text \<open>
  A run of the allocator: buffers for strings of up to \<open>2 ^ 31 - 8\<close> bytes, buffers of their own
  arrays, writes through the buffers handed out, and assignments to \<open>Buffer.poolSize\<close>, which when
  positive stay at most \<open>2 ^ 31 - 8\<close>, in any order. A state is the memory with the buffers handed out so
  far. Without the two bounds the aligned offset wraps (\<open>alignPoolOffset_wraps\<close> below) and the
  properties are false of the code.
\<close>

definition pool_bound :: nat where
  "pool_bound = 2147483640"

definition poolSize_ok :: "jsnum \<Rightarrow> bool" where
  "poolSize_ok x = (num_less (Num 0) x \<longrightarrow> ToUint32 x \<le> pool_bound)"

inductive alloc_step :: "memory \<times> view list \<Rightarrow> memory \<times> view list \<Rightarrow> bool" where
  string_ok: "string_buffer mem n = (Inr v, mem') \<Longrightarrow> n \<le> pool_bound \<Longrightarrow> alloc_step (mem, vs) (mem', v # vs)"
| string_error: "string_buffer mem n = (Inl e, mem') \<Longrightarrow> n \<le> pool_bound \<Longrightarrow> alloc_step (mem, vs) (mem', vs)"
| own: "allocUnsafe mem sz = Inr (v, mem') \<Longrightarrow> alloc_step (mem, vs) (mem', v # vs)"
| bytes_written: "v \<in> set vs \<Longrightarrow> k + length bs \<le> v_len v \<Longrightarrow> alloc_step (mem, vs) (set_bytes mem v k bs, vs)"
| pool_size: "poolSize_ok x \<Longrightarrow> alloc_step (mem, vs) (mem\<lparr>m_poolSize := x\<rparr>, vs)"

inductive alloc_reachable :: "memory \<times> view list \<Rightarrow> bool" where
  start: "alloc_reachable (\<lparr>m_arrays = [], m_pool = None, m_poolOffset = 0, m_poolSize = Num 8192\<rparr>, [])"
| step: "alloc_reachable s \<Longrightarrow> alloc_step s s' \<Longrightarrow> alloc_reachable s'"

definition pool_ok :: "memory \<Rightarrow> bool" where
  "pool_ok mem = (m_poolOffset mem mod 8 = 0 \<and> 0 \<le> m_poolOffset mem \<and> poolSize_ok (m_poolSize mem) \<and>
     (\<forall>i. m_pool mem = Some i \<longrightarrow> i < length (m_arrays mem) \<and> length (m_arrays mem ! i) \<le> pool_bound))"

definition alloc_inv :: "memory \<times> view list \<Rightarrow> bool" where
  "alloc_inv = (\<lambda>(mem, vs).
     list_all (in_bounds mem) vs \<and> sorted_wrt disjoint vs \<and> pool_ok mem \<and>
     (\<forall>i. m_pool mem = Some i \<longrightarrow>
        list_all (\<lambda>v. v_array v = i \<longrightarrow> int (v_off v + v_len v) \<le> m_poolOffset mem) vs))"

lemma and_7_int: "n AND 7 = n mod 8" for n :: int
proof -
  have "(7 :: int) = mask 3" by (simp add: mask_eq_exp_minus_1)
  then show ?thesis by (simp only: take_bit_eq_mask [symmetric]) (simp add: take_bit_int_def)
qed

lemma and_7_word: "(word_of_int n :: 32 word) AND 7 = 0 \<longleftrightarrow> n mod 8 = 0"
proof -
  have "(word_of_int n :: 32 word) AND 7 = 0 \<longleftrightarrow> take_bit 32 (n AND 7) = 0"
    by transfer simp
  also have "\<dots> \<longleftrightarrow> n mod 8 = 0"
    unfolding and_7_int by (subst take_bit_int_eq_self) (auto intro: order_less_trans [OF pos_mod_bound])
  finally show ?thesis .
qed

lemma and_not_7_int: "n AND NOT 7 = 8 * (n div 8)" for n :: int
proof -
  have "n = n AND NOT 7 OR n AND 7" by (simp add: bit_eq_iff bit_simps) blast
  moreover have "n AND NOT 7 OR n AND 7 = (n AND NOT 7) + (n AND 7)"
    by (rule disjunctive_add_eq_or [symmetric]) (simp add: bit_eq_iff bit_simps)
  ultimately have "n = (n AND NOT 7) + n mod 8" by (simp add: and_7_int)
  then show ?thesis by (metis add_right_cancel mult_div_mod_eq)
qed
lemma sint_small: "- 2147483648 \<le> i \<Longrightarrow> i < 2147483648 \<Longrightarrow> sint (word_of_int i :: 32 word) = i"
  by (simp add: signed_of_int signed_take_bit_int_eq_self)

lemma alignPoolOffset_eq:
  assumes "0 \<le> n" and "n \<le> 2147483640"
  shows "alignPoolOffset n = 8 * ((n + 7) div 8)"
proof -
  have "sint (word_of_int (n + 7) :: 32 word) = n + 7"
    by (rule sint_small) (use assms in simp_all)
  moreover have "sint (NOT 7 :: 32 word) = NOT 7" by simp
  ultimately have "sint ((word_of_int (n + 7) :: 32 word) AND NOT 7) = (n + 7) AND NOT 7"
    by (simp only: signed_and_eq)
  moreover have "n mod 8 = 0 \<Longrightarrow> n = 8 * ((n + 7) div 8)" by presburger
  ultimately show ?thesis
    by (auto simp: alignPoolOffset_def and_7_word and_not_7_int [of "n + 7", simplified])
qed

lemma alignPoolOffset_props:
  assumes "0 \<le> n" and "n \<le> 2147483640"
  shows "n \<le> alignPoolOffset n" and "alignPoolOffset n \<le> 2147483640" and "alignPoolOffset n mod 8 = 0"
  unfolding alignPoolOffset_eq [OF assms] using assms by presburger+

lemma alloc_invD:
  assumes "alloc_inv (mem, vs)"
  shows "v \<in> set vs \<Longrightarrow> in_bounds mem v" and "sorted_wrt disjoint vs" and "pool_ok mem"
    and "m_pool mem = Some i \<Longrightarrow> v \<in> set vs \<Longrightarrow> v_array v = i \<Longrightarrow> int (v_off v + v_len v) \<le> m_poolOffset mem"
  using assms by (auto simp: alloc_inv_def list_all_iff)

lemma alloc_invI:
  assumes "\<And>v. v \<in> set vs \<Longrightarrow> in_bounds mem v" and "sorted_wrt disjoint vs" and "pool_ok mem"
    and "\<And>i v. m_pool mem = Some i \<Longrightarrow> v \<in> set vs \<Longrightarrow> v_array v = i \<Longrightarrow> int (v_off v + v_len v) \<le> m_poolOffset mem"
  shows "alloc_inv (mem, vs)"
  using assms by (auto simp: alloc_inv_def list_all_iff)

lemma pool_okD:
  assumes "pool_ok mem"
  shows "m_poolOffset mem mod 8 = 0" and "0 \<le> m_poolOffset mem" and "poolSize_ok (m_poolSize mem)"
    and "m_pool mem = Some i \<Longrightarrow> i < length (m_arrays mem)"
    and "m_pool mem = Some i \<Longrightarrow> length (m_arrays mem ! i) \<le> pool_bound"
  using assms by (auto simp: pool_ok_def)

lemma in_bounds_append: "in_bounds mem w \<Longrightarrow> m_arrays mem' = m_arrays mem @ [a] \<Longrightarrow> in_bounds mem' w"
  by (simp add: in_bounds_def nth_append)

lemma inv_append:
  assumes inv: "alloc_inv (mem, vs)" and mem': "mem' = mem\<lparr>m_arrays := m_arrays mem @ [a]\<rparr>"
    and v: "v = \<lparr>v_array = length (m_arrays mem), v_off = 0, v_len = n\<rparr>" and n: "n \<le> length a"
  shows "alloc_inv (mem', v # vs)"
proof (rule alloc_invI)
  fix w assume "w \<in> set (v # vs)"
  then show "in_bounds mem' w"
    using v n mem' in_bounds_append [OF alloc_invD(1) [OF inv], of w mem' a]
    by (cases "w = v") (simp_all add: in_bounds_def)
next
  have "disjoint v w" if "w \<in> set vs" for w
    using alloc_invD(1) [OF inv that] v by (simp add: disjoint_def in_bounds_def)
  then show "sorted_wrt disjoint (v # vs)" using alloc_invD(2) [OF inv] by simp
next
  show "pool_ok mem'"
    using alloc_invD(3) [OF inv] mem' by (auto simp: pool_ok_def nth_append)
next
  fix i w assume i: "m_pool mem' = Some i" and w: "w \<in> set (v # vs)" "v_array w = i"
  have "i < length (m_arrays mem)" using pool_okD(4) [OF alloc_invD(3) [OF inv]] i mem' by simp
  then show "int (v_off w + v_len w) \<le> m_poolOffset mem'"
    using alloc_invD(4) [OF inv, of i w] i w mem' v by (cases "w = v") simp_all
qed

lemma pool_ok_new: "pool_ok mem \<Longrightarrow> pool_ok (createAllocationPool mem)"
  using pool_okD(3) [of mem]
  by (auto simp: pool_ok_def createAllocationPool_def new_array_def poolSize_ok_def pool_bound_def)

lemma inv_new_pool: "alloc_inv (mem, vs) \<Longrightarrow> alloc_inv (createAllocationPool mem, vs)"
proof (rule alloc_invI)
  assume inv: "alloc_inv (mem, vs)"
  show "in_bounds (createAllocationPool mem) v" if "v \<in> set vs" for v
    using alloc_invD(1) [OF inv that]
    by (simp add: in_bounds_def nth_append createAllocationPool_def new_array_def)
  show "sorted_wrt disjoint vs" by (rule alloc_invD(2) [OF inv])
  show "pool_ok (createAllocationPool mem)" by (rule pool_ok_new [OF alloc_invD(3) [OF inv]])
  show "int (v_off v + v_len v) \<le> m_poolOffset (createAllocationPool mem)"
    if "m_pool (createAllocationPool mem) = Some i" "v \<in> set vs" "v_array v = i" for i v
    using that alloc_invD(1) [OF inv, of v]
    by (simp add: in_bounds_def createAllocationPool_def new_array_def)
qed

lemma pool_for_Some: "\<exists>i. m_pool (pool_for mem n) = Some i"
  by (auto simp: pool_for_def createAllocationPool_def new_array_def split: option.splits)

lemma inv_pool_for: "alloc_inv (mem, vs) \<Longrightarrow> alloc_inv (pool_for mem n, vs)"
  by (simp add: pool_for_def inv_new_pool split: option.splits)

text \<open>After the choice of the pool the end of the new buffer is below the bound.\<close>

lemma pool_for_end:
  assumes "pool_ok mem" and "n \<le> pool_bound"
  shows "0 \<le> m_poolOffset (pool_for mem n) + int n" and "m_poolOffset (pool_for mem n) + int n \<le> 2147483640"
proof -
  have "m_poolOffset (createAllocationPool mem) = 0" by (simp add: createAllocationPool_def new_array_def)
  moreover have "m_poolOffset mem + int n \<le> 2147483640"
    if "m_pool mem = Some i" "\<not> int (length (m_arrays mem ! i)) < m_poolOffset mem + int n" for i
    using pool_okD(5) [OF assms(1) that(1)] that(2) by (simp add: pool_bound_def)
  ultimately show "m_poolOffset (pool_for mem n) + int n \<le> 2147483640"
    using assms(2) by (auto simp: pool_for_def pool_bound_def split: option.splits)
  show "0 \<le> m_poolOffset (pool_for mem n) + int n"
    using pool_okD(2) [OF assms(1)] \<open>m_poolOffset (createAllocationPool mem) = 0\<close>
    by (auto simp: pool_for_def split: option.splits)
qed

lemma inv_move_offset:
  assumes inv: "alloc_inv (mem, vs)" and mem': "mem' = mem\<lparr>m_poolOffset := alignPoolOffset (m_poolOffset mem + int n)\<rparr>"
    and le: "m_poolOffset mem + int n \<le> 2147483640"
  shows "alloc_inv (mem', vs)"
proof (rule alloc_invI)
  have nn: "0 \<le> m_poolOffset mem" by (rule pool_okD(2) [OF alloc_invD(3) [OF inv]])
  then have "0 \<le> m_poolOffset mem + int n" by simp
  note al = alignPoolOffset_props [OF this le]
  show "pool_ok mem'" using alloc_invD(3) [OF inv] mem' al nn by (simp add: pool_ok_def)
  fix j w assume "m_pool mem' = Some j" "w \<in> set vs" "v_array w = j"
  then show "int (v_off w + v_len w) \<le> m_poolOffset mem'"
    using alloc_invD(4) [OF inv, of j w] mem' al(1) by simp
qed (use alloc_invD [OF inv] mem' in \<open>simp_all add: in_bounds_def\<close>)

lemma inv_bump:
  assumes inv: "alloc_inv (mem, vs)" and pool: "m_pool mem = Some i"
    and fits: "m_poolOffset mem + int n \<le> int (length (m_arrays mem ! i))"
    and v: "v = \<lparr>v_array = i, v_off = nat (m_poolOffset mem), v_len = n\<rparr>"
    and mem': "mem' = mem\<lparr>m_poolOffset := alignPoolOffset (m_poolOffset mem + int n)\<rparr>"
    and le: "m_poolOffset mem + int n \<le> 2147483640"
  shows "alloc_inv (mem', v # vs)"
proof -
  have inv': "alloc_inv (mem', vs)" by (rule inv_move_offset [OF inv mem' le])
  have nn: "0 \<le> m_poolOffset mem" by (rule pool_okD(2) [OF alloc_invD(3) [OF inv]])
  have "in_bounds mem' v"
    using pool_okD(4) [OF alloc_invD(3) [OF inv] pool] fits v mem' nn by (simp add: in_bounds_def)
  moreover have "disjoint v w" if "w \<in> set vs" for w
    using alloc_invD(4) [OF inv pool that] v nn by (auto simp: disjoint_def)
  moreover have "int (v_off v + v_len v) \<le> m_poolOffset mem'"
    using v mem' nn alignPoolOffset_props(1) [of "m_poolOffset mem + int n"] le by simp
  ultimately show ?thesis using inv' by (auto simp: alloc_inv_def)
qed

lemma inv_allocFromPool:
  assumes "alloc_inv (mem, vs)" and "allocFromPool mem n = (r, mem')" and "n \<le> pool_bound"
  shows "alloc_inv (mem', case r of Inl e \<Rightarrow> vs | Inr v \<Rightarrow> v # vs)"
proof (cases "n = 0")
  case True
  then have "r = Inr \<lparr>v_array = length (m_arrays mem), v_off = 0, v_len = 0\<rparr>"
    "mem' = mem\<lparr>m_arrays := m_arrays mem @ [[]]\<rparr>"
    using assms(2) by (simp_all add: allocFromPool_def new_array_def split: prod.splits)
  then show ?thesis using inv_append [OF assms(1), of mem' "[]"] by simp
next
  case False
  obtain i where i: "m_pool (pool_for mem n) = Some i" using pool_for_Some by blast
  note le = pool_for_end(2) [OF alloc_invD(3) [OF assms(1)] assms(3)]
  show ?thesis
    using False assms(2) i inv_bump [OF inv_pool_for [OF assms(1)] i _ refl refl le]
      inv_move_offset [OF inv_pool_for [OF assms(1)] refl le]
    by (cases r) (auto simp: allocFromPool_def Let_def split: if_splits)
qed

lemma createBufferE:
  assumes "createBuffer mem x = Inr (v, mem')"
  obtains n where "v = \<lparr>v_array = length (m_arrays mem), v_off = 0, v_len = n\<rparr>"
    and "mem' = mem\<lparr>m_arrays := m_arrays mem @ [replicate n 0]\<rparr>"
  using assms by (auto simp: createBuffer_def new_array_def Let_def split: if_splits)

lemma inv_createBuffer:
  assumes "alloc_inv (mem, vs)" and "createBuffer mem x = Inr (v, mem')"
  shows "alloc_inv (mem', v # vs)"
proof -
  obtain n where "v = \<lparr>v_array = length (m_arrays mem), v_off = 0, v_len = n\<rparr>"
    "mem' = mem\<lparr>m_arrays := m_arrays mem @ [replicate n 0]\<rparr>"
    using assms(2) by (rule createBufferE)
  then show ?thesis using inv_append [OF assms(1), of mem' "replicate n 0" v n] by simp
qed

lemma alloc_step_inv: "alloc_step s s' \<Longrightarrow> alloc_inv s \<Longrightarrow> alloc_inv s'"
proof (induction rule: alloc_step.induct)
  case (string_ok mem n v mem' vs)
  then show ?case
    using inv_allocFromPool [OF string_ok.prems, of n] inv_createBuffer [OF string_ok.prems, of "nat_num n"]
      string_ok.hyps(2)
    by (auto simp: string_buffer_def split: if_splits sum.splits)
next
  case (string_error mem n e mem' vs)
  then show ?case
    using inv_allocFromPool [OF string_error.prems, of n] string_error.hyps(2)
    by (auto simp: string_buffer_def split: if_splits sum.splits)
next
  case (own mem sz v mem' vs)
  then show ?case
    using inv_createBuffer [OF own.prems] by (auto simp: allocUnsafe_def bindE_Inr_iff split: if_splits)
next
  case (bytes_written v vs k bs mem)
  then have "in_bounds mem v" by (auto simp: alloc_inv_def list_all_iff)
  note lens = arrays_set_bytes [OF this bytes_written(2)]
  have "length (m_arrays (set_bytes mem v k bs)) = length (m_arrays mem)"
    using arg_cong [where f = length, OF lens] by simp
  moreover have "m_pool (set_bytes mem v k bs) = m_pool mem" "m_poolOffset (set_bytes mem v k bs) = m_poolOffset mem"
    "m_poolSize (set_bytes mem v k bs) = m_poolSize mem"
    by (simp_all add: set_bytes_def Let_def)
  moreover have "length (m_arrays (set_bytes mem v k bs) ! i) = length (m_arrays mem ! i)" if "i < length (m_arrays mem)" for i
    using arg_cong [where f = "\<lambda>xs. xs ! i", OF lens] that calculation(1) by simp
  ultimately show ?case
    using bytes_written(3) lens by (simp add: alloc_inv_def pool_ok_def in_bounds_lengths [abs_def])
next
  case (pool_size mem vs x)
  then show ?case by (auto simp: alloc_inv_def pool_ok_def in_bounds_def [abs_def])
qed

lemma alloc_reachable_inv: "alloc_reachable s \<Longrightarrow> alloc_inv s"
proof (induction rule: alloc_reachable.induct)
  case start
  have "ToUint32 (Num 8192) = 8192" using ToUint32_nat [of 8192] by simp
  then show ?case by (simp add: alloc_inv_def pool_ok_def poolSize_ok_def pool_bound_def)
qed (rule alloc_step_inv)

text \<open>
  Beyond the bound the property is false: in a pool of nearly \<open>2 ^ 31\<close> bytes the aligned offset wraps
  to \<open>- 2 ^ 31\<close>. The next buffer is refused although a new pool could hold it, and an offset that the
  refused requests bring back to 0 hands out the first bytes of the pool again.
\<close>

lemma alignPoolOffset_wraps: "alignPoolOffset 2147483641 = - 2147483648"
  by (simp add: alignPoolOffset_def)

lemma negative_offset_throws:
  assumes "m_pool mem = Some i" and "m_poolOffset mem < 0" and "0 < n" and "m_poolOffset mem + int n \<le> 0"
  shows "allocFromPool mem n =
    (Inl (RangeError ''Invalid offset''), mem\<lparr>m_poolOffset := alignPoolOffset (m_poolOffset mem + int n)\<rparr>)"
  using assms by (simp add: allocFromPool_def pool_for_def Let_def)

text \<open>A run: the pool size set to 16, then buffers for strings of 3 and 5 bytes from one pool.\<close>

definition pool_example :: memory where
  "pool_example = \<lparr>m_arrays = [replicate 16 0], m_pool = Some 0, m_poolOffset = 16, m_poolSize = Num 16\<rparr>"

lemma pool_example_reachable:
  "alloc_reachable (pool_example, [\<lparr>v_array = 0, v_off = 8, v_len = 5\<rparr>, \<lparr>v_array = 0, v_off = 0, v_len = 3\<rparr>])"
proof -
  let ?m = "\<lambda>n. \<lparr>m_arrays = [replicate 16 0], m_pool = Some 0, m_poolOffset = n, m_poolSize = Num 16\<rparr>"
  have size16: "ToUint32 (Num 16) = 16" using ToUint32_nat [of 16] by simp
  let ?init = "\<lparr>m_arrays = [], m_pool = None, m_poolOffset = 0, m_poolSize = Num 8192\<rparr> :: memory"
  have "alloc_step (?init, []) (?init\<lparr>m_poolSize := Num 16\<rparr>, [])" by (rule pool_size) (simp add: poolSize_ok_def size16 pool_bound_def)
  then have "alloc_reachable (?init\<lparr>m_poolSize := Num 16\<rparr>, [])" by (rule step [OF start])
  moreover have "string_buffer (?init\<lparr>m_poolSize := Num 16\<rparr>) 3 = (Inr \<lparr>v_array = 0, v_off = 0, v_len = 3\<rparr>, ?m 8)"
    by (simp add: string_buffer_def allocFromPool_def pool_for_def createAllocationPool_def new_array_def
        size16 alignPoolOffset_eq Let_def)
  ultimately have "alloc_reachable (?m 8, [\<lparr>v_array = 0, v_off = 0, v_len = 3\<rparr>])"
    by (rule step [OF _ string_ok]) (simp add: pool_bound_def)
  moreover have "string_buffer (?m 8) 5 = (Inr \<lparr>v_array = 0, v_off = 8, v_len = 5\<rparr>, ?m 16)"
    by (simp add: string_buffer_def allocFromPool_def pool_for_def size16 alignPoolOffset_eq Let_def)
  ultimately show ?thesis unfolding pool_example_def by (rule step [OF _ string_ok]) (simp add: pool_bound_def)
qed

text \<open>
  C27: In every run of the allocator, with strings of up to \<open>2 ^ 31 - 8\<close> bytes, failing allocations,
  buffers with their own array, writes and assignments to \<open>poolSize\<close> (positive values up to
  \<open>2 ^ 31 - 8\<close>), the offset of the pool stays a multiple of 8 and never wraps below 0, and every buffer
  handed out lies inside its array buffer.
\<close>
theorem pool_in_bounds:
  assumes "alloc_reachable (mem, vs)" and "v \<in> set vs"
  shows "m_poolOffset mem mod 8 = 0 \<and> 0 \<le> m_poolOffset mem \<and> length (view_bytes mem v) = v_len v"
  using alloc_reachable_inv [OF assms(1)] assms(2)
  by (auto simp: alloc_inv_def pool_ok_def list_all_iff length_view_bytes)

theorem pool_in_bounds_witness: "length (view_bytes pool_example \<lparr>v_array = 0, v_off = 8, v_len = 5\<rparr>) = 5"
  using pool_in_bounds [OF pool_example_reachable, of "\<lparr>v_array = 0, v_off = 8, v_len = 5\<rparr>"] by simp

text \<open>
  C9: In every run of the allocator in which strings need at most \<open>2 ^ 31 - 8\<close> bytes and \<open>poolSize\<close>,
  when positive, is at most \<open>2 ^ 31 - 8\<close>, two buffers handed out by different calls never share a byte:
  writing anything inside one leaves the contents of the other as they were, although both may be
  views of the same pool.
\<close>
theorem pool_isolated:
  assumes "alloc_reachable (mem, vs)" and "i < length vs" and "j < length vs" and "i \<noteq> j"
    and "k + length bs \<le> v_len (vs ! i)"
  shows "view_bytes (set_bytes mem (vs ! i) k bs) (vs ! j) = view_bytes mem (vs ! j)"
proof -
  have "alloc_inv (mem, vs)" by (rule alloc_reachable_inv [OF assms(1)])
  moreover from this have "disjoint (vs ! i) (vs ! j)"
    using assms(2-4) sorted_wrt_nth_less [of disjoint vs i j] sorted_wrt_nth_less [of disjoint vs j i] disjoint_sym
    by (cases "i < j") (auto simp: alloc_inv_def)
  ultimately show ?thesis
    using assms by (intro set_bytes_other) (auto simp: alloc_inv_def list_all_iff)
qed

theorem pool_isolated_witness:
  "view_bytes (set_bytes pool_example \<lparr>v_array = 0, v_off = 8, v_len = 5\<rparr> 2 [7, 8, 9]) \<lparr>v_array = 0, v_off = 0, v_len = 3\<rparr> =
   view_bytes pool_example \<lparr>v_array = 0, v_off = 0, v_len = 3\<rparr>"
  using pool_isolated [OF pool_example_reachable, of 0 1 2 "[7, 8, 9]"] by simp

section \<open>Views and copies\<close>

lemma adjustOffset_int: "adjustOffset (int_num i) n = nat (clamp_index (int n) i)"
  by (cases "i = 0") (auto simp: adjustOffset_def toIntegerOrInfinity_def clamp_index_def max_def min_def)

lemma view_bytes_subarray:
  assumes "in_bounds mem v"
  shows "view_bytes mem (subarray v (int_num i) (Some (int_num j))) = JS_Prelude.slice (view_bytes mem v) i j"
proof -
  define a where "a = nat (clamp_index (int (v_len v)) i)"
  define b where "b = nat (clamp_index (int (v_len v)) j)"
  have "b \<le> v_len v" by (auto simp: b_def clamp_index_def)
  moreover have "JS_Prelude.slice (view_bytes mem v) i j = take (b - a) (drop a (view_bytes mem v))"
    using length_view_bytes [OF assms] by (simp add: JS_Prelude.slice_def a_def b_def Let_def)
  moreover have "view_bytes mem (subarray v (int_num i) (Some (int_num j))) =
      take (b - a) (drop (v_off v + a) (m_arrays mem ! v_array v))"
    unfolding subarray_def Let_def adjustOffset_int option.case a_def [symmetric] b_def [symmetric]
    by (simp add: view_bytes_def)
  moreover have "take (b - a) (drop a (view_bytes mem v)) = take (b - a) (drop (v_off v + a) (m_arrays mem ! v_array v))"
    using calculation(1) by (simp add: view_bytes_def drop_take add.commute)
  ultimately show ?thesis by simp
qed

lemma view_bytes_set_bytes:
  assumes "in_bounds mem v" and "k + length bs \<le> v_len v"
  shows "view_bytes (set_bytes mem v k bs) v = take k (view_bytes mem v) @ bs @ drop (k + length bs) (view_bytes mem v)"
proof -
  define a where "a = m_arrays mem ! v_array v"
  have len: "v_off v + v_len v \<le> length a" and n: "v_array v < length (m_arrays mem)"
    using assms(1) by (simp_all add: in_bounds_def a_def)
  have "length (take k (drop (v_off v) a)) = k" using len assms(2) by simp
  moreover have "drop (v_off v) (take (v_off v + k) a) = take k (drop (v_off v) a)" by (simp add: drop_take)
  moreover have "v_off v \<le> length (take (v_off v + k) a)" using len assms(2) by simp
  ultimately have "view_bytes (set_bytes mem v k bs) v =
      take k (drop (v_off v) a) @ bs @ take (v_len v - (k + length bs)) (drop (v_off v + k + length bs) a)"
    using assms(2) by (simp add: view_bytes_def set_bytes_def Let_def a_def [symmetric] n)
  moreover have "take k (view_bytes mem v) = take k (drop (v_off v) a)"
    using assms(2) by (simp add: view_bytes_def a_def [symmetric] min_def)
  moreover have "drop (k + length bs) (view_bytes mem v) = take (v_len v - (k + length bs)) (drop (v_off v + k + length bs) a)"
    by (simp add: view_bytes_def a_def [symmetric] drop_take add.commute add.left_commute)
  ultimately show ?thesis by simp
qed

lemma ToUint32_small: "n \<le> 2147483647 \<Longrightarrow> ToUint32 (nat_num n) = n"
  by (rule ToUint32_nat) simp

lemma falsy_nat_num: "(if num_falsy (nat_num n) then Num 0 else nat_num n) = nat_num n"
  by (simp add: num_falsy_def)

lemma copy_nat:
  assumes "v_len src \<le> 2147483647" and "v_len tgt \<le> 2147483647" and "t \<le> v_len tgt" and "s \<le> e" and "e \<le> v_len src"
    and "n = min (e - s) (v_len tgt - t)"
  shows "copy mem src (AView tgt) (Some (nat_num t)) (Some (nat_num s)) (Some (nat_num e)) =
    (if e = s \<or> v_len tgt = 0 then Inr (0, mem)
     else Inr (int n, set_bytes mem tgt t (view_bytes mem (subarray src (nat_num s) (Some (nat_num (s + n)))))))"
proof -
  have nums: "ToUint32 (nat_num t) = t" "ToUint32 (nat_num s) = s" "ToUint32 (nat_num e) = e"
    using assms by (auto intro: ToUint32_small)
  have cond: "(int (v_len tgt) - int t < int e - int s) = (v_len tgt - t < e - s)"
    using assms by auto
  have e3: "(if v_len tgt - t < e - s then v_len tgt - t + s else e) = s + n"
    using assms by auto
  have bounds: "\<not> num_less (nat_num t) (Num 0)" "\<not> num_less (nat_num s) (Num 0)" "\<not> num_less (nat_num e) (Num 0)"
    "\<not> num_less (nat_num (v_len src)) (nat_num s)" "\<not> v_len src < e" "\<not> e < s"
    "(if v_len tgt \<le> t then v_len tgt else t) = t" "v_len src = 0 \<Longrightarrow> e = s"
    using assms by auto
  have "int (s + n) - int s = int n" by simp
  then show ?thesis
    unfolding copy_def viewarg.case option.case falsy_nat_num Let_def nums
    using bounds(1-7) by (simp only: cond e3 if_False simp_thms) (use bounds(8) assms(4) in auto)
qed

text \<open>
  C24: \<open>copy\<close> on valid indices returns the number of bytes copied, the least of what the source
  range and the target hold, and afterwards the target has, from \<open>targetStart\<close> on, the bytes the
  source range had before the call, its other bytes being kept: also when source and target overlap
  in the same array buffer.
\<close>
theorem copy_moves:
  assumes "in_bounds mem src" and "in_bounds mem tgt" and "v_len src \<le> 2147483647" and "v_len tgt \<le> 2147483647"
    and "t \<le> v_len tgt" and "s \<le> e" and "e \<le> v_len src"
  shows "\<exists>mem'. copy mem src (AView tgt) (Some (nat_num t)) (Some (nat_num s)) (Some (nat_num e)) =
      Inr (int (min (e - s) (v_len tgt - t)), mem') \<and>
    view_bytes mem' tgt =
      take t (view_bytes mem tgt) @ take (v_len tgt - t) (take (e - s) (drop s (view_bytes mem src))) @
      drop (t + (e - s)) (view_bytes mem tgt)"
proof (cases "e = s \<or> v_len tgt = 0")
  case True
  then have "view_bytes mem tgt = [] \<or> e = s"
    using length_view_bytes [OF assms(2)] by auto
  then show ?thesis using copy_nat [OF assms(3-7) refl, of mem] True assms(5) by auto
next
  case False
  define n where "n = min (e - s) (v_len tgt - t)"
  define bs where "bs = view_bytes mem (subarray src (nat_num s) (Some (nat_num (s + n))))"
  have "bs = JS_Prelude.slice (view_bytes mem src) (int s) (int (s + n))"
    using view_bytes_subarray [OF assms(1), of "int s" "int (s + n)"] by (simp add: bs_def)
  then have bs: "bs = take n (drop s (view_bytes mem src))"
    unfolding slice_nat by simp
  have lbs: "length bs = n"
    using assms length_view_bytes [OF assms(1)] by (simp add: bs n_def)
  have "view_bytes (set_bytes mem tgt t bs) tgt = take t (view_bytes mem tgt) @ bs @ drop (t + n) (view_bytes mem tgt)"
    using view_bytes_set_bytes [OF assms(2), of t bs] assms(5) lbs by (simp add: n_def)
  moreover have "drop (t + n) (view_bytes mem tgt) = drop (t + (e - s)) (view_bytes mem tgt)"
    using length_view_bytes [OF assms(2)] by (auto simp: n_def min_def)
  moreover have "copy mem src (AView tgt) (Some (nat_num t)) (Some (nat_num s)) (Some (nat_num e)) =
      Inr (int n, set_bytes mem tgt t bs)"
    using copy_nat [OF assms(3-7) n_def, of mem] False by (simp add: bs_def)
  ultimately show ?thesis by (auto simp: bs n_def min.commute)
qed

text \<open>An overlapping copy inside one array buffer: bytes 0 to 3 are moved to 1.\<close>

theorem copy_moves_witness:
  "let mem = \<lparr>m_arrays = [[1, 2, 3, 4, 5]], m_pool = None, m_poolOffset = 0, m_poolSize = Num 8192\<rparr>;
       v = \<lparr>v_array = 0, v_off = 0, v_len = 5\<rparr>
   in \<exists>mem'. copy mem v (AView v) (Some (Num 1)) (Some (Num 0)) (Some (Num 3)) = Inr (3, mem') \<and>
        view_bytes mem' v = [1, 1, 2, 3, 5]"
  using copy_moves [of "\<lparr>m_arrays = [[1, 2, 3, 4, 5]], m_pool = None, m_poolOffset = 0, m_poolSize = Num 8192\<rparr>"
      "\<lparr>v_array = 0, v_off = 0, v_len = 5\<rparr>" "\<lparr>v_array = 0, v_off = 0, v_len = 5\<rparr>" 1 0 3]
  by (simp add: in_bounds_def view_bytes_def)

section \<open>Filling\<close>

lemma in_bounds_set_bytes:
  assumes "in_bounds mem v" and "k + length bs \<le> v_len v"
  shows "in_bounds (set_bytes mem v k bs) w = in_bounds mem w"
proof -
  note lens = arrays_set_bytes [OF assms]
  moreover have "length (m_arrays (set_bytes mem v k bs)) = length (m_arrays mem)"
    using arg_cong [where f = length, OF lens] by simp
  ultimately show ?thesis by (simp add: in_bounds_lengths)
qed

lemma set_bytes_Nil: "in_bounds mem v \<Longrightarrow> set_bytes mem v k [] = mem"
  by (simp add: set_bytes_def in_bounds_def Let_def)

lemma set_bytes_Cons:
  assumes "in_bounds mem v" and "k + Suc (length bs) \<le> v_len v"
  shows "set_bytes (set_bytes mem v k [b]) v (Suc k) bs = set_bytes mem v k (b # bs)"
proof -
  define a where "a = m_arrays mem ! v_array v"
  have n: "v_array v < length (m_arrays mem)" and len: "v_off v + k + Suc (length bs) \<le> length a"
    using assms by (simp_all add: in_bounds_def a_def)
  then show ?thesis
    by (simp add: set_bytes_def Let_def a_def [symmetric] min_def ac_simps)
qed

text \<open>
  Each loop stores the whole pattern at once, provided the pattern it reads is not among the bytes it
  writes.
\<close>

lemma fill_number_loop_eq:
  assumes "in_bounds mem this" and "i \<le> e" and "e \<le> v_len this"
  shows "fill_number_loop this b i e mem = set_bytes mem this i (replicate (e - i) b)"
  using assms
proof (induction "e - i" arbitrary: i mem)
  case 0
  then show ?case by (simp add: fill_number_loop.simps set_bytes_Nil)
next
  case (Suc n)
  then have e: "e - i = Suc n" "n = e - Suc i" "i < e" by simp_all
  have "fill_number_loop this b (Suc i) e (set_bytes mem this i [b]) =
      set_bytes (set_bytes mem this i [b]) this (Suc i) (replicate n b)"
    using Suc.hyps(1) [of "Suc i" "set_bytes mem this i [b]"] Suc.prems e by (simp add: in_bounds_set_bytes)
  then show ?case
    using e Suc.prems by (simp add: fill_number_loop.simps [of this b i] set_bytes_Cons)
qed

definition apart :: "memory \<Rightarrow> view \<Rightarrow> pattern \<Rightarrow> bool" where
  "apart mem this pat = (case pat of PView p \<Rightarrow> in_bounds mem p \<and> disjoint this p | PBytes bs \<Rightarrow> True)"

lemma apart_set_bytes:
  assumes "apart mem this pat" and "in_bounds mem this" and "k + length bs \<le> v_len this"
  shows "apart (set_bytes mem this k bs) this pat"
    and "pattern_bytes (set_bytes mem this k bs) pat = pattern_bytes mem pat"
  using assms set_bytes_other [OF assms(2) _ _ assms(3)]
  by (auto simp: apart_def pattern_bytes_def in_bounds_set_bytes split: pattern.splits)

lemma fill_loop_eq:
  assumes "in_bounds mem this" and "apart mem this pat" and "start + i \<le> e" and "e \<le> v_len this"
  shows "fill_loop this pat len start e i mem =
    set_bytes mem this (start + i) (map (\<lambda>j. pattern_bytes mem pat ! (j mod len)) [i..<e - start])"
  using assms
proof (induction "e - start - i" arbitrary: i mem)
  case 0
  then show ?case by (simp add: fill_loop.simps set_bytes_Nil)
next
  case (Suc n)
  then have e: "i < e - start" "n = e - start - Suc i" by simp_all
  let ?b = "pattern_bytes mem pat ! (i mod len)"
  have w: "start + i + length [?b] \<le> v_len this" using e Suc.prems by simp
  have "fill_loop this pat len start e (Suc i) (set_bytes mem this (start + i) [?b]) =
      set_bytes (set_bytes mem this (start + i) [?b]) this (Suc (start + i))
        (map (\<lambda>j. pattern_bytes mem pat ! (j mod len)) [Suc i..<e - start])"
    using Suc.hyps(1) [OF e(2), of "set_bytes mem this (start + i) [?b]"] Suc.prems e
      apart_set_bytes [OF Suc.prems(2,1) w]
    by (simp add: in_bounds_set_bytes)
  then show ?case
    using e Suc.prems
    by (simp add: fill_loop.simps [of this pat len start e i] set_bytes_Cons upt_conv_Cons [of i] add.commute)
qed

lemma fill_range_nat:
  assumes "s \<le> n" and "e \<le> n"
  shows "fill_range n (JNum (nat_num s)) (JNum (nat_num e)) = Inr (nat_num s, nat_num e)"
  using assms by (simp add: fill_range_def)

lemma num_and_mod: "num_and (nat_num b) 0xFF = int (b mod 256)"
proof -
  have "(word_of_int (int b) :: 32 word) AND 0xFF = word_of_nat (b mod 256)"
  proof -
    have "(0xFF :: 32 word) = mask 8" by (simp add: mask_eq_exp_minus_1)
    then have "(word_of_int (int b) :: 32 word) AND 0xFF = take_bit 8 (word_of_nat b)"
      by (simp only: take_bit_eq_mask) simp
    then show ?thesis by (simp add: take_bit_of_nat) (simp add: take_bit_nat_def of_nat_mod)
  qed
  moreover have "sint (word_of_nat (b mod 256) :: 32 word) = int (b mod 256)"
  proof -
    have "b mod 256 < 256" by simp
    then show ?thesis using sint_small [of "int (b mod 256)"] by simp
  qed
  ultimately show ?thesis by (simp add: num_and_def ToInt32_def)
qed

lemma fill_number_byte: "fill_number (JNum (nat_num (b mod 256))) = Some (b mod 256)"
  by (cases "b mod 256 = 0") (auto simp: fill_number_def falsy_def)



text \<open>A pattern that overlaps the buffer is read after it has been written: here only its first byte survives.\<close>

lemma fill_overlapping:
  "fill to_string to_number to_num lc
     \<lparr>m_arrays = [[1, 2, 3, 4]], m_pool = None, m_poolOffset = 0, m_poolSize = Num 8192\<rparr>
     \<lparr>v_array = 0, v_off = 0, v_len = 4\<rparr> (FillView \<lparr>v_array = 0, v_off = 0, v_len = 2\<rparr>) (JNum (Num 1)) JUndefined JUndefined =
   Inr \<lparr>m_arrays = [[1, 1, 1, 1]], m_pool = None, m_poolOffset = 0, m_poolSize = Num 8192\<rparr>"
proof -
  have "ToUint32 (Num 1) = 1" "ToUint32 (Num 4) = 4" using ToUint32_nat [of 1] ToUint32_nat [of 4] by simp_all
  then show ?thesis
    by (simp add: fill_def fill_args_def fill_range_def num_le_def fill_loop.simps pattern_bytes_def view_bytes_def
        set_bytes_def Let_def)
qed

text \<open>
  \<open>alloc\<close> hands a string encoding to \<open>fill\<close> as its offset, which only a string value turns back into an
  encoding: with a number the call throws.
\<close>

lemma alloc_number_encoding:
  "alloc to_string to_number to_num lc mem (JNum (Num 5)) (FillVal (JNum (Num 1))) (JStr e) =
    Inl (ERR_INVALID_ARG_TYPE ''offset'' ''number'' (JStr e))"
  by (simp add: alloc_def assertSize_def K_MAX_LENGTH_def num_le_def fill_def fill_args_def fill_range_def
      createBuffer_def new_array_def Let_def)

text \<open>A copy whose end is 0 and whose start is not returns a negative number of bytes.\<close>

lemma copy_negative_count:
  "copy \<lparr>m_arrays = [[1, 2, 3]], m_pool = None, m_poolOffset = 0, m_poolSize = Num 8192\<rparr>
     \<lparr>v_array = 0, v_off = 0, v_len = 3\<rparr> (AView \<lparr>v_array = 0, v_off = 0, v_len = 3\<rparr>)
     None (Some (Num 2)) (Some (Num 0)) =
   Inr (-2, \<lparr>m_arrays = [[1, 2, 3]], m_pool = None, m_poolOffset = 0, m_poolSize = Num 8192\<rparr>)"
proof -
  have "ToUint32 (Num 2) = 2" using ToUint32_nat [of 2] by simp
  then show ?thesis
    by (simp add: copy_def num_falsy_def set_bytes_def view_bytes_def subarray_def adjustOffset_def
        toIntegerOrInfinity_def trunc_def Let_def)
qed

section \<open>Concatenation\<close>

lemma concat_loop_eq:
  assumes "pos \<le> length buf" and "drop pos buf = replicate (length buf - pos) 0"
  shows "concat_loop buf pos bs = take (length buf) (take pos buf @ concat bs @ replicate (length buf) 0)"
  using assms
proof (induction bs arbitrary: buf pos)
  case Nil
  have "take (length buf - pos) (replicate (length buf) 0) = drop pos buf"
    by (simp add: Nil.prems(2))
  then show ?case using Nil.prems(1) by simp
next
  case (Cons b bs)
  show ?case
  proof (cases "pos + length b > length buf")
    case True
    then show ?thesis using Cons.prems by simp
  next
    case False
    define buf' where "buf' = take pos buf @ b @ drop (pos + length b) buf"
    have len: "length buf' = length buf" using False Cons.prems by (simp add: buf'_def)
    have step: "concat_loop buf pos (b # bs) = concat_loop buf' (pos + length b) bs"
      using False by (simp add: buf'_def)
    have "drop (pos + length b) buf = replicate (length buf - (pos + length b)) 0"
      using Cons.prems(2) drop_drop [of "length b" pos buf] by (simp add: add.commute)
    moreover have "drop (pos + length b) buf' = drop (pos + length b) buf"
      using False Cons.prems(1) by (simp add: buf'_def)
    moreover have "take (pos + length b) buf' = take pos buf @ b"
      using False Cons.prems(1) by (simp add: buf'_def)
    ultimately show ?thesis
      using False Cons.IH [of "pos + length b" buf'] len unfolding step by simp
  qed
qed

lemma check_list_bytes: "check_list i (map BufArg bs) = Inr bs"
  by (induction bs arbitrary: i) auto

lemma assertSize_nat: "n < 2147483647 \<Longrightarrow> assertSize (JNum (nat_num n)) = Inr (nat_num n)"
  by (simp add: assertSize_def K_MAX_LENGTH_def of_nat_less_iff [of 2147483647, where 'a = rat, simplified])

lemma not_num_le: "num_less y x \<Longrightarrow> \<not> num_le x y"
  by (cases x; cases y) (auto simp: num_le_def)

lemma checked_nat:
  assumes "n < 2147483647"
  shows "checked (nat_num n) = Inr (int n)"
proof -
  have "sint (word_of_int (int n) :: 32 word) = int n"
    by (rule sint_small) (use assms in simp_all)
  moreover have "\<not> num_le (nat_num 2147483647) (nat_num n)"
    by (rule not_num_le) (use assms in simp)
  moreover have "ToInt32 (nat_num n) = word_of_int (int n)" using ToInt32_int [of "int n"] by simp
  ultimately show ?thesis unfolding checked_def K_MAX_LENGTH_def by simp
qed

text \<open>
  \<open>Buffer.concat\<close> of byte arrays with a length of at most the maximum returns exactly that
  many bytes: the joined bytes of the list, cut when the length is smaller and filled up with zeros
  when it is larger.
\<close>
theorem concat_bytes:
  assumes "n < 2147483647"
  shows "buf_concat (map BufArg bs) (JNum (nat_num n)) = 
    (if bs = [] then Inr [] else Inr (take n (concat bs @ replicate n 0)))"
  using assms concat_loop_eq [of 0 "replicate n 0" bs]
  by (simp add: buf_concat_def check_list_bytes assertSize_nat checked_nat)

theorem concat_bytes_witness: "buf_concat (map BufArg [[1, 2], [3]]) (JNum (nat_num 5)) = Inr [1, 2, 3, 0, 0]"
proof -
  have "take 5 (concat [[1, 2], [3]] @ replicate 5 0) = [1, 2, 3, 0, (0 :: nat)]" by (simp add: eval_nat_numeral)
  then show ?thesis using concat_bytes [of 5 "[[1, 2], [3]]"] by simp
qed

section \<open>Swapping bytes\<close>

lemma swap_loop_map:
  assumes step: "\<And>pre g post. length g = k \<Longrightarrow> step (pre @ g @ post) (length pre) = pre @ rev g @ post" and "0 < k"
    and "\<And>g. g \<in> set gs \<Longrightarrow> length g = k"
  shows "swap_loop step k (pre @ concat gs) (length pre) (length pre + k * length gs) = pre @ concat (map rev gs)"
  using assms(3)
proof (induction gs arbitrary: pre)
  case Nil
  then show ?case by (simp add: swap_loop.simps)
next
  case (Cons g gs)
  then have len: "length g = k" by simp
  have "swap_loop step k (pre @ concat (g # gs)) (length pre) (length pre + k * length (g # gs)) =
      swap_loop step k ((pre @ rev g) @ concat gs) (length (pre @ rev g)) (length (pre @ rev g) + k * length gs)"
    using step [OF len, of pre "concat gs"] \<open>0 < k\<close> len
    by (subst swap_loop.simps) (simp add: add.assoc)
  also have "\<dots> = (pre @ rev g) @ concat (map rev gs)"
    by (rule Cons.IH) (use Cons.prems in simp)
  finally show ?case by simp
qed

fun groups :: "nat \<Rightarrow> nat \<Rightarrow> 'a list \<Rightarrow> 'a list list" where
  "groups k 0 xs = []"
| "groups k (Suc n) xs = take k xs # groups k n (drop k xs)"

lemma groups_props:
  assumes "length xs = k * n"
  shows "concat (groups k n xs) = xs" and "\<And>g. g \<in> set (groups k n xs) \<Longrightarrow> length g = k"
    and "length (groups k n xs) = n"
  using assms by (induction n arbitrary: xs) auto

lemma swap_groups:
  assumes "\<And>pre g post. length g = k \<Longrightarrow> step (pre @ g @ post) (length pre) = pre @ rev g @ post" and "0 < k"
    and "length b = k * n"
  shows "swap_loop step k b 0 (length b) = concat (map rev (groups k n b))"
  using swap_loop_map [OF assms(1,2), of "groups k n b" "[]"] groups_props [OF assms(3)] assms(3) by simp

lemma swap_at: "i \<noteq> j \<Longrightarrow> i < length g \<Longrightarrow> j < length g \<Longrightarrow>
    swap (pre @ g @ post) (length pre + i) (length pre + j) = pre @ swap g i j @ post"
  by (simp add: swap_def nth_append list_update_append)

lemma swap_at_0: "0 < j \<Longrightarrow> j < length g \<Longrightarrow>
    swap (pre @ g @ post) (length pre) (length pre + j) = pre @ swap g 0 j @ post"
  using swap_at [of 0 j g pre post] by (cases g) auto

lemma length_swap [simp]: "length (swap b i j) = length b"
  by (simp add: swap_def)

lemma rev_steps:
  "length g = 2 \<Longrightarrow> swap g 0 1 = rev g"
  "length g = 4 \<Longrightarrow> swap (swap g 0 3) 1 2 = rev g"
  "length g = 8 \<Longrightarrow> swap (swap (swap (swap g 0 7) 1 6) 2 5) 3 4 = rev g"
  by (auto simp: numeral_eq_Suc length_Suc_conv swap_def)

lemma swap16_groups:
  assumes "length b = 2 * n"
  shows "swap16 b = Inr (concat (map rev (groups 2 n b)))"
proof -
  have "swap_loop (\<lambda>b i. swap b i (i + 1)) 2 b 0 (length b) = concat (map rev (groups 2 n b))"
    by (rule swap_groups [OF _ _ assms]) (simp_all add: swap_at swap_at_0 rev_steps del: One_nat_def add_2_eq_Suc')
  then show ?thesis using assms by (simp add: swap16_def)
qed

lemma swap32_groups:
  assumes "length b = 4 * n"
  shows "swap32 b = Inr (concat (map rev (groups 4 n b)))"
proof -
  have "swap_loop (\<lambda>b i. swap (swap b i (i + 3)) (i + 1) (i + 2)) 4 b 0 (length b) = concat (map rev (groups 4 n b))"
    by (rule swap_groups [OF _ _ assms]) (simp_all add: swap_at swap_at_0 rev_steps del: One_nat_def add_2_eq_Suc')
  then show ?thesis using assms by (simp add: swap32_def)
qed

lemma swap64_groups:
  assumes "length b = 8 * n"
  shows "swap64 b = Inr (concat (map rev (groups 8 n b)))"
proof -
  have "swap_loop (\<lambda>b i. swap (swap (swap (swap b i (i + 7)) (i + 1) (i + 6)) (i + 2) (i + 5)) (i + 3) (i + 4)) 8 b 0 (length b) = concat (map rev (groups 8 n b))"
    by (rule swap_groups [OF _ _ assms]) (simp_all add: swap_at swap_at_0 rev_steps del: One_nat_def add_2_eq_Suc')
  then show ?thesis using assms by (simp add: swap64_def)
qed

lemma groups_concat: "(\<And>g. g \<in> set gs \<Longrightarrow> length g = k) \<Longrightarrow> groups k (length gs) (concat gs) = gs"
  by (induction gs) auto

lemma groups_swapped:
  assumes "length b = k * n" and "b' = concat (map rev (groups k n b))"
  shows "length b' = k * n" and "concat (map rev (groups k n b')) = b"
proof -
  note g = groups_props [OF assms(1)]
  have "sum_list (map length (groups k n b)) = k * n"
    using g(1) assms(1) by (metis length_concat)
  then show "length b' = k * n" by (simp add: assms(2) length_concat comp_def)
  have "groups k n b' = map rev (groups k n b)"
    using groups_concat [of "map rev (groups k n b)" k] g(2,3) by (force simp: assms(2))
  then show "concat (map rev (groups k n b')) = b" using g(1) by (simp add: comp_def)
qed

text \<open>
  The byte swaps reverse every group of 2, 4 or 8 bytes in place, for any number of groups,
  and applying the same swap to the result gives back the original bytes.
\<close>
theorem swap_reverses:
  assumes "sw = swap16 \<and> k = 2 \<or> sw = swap32 \<and> k = 4 \<or> sw = swap64 \<and> k = 8" and "length b = k * n"
  shows "\<exists>b'. sw b = Inr b' \<and> b' = concat (map rev (groups k n b)) \<and> sw b' = Inr b"
  using assms groups_swapped [OF assms(2) refl] swap16_groups [of _ n] swap32_groups [of _ n] swap64_groups [of _ n]
  by metis

theorem swap_reverses_witness: "\<exists>b'. swap16 [1, 2, 3, 4] = Inr b' \<and> b' = [2, 1, 4, 3] \<and> swap16 b' = Inr [1, 2, 3, 4]"
  using swap_reverses [of swap16 2 "[1, 2, 3, 4]" 2] by (simp add: numeral_eq_Suc)

end
