(* ===== verification/Buffer_Search.thy ===== *)
theory Buffer_Search
  imports Buffer_Ops
begin

text \<open>
  Comparing and searching buffers: \<open>Buffer.compare\<close>, \<open>equals\<close>, the ranged \<open>compare\<close>, \<open>indexOf\<close>,
  \<open>lastIndexOf\<close> and \<open>includes\<close> of \<open>builtin/buffer.js\<close>, on the bytes of the buffers.
\<close>

section \<open>Comparing\<close>

text \<open>The loop replaces the two lengths by the first pair of different bytes.\<close>

fun compare_loop :: "int \<times> int \<Rightarrow> bytes \<Rightarrow> bytes \<Rightarrow> int \<times> int" where
  "compare_loop xy (a # as) (b # bs) = (if a \<noteq> b then (int a, int b) else compare_loop xy as bs)"
| "compare_loop xy _ _ = xy"

definition order :: "int \<times> int \<Rightarrow> int" where
  [js_eval]: "order = (\<lambda>(x, y). if x < y then -1 else if y < x then 1 else 0)"

definition compare_bytes :: "bytes \<Rightarrow> bytes \<Rightarrow> int" where
  [js_eval]: "compare_bytes a b = order (compare_loop (int (length a), int (length b)) a b)"

definition buffer_compare :: "bufarg \<Rightarrow> bufarg \<Rightarrow> js_error + int" where
  [js_eval]: "buffer_compare a b =
     (case a of
        OtherArg v \<Rightarrow> Inl (ERR_INVALID_ARG_TYPE ''buf1'' ''Buffer, Uint8Array'' v)
      | BufArg x \<Rightarrow>
          (case b of
             OtherArg v \<Rightarrow> Inl (ERR_INVALID_ARG_TYPE ''buf2'' ''Buffer, Uint8Array'' v)
           | BufArg y \<Rightarrow> Inr (compare_bytes x y)))"

definition buf_equals :: "bytes \<Rightarrow> bufarg \<Rightarrow> js_error + bool" where
  [js_eval]: "buf_equals this b =
     (case b of
        OtherArg v \<Rightarrow> Inl (ERR_INVALID_ARG_TYPE ''otherBuffer'' ''Buffer, Uint8Array'' v)
      | BufArg y \<Rightarrow> Inr (compare_bytes this y = 0))"

text \<open>\<open>Buffer.prototype.compare\<close>: \<open>same\<close> says whether the two buffers are the same object.\<close>

definition number_arg :: "string \<Rightarrow> nat \<Rightarrow> jsval \<Rightarrow> js_error + jsnum" where
  [js_eval]: "number_arg name dflt v =
     (case v of JUndefined \<Rightarrow> Inr (nat_num dflt) | JNum x \<Rightarrow> Inr x
      | _ \<Rightarrow> Inl (ERR_INVALID_ARG_TYPE name ''number'' v))"

definition compare_ranges :: "bool \<Rightarrow> bytes \<Rightarrow> bytes \<Rightarrow> jsnum \<Rightarrow> jsnum \<Rightarrow> jsnum \<Rightarrow> jsnum \<Rightarrow> int" where
  [js_eval]: "compare_ranges same this target start stop thisStart thisEnd =
     (if num_le stop start \<or> num_le (nat_num (length target)) start
      then if num_le thisEnd thisStart then 0 else 1
      else if num_le thisEnd thisStart \<or> num_le (nat_num (length this)) thisStart then -1
      else if same then 0
      else let s = ToUint32 start; e = ToUint32 stop; ts = ToUint32 thisStart; te = ToUint32 thisEnd
           in order (compare_loop (int te - int ts, int e - int s) (take (te - ts) (drop ts this)) (take (e - s) (drop s target))))"

definition buf_compare :: "bool \<Rightarrow> bytes \<Rightarrow> bufarg \<Rightarrow> jsval \<Rightarrow> jsval \<Rightarrow> jsval \<Rightarrow> jsval \<Rightarrow> js_error + int" where
  [js_eval]: "buf_compare same this target start stop thisStart thisEnd =
     (case target of
        OtherArg v \<Rightarrow> Inl (ERR_INVALID_ARG_TYPE ''target'' ''Buffer, Uint8Array'' v)
      | BufArg tgt \<Rightarrow>
          bindE (number_arg ''targetStart'' 0 start) (\<lambda>s.
          bindE (number_arg ''targetEnd'' (length tgt) stop) (\<lambda>e.
          bindE (number_arg ''sourceStart'' 0 thisStart) (\<lambda>ts.
          bindE (number_arg ''sourceEnd'' (length this) thisEnd) (\<lambda>te.
            if num_less s (Num 0) then Inl (ERR_OUT_OF_RANGE ''targetStart'' ''>= 0'' (JNum s))
            else if num_less e (Num 0) \<or> num_less (nat_num (length tgt)) e
            then Inl (ERR_OUT_OF_RANGE ''targetEnd'' (''>= 0 and <= '' @ nat_string (length tgt)) (JNum e))
            else if num_less ts (Num 0) then Inl (ERR_OUT_OF_RANGE ''sourceStart'' ''>= 0'' (JNum ts))
            else if num_less te (Num 0) \<or> num_less (nat_num (length this)) te
            then Inl (ERR_OUT_OF_RANGE ''sourceEnd'' (''>= 0 and <= '' @ nat_string (length this)) (JNum te))
            else Inr (compare_ranges same this tgt s e ts te))))))"

section \<open>Searching\<close>

definition read_unit :: "nat \<Rightarrow> bytes \<Rightarrow> nat \<Rightarrow> nat" where
  [js_eval]: "read_unit indexSize buf i =
     (if indexSize = 1 then buf ! i else buf ! (i * 2) * 256 + buf ! (i * 2 + 1))"

text \<open>The forward search with its candidate \<open>foundIndex\<close>; \<open>None\<close> is -1.\<close>

function search_up :: "nat \<Rightarrow> bytes \<Rightarrow> bytes \<Rightarrow> nat \<Rightarrow> nat \<Rightarrow> nat \<Rightarrow> nat option \<Rightarrow> int" where
  "search_up sz arr val arrLength valLength i found =
     (if i < arrLength
      then if read_unit sz arr i = read_unit sz val (case found of None \<Rightarrow> 0 | Some f \<Rightarrow> i - f)
           then let f = (case found of None \<Rightarrow> i | Some f \<Rightarrow> f)
                in if i - f + 1 = valLength then int (f * sz)
                   else search_up sz arr val arrLength valLength (i + 1) (Some f)
           else (case found of
                   None \<Rightarrow> search_up sz arr val arrLength valLength (i + 1) None
                 | Some f \<Rightarrow> if f \<le> i then search_up sz arr val arrLength valLength (f + 1) None else -1)
      else -1)"
  by pat_completeness auto
termination
  by (relation "measures [\<lambda>(sz, arr, val, m, n, i, found). m - (case found of None \<Rightarrow> i | Some f \<Rightarrow> f),
                          \<lambda>(sz, arr, val, m, n, i, found). m - i]")
    (auto split: option.splits)

declare search_up.simps [simp del]

definition matches :: "nat \<Rightarrow> bytes \<Rightarrow> bytes \<Rightarrow> nat \<Rightarrow> nat \<Rightarrow> bool" where
  [js_eval]: "matches sz arr val valLength i = list_all (\<lambda>j. read_unit sz arr (i + j) = read_unit sz val j) [0..<valLength]"

fun search_down :: "nat \<Rightarrow> bytes \<Rightarrow> bytes \<Rightarrow> nat \<Rightarrow> nat \<Rightarrow> int" where
  "search_down sz arr val valLength i =
     (if matches sz arr val valLength i then int i
      else case i of 0 \<Rightarrow> -1 | Suc k \<Rightarrow> search_down sz arr val valLength k)"

declare search_down.simps [simp del]

definition is_ucs2 :: "jstr \<Rightarrow> bool" where
  [js_eval]: "is_ucs2 e = (e \<in> {js ''ucs2'', js ''ucs-2'', js ''utf16le'', js ''utf-16le''})"

text \<open>\<open>wide\<close> says that the lower-cased encoding is one of the UTF-16 names.\<close>

definition arrayIndexOf :: "bytes \<Rightarrow> bytes \<Rightarrow> rat \<Rightarrow> bool \<Rightarrow> bool \<Rightarrow> int" where
  [js_eval]: "arrayIndexOf arr val byteOffset wide dir =
     (if wide \<and> (length arr < 2 \<or> length val < 2) then -1
      else let sz = (if wide then 2 else 1);
               arrLength = length arr div sz; valLength = length val div sz;
               off = (if wide then of_int \<lfloor>byteOffset / 2\<rfloor> else byteOffset)
           in if dir then (if of_int \<lfloor>off\<rfloor> = off then search_up sz arr val arrLength valLength (nat \<lfloor>off\<rfloor>) None else -1)
              else if off + of_nat valLength > of_nat arrLength
              then if arrLength < valLength then -1 else search_down sz arr val valLength (arrLength - valLength)
              else if of_int \<lfloor>off\<rfloor> = off then search_down sz arr val valLength (nat \<lfloor>off\<rfloor>) else -1)"

text \<open>
  \<open>bidirectionalIndexOf\<close> of a buffer: the needle is a string (converted by \<open>fromString\<close>), bytes, a
  number or another value; \<open>to_number\<close> is the coercion of the offset. The offset stays a number: a
  fractional one reads no element, and is the answer for an empty needle.
\<close>

datatype needle = NStr jstr | NBytes bytes | NNum jsnum | NOther jsval

definition search_offset :: "bool \<Rightarrow> nat \<Rightarrow> jsnum \<Rightarrow> jsnum" where
  [js_eval]: "search_offset dir len x =
     (let clamped = (if num_less (Num 0x7FFFFFFF) x then Num 0x7FFFFFFF
                     else if num_less x (Num (-0x80000000)) then Num (-0x80000000) else x);
          y = (if clamped = NaN then if dir then Num 0 else nat_num len else clamped)
      in if num_less y (Num 0) then num_add y (int len) else y)"

text \<open>\<open>Uint8Array.prototype.indexOf\<close> and \<open>lastIndexOf\<close>, which truncate the offset.\<close>

definition unit_index :: "bytes \<Rightarrow> nat \<Rightarrow> nat \<Rightarrow> bool \<Rightarrow> int" where
  [js_eval]: "unit_index buf b off dir =
     (case find (\<lambda>i. buf ! i = b) (if dir then [off..<length buf] else rev [0..<min (off + 1) (length buf)]) of
        None \<Rightarrow> -1 | Some i \<Rightarrow> int i)"

definition finite_part :: "jsnum \<Rightarrow> rat" where
  [js_eval]: "finite_part x = (case x of Num r \<Rightarrow> r | _ \<Rightarrow> 0)"

definition search_needle :: "bytes \<Rightarrow> needle \<Rightarrow> jsnum \<Rightarrow> js_error + bool \<Rightarrow> bool \<Rightarrow> js_error + jsnum" where
  [js_eval]: "search_needle buf val off wide dir =
     (let n = nat_num (length buf)
      in if val = NBytes []
         then Inr (if num_less off (Num 0) then if dir then Num 0 else Num (-1) else if num_less n off then n else off)
         else if num_le n off \<and> dir then Inr (Num (-1))
         else if num_less off (Num 0) \<and> \<not> dir then Inr (Num (-1))
         else let i = finite_part (if num_le n off then nat_num (length buf - 1) else if num_less off (Num 0) then Num 0 else off)
              in case val of
                   NBytes v \<Rightarrow> bindE wide (\<lambda>w. Inr (int_num (arrayIndexOf buf v i w dir)))
                 | NNum x \<Rightarrow> Inr (int_num (unit_index buf (nat (num_and x 0xFF)) (nat \<lfloor>i\<rfloor>) dir))
                 | NOther w \<Rightarrow> Inl (ERR_INVALID_ARG_TYPE ''value'' ''number, string, Buffer, Uint8Array'' w)
                 | NStr s \<Rightarrow> Inr (Num (-1)))"

definition is_wide :: "(jsval \<Rightarrow> js_error + jstr) \<Rightarrow> (jstr \<Rightarrow> jstr) \<Rightarrow> jsval \<Rightarrow> js_error + bool" where
  [js_eval]: "is_wide to_string lc encoding =
     (if encoding = JUndefined then Inr False else bindE (to_string encoding) (\<lambda>e. Inr (is_ucs2 (lc e))))"

definition bidirectionalIndexOf :: "(jsval \<Rightarrow> js_error + jstr) \<Rightarrow> (jsval \<Rightarrow> jsnum) \<Rightarrow> (jstr \<Rightarrow> jstr) \<Rightarrow>
    bytes \<Rightarrow> needle \<Rightarrow> jsval \<Rightarrow> jsval \<Rightarrow> bool \<Rightarrow> js_error + jsnum" where
  [js_eval]: "bidirectionalIndexOf to_string to_number lc buf val byteOffset encoding dir =
     (if buf = [] then Inr (Num (-1))
      else let (off, enc) = (case byteOffset of JStr e \<Rightarrow> (Num 0, byteOffset) | _ \<Rightarrow> (to_number byteOffset, encoding))
           in bindE (case val of
                       NStr s \<Rightarrow> bindE (fromString to_string to_number lc s enc) (\<lambda>bs. Inr (NBytes bs))
                     | _ \<Rightarrow> Inr val) (\<lambda>needle.
                search_needle buf needle (search_offset dir (length buf) off) (is_wide to_string lc enc) dir))"

definition buf_indexOf :: "(jsval \<Rightarrow> js_error + jstr) \<Rightarrow> (jsval \<Rightarrow> jsnum) \<Rightarrow> (jstr \<Rightarrow> jstr) \<Rightarrow>
    bytes \<Rightarrow> needle \<Rightarrow> jsval \<Rightarrow> jsval \<Rightarrow> js_error + jsnum" where
  [js_eval]: "buf_indexOf to_string to_number lc buf val byteOffset encoding =
     bidirectionalIndexOf to_string to_number lc buf val byteOffset encoding True"

definition buf_lastIndexOf :: "(jsval \<Rightarrow> js_error + jstr) \<Rightarrow> (jsval \<Rightarrow> jsnum) \<Rightarrow> (jstr \<Rightarrow> jstr) \<Rightarrow>
    bytes \<Rightarrow> needle \<Rightarrow> jsval \<Rightarrow> jsval \<Rightarrow> js_error + jsnum" where
  [js_eval]: "buf_lastIndexOf to_string to_number lc buf val byteOffset encoding =
     bidirectionalIndexOf to_string to_number lc buf val byteOffset encoding False"

definition buf_includes :: "(jsval \<Rightarrow> js_error + jstr) \<Rightarrow> (jsval \<Rightarrow> jsnum) \<Rightarrow> (jstr \<Rightarrow> jstr) \<Rightarrow>
    bytes \<Rightarrow> needle \<Rightarrow> jsval \<Rightarrow> jsval \<Rightarrow> js_error + bool" where
  [js_eval]: "buf_includes to_string to_number lc buf val byteOffset encoding =
     bindE (buf_indexOf to_string to_number lc buf val byteOffset encoding) (\<lambda>i. Inr (i \<noteq> Num (-1)))"

end
