(* ===== verification/Buffer_Search_Laws.thy ===== *)
theory Buffer_Search_Laws
  imports Buffer_Search Buffer_Ops_Laws
begin

text \<open>
  Laws of the comparisons and searches: \<open>compare\<close> is the lexicographic order, \<open>indexOf\<close> is the string
  search of the language applied to bytes, \<open>lastIndexOf\<close> finds the last occurrence.
\<close>

section \<open>Comparing\<close>

lemma compare_loop_order:
  "order (compare_loop (x + int (length a), x + int (length b)) a b) =
     (if a = b then 0 else if ord_class.lexordp a b then -1 else 1)"
proof (induction a arbitrary: x b)
  case Nil
  then show ?case by (cases b) (simp_all add: order_def)
next
  case (Cons c a)
  show ?case
  proof (cases b)
    case Nil
    then show ?thesis by (simp add: order_def)
  next
    case (Cons d b')
    then show ?thesis
      using Cons.IH [of "x + 1" b'] by (cases "a = b'") (simp_all add: order_def add.assoc [symmetric])
  qed
qed

lemma compare_bytes_order: "compare_bytes a b = (if a = b then 0 else if ord_class.lexordp a b then -1 else 1)"
  using compare_loop_order [of 0 a b] by (simp add: compare_bytes_def)

lemma buf_equals_iff: "buf_equals a (BufArg b) = Inr (a = b)"
  by (simp add: buf_equals_def compare_bytes_order)

text \<open>
  C30: \<open>Buffer.compare\<close> is the lexicographic order of the bytes, a proper prefix being smaller: it
  is 0 exactly for equal contents, -1 when the first buffer comes before the second and 1 otherwise.
\<close>
theorem compare_lexicographic:
  "buffer_compare (BufArg a) (BufArg b) = Inr (if a = b then 0 else if ord_class.lexordp a b then -1 else 1)"
  by (simp add: buffer_compare_def compare_bytes_order)

text \<open>The ranged \<open>compare\<close> on valid ranges of two different buffers compares the two slices.\<close>

lemma buf_compare_ranges:
  assumes "s < e" "e \<le> length t" "ts < te" "te \<le> length b" "length t \<le> 2147483647" "length b \<le> 2147483647"
  shows "buf_compare False b (BufArg t) (JNum (nat_num s)) (JNum (nat_num e)) (JNum (nat_num ts)) (JNum (nat_num te)) =
    Inr (compare_bytes (take (te - ts) (drop ts b)) (take (e - s) (drop s t)))"
proof -
  have "ToUint32 (nat_num s) = s" "ToUint32 (nat_num e) = e" "ToUint32 (nat_num ts) = ts" "ToUint32 (nat_num te) = te"
    using assms by (auto intro: ToUint32_small)
  moreover have "int (length (take (te - ts) (drop ts b))) = int te - int ts" "int (length (take (e - s) (drop s t))) = int e - int s"
    using assms by auto
  ultimately show ?thesis
    using assms unfolding compare_bytes_def
    by (simp add: buf_compare_def number_arg_def compare_ranges_def num_le_def Let_def)
qed

text \<open>On one buffer the ranges are ignored: \<open>b.compare(b, 0, 1, 1, 2)\<close> is 0 whatever the two bytes are.\<close>

lemma same_buffer_ranges_ignored:
  "buf_compare True [1, 2] (BufArg [1, 2]) (JNum (Num 0)) (JNum (Num 1)) (JNum (Num 1)) (JNum (Num 2)) = Inr 0"
  by (simp add: js_eval)

section \<open>Searching\<close>

definition found_at :: "nat \<Rightarrow> nat option \<Rightarrow> int" where
  "found_at sz r = (case r of None \<Rightarrow> -1 | Some i \<Rightarrow> int (i * sz))"

lemma find_upt_Cons: "i < m \<Longrightarrow> find P [i..<m] = (if P i then Some i else find P [Suc i..<m])"
  by (simp add: upt_rec [of i])

lemma search_up_None:
  "m \<le> i \<Longrightarrow> search_up sz arr val m n i found = -1"
  by (simp add: search_up.simps)

lemma search_up_spec:
  assumes "0 < n"
    and "\<And>f. found = Some f \<Longrightarrow> f \<le> i \<and> i - f < n \<and> (\<forall>j<i - f. read_unit sz arr (f + j) = read_unit sz val j)"
  shows "search_up sz arr val m n i found =
    found_at sz (find (\<lambda>f. f + n \<le> m \<and> matches sz arr val n f) [(case found of None \<Rightarrow> i | Some f \<Rightarrow> f)..<m])"
  using assms
proof (induction sz arr val m n i found rule: search_up.induct)
  case (1 sz arr val m n i found)
  define f where "f = (case found of None \<Rightarrow> i | Some f \<Rightarrow> f)"
  let ?P = "\<lambda>f. f + n \<le> m \<and> matches sz arr val n f"
  have f: "f \<le> i" "i - f < n" "\<forall>j<i - f. read_unit sz arr (f + j) = read_unit sz val j"
    using 1(4,5) by (auto simp: f_def split: option.splits)
  show ?case
  proof (cases "i < m")
    case False
    have "find ?P [f..<m] = None" using f False by (auto simp: find_None_iff)
    then show ?thesis using False by (simp add: search_up_None f_def [symmetric] found_at_def)
  next
    case True
    have idx: "(case found of None \<Rightarrow> 0 | Some f \<Rightarrow> i - f) = i - f" by (simp add: f_def split: option.splits)
    show ?thesis
    proof (cases "read_unit sz arr i = read_unit sz val (i - f)")
      case eq: True
      have upto: "\<forall>j<Suc i - f. read_unit sz arr (f + j) = read_unit sz val j"
        using f eq by (auto simp: less_Suc_eq Suc_diff_le)
      show ?thesis
      proof (cases "i - f + 1 = n")
        case full: True
        then have "?P f" using upto f True by (auto simp: matches_def list_all_iff Suc_diff_le)
        then have "find ?P [f..<m] = Some f" using f True by (simp add: find_upt_Cons)
        then show ?thesis
          using True eq full idx
          by (subst search_up.simps) (simp add: f_def [symmetric] found_at_def)
      next
        case False
        have "search_up sz arr val m n (i + 1) (Some f) = found_at sz (find ?P [f..<m])"
          using 1(1) [OF True eq [folded idx] f_def] False 1(4) f upto by simp
        then show ?thesis
          using True eq False idx by (subst search_up.simps) (simp add: f_def [symmetric])
      qed
    next
      case neq: False
      then have "\<not> ?P f" using f by (auto simp: matches_def list_all_iff intro!: bexI [of _ "i - f"])
      moreover have "f < m" using f True by simp
      ultimately have find: "find ?P [f..<m] = find ?P [Suc f..<m]" by (simp only: find_upt_Cons if_False)
      show ?thesis
      proof (cases found)
        case None
        then show ?thesis
          using True neq idx find 1(2) [OF True] 1(4) by (subst search_up.simps) (simp add: f_def)
      next
        case (Some g)
        then show ?thesis
          using True neq idx find f 1(3) [OF True _ Some] 1(4) by (subst search_up.simps) (simp add: f_def)
      qed
    qed
  qed
qed

lemma search_down_spec:
  "search_down sz arr val n i = found_at 1 (find (matches sz arr val n) (rev [0..<Suc i]))"
  by (induction i) (simp_all add: search_down.simps [of sz arr val n] found_at_def)

lemma occurs_at_nth:
  assumes "f + length v \<le> length b"
  shows "occurs_at v b f = (\<forall>j<length v. b ! (f + j) = v ! j)"
proof -
  have "length (take (length v) (drop f b)) = length v" using assms by simp
  then have "(take (length v) (drop f b) = v) = (\<forall>j<length v. take (length v) (drop f b) ! j = v ! j)"
    by (simp only: list_eq_iff_nth_eq simp_thms)
  then show ?thesis using assms by (simp add: occurs_at_def)
qed

lemma matches_bytes: "f + length v \<le> length b \<Longrightarrow> matches 1 b v (length v) f = occurs_at v b f"
  by (auto simp: occurs_at_nth matches_def list_all_iff read_unit_def)

lemma occurs_at_bound:
  assumes "occurs_at v b f" and "v \<noteq> []"
  shows "f + length v \<le> length b"
proof -
  have "min (length v) (length b - f) = length v"
    using assms(1) by (metis length_drop length_take min.commute occurs_at_def)
  moreover have "0 < length v" using assms(2) by simp
  ultimately show ?thesis by linarith
qed

lemma matches_iff: "v \<noteq> [] \<Longrightarrow> (f + length v \<le> length b \<and> matches 1 b v (length v) f) = occurs_at v b f"
  using matches_bytes occurs_at_bound by blast

lemma arrayIndexOf_up:
  assumes "v \<noteq> []"
  shows "arrayIndexOf b v (of_nat k) False True = found_at 1 (find (occurs_at v b) [k..<length b])"
proof -
  have "\<lfloor>rat_of_nat k\<rfloor> = int k" by simp
  then have "arrayIndexOf b v (of_nat k) False True = search_up 1 b v (length b) (length v) k None"
    using exI [of "\<lambda>n. rat_of_nat k = rat_of_int n" "int k"] by (simp add: arrayIndexOf_def Let_def)
  moreover have "search_up 1 b v (length b) (length v) k None =
      found_at 1 (find (\<lambda>f. f + length v \<le> length b \<and> matches 1 b v (length v) f) [k..<length b])"
    using search_up_spec [of "length v" None k 1 b v "length b"] assms by (simp del: One_nat_def)
  ultimately show ?thesis using matches_iff [OF assms] by simp
qed

lemma find_snoc_not: "\<not> P x \<Longrightarrow> find P (xs @ [x]) = find P xs"
  by (induction xs) auto

lemma indexOf_bytes: 
  assumes "v \<noteq> []" and "k < length b"
  shows "indexOf b v k = found_at 1 (find (occurs_at v b) [k..<length b])"
proof -
  have "\<not> occurs_at v b (length b)" using assms(1) occurs_at_bound [of v b "length b"] by auto
  then have "find (occurs_at v b) [k..<Suc (length b)] = find (occurs_at v b) [k..<length b]"
    using assms(2) by (simp add: find_snoc_not)
  then show ?thesis
    using assms(2) by (simp add: indexOf_def found_at_def del: upt_Suc split: option.splits)
qed

lemma search_offset_nat: "k \<le> 2147483647 \<Longrightarrow> search_offset dir n (nat_num k) = nat_num k"
  by (simp add: search_offset_def Let_def)

lemma not_less_zero: "\<not> num_less (nat_num k) (Num 0)"
  by simp

lemma num_le_nat: "num_le (nat_num m) (nat_num n) = (m \<le> n)"
  by (auto simp: num_le_def)

lemma indexOf_Nil: "indexOf b [] k = int (min k (length b))"
  by (simp add: indexOf_def occurs_at_def find_upt_Cons del: upt_Suc)

lemma indexOf_past: "v \<noteq> [] \<Longrightarrow> length b \<le> k \<Longrightarrow> indexOf b v k = -1"
  using occurs_at_bound [of v b "length b"] by (auto simp: indexOf_def find_upt_Cons)

text \<open>
  C18: \<open>indexOf\<close> of bytes in a non-empty buffer, from any offset up to the largest one, is the
  string search of the language on the two byte sequences: the least index from the offset on at
  which the needle occurs, -1 if there is none, and the offset cut to the length for the empty
  needle. The incremental search, which keeps a candidate and restarts behind it, thus never misses
  an occurrence and always returns.
\<close>
theorem indexOf_least:
  assumes "to_number (JNum (nat_num k)) = nat_num k" and "b \<noteq> []" and "k \<le> 2147483647"
  shows "buf_indexOf to_string to_number lc b (NBytes v) (JNum (nat_num k)) JUndefined = Inr (int_num (indexOf b v k))"
proof -
  have "search_needle b (NBytes v) (nat_num k) (Inr False) True = Inr (int_num (indexOf b v k))"
  proof (cases "v = []")
    case True
    then show ?thesis by (simp add: search_needle_def indexOf_Nil min_def Let_def)
  next
    case False
    then show ?thesis
      by (cases "k < length b")
        (simp_all add: search_needle_def Let_def num_le_nat indexOf_past finite_part_def arrayIndexOf_up indexOf_bytes del: One_nat_def)
  qed
  then show ?thesis
    using assms by (simp add: buf_indexOf_def bidirectionalIndexOf_def search_offset_nat is_wide_def)
qed

theorem indexOf_least_witness:
  "buf_indexOf (\<lambda>_. Inr []) (\<lambda>v. case v of JNum x \<Rightarrow> x | _ \<Rightarrow> NaN) (\<lambda>s. s) [1, 1, 2, 1, 2] (NBytes [1, 2]) (JNum (nat_num 2)) JUndefined =
   Inr (int_num (indexOf [1, 1, 2, 1, 2] [1, 2] 2))"
  by (rule indexOf_least) simp_all

lemma find_rev_drop:
  assumes "\<And>i. k < i \<Longrightarrow> i \<le> n \<Longrightarrow> \<not> P i" and "k \<le> n"
  shows "find P (rev [0..<Suc n]) = find P (rev [0..<Suc k])"
  using assms
proof (induction n)
  case (Suc n)
  then show ?case by (cases "k = Suc n") (auto simp: le_Suc_eq)
qed simp

lemma arrayIndexOf_down:
  assumes "v \<noteq> []"
  shows "arrayIndexOf b v (of_nat k) False False = found_at 1 (find (occurs_at v b) (rev [0..<Suc k]))"
proof (cases "k + length v \<le> length b")
  case True
  have "rat_of_nat k + rat_of_nat (length v) \<le> rat_of_nat (length b)"
    using True by (simp flip: of_nat_add)
  then have "arrayIndexOf b v (of_nat k) False False = search_down 1 b v (length v) k"
    using exI [of "\<lambda>n. rat_of_nat k = rat_of_int n" "int k"] by (simp add: arrayIndexOf_def Let_def)
  moreover have "find (matches 1 b v (length v)) (rev [0..<Suc k]) = find (occurs_at v b) (rev [0..<Suc k])"
    using True by (intro find_cong) (auto simp: matches_bytes simp del: One_nat_def)
  ultimately show ?thesis by (simp add: search_down_spec del: One_nat_def upt_Suc)
next
  case False
  have "rat_of_nat (length b) < rat_of_nat k + rat_of_nat (length v)"
    using False by (simp flip: of_nat_add)
  then have eq: "arrayIndexOf b v (of_nat k) False False =
      (if length b < length v then -1 else search_down 1 b v (length v) (length b - length v))"
    by (simp add: arrayIndexOf_def Let_def)
  show ?thesis
  proof (cases "length b < length v")
    case True
    then have "find (occurs_at v b) (rev [0..<Suc k]) = None"
      using assms occurs_at_bound by (fastforce simp: find_None_iff)
    then show ?thesis using True by (simp add: eq found_at_def)
  next
    case False
    have "find (occurs_at v b) (rev [0..<Suc k]) = find (occurs_at v b) (rev [0..<Suc (length b - length v)])"
      using assms occurs_at_bound \<open>\<not> k + length v \<le> length b\<close> by (intro find_rev_drop) fastforce+
    moreover have "find (matches 1 b v (length v)) (rev [0..<Suc (length b - length v)]) =
        find (occurs_at v b) (rev [0..<Suc (length b - length v)])"
      using False by (intro find_cong) (auto simp: matches_bytes simp del: One_nat_def)
    ultimately show ?thesis using False by (simp add: eq search_down_spec del: One_nat_def upt_Suc)
  qed
qed

text \<open>
  \<open>lastIndexOf\<close> of non-empty bytes from an offset inside the buffer is the greatest index, not
  above the offset, at which the needle occurs, and -1 if there is none.
\<close>
theorem lastIndexOf_greatest:
  assumes "to_number (JNum (nat_num k)) = nat_num k" and "k < length b" and "length b \<le> 2147483647" and "v \<noteq> []"
  shows "buf_lastIndexOf to_string to_number lc b (NBytes v) (JNum (nat_num k)) JUndefined =
    Inr (int_num (case find (occurs_at v b) (rev [0..<Suc k]) of None \<Rightarrow> -1 | Some i \<Rightarrow> int i))"
proof -
  have "search_needle b (NBytes v) (nat_num k) (Inr False) False = Inr (int_num (arrayIndexOf b v (of_nat k) False False))"
    using assms by (simp add: search_needle_def Let_def num_le_nat finite_part_def)
  then have "buf_lastIndexOf to_string to_number lc b (NBytes v) (JNum (nat_num k)) JUndefined =
      Inr (int_num (arrayIndexOf b v (of_nat k) False False))"
    using assms by (auto simp: buf_lastIndexOf_def bidirectionalIndexOf_def search_offset_nat is_wide_def)
  then show ?thesis
    using arrayIndexOf_down [OF assms(4), of b k] by (simp add: found_at_def split: option.splits)
qed

theorem lastIndexOf_greatest_witness:
  "buf_lastIndexOf (\<lambda>_. Inr []) (\<lambda>v. case v of JNum x \<Rightarrow> x | _ \<Rightarrow> NaN) (\<lambda>s. s) [1, 2, 2, 1, 2] (NBytes [1, 2]) (JNum (nat_num 2)) JUndefined =
   Inr (int_num (case find (occurs_at [1, 2] [1, 2, 2, 1, 2]) (rev [0..<Suc 2]) of None \<Rightarrow> -1 | Some i \<Rightarrow> int i))"
  by (rule lastIndexOf_greatest) simp_all

text \<open>
  With a UTF-16 encoding \<open>lastIndexOf\<close> returns the index in 16-bit units, where \<open>indexOf\<close> returns the
  one in bytes: here the needle is at byte 2.
\<close>

lemma lastIndexOf_wide_unit:
  "arrayIndexOf [1, 2, 3, 4] [3, 4] 2 True False = 1" "arrayIndexOf [1, 2, 3, 4] [3, 4] 0 True True = 2"
  by (simp_all add: arrayIndexOf_def Let_def search_down.simps search_up.simps matches_def read_unit_def)

end
