(* ===== verification/Buffer_List.thy ===== *)
theory Buffer_List
  imports Buffer_Ops
begin

text \<open>
  The queue of chunks of the readable streams, \<open>internal/streams/buffer_list.js\<close>, as the source
  builds it: entries in a store, addressed by their index and linked by \<open>next\<close>, with the fields
  \<open>head\<close>, \<open>tail\<close> and \<open>length\<close>. A chunk is the list of its bytes or code units. The loops follow the
  pointers and are partial functions: on a cyclic list they do not return.
\<close>

record entry =
  e_data :: "nat list"
  e_next :: "nat option"

record buffer_list =
  bl_store :: "entry list"
  bl_head :: "nat option"
  bl_tail :: "nat option"
  bl_length :: int

definition empty_list :: buffer_list where
  [js_eval]: "empty_list = \<lparr>bl_store = [], bl_head = None, bl_tail = None, bl_length = 0\<rparr>"

definition null_error :: js_error where
  [js_eval]: "null_error = TypeError ''cannot read property of null''"

definition bl_push :: "buffer_list \<Rightarrow> nat list \<Rightarrow> js_error + buffer_list" where
  [js_eval]: "bl_push b v =
     (let a = length (bl_store b); store = bl_store b @ [\<lparr>e_data = v, e_next = None\<rparr>]
      in if bl_length b > 0
         then (case bl_tail b of
                 None \<Rightarrow> Inl null_error
               | Some t \<Rightarrow> Inr (b\<lparr>bl_store := store[t := (store ! t)\<lparr>e_next := Some a\<rparr>], bl_tail := Some a,
                                  bl_length := bl_length b + 1\<rparr>))
         else Inr (b\<lparr>bl_store := store, bl_head := Some a, bl_tail := Some a, bl_length := bl_length b + 1\<rparr>))"

definition bl_unshift :: "buffer_list \<Rightarrow> nat list \<Rightarrow> buffer_list" where
  [js_eval]: "bl_unshift b v =
     (let a = length (bl_store b)
      in b\<lparr>bl_store := bl_store b @ [\<lparr>e_data = v, e_next = bl_head b\<rparr>],
           bl_tail := (if bl_length b = 0 then Some a else bl_tail b),
           bl_head := Some a, bl_length := bl_length b + 1\<rparr>)"

text \<open>\<open>shift\<close> returns \<open>undefined\<close>, here \<open>None\<close>, on an empty list.\<close>

definition bl_shift :: "buffer_list \<Rightarrow> js_error + nat list option \<times> buffer_list" where
  [js_eval]: "bl_shift b =
     (if bl_length b = 0 then Inr (None, b)
      else case bl_head b of
             None \<Rightarrow> Inl null_error
           | Some a \<Rightarrow>
               let e = bl_store b ! a
               in Inr (Some (e_data e),
                       if bl_length b = 1 then b\<lparr>bl_head := None, bl_tail := None, bl_length := 0\<rparr>
                       else b\<lparr>bl_head := e_next e, bl_length := bl_length b - 1\<rparr>))"

definition bl_clear :: "buffer_list \<Rightarrow> buffer_list" where
  [js_eval]: "bl_clear b = b\<lparr>bl_head := None, bl_tail := None, bl_length := 0\<rparr>"

definition bl_first :: "buffer_list \<Rightarrow> js_error + nat list" where
  [js_eval]: "bl_first b =
     (case bl_head b of None \<Rightarrow> Inl null_error | Some a \<Rightarrow> Inr (e_data (bl_store b ! a)))"

text \<open>The iterator, as the list of the chunks it yields.\<close>

partial_function (option) iterate :: "entry list \<Rightarrow> nat option \<Rightarrow> nat list list option" where
  "iterate store p =
     (case p of
        None \<Rightarrow> Some []
      | Some a \<Rightarrow> Option.bind (iterate store (e_next (store ! a))) (\<lambda>xs. Some (e_data (store ! a) # xs)))"

partial_function (option) join_loop :: "entry list \<Rightarrow> nat option \<Rightarrow> nat list \<Rightarrow> nat list \<Rightarrow> nat list option" where
  "join_loop store p s ret =
     (case p of
        None \<Rightarrow> Some ret
      | Some a \<Rightarrow> join_loop store (e_next (store ! a)) s (ret @ s @ e_data (store ! a)))"

definition bl_join :: "buffer_list \<Rightarrow> nat list \<Rightarrow> (js_error + nat list) option" where
  [js_eval]: "bl_join b s =
     (if bl_length b = 0 then Some (Inr [])
      else case bl_head b of
             None \<Rightarrow> Some (Inl null_error)
           | Some a \<Rightarrow> map_option Inr (join_loop (bl_store b) (e_next (bl_store b ! a)) s (e_data (bl_store b ! a))))"

text \<open>\<open>Buffer.allocUnsafe\<close> of a length, by its bytes, and \<open>Uint8Array.prototype.set\<close>.\<close>

definition unsafe_bytes :: "nat \<Rightarrow> js_error + bytes" where
  [js_eval]: "unsafe_bytes n =
     bindE (assertSize (JNum (nat_num n))) (\<lambda>x. bindE (checked x) (\<lambda>m. Inr (replicate (nat m) 0)))"

definition set_at :: "bytes \<Rightarrow> bytes \<Rightarrow> nat \<Rightarrow> js_error + bytes" where
  [js_eval]: "set_at ret src i =
     (if i + length src > length ret then Inl (RangeError ''offset is out of bounds'')
      else Inr (take i ret @ src @ drop (i + length src) ret))"

partial_function (option) concat_chunks :: "entry list \<Rightarrow> nat option \<Rightarrow> bytes \<Rightarrow> nat \<Rightarrow> (js_error + bytes) option" where
  "concat_chunks store p ret i =
     (case p of
        None \<Rightarrow> Some (Inr ret)
      | Some a \<Rightarrow>
          (case set_at ret (e_data (store ! a)) i of
             Inl e \<Rightarrow> Some (Inl e)
           | Inr ret' \<Rightarrow> concat_chunks store (e_next (store ! a)) ret' (i + length (e_data (store ! a)))))"

definition bl_concat :: "buffer_list \<Rightarrow> nat \<Rightarrow> (js_error + bytes) option" where
  [js_eval]: "bl_concat b n =
     (if bl_length b = 0 then Some (Inr [])
      else case unsafe_bytes (n mod 2 ^ 32) of
             Inl e \<Rightarrow> Some (Inl e)
           | Inr ret \<Rightarrow> concat_chunks (bl_store b) (bl_head b) ret 0)"

text \<open>What both partial reads do to the list once the entry \<open>a\<close> covers the rest \<open>n\<close>, and the loops.\<close>

definition cut_entry :: "buffer_list \<Rightarrow> nat \<Rightarrow> nat \<Rightarrow> buffer_list" where
  [js_eval]: "cut_entry b a n =
     (let e = bl_store b ! a
      in if n = length (e_data e)
         then (case e_next e of
                 Some nx \<Rightarrow> b\<lparr>bl_head := Some nx\<rparr>
               | None \<Rightarrow> b\<lparr>bl_head := None, bl_tail := None\<rparr>)
         else b\<lparr>bl_head := Some a, bl_store := (bl_store b)[a := e\<lparr>e_data := drop n (e_data e)\<rparr>]\<rparr>)"

partial_function (option) string_loop :: "buffer_list \<Rightarrow> nat \<Rightarrow> nat \<Rightarrow> nat \<Rightarrow> nat list \<Rightarrow> (nat list \<times> buffer_list \<times> nat) option" where
  "string_loop b a n c ret =
     (let e = bl_store b ! a; str = e_data e
      in if n > length str
         then (case e_next e of
                 None \<Rightarrow> Some (ret @ str, b, c + 1)
               | Some nx \<Rightarrow> string_loop b nx (n - length str) (c + 1) (ret @ str))
         else Some (ret @ take n str, cut_entry b a n, if n = length str then c + 1 else c))"

definition getString :: "buffer_list \<Rightarrow> nat \<Rightarrow> (js_error + nat list \<times> buffer_list) option" where
  [js_eval]: "getString b n =
     (case bl_head b of
        None \<Rightarrow> Some (Inl null_error)
      | Some a \<Rightarrow> Option.bind (string_loop b a n 0 []) (\<lambda>(ret, b', c).
                    Some (Inr (ret, b'\<lparr>bl_length := bl_length b' - int c\<rparr>))))"

partial_function (option) buffer_loop :: "buffer_list \<Rightarrow> nat \<Rightarrow> nat \<Rightarrow> nat \<Rightarrow> nat \<Rightarrow> bytes \<Rightarrow> (js_error + bytes \<times> buffer_list \<times> nat) option" where
  "buffer_loop b a n retLen c ret =
     (let e = bl_store b ! a; buf = e_data e
      in if n > length buf
         then (case set_at ret buf (retLen - n) of
                 Inl err \<Rightarrow> Some (Inl err)
               | Inr ret' \<Rightarrow>
                   (case e_next e of
                      None \<Rightarrow> Some (Inr (ret', b, c + 1))
                    | Some nx \<Rightarrow> buffer_loop b nx (n - length buf) retLen (c + 1) ret'))
         else (case set_at ret (take n buf) (retLen - n) of
                 Inl err \<Rightarrow> Some (Inl err)
               | Inr ret' \<Rightarrow> Some (Inr (ret', cut_entry b a n, if n = length buf then c + 1 else c))))"

definition getBuffer :: "buffer_list \<Rightarrow> nat \<Rightarrow> (js_error + bytes \<times> buffer_list) option" where
  [js_eval]: "getBuffer b n =
     (case unsafe_bytes n of
        Inl e \<Rightarrow> Some (Inl e)
      | Inr ret \<Rightarrow>
          (case bl_head b of
             None \<Rightarrow> Some (Inl null_error)
           | Some a \<Rightarrow> Option.bind (buffer_loop b a n n 0 ret) (\<lambda>r.
                         Some (bindE r (\<lambda>(ret, b', c). Inr (ret, b'\<lparr>bl_length := bl_length b' - int c\<rparr>))))))"

text \<open>\<open>consume\<close>; a perfect match is a \<open>shift\<close>, which may return \<open>undefined\<close>.\<close>

definition bl_consume :: "buffer_list \<Rightarrow> nat \<Rightarrow> bool \<Rightarrow> (js_error + nat list option \<times> buffer_list) option" where
  [js_eval]: "bl_consume b n hasStrings =
     (case bl_head b of
        None \<Rightarrow> Some (Inl null_error)
      | Some a \<Rightarrow>
          let e = bl_store b ! a; data = e_data e
          in if n < length data
             then Some (Inr (Some (take n data), b\<lparr>bl_store := (bl_store b)[a := e\<lparr>e_data := drop n data\<rparr>]\<rparr>))
             else if n = length data then Some (bl_shift b)
             else map_option (\<lambda>r. bindE r (\<lambda>(ret, b'). Inr (Some ret, b')))
                    (if hasStrings then getString b n else getBuffer b n))"

end
