(* ===== verification/Readable.thy ===== *)
theory Readable
  imports Buffer_List String_Decoder
begin

unbundle bit_operations_syntax

text \<open>
  The readable side of the streams, \<open>internal/streams/readable.js\<close>: adding chunks, reading, the end of
  the data, the flowing mode and the tasks these schedule. The state is the \<open>ReadableState\<close>; the tasks
  put on the tick queue, the events emitted, the errors reported, the chunks taken in and the calls of
  \<open>_read\<close> are also appended to a log.
  An environment stands for the code the stream calls: the \<open>_read\<close> method of the user, the listeners of
  its events, and \<open>errorOrDestroy\<close>; each may change the state. The debug output is left out.
\<close>

section \<open>The state\<close>

datatype task = EmitReadable | MaybeReadMore | EndReadable | Resume

datatype action = NextTick task | ErrorOrDestroy js_error | Emit string | EmitData "nat list" | Pushed "nat list" | CallRead

record rstate =
  rs_buffer :: buffer_list
  rs_length :: int
  rs_objectMode :: bool
  rs_highWaterMark :: int
  rs_decoder :: "decoder option"
  rs_flowing :: "bool option"
  rs_ended :: bool
  rs_endEmitted :: bool
  rs_errorEmitted :: bool
  rs_closeEmitted :: bool
  rs_reading :: bool
  rs_constructed :: bool
  rs_sync :: bool
  rs_needReadable :: bool
  rs_emittedReadable :: bool
  rs_readableListening :: bool
  rs_resumeScheduled :: bool
  rs_paused :: "bool option"
  rs_destroyed :: bool
  rs_errored :: bool
  rs_readingMore :: bool
  rs_dataEmitted :: bool
  rs_dataListeners :: nat
  rs_awaitDrain :: "nat list"
  rs_log :: "action list"

record env =
  user_read :: "int \<Rightarrow> rstate \<Rightarrow> js_error option \<times> rstate"
  on_data :: "nat list \<Rightarrow> rstate \<Rightarrow> rstate"
  on_event :: "string \<Rightarrow> rstate \<Rightarrow> rstate"
  on_error :: "js_error \<Rightarrow> rstate \<Rightarrow> rstate"

definition newReadable :: "bool \<Rightarrow> int \<Rightarrow> decoder option \<Rightarrow> rstate" where
  [js_eval]: "newReadable objectMode hwm dec =
     \<lparr>rs_buffer = empty_list, rs_length = 0, rs_objectMode = objectMode, rs_highWaterMark = hwm,
      rs_decoder = dec, rs_flowing = None, rs_ended = False, rs_endEmitted = False, rs_errorEmitted = False,
      rs_closeEmitted = False, rs_reading = False, rs_constructed = True, rs_sync = True,
      rs_needReadable = False, rs_emittedReadable = False, rs_readableListening = False,
      rs_resumeScheduled = False, rs_paused = None, rs_destroyed = False, rs_errored = False,
      rs_readingMore = False, rs_dataEmitted = False, rs_dataListeners = 0, rs_awaitDrain = [], rs_log = []\<rparr>"

definition log :: "action \<Rightarrow> rstate \<Rightarrow> rstate" where
  [js_eval]: "log a s = s\<lparr>rs_log := rs_log s @ [a]\<rparr>"

definition is_flowing :: "rstate \<Rightarrow> bool" where
  [js_eval]: "is_flowing s = (rs_flowing s = Some True)"

definition isPaused :: "rstate \<Rightarrow> bool" where
  [js_eval]: "isPaused s = (rs_paused s = Some True \<or> rs_flowing s = Some False)"

text \<open>An event without an argument: the listeners run.\<close>

definition emit_event :: "env \<Rightarrow> string \<Rightarrow> rstate \<Rightarrow> rstate" where
  [js_eval]: "emit_event env ev s = on_event env ev (log (Emit ev) s)"

definition emit_data :: "env \<Rightarrow> nat list \<Rightarrow> rstate \<Rightarrow> rstate" where
  [js_eval]: "emit_data env x s = on_data env x (log (EmitData x) s)"

definition report :: "env \<Rightarrow> js_error \<Rightarrow> rstate \<Rightarrow> rstate" where
  [js_eval]: "report env e s = on_error env e (log (ErrorOrDestroy e) s)"

section \<open>Scheduling\<close>

definition emitReadable :: "rstate \<Rightarrow> rstate" where
  [js_eval]: "emitReadable s =
     (let s1 = s\<lparr>rs_needReadable := False\<rparr>
      in if rs_emittedReadable s1 then s1 else log (NextTick EmitReadable) (s1\<lparr>rs_emittedReadable := True\<rparr>))"

definition maybeReadMore :: "rstate \<Rightarrow> rstate" where
  [js_eval]: "maybeReadMore s =
     (if \<not> rs_readingMore s \<and> rs_constructed s then log (NextTick MaybeReadMore) (s\<lparr>rs_readingMore := True\<rparr>) else s)"

definition endReadable :: "rstate \<Rightarrow> rstate" where
  [js_eval]: "endReadable s =
     (if rs_endEmitted s then s else log (NextTick EndReadable) (s\<lparr>rs_ended := True\<rparr>))"

text \<open>\<open>endReadableNT\<close> up to the destruction of the stream, which follows the event.\<close>

definition endReadableNT :: "env \<Rightarrow> rstate \<Rightarrow> rstate" where
  [js_eval]: "endReadableNT env s =
     (if \<not> rs_errorEmitted s \<and> \<not> rs_closeEmitted s \<and> \<not> rs_endEmitted s \<and> rs_length s = 0
      then emit_event env ''end'' (s\<lparr>rs_endEmitted := True\<rparr>)
      else s)"

section \<open>Adding chunks\<close>

definition chunk_size :: "rstate \<Rightarrow> nat list \<Rightarrow> int" where
  [js_eval]: "chunk_size s chunk = (if rs_objectMode s then 1 else int (length chunk))"

definition addChunk :: "env \<Rightarrow> rstate \<Rightarrow> nat list \<Rightarrow> bool \<Rightarrow> js_error + rstate" where
  [js_eval]: "addChunk env s chunk addToFront =
     bindE
       (if is_flowing s \<and> rs_length s = 0 \<and> \<not> rs_sync s \<and> rs_dataListeners s > 0
        then Inr (emit_data env chunk (s\<lparr>rs_awaitDrain := [], rs_dataEmitted := True\<rparr>))
        else bindE (if addToFront then Inr (bl_unshift (rs_buffer s) chunk) else bl_push (rs_buffer s) chunk) (\<lambda>b.
               let s1 = s\<lparr>rs_length := rs_length s + chunk_size s chunk, rs_buffer := b\<rparr>
               in Inr (if rs_needReadable s1 then emitReadable s1 else s1)))
       (\<lambda>s. Inr (maybeReadMore s))"

text \<open>
  The argument of \<open>push\<close> and \<open>unshift\<close>: \<open>null\<close>, a string, the bytes of a view, or another value. The
  result of the conversion is the chunk with \<open>True\<close> when it is text in the encoding of the stream.
\<close>

datatype chunk_arg = CNull | CStr jstr | CBytes bytes | COther jsval

datatype prepared = PNull | PChunk "nat list" bool | PBad jsval

definition prepare_string :: "(jsval \<Rightarrow> js_error + jstr) \<Rightarrow> (jsval \<Rightarrow> jsnum) \<Rightarrow> (jstr \<Rightarrow> jstr) \<Rightarrow>
    jstr \<Rightarrow> jstr option \<Rightarrow> jstr \<Rightarrow> jstr \<Rightarrow> bool \<Rightarrow> js_error + prepared" where
  [js_eval]: "prepare_string to_string to_number lc defaultEncoding stateEncoding str encoding addToFront =
     (let enc = (if encoding = [] then defaultEncoding else encoding)
      in if stateEncoding = Some enc then Inr (PChunk str True)
         else case (if addToFront then stateEncoding else None) of
                Some e \<Rightarrow>
                  bindE (fromString to_string to_number lc str (JStr enc)) (\<lambda>bs.
                  bindE (buf_toString to_string lc bs (Some (JStr e, None, None))) (\<lambda>t. Inr (PChunk t True)))
              | None \<Rightarrow> bindE (fromString to_string to_number lc str (JStr enc)) (\<lambda>bs. Inr (PChunk bs False)))"

definition prepare_chunk :: "(jsval \<Rightarrow> js_error + jstr) \<Rightarrow> (jsval \<Rightarrow> jsnum) \<Rightarrow> (jstr \<Rightarrow> jstr) \<Rightarrow>
    jstr \<Rightarrow> jstr option \<Rightarrow> chunk_arg \<Rightarrow> jstr \<Rightarrow> bool \<Rightarrow> js_error + prepared" where
  [js_eval]: "prepare_chunk to_string to_number lc defaultEncoding stateEncoding chunk encoding addToFront =
     (case chunk of
        CNull \<Rightarrow> Inr PNull
      | CStr str \<Rightarrow> prepare_string to_string to_number lc defaultEncoding stateEncoding str encoding addToFront
      | CBytes bs \<Rightarrow> Inr (PChunk bs False)
      | COther v \<Rightarrow> if v = JUndefined then Inr (PChunk [] False) else Inr (PBad v))"

text \<open>Whether more data is wanted: the result of \<open>push\<close>.\<close>

definition wants_more :: "rstate \<Rightarrow> bool" where
  [js_eval]: "wants_more s = (\<not> rs_ended s \<and> (rs_length s < rs_highWaterMark s \<or> rs_length s = 0))"

text \<open>\<open>readableAddChunk\<close> for a chunk that is not \<open>null\<close>; in object mode the chunk is taken as it is.\<close>

definition add_data :: "env \<Rightarrow> rstate \<Rightarrow> nat list \<Rightarrow> bool \<Rightarrow> bool \<Rightarrow> js_error + bool \<times> rstate" where
  [js_eval]: "add_data env s chunk is_text addToFront =
     (if rs_objectMode s \<or> length chunk > 0
      then if addToFront
           then if rs_endEmitted s
                then let s1 = report env (PlainError ''ERR_STREAM_UNSHIFT_AFTER_END_EVENT'') s in Inr (wants_more s1, s1)
                else bindE (addChunk env s chunk True) (\<lambda>s1. Inr (wants_more s1, s1))
           else if rs_ended s
           then let s1 = report env (PlainError ''ERR_STREAM_PUSH_AFTER_EOF'') s in Inr (wants_more s1, s1)
           else if rs_destroyed s \<or> rs_errored s then Inr (False, s)
           else let s1 = log (Pushed chunk) (s\<lparr>rs_reading := False\<rparr>)
                in case (if is_text then None else rs_decoder s1) of
                     Some d \<Rightarrow>
                       let (t, d') = write_bytes d chunk; s2 = s1\<lparr>rs_decoder := Some d'\<rparr>
                       in if rs_objectMode s2 \<or> length t \<noteq> 0
                          then bindE (addChunk env s2 t False) (\<lambda>s3. Inr (wants_more s3, s3))
                          else let s3 = maybeReadMore s2 in Inr (wants_more s3, s3)
                   | None \<Rightarrow> bindE (addChunk env s1 chunk False) (\<lambda>s2. Inr (wants_more s2, s2))
      else let s1 = (if addToFront then s else maybeReadMore (log (Pushed chunk) (s\<lparr>rs_reading := False\<rparr>))) in Inr (wants_more s1, s1))"

section \<open>How much to read\<close>

definition MAX_HWM :: int where
  [js_eval]: "MAX_HWM = 0x40000000"

definition smear :: "32 word \<Rightarrow> nat \<Rightarrow> 32 word" where
  [js_eval]: "smear w k = w OR drop_bit k w"

definition computeNewHighWaterMark :: "int \<Rightarrow> js_error + int" where
  [js_eval]: "computeNewHighWaterMark n =
     (if n > MAX_HWM then Inl (ERR_OUT_OF_RANGE ''size'' ''<= 1GiB'' (JNum (int_num n)))
      else if n = MAX_HWM then Inr MAX_HWM
      else Inr (sint (smear (smear (smear (smear (smear (word_of_int (n - 1)) 1) 2) 4) 8) 16) + 1))"

text \<open>The amount asked for is a whole number, or NaN (\<open>None\<close>) for everything.\<close>

definition howMuchToRead :: "int option \<Rightarrow> rstate \<Rightarrow> js_error + int" where
  [js_eval]: "howMuchToRead n s =
     (if (case n of Some k \<Rightarrow> k \<le> 0 | None \<Rightarrow> False) \<or> (rs_length s = 0 \<and> rs_ended s) then Inr 0
      else if rs_objectMode s then Inr 1
      else case n of
             None \<Rightarrow>
               if is_flowing s \<and> rs_length s \<noteq> 0 then bindE (bl_first (rs_buffer s)) (\<lambda>x. Inr (int (length x)))
               else Inr (rs_length s)
           | Some k \<Rightarrow> if k \<le> rs_length s then Inr k else Inr (if rs_ended s then rs_length s else 0))"

definition fromList :: "nat \<Rightarrow> rstate \<Rightarrow> (js_error + nat list option \<times> rstate) option" where
  [js_eval]: "fromList n s =
     (if rs_length s = 0 then Some (Inr (None, s))
      else if rs_objectMode s
      then Some (bindE (bl_shift (rs_buffer s)) (\<lambda>(r, b). Inr (r, s\<lparr>rs_buffer := b\<rparr>)))
      else if n = 0 \<or> int n \<ge> rs_length s
      then map_option (\<lambda>r. bindE r (\<lambda>x. Inr (Some x, s\<lparr>rs_buffer := bl_clear (rs_buffer s)\<rparr>)))
             (if rs_decoder s \<noteq> None then bl_join (rs_buffer s) []
              else if bl_length (rs_buffer s) = 1 then Some (bl_first (rs_buffer s))
              else bl_concat (rs_buffer s) (nat (rs_length s)))
      else map_option (\<lambda>r. bindE r (\<lambda>(x, b). Inr (x, s\<lparr>rs_buffer := b\<rparr>)))
             (bl_consume (rs_buffer s) n (rs_decoder s \<noteq> None)))"

section \<open>Reading\<close>

text \<open>The call of \<open>_read\<close>; the amount to return is computed again when it pushed synchronously.\<close>

definition call_read :: "env \<Rightarrow> int option \<Rightarrow> int \<Rightarrow> rstate \<Rightarrow> js_error + int \<times> rstate" where
  [js_eval]: "call_read env nOrig n s =
     (let doRead = (rs_needReadable s \<or> rs_length s = 0 \<or> rs_length s - n < rs_highWaterMark s)
      in if rs_ended s \<or> rs_reading s \<or> rs_destroyed s \<or> rs_errored s \<or> \<not> rs_constructed s \<or> \<not> doRead then Inr (n, s)
         else let s1 = log CallRead (s\<lparr>rs_reading := True, rs_sync := True, rs_needReadable := rs_needReadable s \<or> rs_length s = 0\<rparr>);
                  (err, s2) = user_read env (rs_highWaterMark s1) s1;
                  s3 = (case err of None \<Rightarrow> s2 | Some e \<Rightarrow> report env e s2);
                  s4 = s3\<lparr>rs_sync := False\<rparr>
              in if rs_reading s4 then Inr (n, s4) else bindE (howMuchToRead nOrig s4) (\<lambda>m. Inr (m, s4)))"

definition finish_read :: "env \<Rightarrow> int option \<Rightarrow> int \<Rightarrow> nat list option \<Rightarrow> rstate \<Rightarrow> nat list option \<times> rstate" where
  [js_eval]: "finish_read env nOrig n ret s =
     (let (n', s1) = (case ret of
            None \<Rightarrow> (0, s\<lparr>rs_needReadable := rs_length s \<le> rs_highWaterMark s\<rparr>)
          | Some _ \<Rightarrow> (n, s\<lparr>rs_length := rs_length s - n, rs_awaitDrain := []\<rparr>));
          s2 = (if rs_length s1 = 0
                then let s' = (if rs_ended s1 then s1 else s1\<lparr>rs_needReadable := True\<rparr>)
                     in if nOrig \<noteq> Some n' \<and> rs_ended s' then endReadable s' else s'
                else s1)
      in (ret, case ret of None \<Rightarrow> s2 | Some x \<Rightarrow> emit_data env x (s2\<lparr>rs_dataEmitted := True\<rparr>)))"

definition read :: "env \<Rightarrow> int option \<Rightarrow> rstate \<Rightarrow> (js_error + nat list option \<times> rstate) option" where
  [js_eval]: "read env n s =
     (case (case n of
              Some k \<Rightarrow> if k > rs_highWaterMark s then bindE (computeNewHighWaterMark k) (\<lambda>h. Inr (s\<lparr>rs_highWaterMark := h\<rparr>)) else Inr s
            | None \<Rightarrow> Inr s) of
        Inl e \<Rightarrow> Some (Inl e)
      | Inr s1 \<Rightarrow>
          let s2 = (if n = Some 0 then s1 else s1\<lparr>rs_emittedReadable := False\<rparr>)
          in if n = Some 0 \<and> rs_needReadable s2 \<and>
                ((if rs_highWaterMark s2 \<noteq> 0 then rs_length s2 \<ge> rs_highWaterMark s2 else rs_length s2 > 0) \<or> rs_ended s2)
             then Some (Inr (None, if rs_length s2 = 0 \<and> rs_ended s2 then endReadable s2 else emitReadable s2))
             else case howMuchToRead n s2 of
                    Inl e \<Rightarrow> Some (Inl e)
                  | Inr m \<Rightarrow>
                      if m = 0 \<and> rs_ended s2
                      then Some (Inr (None, if rs_length s2 = 0 then endReadable s2 else s2))
                      else case call_read env n m s2 of
                             Inl e \<Rightarrow> Some (Inl e)
                           | Inr (k, s3) \<Rightarrow>
                               map_option (\<lambda>r. bindE r (\<lambda>(ret, s4). Inr (finish_read env n k ret s4)))
                                 (if k > 0 then fromList (nat k) s3 else Some (Inr (None, s3))))"

section \<open>Flowing and the end\<close>

partial_function (option) flow :: "env \<Rightarrow> rstate \<Rightarrow> (js_error + rstate) option" where
  "flow env s =
     (if is_flowing s
      then Option.bind (read env None s) (\<lambda>r.
             case r of
               Inl e \<Rightarrow> Some (Inl e)
             | Inr (ret, s1) \<Rightarrow> if ret = None then Some (Inr s1) else flow env s1)
      else Some (Inr s))"

definition emitReadable_NT :: "env \<Rightarrow> rstate \<Rightarrow> (js_error + rstate) option" where
  [js_eval]: "emitReadable_NT env s =
     (let s1 = (if \<not> rs_destroyed s \<and> \<not> rs_errored s \<and> (rs_length s \<noteq> 0 \<or> rs_ended s)
                then (emit_event env ''readable'' s)\<lparr>rs_emittedReadable := False\<rparr> else s)
      in flow env (s1\<lparr>rs_needReadable := \<not> is_flowing s1 \<and> \<not> rs_ended s1 \<and> rs_length s1 \<le> rs_highWaterMark s1\<rparr>))"

definition onEofChunk :: "env \<Rightarrow> rstate \<Rightarrow> (js_error + rstate) option" where
  [js_eval]: "onEofChunk env s =
     (if rs_ended s then Some (Inr s)
      else case (case rs_decoder s of
                   None \<Rightarrow> Inr s
                 | Some d \<Rightarrow>
                     let (t, d') = end_bytes d []; s1 = s\<lparr>rs_decoder := Some d'\<rparr>
                     in if t = [] then Inr s1
                        else bindE (bl_push (rs_buffer s1) t) (\<lambda>b.
                               Inr (s1\<lparr>rs_buffer := b, rs_length := rs_length s1 + chunk_size s1 t\<rparr>))) of
             Inl e \<Rightarrow> Some (Inl e)
           | Inr s1 \<Rightarrow>
               let s2 = s1\<lparr>rs_ended := True\<rparr>
               in if rs_sync s2 then Some (Inr (emitReadable s2))
                  else emitReadable_NT env (s2\<lparr>rs_needReadable := False, rs_emittedReadable := True\<rparr>))"

text \<open>\<open>push\<close> and \<open>unshift\<close> of a stream that is not in object mode.\<close>

definition readableAddChunk :: "(jsval \<Rightarrow> js_error + jstr) \<Rightarrow> (jsval \<Rightarrow> jsnum) \<Rightarrow> (jstr \<Rightarrow> jstr) \<Rightarrow> env \<Rightarrow>
    jstr \<Rightarrow> jstr option \<Rightarrow> rstate \<Rightarrow> chunk_arg \<Rightarrow> jstr \<Rightarrow> bool \<Rightarrow> (js_error + bool \<times> rstate) option" where
  [js_eval]: "readableAddChunk to_string to_number lc env defaultEncoding stateEncoding s chunk encoding addToFront =
     (case prepare_chunk to_string to_number lc defaultEncoding stateEncoding chunk encoding addToFront of
        Inl e \<Rightarrow> Some (Inl e)
      | Inr (PBad v) \<Rightarrow>
          let s1 = report env (ERR_INVALID_ARG_TYPE ''chunk'' ''string, Buffer, TypedArray, DataView'' v) s
          in Some (Inr (wants_more s1, s1))
      | Inr PNull \<Rightarrow>
          map_option (\<lambda>r. bindE r (\<lambda>s1. Inr (wants_more s1, s1))) (onEofChunk env (s\<lparr>rs_reading := False\<rparr>))
      | Inr (PChunk c is_text) \<Rightarrow> Some (add_data env s c is_text addToFront))"

text \<open>\<open>setEncoding\<close> with the new decoder; a chunk that is already text stays as it is.\<close>

fun decode_chunks :: "decoder \<Rightarrow> bool \<Rightarrow> nat list list \<Rightarrow> nat list \<times> decoder" where
  "decode_chunks d is_text [] = ([], d)"
| "decode_chunks d is_text (x # xs) =
     (let (t, d1) = (if is_text then (x, d) else write_bytes d x); (ts, d2) = decode_chunks d1 is_text xs in (t @ ts, d2))"

definition setEncoding :: "decoder \<Rightarrow> rstate \<Rightarrow> (js_error + rstate) option" where
  [js_eval]: "setEncoding d s =
     map_option (\<lambda>xs.
         let (content, d') = decode_chunks d (rs_decoder s \<noteq> None) xs; b = bl_clear (rs_buffer s)
         in bindE (if content = [] then Inr b else bl_push b content) (\<lambda>b'.
              Inr (s\<lparr>rs_decoder := Some d', rs_buffer := b', rs_length := int (length content)\<rparr>)))
       (iterate (bl_store (rs_buffer s)) (bl_head (rs_buffer s)))"

partial_function (option) read_more_loop :: "env \<Rightarrow> rstate \<Rightarrow> (js_error + rstate) option" where
  "read_more_loop env s =
     (if \<not> rs_reading s \<and> \<not> rs_ended s \<and> (rs_length s < rs_highWaterMark s \<or> (is_flowing s \<and> rs_length s = 0))
      then Option.bind (read env (Some 0) s) (\<lambda>r.
             case r of
               Inl e \<Rightarrow> Some (Inl e)
             | Inr (_, s1) \<Rightarrow> if rs_length s1 = rs_length s then Some (Inr s1) else read_more_loop env s1)
      else Some (Inr s))"

definition maybeReadMore_NT :: "env \<Rightarrow> rstate \<Rightarrow> (js_error + rstate) option" where
  [js_eval]: "maybeReadMore_NT env s =
     map_option (\<lambda>r. bindE r (\<lambda>s1. Inr (s1\<lparr>rs_readingMore := False\<rparr>))) (read_more_loop env s)"

definition resume :: "rstate \<Rightarrow> rstate" where
  [js_eval]: "resume s =
     (let s1 = (if is_flowing s then s
                else let s' = s\<lparr>rs_flowing := Some (\<not> rs_readableListening s)\<rparr>
                     in if rs_resumeScheduled s' then s' else log (NextTick Resume) (s'\<lparr>rs_resumeScheduled := True\<rparr>))
      in s1\<lparr>rs_paused := Some False\<rparr>)"

definition read_zero :: "env \<Rightarrow> rstate \<Rightarrow> (js_error + rstate) option" where
  [js_eval]: "read_zero env s = map_option (\<lambda>r. bindE r (\<lambda>(_, s1). Inr s1)) (read env (Some 0) s)"

definition resume_NT :: "env \<Rightarrow> rstate \<Rightarrow> (js_error + rstate) option" where
  [js_eval]: "resume_NT env s =
     Option.bind (if rs_reading s then Some (Inr s) else read_zero env s) (\<lambda>r.
       case r of
         Inl e \<Rightarrow> Some (Inl e)
       | Inr s1 \<Rightarrow>
           Option.bind (flow env (emit_event env ''resume'' (s1\<lparr>rs_resumeScheduled := False\<rparr>))) (\<lambda>r2.
             case r2 of
               Inl e \<Rightarrow> Some (Inl e)
             | Inr s2 \<Rightarrow> if is_flowing s2 \<and> \<not> rs_reading s2 then read_zero env s2 else Some (Inr s2)))"

definition pause :: "env \<Rightarrow> rstate \<Rightarrow> rstate" where
  [js_eval]: "pause env s =
     (let s1 = (if rs_flowing s \<noteq> Some False then emit_event env ''pause'' (s\<lparr>rs_flowing := Some False\<rparr>) else s)
      in s1\<lparr>rs_paused := Some True\<rparr>)"

end
