(* ===== verification/Buffer_List_Laws.thy ===== *)
theory Buffer_List_Laws
  imports Buffer_List Buffer_Ops_Laws
begin

text \<open>
  The pointer structure of \<open>BufferList\<close> refines the list of its chunks: every operation keeps the
  links, the tail and the length consistent and acts on the list as its name says; all loops return.
\<close>

section \<open>Paths\<close>

fun path :: "entry list \<Rightarrow> nat option \<Rightarrow> nat list \<Rightarrow> nat option \<Rightarrow> bool" where
  "path store p [] q = (p = q)"
| "path store p (a # as) q = (p = Some a \<and> a < length store \<and> path store (e_next (store ! a)) as q)"

lemma path_append: "path store p (as @ bs) q = (\<exists>r. path store p as r \<and> path store r bs q)"
  by (induction as arbitrary: p) auto

lemma path_bound: "path store p as q \<Longrightarrow> a \<in> set as \<Longrightarrow> a < length store"
  by (induction as arbitrary: p) auto

lemma path_snoc_store: "path store p as q \<Longrightarrow> path (store @ [e]) p as q"
proof (induction as arbitrary: p)
  case (Cons a as)
  then have "path (store @ [e]) (e_next (store ! a)) as q" by simp
  then show ?case using Cons.prems by (simp add: nth_append)
qed simp

lemma path_update_notin: "a \<notin> set as \<Longrightarrow> path (store[a := e]) p as q = path store p as q"
  by (induction as arbitrary: p) auto

lemma next_update_data:
  "e_next e = e_next (store ! a) \<Longrightarrow> e_next (store[a := e] ! i) = e_next (store ! i)"
  by (cases "a < length store"; cases "i = a") (simp_all add: list_update_beyond)

lemma path_update_data:
  assumes "e_next e = e_next (store ! a)"
  shows "path (store[a := e]) p as q = path store p as q"
  by (induction as arbitrary: p) (simp_all add: next_update_data [OF assms])

lemma path_None: "path store None as q = (as = [] \<and> q = None)"
  by (cases as) auto

abbreviation datas :: "buffer_list \<Rightarrow> nat list \<Rightarrow> nat list list" where
  "datas b as \<equiv> map (\<lambda>a. e_data (bl_store b ! a)) as"

definition rep :: "buffer_list \<Rightarrow> nat list \<Rightarrow> bool" where
  "rep b as = (path (bl_store b) (bl_head b) as None \<and> distinct as \<and>
     bl_tail b = (if as = [] then None else Some (last as)) \<and> bl_length b = int (length as))"

definition represents :: "buffer_list \<Rightarrow> nat list list \<Rightarrow> bool" where
  "represents b xs = (\<exists>as. rep b as \<and> xs = datas b as)"

lemma representsE:
  assumes "represents b xs"
  obtains as where "rep b as" and "xs = datas b as"
  using assms by (auto simp: represents_def)

lemma empty_represents: "represents empty_list []"
  by (auto simp: represents_def rep_def empty_list_def)

lemma represents_length: "represents b xs \<Longrightarrow> bl_length b = int (length xs)"
  by (auto simp: represents_def rep_def)

lemma represents_head: "represents b xs \<Longrightarrow> bl_head b = None \<longleftrightarrow> xs = []"
  by (cases "bl_head b") (auto simp: represents_def rep_def path_None elim: path.elims)

section \<open>Operations\<close>

lemma push_represents:
  assumes "represents b xs"
  shows "\<exists>b'. bl_push b v = Inr b' \<and> represents b' (xs @ [v])"
proof -
  obtain as where r: "rep b as" and xs: "xs = datas b as" using assms by (rule representsE)
  define n where "n = length (bl_store b)"
  have new: "n \<notin> set as" using r path_bound n_def by (fastforce simp: rep_def)
  have bound: "\<And>a. a \<in> set as \<Longrightarrow> a < n" using r path_bound by (auto simp: rep_def n_def)
  show ?thesis
  proof (cases "as = []")
    case True
    then have "bl_push b v = Inr (b\<lparr>bl_store := bl_store b @ [\<lparr>e_data = v, e_next = None\<rparr>],
        bl_head := Some n, bl_tail := Some n, bl_length := bl_length b + 1\<rparr>)"
      using r by (simp add: bl_push_def rep_def n_def Let_def)
    moreover have "rep (b\<lparr>bl_store := bl_store b @ [\<lparr>e_data = v, e_next = None\<rparr>],
        bl_head := Some n, bl_tail := Some n, bl_length := bl_length b + 1\<rparr>) [n]"
      using r True by (simp add: rep_def n_def)
    ultimately show ?thesis
      using xs True unfolding represents_def
      by (intro exI [of _ "b\<lparr>bl_store := bl_store b @ [\<lparr>e_data = v, e_next = None\<rparr>],
        bl_head := Some n, bl_tail := Some n, bl_length := bl_length b + 1\<rparr>"] conjI exI [of _ "[n]"]) (simp_all add: n_def)
  next
    case False
    then obtain bs t where as: "as = bs @ [t]" by (metis rev_exhaust)
    define store where "store = bl_store b @ [\<lparr>e_data = v, e_next = None\<rparr>]"
    define b' where "b' = b\<lparr>bl_store := store[t := (store ! t)\<lparr>e_next := Some n\<rparr>], bl_tail := Some n, bl_length := bl_length b + 1\<rparr>"
    have t: "t < n" "t \<notin> set bs" using bound r as by (auto simp: rep_def)
    have "path (bl_store b) (bl_head b) bs (Some t)" using r as by (auto simp: rep_def path_append)
    then have "path store (bl_head b) bs (Some t)" unfolding store_def by (rule path_snoc_store)
    then have "path (bl_store b') (bl_head b') bs (Some t)" using t by (simp add: b'_def path_update_notin)
    then have "path (bl_store b') (bl_head b') (as @ [n]) None"
      using t as by (auto simp: path_append b'_def store_def n_def nth_append)
    then have "rep b' (as @ [n])"
      using r new by (simp add: rep_def b'_def)
    moreover have "datas b' (as @ [n]) = datas b as @ [v]"
      using bound t by (auto simp: b'_def store_def n_def nth_append nth_list_update)
    moreover have "bl_push b v = Inr b'"
      using r False as by (simp add: bl_push_def rep_def b'_def store_def n_def Let_def)
    ultimately show ?thesis unfolding represents_def xs by metis
  qed
qed

lemma unshift_represents:
  assumes "represents b xs"
  shows "represents (bl_unshift b v) (v # xs)"
proof -
  obtain as where r: "rep b as" and xs: "xs = datas b as" using assms by (rule representsE)
  define n where "n = length (bl_store b)"
  have bound: "\<And>a. a \<in> set as \<Longrightarrow> a < n" using r path_bound by (auto simp: rep_def n_def)
  have "rep (bl_unshift b v) (n # as)"
    using r bound path_snoc_store [of "bl_store b" "bl_head b" as None]
    by (auto simp: rep_def bl_unshift_def n_def Let_def)
  moreover have "datas (bl_unshift b v) (n # as) = v # datas b as"
    using bound by (auto simp: bl_unshift_def n_def nth_append Let_def)
  ultimately show ?thesis unfolding represents_def xs by metis
qed

lemma shift_represents:
  "represents b [] \<Longrightarrow> bl_shift b = Inr (None, b)"
  "represents b (x # xs) \<Longrightarrow> \<exists>b'. bl_shift b = Inr (Some x, b') \<and> represents b' xs"
proof -
  show "represents b [] \<Longrightarrow> bl_shift b = Inr (None, b)"
    by (simp add: bl_shift_def represents_def rep_def)
  assume "represents b (x # xs)"
  then obtain as where r: "rep b as" and xs: "x # xs = datas b as" by (rule representsE)
  then obtain a as' where as: "as = a # as'" by (cases as) auto
  define b' where "b' = (if as' = [] then b\<lparr>bl_head := None, bl_tail := None, bl_length := 0\<rparr>
    else b\<lparr>bl_head := e_next (bl_store b ! a), bl_length := bl_length b - 1\<rparr>)"
  have "bl_shift b = Inr (Some x, b')"
    using r xs as by (auto simp: bl_shift_def rep_def b'_def Let_def)
  moreover have "rep b' as'" using r as by (auto simp: rep_def b'_def)
  moreover have "datas b' as' = xs" using xs as by (auto simp: b'_def)
  ultimately show "\<exists>b'. bl_shift b = Inr (Some x, b') \<and> represents b' xs" by (auto simp: represents_def)
qed

lemma clear_represents: "represents (bl_clear b) []"
  by (auto simp: represents_def rep_def bl_clear_def)

lemma first_represents: "represents b (x # xs) \<Longrightarrow> bl_first b = Inr x"
  by (erule representsE, rename_tac as, case_tac as) (auto simp: rep_def bl_first_def)

lemma iterate_path: "path store p as None \<Longrightarrow> iterate store p = Some (map (\<lambda>a. e_data (store ! a)) as)"
  by (induction as arbitrary: p) (auto simp: iterate.simps)

lemma iterate_represents: "represents b xs \<Longrightarrow> iterate (bl_store b) (bl_head b) = Some xs"
  by (auto simp: represents_def rep_def iterate_path)

lemma join_loop_path: "path store p as None \<Longrightarrow>
    join_loop store p s ret = Some (ret @ concat (map (\<lambda>a. s @ e_data (store ! a)) as))"
  by (induction as arbitrary: p ret) (auto simp: join_loop.simps)

lemma join_represents:
  "represents b [] \<Longrightarrow> bl_join b s = Some (Inr [])"
  "represents b (x # xs) \<Longrightarrow> bl_join b s = Some (Inr (x @ concat (map ((@) s) xs)))"
proof -
  show "represents b [] \<Longrightarrow> bl_join b s = Some (Inr [])"
    by (simp add: bl_join_def represents_def rep_def)
  assume "represents b (x # xs)"
  then obtain a as where "rep b (a # as)" "x # xs = datas b (a # as)"
    by (elim representsE, rename_tac as, case_tac as) auto
  then show "bl_join b s = Some (Inr (x @ concat (map ((@) s) xs)))"
    by (auto simp: bl_join_def rep_def join_loop_path comp_def)
qed

lemma join_empty: "represents b xs \<Longrightarrow> bl_join b [] = Some (Inr (concat xs))"
  by (cases xs) (simp_all add: join_represents append_Nil [abs_def])

lemma unsafe_bytes_ok: "n < 2147483647 \<Longrightarrow> unsafe_bytes n = Inr (replicate n 0)"
  by (simp add: unsafe_bytes_def assertSize_nat checked_nat)

lemma concat_chunks_path:
  assumes "path store p as None" and "i + length (concat (map (\<lambda>a. e_data (store ! a)) as)) \<le> length ret"
  shows "concat_chunks store p ret i =
    Some (Inr (take i ret @ concat (map (\<lambda>a. e_data (store ! a)) as) @
      drop (i + length (concat (map (\<lambda>a. e_data (store ! a)) as))) ret))"
  using assms
proof (induction as arbitrary: p ret i)
  case Nil
  then show ?case by (simp add: concat_chunks.simps)
next
  case (Cons a as)
  define x where "x = e_data (store ! a)"
  define ret' where "ret' = take i ret @ x @ drop (i + length x) ret"
  have fits: "i + length x \<le> length ret" using Cons.prems(2) by (simp add: x_def)
  have "concat_chunks store p ret i = concat_chunks store (e_next (store ! a)) ret' (i + length x)"
    using Cons.prems(1) fits by (subst concat_chunks.simps) (simp add: set_at_def x_def ret'_def)
  moreover have "take (i + length x) ret' = take i ret @ x" using fits by (simp add: ret'_def)
  moreover have "drop (i + length x + k) ret' = drop (i + length x + k) ret" for k
    using fits by (simp add: ret'_def add.commute)
  moreover have "length ret' = length ret" using fits by (simp add: ret'_def)
  ultimately show ?case
    using Cons.IH [of "e_next (store ! a)" "i + length x" ret'] Cons.prems by (simp add: x_def add.assoc)
qed

lemma concat_represents:
  assumes "represents b xs" and "n = length (concat xs)" and "n < 2147483647"
  shows "bl_concat b n = Some (Inr (concat xs))"
proof -
  obtain as where r: "rep b as" and xs: "xs = datas b as" using assms(1) by (rule representsE)
  show ?thesis
  proof (cases "as = []")
    case False
    have "concat_chunks (bl_store b) (bl_head b) (replicate n 0) 0 = Some (Inr (concat xs))"
      using concat_chunks_path [of "bl_store b" "bl_head b" as 0 "replicate n 0"] r xs assms(2)
      by (simp add: rep_def)
    moreover have "n mod 2 ^ 32 = n" using assms(3) by simp
    ultimately show ?thesis
      using False r unsafe_bytes_ok [OF assms(3)] unfolding bl_concat_def by (simp add: rep_def)
  qed (use r xs assms in \<open>simp add: bl_concat_def rep_def\<close>)
qed

section \<open>Partial reads\<close>

text \<open>What is left of a list of chunks when the first \<open>n\<close> units are consumed.\<close>

fun cut :: "nat \<Rightarrow> nat list list \<Rightarrow> nat list list" where
  "cut n [] = []"
| "cut n (x # xs) = (if n > length x then cut (n - length x) xs else if n = length x then xs else drop n x # xs)"

lemma concat_cut: "n \<le> length (concat xs) \<Longrightarrow> concat (cut n xs) = drop n (concat xs)"
  by (induction n xs rule: cut.induct) auto

lemma sum_cut: "n \<le> length (concat xs) \<Longrightarrow> length (concat (cut n xs)) = length (concat xs) - n"
  by (simp add: concat_cut del: length_concat)

lemma rep_cut_entry:
  assumes "rep b as" and "k < length as" and "m \<le> length (datas b as ! k)"
    and "j = (if m = length (datas b as ! k) then k + 1 else k)"
  shows "rep ((cut_entry b (as ! k) m)\<lparr>bl_length := bl_length b - int j\<rparr>) (drop j as) \<and>
    datas (cut_entry b (as ! k) m) (drop j as) =
      (if m = length (datas b as ! k) then drop (k + 1) (datas b as)
       else drop m (datas b as ! k) # drop (k + 1) (datas b as))"
proof -
  have as: "as = take k as @ as ! k # drop (k + 1) as" using assms(2) by (simp add: id_take_nth_drop)
  have p: "path (bl_store b) (Some (as ! k)) (as ! k # drop (k + 1) as) None" and d: "distinct as"
    using assms(1) as by (auto simp: rep_def) (metis Suc_eq_plus1 path.simps(2) path_append)+
  show ?thesis
  proof (cases "m = length (datas b as ! k)")
    case True
    then have m: "m = length (e_data (bl_store b ! (as ! k)))" using assms(2) by simp
    have len: "bl_length b - int j = int (length (drop j as))" using assms True by (simp add: rep_def)
    have tail: "drop (k + 1) as \<noteq> [] \<Longrightarrow> last (drop (k + 1) as) = last as" by (simp add: last_drop)
    show ?thesis
      using p d True m len tail assms(1,2,4)
      by (cases "e_next (bl_store b ! (as ! k))") (auto simp: cut_entry_def rep_def path_None drop_map Let_def)
  next
    case False
    define a where "a = as ! k"
    have m: "m \<noteq> length (e_data (bl_store b ! a))" using assms(2) False by (simp add: a_def)
    have eq: "cut_entry b a m = b\<lparr>bl_head := Some a, bl_store := (bl_store b)[a := (bl_store b ! a)\<lparr>e_data := drop m (e_data (bl_store b ! a))\<rparr>]\<rparr>"
      using m by (simp add: cut_entry_def Let_def)
    have drop: "drop k as = a # drop (k + 1) as" using assms(2) by (simp add: a_def Cons_nth_drop_Suc)
    have fresh: "a \<notin> set (drop (k + 1) as)" "a < length (bl_store b)"
      using d drop p by (metis a_def distinct.simps(2) distinct_drop, auto simp: a_def)
    have "path (bl_store (cut_entry b a m)) (Some a) (drop k as) None"
      using p path_update_data [of "(bl_store b ! a)\<lparr>e_data := drop m (e_data (bl_store b ! a))\<rparr>" "bl_store b" a
          "Some a" "drop k as" None] unfolding drop eq a_def [symmetric] by simp
    moreover have "datas (cut_entry b a m) (drop k as) = drop m (datas b as ! k) # drop (k + 1) (datas b as)"
      using fresh assms(2) by (auto simp: drop eq drop_map nth_list_update a_def [symmetric])
    ultimately show ?thesis
      using False assms(1,2,4) by (auto simp: rep_def a_def [symmetric] eq last_drop)
  qed
qed

lemma string_loop_path:
  assumes "path (bl_store b) (Some a) as None" and "n \<le> length (concat (datas b as))"
  shows "\<exists>k m. k < length as \<and> m \<le> length (datas b as ! k) \<and>
    string_loop b a n c ret = Some (ret @ take n (concat (datas b as)), cut_entry b (as ! k) m,
      c + (if m = length (datas b as ! k) then k + 1 else k)) \<and>
    cut n (datas b as) = (if m = length (datas b as ! k) then drop (k + 1) (datas b as)
       else drop m (datas b as ! k) # drop (k + 1) (datas b as))"
  using assms
proof (induction as arbitrary: a n c ret)
  case (Cons a' as)
  then have a: "a' = a" and p: "path (bl_store b) (e_next (bl_store b ! a)) as None" by auto
  define x where "x = e_data (bl_store b ! a)"
  show ?case
  proof (cases "n > length x")
    case True
    then have "as \<noteq> []" using Cons.prems(2) by (auto simp: x_def a)
    then obtain a1 where nx: "e_next (bl_store b ! a) = Some a1" using p by (cases as) auto
    have n: "n - length x \<le> length (concat (datas b as))" using Cons.prems(2) by (simp add: x_def a)
    obtain k m where km: "k < length as" "m \<le> length (datas b as ! k)"
      "string_loop b a1 (n - length x) (c + 1) (ret @ x) = Some ((ret @ x) @ take (n - length x) (concat (datas b as)),
        cut_entry b (as ! k) m, c + 1 + (if m = length (datas b as ! k) then k + 1 else k))"
      "cut (n - length x) (datas b as) = (if m = length (datas b as ! k) then drop (k + 1) (datas b as)
       else drop m (datas b as ! k) # drop (k + 1) (datas b as))"
      using Cons.IH [OF p [unfolded nx] n] by blast
    have "string_loop b a n c ret = string_loop b a1 (n - length x) (c + 1) (ret @ x)"
      using True nx by (subst string_loop.simps) (simp add: x_def Let_def)
    then show ?thesis
      using km True by (intro exI [of _ "k + 1"] exI [of _ m]) (simp add: a x_def)
  next
    case False
    then have "string_loop b a n c ret = Some (ret @ take n x, cut_entry b a n, if n = length x then c + 1 else c)"
      by (subst string_loop.simps) (simp add: x_def Let_def)
    then show ?thesis
      using False by (intro exI [of _ 0] exI [of _ n]) (auto simp: a x_def)
  qed
qed simp

lemma buffer_loop_path:
  assumes "path (bl_store b) (Some a) as None" and "n \<le> length (concat (datas b as))"
    and "n \<le> retLen" and "length ret = retLen"
  shows "\<exists>k m. k < length as \<and> m \<le> length (datas b as ! k) \<and>
    buffer_loop b a n retLen c ret = Some (Inr (take (retLen - n) ret @ take n (concat (datas b as)), cut_entry b (as ! k) m,
      c + (if m = length (datas b as ! k) then k + 1 else k))) \<and>
    cut n (datas b as) = (if m = length (datas b as ! k) then drop (k + 1) (datas b as)
       else drop m (datas b as ! k) # drop (k + 1) (datas b as))"
  using assms
proof (induction as arbitrary: a n c ret)
  case (Cons a' as)
  then have a: "a' = a" and p: "path (bl_store b) (e_next (bl_store b ! a)) as None" by auto
  define x where "x = e_data (bl_store b ! a)"
  show ?case
  proof (cases "n > length x")
    case True
    then have "as \<noteq> []" using Cons.prems(2) by (auto simp: x_def a)
    then obtain a1 where nx: "e_next (bl_store b ! a) = Some a1" using p by (cases as) auto
    define ret' where "ret' = take (retLen - n) ret @ x @ drop (retLen - n + length x) ret"
    have set: "set_at ret x (retLen - n) = Inr ret'" "length ret' = retLen"
      "take (retLen - (n - length x)) ret' = take (retLen - n) ret @ x"
      using True Cons.prems(3,4) by (auto simp: set_at_def ret'_def)
    have n: "n - length x \<le> length (concat (datas b as))" "n - length x \<le> retLen"
      using Cons.prems(2,3) by (simp_all add: x_def a)
    obtain k m where km: "k < length as" "m \<le> length (datas b as ! k)"
      "buffer_loop b a1 (n - length x) retLen (c + 1) ret' =
        Some (Inr ((take (retLen - n) ret @ x) @ take (n - length x) (concat (datas b as)),
        cut_entry b (as ! k) m, c + 1 + (if m = length (datas b as ! k) then k + 1 else k)))"
      "cut (n - length x) (datas b as) = (if m = length (datas b as ! k) then drop (k + 1) (datas b as)
       else drop m (datas b as ! k) # drop (k + 1) (datas b as))"
      using Cons.IH [OF p [unfolded nx] n set(2)] unfolding set(3) by blast
    have "buffer_loop b a n retLen c ret = buffer_loop b a1 (n - length x) retLen (c + 1) ret'"
      using True nx set(1) by (subst buffer_loop.simps) (simp add: x_def Let_def)
    then show ?thesis
      using km True by (intro exI [of _ "k + 1"] exI [of _ m]) (simp add: a x_def)
  next
    case False
    then have "buffer_loop b a n retLen c ret = Some (Inr (take (retLen - n) ret @ take n x, cut_entry b a n,
        if n = length x then c + 1 else c))"
      using Cons.prems(3,4) by (subst buffer_loop.simps) (simp add: x_def set_at_def Let_def)
    then show ?thesis
      using False by (intro exI [of _ 0] exI [of _ n]) (auto simp: a x_def)
  qed
qed simp

lemma rep_head:
  assumes "rep b as" and "as \<noteq> []"
  obtains a where "bl_head b = Some a" and "path (bl_store b) (Some a) as None"
  using assms by (cases as) (auto simp: rep_def)

lemma bl_length_cut [simp]: "bl_length (cut_entry b a n) = bl_length b"
  by (simp add: cut_entry_def Let_def split: option.split)

lemma getString_represents:
  assumes "represents b xs" and "xs \<noteq> []" and "n \<le> length (concat xs)"
  shows "\<exists>b'. getString b n = Some (Inr (take n (concat xs), b')) \<and> represents b' (cut n xs)"
proof -
  obtain as where r: "rep b as" and xs: "xs = datas b as" using assms(1) by (rule representsE)
  with assms(2) obtain a where a: "bl_head b = Some a" "path (bl_store b) (Some a) as None"
    using rep_head [OF r] by auto
  obtain k m where km: "k < length as" "m \<le> length (datas b as ! k)"
    "string_loop b a n 0 [] = Some (take n (concat xs), cut_entry b (as ! k) m, if m = length (datas b as ! k) then k + 1 else k)"
    "cut n xs = (if m = length (datas b as ! k) then drop (k + 1) (datas b as)
       else drop m (datas b as ! k) # drop (k + 1) (datas b as))"
    using string_loop_path [OF a(2), of n 0 "[]"] assms(3) unfolding xs by auto
  show ?thesis
    using rep_cut_entry [OF r km(1,2) refl] km(3,4) a(1)
    unfolding getString_def represents_def by (fastforce simp: xs)
qed

lemma getBuffer_represents:
  assumes "represents b xs" and "xs \<noteq> []" and "n \<le> length (concat xs)" and "n < 2147483647"
  shows "\<exists>b'. getBuffer b n = Some (Inr (take n (concat xs), b')) \<and> represents b' (cut n xs)"
proof -
  obtain as where r: "rep b as" and xs: "xs = datas b as" using assms(1) by (rule representsE)
  with assms(2) obtain a where a: "bl_head b = Some a" "path (bl_store b) (Some a) as None"
    using rep_head [OF r] by auto
  obtain k m where km: "k < length as" "m \<le> length (datas b as ! k)"
    "buffer_loop b a n n 0 (replicate n 0) = Some (Inr (take n (concat xs), cut_entry b (as ! k) m,
       if m = length (datas b as ! k) then k + 1 else k))"
    "cut n xs = (if m = length (datas b as ! k) then drop (k + 1) (datas b as)
       else drop m (datas b as ! k) # drop (k + 1) (datas b as))"
    using buffer_loop_path [OF a(2), of n n "replicate n 0" 0] assms(3) unfolding xs by auto
  show ?thesis
    using rep_cut_entry [OF r km(1,2) refl] km(3,4) a(1) unsafe_bytes_ok [OF assms(4)]
    unfolding getBuffer_def represents_def by (fastforce simp: xs)
qed

lemma consume_represents:
  assumes "represents b xs" and "xs \<noteq> []" and "n \<le> length (concat xs)" and "hasStrings \<or> n < 2147483647"
  shows "\<exists>b'. bl_consume b n hasStrings = Some (Inr (Some (take n (concat xs)), b')) \<and> represents b' (cut n xs)"
proof -
  obtain as where r: "rep b as" and xs: "xs = datas b as" using assms(1) by (rule representsE)
  with assms(2) obtain a as' where as: "as = a # as'" and a: "bl_head b = Some a"
    using rep_head [OF r] by (cases as) (auto simp: rep_def)
  define x where "x = e_data (bl_store b ! a)"
  have xs': "xs = x # datas b as'" using xs as by (simp add: x_def)
  consider "n < length x" | "n = length x" | "n > length x" by linarith
  then show ?thesis
  proof cases
    case 1
    define b' where "b' = b\<lparr>bl_store := (bl_store b)[a := (bl_store b ! a)\<lparr>e_data := drop n x\<rparr>]\<rparr>"
    have "bl_consume b n hasStrings = Some (Inr (Some (take n x), b'))"
      using 1 a by (simp add: bl_consume_def x_def b'_def Let_def)
    moreover have "rep b' as" using r by (simp add: rep_def b'_def path_update_data)
    moreover have "datas b' as = drop n x # datas b as'"
      using r as by (auto simp: rep_def b'_def nth_list_update)
    ultimately show ?thesis using 1 xs' unfolding represents_def by auto
  next
    case 2
    then show ?thesis
      using a shift_represents(2) [OF assms(1) [unfolded xs']] xs' by (auto simp: bl_consume_def x_def Let_def)
  next
    case 3
    then have "bl_consume b n hasStrings =
        map_option (\<lambda>r. bindE r (\<lambda>(ret, b'). Inr (Some ret, b'))) (if hasStrings then getString b n else getBuffer b n)"
      using a by (simp add: bl_consume_def x_def Let_def)
    then show ?thesis
      using getString_represents [OF assms(1-3)] getBuffer_represents [OF assms(1-3)] assms(4) by (cases hasStrings) auto
  qed
qed

text \<open>
  Asking for more than is buffered is not checked: the length becomes 0 while the head stays, so a
  later \<open>shift\<close> returns nothing although the chunk is still linked.
\<close>

lemma getString_too_much:
  "getString \<lparr>bl_store = [\<lparr>e_data = [1], e_next = None\<rparr>], bl_head = Some 0, bl_tail = Some 0, bl_length = 1\<rparr> 5 =
   Some (Inr ([1], \<lparr>bl_store = [\<lparr>e_data = [1], e_next = None\<rparr>], bl_head = Some 0, bl_tail = Some 0, bl_length = 0\<rparr>))"
  by (simp add: getString_def string_loop.simps Let_def)

section \<open>Refinement\<close>

text \<open>The operations of the list, and what they do on the list of chunks; a consume must find enough.\<close>

datatype list_op = LPush "nat list" | LUnshift "nat list" | LShift | LConsume nat bool | LClear

definition list_step :: "list_op \<Rightarrow> buffer_list \<Rightarrow> (js_error + nat list option \<times> buffer_list) option" where
  [js_eval]: "list_step op b =
     (case op of
        LPush v \<Rightarrow> Some (bindE (bl_push b v) (\<lambda>b'. Inr (None, b')))
      | LUnshift v \<Rightarrow> Some (Inr (None, bl_unshift b v))
      | LShift \<Rightarrow> Some (bl_shift b)
      | LConsume n hasStrings \<Rightarrow> bl_consume b n hasStrings
      | LClear \<Rightarrow> Some (Inr (None, bl_clear b)))"

fun list_run :: "list_op list \<Rightarrow> buffer_list \<Rightarrow> (js_error + nat list option list \<times> buffer_list) option" where
  "list_run [] b = Some (Inr ([], b))"
| "list_run (op # ops) b =
     Option.bind (list_step op b) (\<lambda>r. case r of Inl e \<Rightarrow> Some (Inl e) | Inr (x, b1) \<Rightarrow>
       map_option (\<lambda>r. bindE r (\<lambda>(out, b2). Inr (x # out, b2))) (list_run ops b1))"

definition abstract_step :: "list_op \<Rightarrow> nat list list \<Rightarrow> (nat list option \<times> nat list list) option" where
  [js_eval]: "abstract_step op xs =
     (case op of
        LPush v \<Rightarrow> Some (None, xs @ [v])
      | LUnshift v \<Rightarrow> Some (None, v # xs)
      | LShift \<Rightarrow> (case xs of [] \<Rightarrow> Some (None, []) | x # xs' \<Rightarrow> Some (Some x, xs'))
      | LConsume n hasStrings \<Rightarrow>
          if xs \<noteq> [] \<and> n \<le> length (concat xs) \<and> (hasStrings \<or> n < 2147483647)
          then Some (Some (take n (concat xs)), cut n xs) else None
      | LClear \<Rightarrow> Some (None, []))"

fun abstract_run :: "list_op list \<Rightarrow> nat list list \<Rightarrow> (nat list option list \<times> nat list list) option" where
  "abstract_run [] xs = Some ([], xs)"
| "abstract_run (op # ops) xs =
     Option.bind (abstract_step op xs) (\<lambda>(x, xs1). map_option (\<lambda>(out, xs2). (x # out, xs2)) (abstract_run ops xs1))"

lemma list_step_refines:
  assumes "represents b xs" and "abstract_step op xs = Some (x, xs')"
  shows "\<exists>b'. list_step op b = Some (Inr (x, b')) \<and> represents b' xs'"
proof (cases op)
  case (LPush v)
  then show ?thesis
    using push_represents [OF assms(1), of v] assms(2) by (auto simp: list_step_def abstract_step_def)
next
  case (LUnshift v)
  then show ?thesis
    using unshift_represents [OF assms(1), of v] assms(2) by (auto simp: list_step_def abstract_step_def)
next
  case LShift
  then show ?thesis
    using shift_represents(1) [of b] shift_represents(2) [of b] assms
    by (cases xs) (auto simp: list_step_def abstract_step_def)
next
  case (LConsume n hasStrings)
  then show ?thesis
    using consume_represents [OF assms(1), of n hasStrings] assms(2)
    by (auto simp: list_step_def abstract_step_def split: if_splits)
next
  case LClear
  then show ?thesis
    using clear_represents [of b] assms(2) by (auto simp: list_step_def abstract_step_def)
qed



text \<open>
  C23: On every list the operations can build, the loops that follow the pointers return: the
  iterator yields the chunks in order, \<open>join\<close> of the strings is their concatenation, and \<open>concat\<close> into
  a buffer of the whole size copies all bytes.
\<close>
theorem buffer_list_loops:
  assumes "represents b xs" and "length (concat xs) < 2147483647"
  shows "iterate (bl_store b) (bl_head b) = Some xs \<and> bl_join b [] = Some (Inr (concat xs)) \<and>
    bl_concat b (length (concat xs)) = Some (Inr (concat xs))"
  using iterate_represents [OF assms(1)] join_empty [OF assms(1)] concat_represents [OF assms(1) refl assms(2)] by simp

theorem buffer_list_loops_witness:
  "let b = \<lparr>bl_store = [\<lparr>e_data = [3], e_next = None\<rparr>, \<lparr>e_data = [1, 2], e_next = Some 0\<rparr>], bl_head = Some 1, bl_tail = Some 0, bl_length = 2\<rparr>
   in iterate (bl_store b) (bl_head b) = Some [[1, 2], [3]] \<and> bl_join b [] = Some (Inr [1, 2, 3]) \<and>
      bl_concat b 3 = Some (Inr [1, 2, 3])"
proof -
  let ?b = "\<lparr>bl_store = [\<lparr>e_data = [3], e_next = None\<rparr>, \<lparr>e_data = [1, 2], e_next = Some 0\<rparr>], bl_head = Some 1, bl_tail = Some 0, bl_length = 2\<rparr>"
  have "rep ?b [1, 0]" by (simp add: rep_def)
  then have "represents ?b [[1, 2], [3]]" by (auto simp: represents_def)
  from buffer_list_loops [OF this] show ?thesis by (simp add: numeral_3_eq_3)
qed

end
