(* ===== verification/Readable_Laws.thy ===== *)
theory Readable_Laws
  imports Readable Buffer_List_Laws String_Decoder_Laws
begin

unbundle bit_operations_syntax

text \<open>
  Laws of the readable streams. The data a stream has delivered, what it has buffered and what its
  decoder holds back are together always the text of the chunks taken in; every operation keeps this
  (\<open>effect\<close>), with a source that pushes synchronously and listeners that read or pause; every loop
  returns, and after the end of the input the flowing mode delivers everything.
\<close>

section \<open>The new high water mark\<close>

lemma bit_smears:
  "bit (smear (smear (smear (smear (smear w 1) 2) 4) 8) 16) i = (\<exists>j\<le>31. bit w (i + j))"
proof -
  have step: "bit (smear v k) i = (\<exists>j\<le>p. bit w (i + j))"
    if "\<And>i. bit v i = (\<exists>j\<le>m. bit w (i + j))" and "k \<le> m + 1" and p: "p = m + k" for v :: "32 word" and k m i p
  proof -
    have "bit (smear v k) i = ((\<exists>j\<le>m. bit w (i + j)) \<or> (\<exists>j\<le>m. bit w (i + k + j)))"
      by (simp add: smear_def bit_or_iff bit_drop_bit_eq that(1) add.commute)
    also have "(\<exists>j\<le>m. bit w (i + k + j)) = (\<exists>j. k \<le> j \<and> j \<le> m + k \<and> bit w (i + j))"
    proof
      assume "\<exists>j\<le>m. bit w (i + k + j)"
      then obtain j where "j \<le> m" "bit w (i + k + j)" by blast
      then show "\<exists>j. k \<le> j \<and> j \<le> m + k \<and> bit w (i + j)"
        by (intro exI [of _ "k + j"]) (simp add: add.assoc)
    next
      assume "\<exists>j. k \<le> j \<and> j \<le> m + k \<and> bit w (i + j)"
      then obtain j where "k \<le> j" "j \<le> m + k" "bit w (i + j)" by blast
      then show "\<exists>j\<le>m. bit w (i + k + j)" by (intro exI [of _ "j - k"]) simp
    qed
    also have "((\<exists>j\<le>m. bit w (i + j)) \<or> (\<exists>j. k \<le> j \<and> j \<le> m + k \<and> bit w (i + j))) = (\<exists>j\<le>m + k. bit w (i + j))"
      using that(2) by (metis (no_types, lifting) Suc_eq_plus1 le_trans not_less_eq_eq trans_le_add1)
    finally show ?thesis by (simp only: p)
  qed
  have s0: "bit w i = (\<exists>j\<le>0. bit w (i + j))" for i by simp
  have s1: "bit (smear w 1) i = (\<exists>j\<le>1. bit w (i + j))" for i by (rule step [OF s0]) simp_all
  have s2: "bit (smear (smear w 1) 2) i = (\<exists>j\<le>3. bit w (i + j))" for i by (rule step [OF s1]) simp_all
  have s3: "bit (smear (smear (smear w 1) 2) 4) i = (\<exists>j\<le>7. bit w (i + j))" for i by (rule step [OF s2]) simp_all
  have s4: "bit (smear (smear (smear (smear w 1) 2) 4) 8) i = (\<exists>j\<le>15. bit w (i + j))" for i by (rule step [OF s3]) simp_all
  show ?thesis by (rule step [OF s4]) simp_all
qed

lemma power_between: "0 < (n::nat) \<Longrightarrow> \<exists>k. 2 ^ k \<le> n \<and> n < 2 ^ (k + 1)"
proof (induction n rule: less_induct)
  case (less n)
  show ?case
  proof (cases "n = 1")
    case False
    then obtain k where "2 ^ k \<le> n div 2" "n div 2 < 2 ^ (k + 1)" using less.IH [of "n div 2"] less.prems by auto
    then have "2 ^ (k + 1) \<le> n \<and> n < 2 ^ (k + 1 + 1)" by auto
    then show ?thesis by blast
  qed (auto intro: exI [of _ 0])
qed

lemma smears_mask:
  fixes w :: "32 word"
  assumes "2 ^ k \<le> unat w" and "unat w < 2 ^ (k + 1)" and "k < 31"
  shows "smear (smear (smear (smear (smear w 1) 2) 4) 8) 16 = mask (k + 1)"
proof (rule bit_word_eqI)
  fix i assume "i < LENGTH(32)"
  have bits: "bit w j = bit (unat w) j" for j using bit_imp_le_length [of w j] by (auto simp: bit_unsigned_iff)
  have high: "\<not> bit w j" if "k < j" for j
  proof -
    have "(2::nat) ^ (k + 1) \<le> 2 ^ j" using that by (intro power_increasing) simp_all
    then have "unat w < 2 ^ j" using assms(2) by simp
    then have "\<not> bit (unat w) j" by (simp add: bit_iff_odd)
    then show ?thesis by (simp only: bits not_False_eq_True)
  qed
  have top: "bit w k"
  proof -
    have "unat w div 2 ^ k = 1" using assms(1,2) by (intro div_nat_eqI) simp_all
    then have "bit (unat w) k" by (simp add: bit_iff_odd)
    then show ?thesis by (simp only: bits)
  qed
  show "bit (smear (smear (smear (smear (smear w 1) 2) 4) 8) 16) i = bit (mask (k + 1) :: 32 word) i"
  proof (cases "i \<le> k")
    case True
    then have "\<exists>j\<le>31. bit w (i + j)" using top assms(3) by (intro exI [of _ "k - i"]) simp
    then show ?thesis using True \<open>i < LENGTH(32)\<close> unfolding bit_smears by (simp add: bit_mask_iff)
  next
    case False
    then show ?thesis using high unfolding bit_smears by (auto simp: bit_mask_iff)
  qed
qed

text \<open>
  C11: A read of more than the high water mark raises it to the least power of two that is not
  smaller than the amount, up to 1 GiB, and to exactly 1 GiB at the limit; the bit smearing never
  overflows.
\<close>
theorem high_water_mark_power:
  assumes "1 \<le> n" and "n \<le> MAX_HWM"
  shows "\<exists>k\<le>30. computeNewHighWaterMark n = Inr (2 ^ k) \<and> n \<le> 2 ^ k \<and> 2 ^ k < 2 * n"
proof (cases "n = 1 \<or> n = MAX_HWM")
  case True
  have "smear (smear (smear (smear (smear 0 1) 2) 4) 8) 16 = 0" by (simp add: smear_def)
  then have "n = 1 \<Longrightarrow> computeNewHighWaterMark n = Inr (2 ^ 0)" by (simp add: computeNewHighWaterMark_def MAX_HWM_def)
  moreover have "n = MAX_HWM \<Longrightarrow> computeNewHighWaterMark n = Inr (2 ^ 30)" by (simp add: computeNewHighWaterMark_def MAX_HWM_def)
  ultimately show ?thesis
    using True by (auto simp: MAX_HWM_def intro: exI [of _ 0] exI [of _ 30])
next
  case False
  define m where "m = nat (n - 1)"
  have m: "0 < m" "m < 2 ^ 30" "n - 1 = int m" using False assms by (auto simp: m_def MAX_HWM_def)
  obtain k where k: "2 ^ k \<le> m" "m < 2 ^ (k + 1)" using power_between [OF m(1)] by blast
  have "(2::nat) ^ k < 2 ^ 30" using k(1) m(2) by simp
  then have k30: "k < 30" by (rule power_less_imp_less_exp [rotated]) simp
  have "unat (word_of_int (n - 1) :: 32 word) = m"
    using m by (simp add: unsigned_of_nat take_bit_nat_eq_self)
  then have "smear (smear (smear (smear (smear (word_of_int (n - 1)) 1) 2) 4) 8) 16 = mask (k + 1)"
    using k k30 by (intro smears_mask) simp_all
  moreover have "sint (mask (k + 1) :: 32 word) = 2 ^ (k + 1) - 1"
  proof -
    have "(2::int) ^ (k + 1) \<le> 2 ^ 31" using k30 by (intro power_increasing) simp_all
    moreover have "(0::int) \<le> 2 ^ (k + 1)" "(2::int) ^ 31 = 2147483648" by simp_all
    ultimately have "sint (word_of_int (2 ^ (k + 1) - 1) :: 32 word) = 2 ^ (k + 1) - 1"
      by (intro sint_small) linarith+
    then show ?thesis by (simp add: mask_eq_exp_minus_1)
  qed
  ultimately have "computeNewHighWaterMark n = Inr (2 ^ (k + 1))"
    using False assms(2) unfolding computeNewHighWaterMark_def
    by (simp only: linorder_not_less [symmetric] de_Morgan_disj if_False diff_add_cancel)
  moreover have "n \<le> 2 ^ (k + 1) \<and> 2 ^ (k + 1) < 2 * n"
  proof -
    have "int m < int (2 ^ (k + 1))" using k(2) by (simp only: of_nat_less_iff)
    moreover have "int (2 ^ k) \<le> int m" using k(1) by (simp only: of_nat_le_iff)
    moreover have "int (2 ^ k) = 2 ^ k" "int (2 ^ (k + 1)) = 2 * 2 ^ k" by simp_all
    ultimately have "int m < 2 * 2 ^ k" "2 ^ k \<le> int m" by linarith+
    then show ?thesis using m(3) unfolding Suc_eq_plus1 [symmetric] power_Suc by linarith
  qed
  ultimately show ?thesis using k30 by (intro exI [of _ "k + 1"]) simp
qed

theorem high_water_mark_power_witness: "\<exists>k\<le>30. computeNewHighWaterMark 100 = Inr (2 ^ k) \<and> 100 \<le> (2::int) ^ k \<and> (2::int) ^ k < 2 * 100"
  by (rule high_water_mark_power) (simp_all add: MAX_HWM_def)

section \<open>The data of a stream\<close>

fun data_of :: "action \<Rightarrow> nat list" where
  "data_of (EmitData x) = x"
| "data_of _ = []"

fun chunk_of :: "action \<Rightarrow> nat list list" where
  "chunk_of (Pushed v) = [v]"
| "chunk_of _ = []"

text \<open>
  What the listeners of \<open>data\<close> have been given, the chunks taken in, how often \<open>_read\<close> was called, and
  what is buffered.
\<close>

definition delivered :: "rstate \<Rightarrow> nat list" where
  "delivered s = concat (map data_of (rs_log s))"

definition chunks :: "rstate \<Rightarrow> nat list list" where
  "chunks s = concat (map chunk_of (rs_log s))"

definition calls :: "rstate \<Rightarrow> nat" where
  "calls s = length (filter (\<lambda>a. a = CallRead) (rs_log s))"

definition buffered :: "rstate \<Rightarrow> nat list" where
  "buffered s = (case iterate (bl_store (rs_buffer s)) (bl_head (rs_buffer s)) of None \<Rightarrow> [] | Some xs \<Rightarrow> concat xs)"

text \<open>The text that comes out of the stream when \<open>rest\<close> is still to be pushed.\<close>

definition text_with :: "rstate \<Rightarrow> bytes \<Rightarrow> nat list" where
  "text_with s rest = delivered s @ buffered s @
     (case rs_decoder s of None \<Rightarrow> rest | Some d \<Rightarrow> text_of (sd_encoding d) (held_bytes d @ rest))"

definition stream_ok :: "rstate \<Rightarrow> nat list list \<Rightarrow> bool" where
  "stream_ok s xs = (represents (rs_buffer s) xs \<and> [] \<notin> set xs \<and> \<not> rs_objectMode s \<and>
     rs_length s = int (length (concat xs)) \<and>
     (case rs_decoder s of None \<Rightarrow> length (concat xs) < 2147483647 | Some d \<Rightarrow> decoder_ok (sd_encoding d) d))"

definition stream_inv :: "rstate \<Rightarrow> bool" where
  "stream_inv s = (\<exists>xs. stream_ok s xs)"

lemma stream_invE:
  assumes "stream_inv s"
  obtains xs where "stream_ok s xs"
  using assms by (auto simp: stream_inv_def)

lemma buffered_eq: "stream_ok s xs \<Longrightarrow> buffered s = concat xs"
  using iterate_represents [of "rs_buffer s" xs] by (simp add: buffered_def stream_ok_def)

lemma rs_length_buffered: "stream_inv s \<Longrightarrow> rs_length s = int (length (buffered s))"
  by (auto simp: stream_inv_def buffered_eq) (simp add: stream_ok_def)

lemma rs_length_zero:
  assumes "stream_ok s xs"
  shows "rs_length s = 0 \<longleftrightarrow> xs = []"
proof (cases xs)
  case (Cons x xs')
  then have "length x > 0" "rs_length s = int (length x + length (concat xs'))"
    using assms by (auto simp: stream_ok_def)
  then have "rs_length s \<noteq> 0" by linarith
  then show ?thesis using Cons by simp
qed (use assms in \<open>simp add: stream_ok_def\<close>)

text \<open>States that differ in flags only.\<close>

definition same_data :: "rstate \<Rightarrow> rstate \<Rightarrow> bool" where
  "same_data s s' = (rs_buffer s' = rs_buffer s \<and> rs_length s' = rs_length s \<and> rs_objectMode s' = rs_objectMode s \<and>
     rs_decoder s' = rs_decoder s \<and> rs_ended s' = rs_ended s \<and> rs_destroyed s' = rs_destroyed s \<and>
     rs_errored s' = rs_errored s \<and> delivered s' = delivered s \<and> chunks s' = chunks s \<and> calls s' = calls s)"

lemma same_data_refl [intro]: "same_data s s"
  by (simp add: same_data_def)

lemma same_data_trans: "same_data s t \<Longrightarrow> same_data t u \<Longrightarrow> same_data s u"
  by (simp add: same_data_def)

lemma same_data_ok: "same_data s s' \<Longrightarrow> stream_ok s' xs = stream_ok s xs"
  by (simp add: same_data_def stream_ok_def)

lemma same_data_inv: "same_data s s' \<Longrightarrow> stream_inv s' = stream_inv s"
  by (simp add: stream_inv_def same_data_ok)

lemma same_data_text: "same_data s s' \<Longrightarrow> text_with s' rest = text_with s rest"
  by (simp add: same_data_def text_with_def buffered_def)

lemmas log_lists = delivered_def chunks_def calls_def

lemma logged [simp]:
  "delivered (log a s) = delivered s @ data_of a" "chunks (log a s) = chunks s @ chunk_of a"
  "calls (log a s) = calls s + (if a = CallRead then 1 else 0)"
  by (simp_all add: log_lists log_def)

lemma log_simps [simp]:
  "rs_buffer (log a s) = rs_buffer s" "rs_length (log a s) = rs_length s" "rs_objectMode (log a s) = rs_objectMode s"
  "rs_decoder (log a s) = rs_decoder s" "rs_ended (log a s) = rs_ended s" "rs_destroyed (log a s) = rs_destroyed s"
  "rs_errored (log a s) = rs_errored s" "rs_flowing (log a s) = rs_flowing s" "rs_reading (log a s) = rs_reading s"
  "rs_highWaterMark (log a s) = rs_highWaterMark s" "rs_sync (log a s) = rs_sync s"
  "rs_needReadable (log a s) = rs_needReadable s" "rs_dataListeners (log a s) = rs_dataListeners s"
  "buffered (log a s) = buffered s"
  by (simp_all add: log_def buffered_def)

lemma same_data_flags:
  "same_data s (emitReadable s)" "same_data s (maybeReadMore s)" "rs_ended s \<Longrightarrow> same_data s (endReadable s)"
  by (simp_all add: emitReadable_def maybeReadMore_def endReadable_def same_data_def log_lists log_def Let_def)

section \<open>Sources and listeners\<close>

text \<open>
  The user's \<open>_read\<close>: a source that pushes, on its \<open>i\<close>-th call and synchronously, the chunks of the
  \<open>i\<close>-th entry of a list, one after the other, and nothing when the list is used up. A source that
  answers asynchronously has empty entries: its pushes are operations of their own.
\<close>

definition entry :: "bytes list list \<Rightarrow> nat \<Rightarrow> bytes list" where
  [js_eval]: "entry script i = (if i < length script then script ! i else [])"

fun push_all :: "env \<Rightarrow> bytes list \<Rightarrow> rstate \<Rightarrow> js_error + rstate" where
  "push_all env [] s = Inr s"
| "push_all env (v # vs) s = bindE (add_data env s v False False) (\<lambda>(_, s1). push_all env vs s1)"

definition source_read :: "bytes list list \<Rightarrow> env \<Rightarrow> rstate \<Rightarrow> js_error option \<times> rstate" where
  [js_eval]: "source_read script env s =
     (case push_all env (entry script (calls s - 1)) s of Inl e \<Rightarrow> (Some e, s) | Inr s' \<Rightarrow> (None, s'))"

definition scripted :: "bytes list list \<Rightarrow> env \<Rightarrow> env" where
  [js_eval]: "scripted script env = env\<lparr>user_read := \<lambda>h s. source_read script env s\<rparr>"

text \<open>A state that reads from the source, or that has ended and reads no more.\<close>

definition sourced :: "bytes list list \<Rightarrow> env \<Rightarrow> rstate \<Rightarrow> bool" where
  "sourced script env s = (rs_ended s \<or> (\<forall>h t. user_read env h t = source_read script env t))"

lemma addChunk_source: "addChunk (env\<lparr>user_read := f\<rparr>) = addChunk env" "report (env\<lparr>user_read := f\<rparr>) = report env"
  by (intro ext; simp add: addChunk_def emit_data_def report_def)+

lemma add_data_source: "add_data (env\<lparr>user_read := f\<rparr>) = add_data env"
  by (intro ext) (simp only: add_data_def addChunk_source)

lemma push_all_source: "push_all (env\<lparr>user_read := f\<rparr>) vs = push_all env vs"
  by (induction vs) (rule ext, simp add: add_data_source)+

lemma sourced_scripted: "sourced script (scripted script env) s"
  by (simp add: sourced_def scripted_def source_read_def push_all_source)

text \<open>The bytes the source has left.\<close>

definition left :: "bytes list list \<Rightarrow> rstate \<Rightarrow> nat" where
  "left script s = length (concat (concat (drop (calls s) script)))"

text \<open>A stream without an encoding can hold fewer than \<open>2 ^ 31 - 1\<close> bytes.\<close>

definition room :: "bytes list list \<Rightarrow> rstate \<Rightarrow> nat \<Rightarrow> bool" where
  "room script s k = (rs_decoder s = None \<longrightarrow> length (buffered s) + left script s + k < 2147483647)"

text \<open>
  What an operation does to the data when it is given the chunks \<open>vs\<close>: it takes in \<open>vs\<close> and the entries
  of the source for the calls of \<open>_read\<close> it makes, in this order, and moves data to the listeners; no
  byte is lost, doubled or reordered. Without input nothing is added to the buffer.
\<close>

definition new_chunks :: "bytes list list \<Rightarrow> rstate \<Rightarrow> rstate \<Rightarrow> bytes list" where
  "new_chunks script s s' = concat (take (calls s' - calls s) (drop (calls s) script))"

definition encoding_of :: "rstate \<Rightarrow> encoding option" where
  "encoding_of s = map_option sd_encoding (rs_decoder s)"

definition effect :: "bytes list list \<Rightarrow> bytes list \<Rightarrow> rstate \<Rightarrow> rstate \<Rightarrow> bool" where
  "effect script vs s s' = (stream_inv s' \<and> encoding_of s' = encoding_of s \<and>
     rs_ended s' = rs_ended s \<and> rs_destroyed s' = rs_destroyed s \<and> rs_errored s' = rs_errored s \<and> calls s \<le> calls s' \<and>
     chunks s' = chunks s @ vs @ new_chunks script s s' \<and>
     (\<forall>rest. wf_bytes rest \<longrightarrow> text_with s (concat (vs @ new_chunks script s s') @ rest) = text_with s' rest) \<and>
     (rs_decoder s = None \<longrightarrow> length (buffered s') + left script s' \<le> length (buffered s) + left script s + length (concat vs)) \<and>
     (vs = [] \<and> (calls s' = calls s \<or> length script \<le> calls s) \<longrightarrow> length (buffered s') \<le> length (buffered s)))"

lemma effectD:
  assumes "effect script vs s s'"
  shows "stream_inv s'" "encoding_of s' = encoding_of s" "rs_ended s' = rs_ended s" "rs_destroyed s' = rs_destroyed s"
    "rs_errored s' = rs_errored s" "calls s \<le> calls s'" "chunks s' = chunks s @ vs @ new_chunks script s s'"
    "wf_bytes rest \<Longrightarrow> text_with s (concat (vs @ new_chunks script s s') @ rest) = text_with s' rest"
    "rs_decoder s = None \<Longrightarrow> length (buffered s') + left script s' \<le> length (buffered s) + left script s + length (concat vs)"
    "vs = [] \<Longrightarrow> calls s' = calls s \<or> length script \<le> calls s \<Longrightarrow> length (buffered s') \<le> length (buffered s)"
  using assms unfolding effect_def by blast+

lemma encoding_None: "encoding_of s' = encoding_of s \<Longrightarrow> rs_decoder s' = None \<longleftrightarrow> rs_decoder s = None"
  by (cases "rs_decoder s"; cases "rs_decoder s'") (auto simp: encoding_of_def)

definition wf_script :: "bytes list list \<Rightarrow> bool" where
  "wf_script script = (\<forall>vs\<in>set script. \<forall>v\<in>set vs. wf_bytes v)"

lemma wf_new_chunks: "wf_script script \<Longrightarrow> wf_bytes (concat (new_chunks script s s'))"
  by (auto simp: wf_script_def wf_bytes_def new_chunks_def dest!: in_set_takeD in_set_dropD)

lemma wf_append: "wf_bytes (xs @ ys) \<longleftrightarrow> wf_bytes xs \<and> wf_bytes ys"
  by (auto simp: wf_bytes_def)

lemma new_chunks_trans:
  assumes "calls s \<le> calls t" and "calls t \<le> calls u"
  shows "new_chunks script s u = new_chunks script s t @ new_chunks script t u"
proof -
  have "calls u - calls s = (calls t - calls s) + (calls u - calls t)" "calls t = (calls t - calls s) + calls s"
    using assms by simp_all
  then show ?thesis
    unfolding new_chunks_def by (metis concat_append drop_drop take_add)
qed

lemma new_chunks_same: "calls s' = calls s \<Longrightarrow> new_chunks script s s' = []"
  by (simp add: new_chunks_def)

lemma effect_trans:
  assumes wf: "wf_script script" and "effect script vs s t" and "effect script [] t u"
  shows "effect script vs s u"
proof -
  note s = effectD [OF assms(2)] and t = effectD [OF assms(3)]
  have new: "new_chunks script s u = new_chunks script s t @ new_chunks script t u"
    by (rule new_chunks_trans [OF s(6) t(6)])
  have "text_with s (concat (vs @ new_chunks script s u) @ rest) = text_with u rest" if "wf_bytes rest" for rest
    using s(8) [of "concat (new_chunks script t u) @ rest"] t(8) [OF that] wf_new_chunks [OF wf, of t u] that
    by (simp add: new wf_append)
  moreover have "length (buffered u) + left script u \<le> length (buffered s) + left script s + length (concat vs)"
    if "rs_decoder s = None"
    using s(9) [OF that] t(9) encoding_None [OF s(2)] that by simp
  moreover have "length (buffered u) \<le> length (buffered s)" if "vs = []" "calls u = calls s \<or> length script \<le> calls s"
  proof -
    have "calls t = calls s \<or> length script \<le> calls s" "calls u = calls t \<or> length script \<le> calls t"
      using that(2) s(6) t(6) by auto
    then show ?thesis using s(10) [OF that(1)] t(10) by simp
  qed
  ultimately show ?thesis using s(1-7) t(1-7) unfolding effect_def by (simp add: new)
qed

lemma effect_then:
  "wf_script script \<Longrightarrow> effect script vs s t \<Longrightarrow> (stream_inv t \<Longrightarrow> effect script [] t u) \<Longrightarrow> effect script vs s u"
  using effect_trans effectD(1) by blast

lemma effect_same:
  assumes "same_data s s'" and "stream_inv s"
  shows "effect script [] s s'"
  using assms same_data_inv [OF assms(1)] same_data_text [OF assms(1)] new_chunks_same [of s' s script]
  by (simp add: effect_def same_data_def encoding_of_def buffered_def left_def)

lemma effect_after_same:
  assumes "same_data s t" and "effect script vs t u"
  shows "effect script vs s u"
  using assms same_data_text [OF assms(1)]
  by (simp add: effect_def same_data_def encoding_of_def buffered_def left_def new_chunks_def)

lemma effect_refl: "stream_inv s \<Longrightarrow> effect script [] s s"
  by (rule effect_same) auto

lemma room_mono: "room script s k \<Longrightarrow> j \<le> k \<Longrightarrow> room script s j"
  by (auto simp: room_def)

lemma effect_room:
  assumes "effect script vs s s'" and "room script s (length (concat vs) + k)"
  shows "room script s' k"
  using effectD(9) [OF assms(1)] encoding_None [OF effectD(2) [OF assms(1)]] assms(2)
  by (auto simp: room_def)

lemma sourced_effect: "effect script vs s s' \<Longrightarrow> sourced script env s \<Longrightarrow> sourced script env s'"
  by (auto simp: sourced_def dest: effectD(3))

text \<open>
  The listeners: they may change flags (pause or resume the stream), read from it, or start other
  operations whose effect is that of reading. They do not push.
\<close>

definition listens :: "bytes list list \<Rightarrow> env \<Rightarrow> bool" where
  "listens script env = ((\<forall>x s. stream_inv s \<and> room script s 0 \<longrightarrow> effect script [] s (on_data env x s)) \<and>
     (\<forall>ev s. stream_inv s \<and> room script s 0 \<longrightarrow> effect script [] s (on_event env ev s)))"

lemma listensD:
  assumes "listens script env" and "stream_inv s" and "room script s 0"
  shows "effect script [] s (on_data env x s)" "effect script [] s (on_event env ev s)"
  using assms by (auto simp: listens_def)

section \<open>Pushing\<close>

text \<open>A chunk added: the state \<open>m\<close> holds it, and what follows is a call of the listeners or flags.\<close>

lemma addChunk_ok:
  assumes wf: "wf_script script" and "listens script env" and "stream_ok s xs" and "t \<noteq> []" and "room script s (length t)"
  shows "\<exists>m s'. addChunk env s t False = Inr s' \<and> stream_inv m \<and> effect script [] m s' \<and>
    delivered m @ buffered m = delivered s @ buffered s @ t \<and> length (buffered m) \<le> length (buffered s) + length t \<and>
    same_data (s\<lparr>rs_buffer := rs_buffer m, rs_length := rs_length m, rs_log := rs_log m\<rparr>) m \<and>
    chunks m = chunks s \<and> calls m = calls s \<and>
    (rs_sync s \<longrightarrow> rs_sync s' \<and> calls s' = calls s \<and> rs_reading s' = rs_reading s)"
proof (cases "is_flowing s \<and> rs_length s = 0 \<and> \<not> rs_sync s \<and> rs_dataListeners s > 0")
  case True
  define m where "m = log (EmitData t) (s\<lparr>rs_awaitDrain := [], rs_dataEmitted := True\<rparr>)"
  define s' where "s' = maybeReadMore (on_data env t m)"
  have ok: "stream_ok m xs" using assms(3) by (simp add: m_def stream_ok_def)
  then have inv: "stream_inv m" by (auto simp: stream_inv_def)
  have empty: "buffered m = []" "buffered s = []"
    using True rs_length_zero [OF assms(3)] buffered_eq [OF ok] buffered_eq [OF assms(3)] by auto
  have "calls m = calls s" "rs_decoder m = rs_decoder s" by (simp_all add: m_def calls_def log_def)
  then have "room script m 0" using assms(5) empty by (auto simp: room_def left_def)
  then have "effect script [] m s'"
    unfolding s'_def by (rule effect_then [OF wf listensD(1) [OF assms(2) inv] effect_same [OF same_data_flags(2)]])
  moreover have "addChunk env s t False = Inr s'"
    using True by (simp add: addChunk_def emit_data_def s'_def m_def)
  ultimately show ?thesis
    using True inv empty
    by (intro exI [of _ m] exI [of _ s']) (simp add: m_def same_data_def log_lists log_def)
next
  case False
  obtain b where b: "bl_push (rs_buffer s) t = Inr b" "represents b (xs @ [t])"
    using push_represents [of "rs_buffer s" xs t] assms(3) by (auto simp: stream_ok_def)
  define m where "m = s\<lparr>rs_length := rs_length s + int (length t), rs_buffer := b\<rparr>"
  define s' where "s' = maybeReadMore (if rs_needReadable m then emitReadable m else m)"
  have "addChunk env s t False = Inr s'"
  proof -
    have "\<not> rs_objectMode s" using assms(3) by (simp add: stream_ok_def)
    then show ?thesis
      unfolding addChunk_def if_not_P [OF False] using b(1) by (simp add: m_def s'_def chunk_size_def Let_def)
  qed
  moreover have sd: "same_data m s'"
    unfolding s'_def using same_data_trans [OF same_data_flags(1) same_data_flags(2)] same_data_flags(2) by simp
  moreover have ok: "stream_ok m (xs @ [t])"
    using assms(3-5) buffered_eq [OF assms(3)] b(2) by (auto simp: stream_ok_def m_def room_def split: option.splits)
  moreover have "buffered m = buffered s @ t"
    using buffered_eq [OF ok] buffered_eq [OF assms(3)] by simp
  moreover have "rs_sync s' = rs_sync s" "rs_reading s' = rs_reading s"
    by (simp_all add: s'_def m_def maybeReadMore_def emitReadable_def Let_def)
  moreover have "stream_inv m" using ok by (auto simp: stream_inv_def)
  ultimately show ?thesis
    using effect_same [OF sd]
    by (intro exI [of _ m] exI [of _ s']) (simp add: m_def same_data_def log_lists)
qed

text \<open>A stream that takes data.\<close>

definition live :: "rstate \<Rightarrow> bool" where
  "live s = (\<not> rs_ended s \<and> \<not> rs_destroyed s \<and> \<not> rs_errored s)"

lemma effect_live: "effect script vs s s' \<Longrightarrow> live s' = live s"
  by (auto simp: live_def dest: effectD)

text \<open>The decoder given a chunk: the text that comes out and the rest it holds back.\<close>

lemma effect_take:
  assumes "stream_inv m" and "chunks m = chunks s @ [v]" and "calls m = calls s" and "encoding_of m = encoding_of s"
    and "rs_ended m = rs_ended s" "rs_destroyed m = rs_destroyed s" "rs_errored m = rs_errored s"
    and "\<And>rest. wf_bytes rest \<Longrightarrow> text_with s (v @ rest) = text_with m rest"
    and "rs_decoder s = None \<Longrightarrow> length (buffered m) \<le> length (buffered s) + length v"
  shows "effect script [v] s m"
  using assms new_chunks_same [OF assms(3)] by (simp add: effect_def left_def)

lemma add_data_ok:
  assumes wf: "wf_script script" and listens: "listens script env" and inv: "stream_inv s" and "live s" and "wf_bytes v"
    and space: "room script s (length v)"
  shows "\<exists>r s'. add_data env s v False False = Inr (r, s') \<and> effect script [v] s s' \<and>
    (rs_sync s \<longrightarrow> rs_sync s' \<and> calls s' = calls s \<and> \<not> rs_reading s')"
proof -
  obtain xs where ok: "stream_ok s xs" using inv by (rule stream_invE)
  have mode: "\<not> rs_objectMode s" using ok by (simp add: stream_ok_def)
  note open_s = assms(4) [unfolded live_def]
  define s1 where "s1 = log (Pushed v) (s\<lparr>rs_reading := False\<rparr>)"
  have s1: "rs_buffer s1 = rs_buffer s" "rs_length s1 = rs_length s" "rs_objectMode s1 = rs_objectMode s"
    "rs_decoder s1 = rs_decoder s" "rs_ended s1 = rs_ended s" "rs_destroyed s1 = rs_destroyed s"
    "rs_errored s1 = rs_errored s" "delivered s1 = delivered s" "chunks s1 = chunks s @ [v]" "calls s1 = calls s"
    "buffered s1 = buffered s" "rs_sync s1 = rs_sync s" "\<not> rs_reading s1"
    by (simp_all add: s1_def log_lists log_def buffered_def)
  have flags: "rs_sync (maybeReadMore t) = rs_sync t" "rs_reading (maybeReadMore t) = rs_reading t" for t
    by (simp_all add: maybeReadMore_def)
  have quiet: "effect script [v] s (maybeReadMore m)"
    if "rs_buffer m = rs_buffer s1" "rs_length m = rs_length s1" "\<not> rs_objectMode m" "rs_log m = rs_log s1"
      "rs_ended m = rs_ended s" "rs_destroyed m = rs_destroyed s" "rs_errored m = rs_errored s" "encoding_of m = encoding_of s"
      "case rs_decoder m of None \<Rightarrow> True | Some d \<Rightarrow> decoder_ok (sd_encoding d) d"
      "\<And>rest. wf_bytes rest \<Longrightarrow> text_with s (v @ rest) = text_with m rest" for m
  proof -
    have "stream_ok m xs"
      using ok that encoding_None [OF that(8)] s1(1,2) by (auto simp: stream_ok_def split: option.splits)
    then have i: "stream_inv m" by (auto simp: stream_inv_def)
    have "effect script [v] s m"
      by (rule effect_take) (use i that s1 in \<open>simp_all add: log_lists buffered_def\<close>)
    then show ?thesis by (rule effect_then [OF wf]) (rule effect_same [OF same_data_flags(2)])
  qed
  have added: "effect script [v] s s' \<and> (rs_sync s \<longrightarrow> rs_sync s' \<and> calls s' = calls s \<and> \<not> rs_reading s')"
    if s2: "rs_buffer s2 = rs_buffer s1" "rs_log s2 = rs_log s1" "rs_ended s2 = rs_ended s" "rs_destroyed s2 = rs_destroyed s"
      "rs_errored s2 = rs_errored s" "rs_sync s2 = rs_sync s" "\<not> rs_reading s2" "encoding_of s2 = encoding_of s"
      and m: "stream_inv m" "effect script [] m s'" "delivered m @ buffered m = delivered s2 @ buffered s2 @ t"
      "length (buffered m) \<le> length (buffered s2) + length t"
      "same_data (s2\<lparr>rs_buffer := rs_buffer m, rs_length := rs_length m, rs_log := rs_log m\<rparr>) m"
      "chunks m = chunks s2" "calls m = calls s2"
      "rs_sync s2 \<longrightarrow> rs_sync s' \<and> calls s' = calls s2 \<and> rs_reading s' = rs_reading s2"
      and t: "rs_decoder s = None \<Longrightarrow> length t \<le> length v"
      "\<And>rest. wf_bytes rest \<Longrightarrow> text_with s (v @ rest) = delivered s @ buffered s @ t @
        (case rs_decoder s2 of None \<Rightarrow> rest | Some d \<Rightarrow> text_of (sd_encoding d) (held_bytes d @ rest))" for s2 m t s'
  proof -
    have logs: "delivered s2 = delivered s" "chunks s2 = chunks s @ [v]" "calls s2 = calls s" "buffered s2 = buffered s"
      using s2(1,2) s1 by (simp_all add: log_lists buffered_def)
    have dec: "rs_decoder m = rs_decoder s2" using m(5) by (simp add: same_data_def)
    have "text_with m rest = delivered s @ buffered s @ t @
        (case rs_decoder s2 of None \<Rightarrow> rest | Some d \<Rightarrow> text_of (sd_encoding d) (held_bytes d @ rest))" for rest
      using arg_cong [where f = "\<lambda>x. x @ (case rs_decoder s2 of None \<Rightarrow> rest | Some d \<Rightarrow> text_of (sd_encoding d) (held_bytes d @ rest))", OF m(3)]
      by (simp add: text_with_def dec logs)
    then have "effect script [v] s m"
      using m s2 logs t dec by (intro effect_take) (auto simp: same_data_def encoding_of_def)
    then show ?thesis using effect_trans [OF wf _ m(2)] m(8) s2(6,7) logs by simp
  qed
  show ?thesis
  proof (cases "v = []")
    case True
    have "effect script [v] s (maybeReadMore s1)"
      by (rule quiet) (use True mode s1 ok in \<open>auto simp: encoding_of_def text_with_def stream_ok_def split: option.splits\<close>)
    moreover have "add_data env s v False False = Inr (wants_more (maybeReadMore s1), maybeReadMore s1)"
      using mode True by (simp add: add_data_def s1_def Let_def)
    ultimately show ?thesis
      using s1(10,12,13) same_data_flags(2) [of s1] by (simp add: flags same_data_def)
  next
    case False
    show ?thesis
    proof (cases "rs_decoder s")
      case None
      have ok1: "stream_ok s1 xs" using ok s1 by (simp add: stream_ok_def)
      have room1: "room script s1 (length v)" using space s1 by (simp add: room_def left_def)
      obtain m s' where s': "addChunk env s1 v False = Inr s'" and m: "stream_inv m" "effect script [] m s'"
        "delivered m @ buffered m = delivered s1 @ buffered s1 @ v" "length (buffered m) \<le> length (buffered s1) + length v"
        "same_data (s1\<lparr>rs_buffer := rs_buffer m, rs_length := rs_length m, rs_log := rs_log m\<rparr>) m"
        "chunks m = chunks s1" "calls m = calls s1"
        "rs_sync s1 \<longrightarrow> rs_sync s' \<and> calls s' = calls s1 \<and> rs_reading s' = rs_reading s1"
        using addChunk_ok [OF wf listens ok1 False room1] by blast
      have "effect script [v] s s' \<and> (rs_sync s \<longrightarrow> rs_sync s' \<and> calls s' = calls s \<and> \<not> rs_reading s')"
        by (rule added [OF _ _ _ _ _ _ _ _ m]) (use s1 None in \<open>simp_all add: encoding_of_def text_with_def\<close>)
      moreover have "add_data env s v False False = Inr (wants_more s', s')"
        using False mode open_s None s'(1) by (simp add: add_data_def s1_def Let_def)
      ultimately show ?thesis by blast
    next
      case (Some d)
      obtain t d' where t: "write_bytes d v = (t, d')" by fastforce
      have dok: "decoder_ok (sd_encoding d) d" using ok Some by (simp add: stream_ok_def)
      have d': "decoder_ok (sd_encoding d) d'" "sd_encoding d' = sd_encoding d"
        using sd.feed_ok [OF dok assms(5) t] by (simp_all add: decoder_ok_def)
      have law: "text_of (sd_encoding d) (held_bytes d @ v @ rest) = t @ text_of (sd_encoding d) (held_bytes d' @ rest)"
        if "wf_bytes rest" for rest by (rule sd.feed_text [OF dok assms(5) t that])
      define s2 where "s2 = s1\<lparr>rs_decoder := Some d'\<rparr>"
      show ?thesis
      proof (cases "t = []")
        case True
        have "effect script [v] s (maybeReadMore s2)"
          by (rule quiet) (use True mode s1 Some d' law in \<open>auto simp: s2_def encoding_of_def text_with_def log_lists buffered_def\<close>)
        moreover have "add_data env s v False False = Inr (wants_more (maybeReadMore s2), maybeReadMore s2)"
          using False True mode open_s Some t by (simp add: add_data_def s1_def s2_def Let_def)
        moreover have "calls s2 = calls s" "rs_sync s2 = rs_sync s" "\<not> rs_reading s2"
          using s1 by (simp_all add: s2_def calls_def)
        ultimately show ?thesis using same_data_flags(2) [of s2] by (simp add: flags same_data_def)
      next
        case nonempty: False
        have ok2: "stream_ok s2 xs" using ok Some d' s1 by (simp add: stream_ok_def s2_def)
        have room2: "room script s2 (length t)" by (simp add: room_def s2_def)
        obtain m s' where s': "addChunk env s2 t False = Inr s'" and m: "stream_inv m" "effect script [] m s'"
          "delivered m @ buffered m = delivered s2 @ buffered s2 @ t" "length (buffered m) \<le> length (buffered s2) + length t"
          "same_data (s2\<lparr>rs_buffer := rs_buffer m, rs_length := rs_length m, rs_log := rs_log m\<rparr>) m"
          "chunks m = chunks s2" "calls m = calls s2"
          "rs_sync s2 \<longrightarrow> rs_sync s' \<and> calls s' = calls s2 \<and> rs_reading s' = rs_reading s2"
          using addChunk_ok [OF wf listens ok2 nonempty room2] by blast
        have "effect script [v] s s' \<and> (rs_sync s \<longrightarrow> rs_sync s' \<and> calls s' = calls s \<and> \<not> rs_reading s')"
          by (rule added [OF _ _ _ _ _ _ _ _ m]) (use s1 Some d' law in \<open>simp_all add: s2_def encoding_of_def text_with_def\<close>)
        moreover have "add_data env s v False False = Inr (wants_more s', s')"
          using False mode open_s Some t nonempty s'(1) by (simp add: add_data_def s1_def s2_def Let_def)
        ultimately show ?thesis by blast
      qed
    qed
  qed
qed

lemma effect_push:
  assumes wf: "wf_script script" and "effect script [v] s t" and "calls t = calls s" and "effect script vs t u" and "calls u = calls t"
    and "\<forall>w\<in>set vs. wf_bytes w"
  shows "effect script (v # vs) s u"
proof -
  note s = effectD [OF assms(2)] and t = effectD [OF assms(4)]
  have new: "new_chunks script s t = []" "new_chunks script t u = []" "new_chunks script s u = []"
    using assms(3,5) by (simp_all add: new_chunks_same)
  have "wf_bytes (concat vs)" using assms(6) by (auto simp: wf_bytes_def)
  then have "text_with s (v @ concat vs @ rest) = text_with u rest" if "wf_bytes rest" for rest
    using s(8) [of "concat vs @ rest"] t(8) [OF that] that new by (simp add: wf_append)
  moreover have "length (buffered u) + left script u \<le> length (buffered s) + left script s + length (concat (v # vs))"
    if "rs_decoder s = None"
    using s(9) [OF that] t(9) encoding_None [OF s(2)] that by simp
  ultimately show ?thesis using s(1-7) t(1-7) unfolding effect_def by (simp add: new)
qed

lemma push_all_ok:
  assumes wf: "wf_script script" and listens: "listens script env" and "stream_inv s" and "live s" and "rs_sync s"
    and "\<forall>v\<in>set vs. wf_bytes v" and "room script s (length (concat vs))"
  shows "\<exists>s'. push_all env vs s = Inr s' \<and> effect script vs s s' \<and> rs_sync s' \<and> calls s' = calls s \<and>
    (if vs = [] then s' = s else \<not> rs_reading s')"
  using assms(3-)
proof (induction vs arbitrary: s)
  case Nil
  then show ?case by (simp add: effect_refl)
next
  case (Cons v vs)
  have space: "room script s (length v)" using Cons.prems(5) by (rule room_mono) simp
  obtain r t where t: "add_data env s v False False = Inr (r, t)" "effect script [v] s t" "rs_sync t" "calls t = calls s"
    "\<not> rs_reading t"
    using add_data_ok [OF wf listens Cons.prems(1,2) _ space] Cons.prems(3,4) by auto
  have "room script t (length (concat vs))" by (rule effect_room [OF t(2)]) (use Cons.prems(5) in simp)
  then obtain s' where s': "push_all env vs t = Inr s'" "effect script vs t s'" "rs_sync s'" "calls s' = calls t"
    "if vs = [] then s' = t else \<not> rs_reading s'"
    using Cons.IH [of t] effectD(1) [OF t(2)] effect_live [OF t(2)] Cons.prems(2,4) t(3) by auto
  have "effect script (v # vs) s s'"
    using effect_push [OF wf t(2,4) s'(2,4)] Cons.prems(4) by simp
  then show ?case using t s' by (auto split: if_splits)
qed

section \<open>Reading\<close>

lemma cut_nonempty: "[] \<notin> set xs \<Longrightarrow> [] \<notin> set (cut n xs)"
  by (induction n xs rule: cut.induct) auto

lemma whole_buffer:
  assumes "stream_ok s xs" and "xs \<noteq> []"
  shows "(if rs_decoder s \<noteq> None then bl_join (rs_buffer s) []
      else if bl_length (rs_buffer s) = 1 then Some (bl_first (rs_buffer s))
      else bl_concat (rs_buffer s) (nat (rs_length s))) = Some (Inr (concat xs))"
proof (cases "rs_decoder s")
  case (Some d)
  then show ?thesis using assms by (simp add: stream_ok_def join_empty)
next
  case None
  have rep: "represents (rs_buffer s) xs" and len: "nat (rs_length s) = length (concat xs)" "length (concat xs) < 2147483647"
    using assms None by (auto simp: stream_ok_def)
  show ?thesis
  proof (cases "bl_length (rs_buffer s) = 1")
    case True
    then obtain x where "xs = [x]" using represents_length [OF rep] by (cases xs) auto
    then show ?thesis using None True first_represents [of "rs_buffer s" x "[]"] rep by simp
  next
    case False
    then show ?thesis using None concat_represents [OF rep refl len(2)] len(1) by simp
  qed
qed

lemma consume_stream:
  assumes "stream_ok s xs" and "xs \<noteq> []" and "n \<le> length (concat xs)"
  shows "\<exists>b'. bl_consume (rs_buffer s) n (rs_decoder s \<noteq> None) = Some (Inr (Some (take n (concat xs)), b')) \<and>
    represents b' (cut n xs)"
  by (rule consume_represents) (use assms in \<open>auto simp: stream_ok_def split: option.splits\<close>)

lemma fromList_ok:
  assumes "stream_ok s xs" and "0 < n" and "int n \<le> rs_length s"
  shows "\<exists>b ys. fromList n s = Some (Inr (Some (take n (concat xs)), s\<lparr>rs_buffer := b\<rparr>)) \<and>
    represents b ys \<and> concat ys = drop n (concat xs) \<and> [] \<notin> set ys"
proof -
  have s: "\<not> rs_objectMode s" "rs_length s = int (length (concat xs))" "[] \<notin> set xs" "xs \<noteq> []" "rs_length s \<noteq> 0"
    using assms rs_length_zero [OF assms(1)] by (auto simp: stream_ok_def)
  show ?thesis
  proof (cases "int n \<ge> rs_length s")
    case True
    then have "fromList n s = Some (Inr (Some (concat xs), s\<lparr>rs_buffer := bl_clear (rs_buffer s)\<rparr>))"
      unfolding fromList_def whole_buffer [OF assms(1) s(4)] using s(1,5) by simp
    then show ?thesis
      using True s(2) clear_represents [of "rs_buffer s"] assms(3)
      by (intro exI [of _ "bl_clear (rs_buffer s)"] exI [of _ "[]"]) auto
  next
    case False
    then obtain b where "bl_consume (rs_buffer s) n (rs_decoder s \<noteq> None) = Some (Inr (Some (take n (concat xs)), b))"
      "represents b (cut n xs)"
      using consume_stream [OF assms(1) s(4), of n] s(2) by auto
    moreover have "concat (cut n xs) = drop n (concat xs)" using False s(2) by (intro concat_cut) simp
    ultimately show ?thesis
      using False assms(2) s cut_nonempty [OF s(3), of n]
      by (intro exI [of _ b] exI [of _ "cut n xs"]) (simp add: fromList_def)
  qed
qed

lemma howMuchToRead_ok:
  assumes "stream_ok s xs"
  shows "\<exists>m. howMuchToRead n s = Inr m \<and> 0 \<le> m \<and> m \<le> rs_length s \<and>
    (n = None \<and> rs_length s \<noteq> 0 \<longrightarrow> 0 < m)"
proof (cases "n = None \<and> is_flowing s \<and> rs_length s \<noteq> 0")
  case True
  then obtain x xs' where xs: "xs = x # xs'" using rs_length_zero [OF assms] by (cases xs) auto
  moreover have "x \<noteq> []" using xs assms by (auto simp: stream_ok_def)
  ultimately have "howMuchToRead n s = Inr (int (length x))" "0 < int (length x)" "int (length x) \<le> rs_length s"
    using True assms first_represents [of "rs_buffer s" x xs'] by (auto simp: howMuchToRead_def stream_ok_def)
  then show ?thesis by auto
next
  case False
  have "0 \<le> rs_length s" "\<not> rs_objectMode s" using assms by (auto simp: stream_ok_def)
  then show ?thesis
    using False by (cases n) (auto simp: howMuchToRead_def)
qed

lemma calls_flags: "calls (s\<lparr>rs_sync := a, rs_reading := b, rs_needReadable := c\<rparr>) = calls s" for a b c
  by (simp add: calls_def)

lemma entry_left:
  "concat (take 1 (drop i script)) = entry script i"
  "length (concat (concat (drop i script))) = length (concat (entry script i)) + length (concat (concat (drop (Suc i) script)))"
  by (cases "i < length script"; simp add: entry_def Cons_nth_drop_Suc [symmetric])+

lemma call_read_ok:
  assumes wf: "wf_script script" and listens: "listens script env" and src: "sourced script env s" and inv: "stream_inv s"
    and space: "room script s 0" and "0 \<le> m" and "m \<le> rs_length s" and "n = None \<and> rs_length s \<noteq> 0 \<longrightarrow> 0 < m"
  shows "\<exists>k s'. call_read env n m s = Inr (k, s') \<and> effect script [] s s' \<and> 0 \<le> k \<and> k \<le> rs_length s' \<and>
    (n = None \<and> rs_length s' \<noteq> 0 \<longrightarrow> 0 < k)"
proof (cases "rs_ended s \<or> rs_reading s \<or> rs_destroyed s \<or> rs_errored s \<or> \<not> rs_constructed s \<or>
    \<not> (rs_needReadable s \<or> rs_length s = 0 \<or> rs_length s - m < rs_highWaterMark s)")
  case True
  then have "call_read env n m s = Inr (m, s)" by (simp add: call_read_def Let_def)
  then show ?thesis using assms(6-8) effect_refl [OF inv] by blast
next
  case False
  define s1 where "s1 = log CallRead (s\<lparr>rs_reading := True, rs_sync := True, rs_needReadable := rs_needReadable s \<or> rs_length s = 0\<rparr>)"
  let ?vs = "entry script (calls s)"
  obtain xs where ok: "stream_ok s xs" using inv by (rule stream_invE)
  have ok1: "stream_ok s1 xs" using ok by (simp add: stream_ok_def s1_def)
  then have inv1: "stream_inv s1" by (auto simp: stream_inv_def)
  have s1: "calls s1 = Suc (calls s)" "rs_decoder s1 = rs_decoder s" "buffered s1 = buffered s" "rs_length s1 = rs_length s"
    "chunks s1 = chunks s" "delivered s1 = delivered s" "rs_sync s1" "rs_reading s1"
    by (simp_all add: s1_def log_lists log_def buffered_def)
  have live1: "live s1" using False by (simp add: live_def s1_def)
  have wfv: "\<forall>v\<in>set ?vs. wf_bytes v" using wf by (auto simp: wf_script_def entry_def)
  have room1: "room script s1 (length (concat ?vs))"
    using space s1 entry_left(2) [of "calls s" script] by (auto simp: room_def left_def)
  obtain s2 where s2: "push_all env ?vs s1 = Inr s2" "effect script ?vs s1 s2" "calls s2 = calls s1"
    "if ?vs = [] then s2 = s1 else \<not> rs_reading s2"
    using push_all_ok [OF wf listens inv1 live1 s1(7) wfv room1] by auto
  define s4 where "s4 = s2\<lparr>rs_sync := False\<rparr>"
  have sd: "same_data s2 s4" by (simp add: s4_def same_data_def log_lists)
  have "user_read env h s1 = (None, s2)" for h
    using src False s2(1) s1(1) by (simp add: sourced_def source_read_def)
  then have call: "call_read env n m s = (if rs_reading s4 then Inr (m, s4) else bindE (howMuchToRead n s4) (\<lambda>k. Inr (k, s4)))"
    using False by (simp add: call_read_def Let_def s1_def [symmetric] s4_def)
  have eff4: "effect script ?vs s1 s4"
    using s2(2) effect_trans [OF wf _ effect_same [OF sd]] effectD(1) by blast
  note e = effectD [OF eff4]
  have c4: "calls s4 = Suc (calls s)" using sd s2(3) s1(1) by (simp add: same_data_def)
  have new: "new_chunks script s s4 = ?vs" "new_chunks script s1 s4 = []"
    using c4 s1(1) entry_left(1) [of "calls s" script] by (simp_all add: new_chunks_def)
  have text1: "text_with s1 rest = text_with s rest" for rest by (simp add: text_with_def s1)
  have "effect script [] s s4"
  proof -
    have "length (buffered s4) \<le> length (buffered s)" if "length script \<le> calls s"
    proof -
      have "?vs = []" using that by (simp add: entry_def)
      then show ?thesis using e(10) c4 s1 by simp
    qed
    moreover have "text_with s (concat ?vs @ rest) = text_with s4 rest" if "wf_bytes rest" for rest
      using e(8) [OF that] new(2) text1 by simp
    moreover have "rs_decoder s = None \<Longrightarrow> length (buffered s4) + left script s4 \<le> length (buffered s) + left script s"
      using e(9) s1 entry_left(2) [of "calls s" script] by (simp add: left_def)
    moreover have "encoding_of s1 = encoding_of s" "rs_ended s1 = rs_ended s" "rs_destroyed s1 = rs_destroyed s"
      "rs_errored s1 = rs_errored s" by (simp_all add: encoding_of_def s1_def)
    ultimately show ?thesis
      using e(1-7) new c4 s1(5) unfolding effect_def by simp
  qed
  moreover obtain j where j: "howMuchToRead n s4 = Inr j" "0 \<le> j" "j \<le> rs_length s4" "n = None \<and> rs_length s4 \<noteq> 0 \<longrightarrow> 0 < j"
    using e(1) howMuchToRead_ok [of s4 _ n] by (auto elim!: stream_invE)
  moreover have "rs_length s4 = rs_length s" if "rs_reading s4"
    using that s2(4) s1(4) by (auto simp: s4_def split: if_splits)
  ultimately show ?thesis using call assms(6-8) by (cases "rs_reading s4") auto
qed

lemma finish_read_ok:
  assumes wf: "wf_script script" and listens: "listens script env" and ok: "stream_ok (s\<lparr>rs_length := rs_length s - k\<rparr>) ys"
    and space: "rs_decoder s = None \<longrightarrow> length (concat ys) + left script s < 2147483647"
  shows "\<exists>t s'. finish_read env n k (Some x) s = (Some x, s') \<and> stream_ok t ys \<and> effect script [] t s' \<and>
    same_data (log (EmitData x) (s\<lparr>rs_length := rs_length s - k\<rparr>)) t"
proof -
  define s1 where "s1 = s\<lparr>rs_length := rs_length s - k, rs_awaitDrain := []\<rparr>"
  define s1' where "s1' = (if rs_ended s1 then s1 else s1\<lparr>rs_needReadable := True\<rparr>)"
  define s2 where "s2 = (if rs_length s1 = 0 then if n \<noteq> Some k \<and> rs_ended s1' then endReadable s1' else s1' else s1)"
  define t where "t = log (EmitData x) (s2\<lparr>rs_dataEmitted := True\<rparr>)"
  have "same_data s1 s1'" by (simp add: s1'_def same_data_def log_lists)
  then have sd: "same_data s1 s2"
    using same_data_flags(3) [of s1'] same_data_trans same_data_refl by (auto simp: s2_def)
  have fin: "finish_read env n k (Some x) s = (Some x, on_data env x t)"
    by (simp add: finish_read_def emit_data_def t_def s2_def s1'_def s1_def Let_def)
  have okt: "stream_ok t ys" using sd ok by (simp add: t_def s1_def stream_ok_def same_data_def)
  then have invt: "stream_inv t" by (auto simp: stream_inv_def)
  have sdt: "same_data (log (EmitData x) (s\<lparr>rs_length := rs_length s - k\<rparr>)) t"
    using sd by (simp add: t_def s1_def same_data_def log_lists log_def)
  have "calls t = calls s" "rs_decoder t = rs_decoder s" using sdt by (simp_all add: same_data_def calls_def log_def)
  then have "room script t 0" using space buffered_eq [OF okt] by (auto simp: room_def left_def)
  from listensD(1) [OF listens invt this] show ?thesis using fin okt sdt by blast
qed

lemma finish_read_None:
  "\<exists>s'. finish_read env n k None s = (None, s') \<and> same_data s s'"
proof -
  define s1 where "s1 = s\<lparr>rs_needReadable := rs_length s \<le> rs_highWaterMark s\<rparr>"
  define s1' where "s1' = (if rs_ended s1 then s1 else s1\<lparr>rs_needReadable := True\<rparr>)"
  define s2 where "s2 = (if rs_length s1 = 0 then if n \<noteq> Some 0 \<and> rs_ended s1' then endReadable s1' else s1' else s1)"
  have "same_data s s1'" "same_data s s1" by (simp_all add: s1_def s1'_def same_data_def log_lists)
  then have "same_data s s2" using same_data_flags(3) [of s1'] same_data_trans by (auto simp: s2_def)
  moreover have "finish_read env n k None s = (None, s2)"
    by (simp add: finish_read_def s2_def s1'_def s1_def Let_def)
  ultimately show ?thesis by blast
qed

text \<open>A read makes progress: it used the source, or it took data out of the buffer.\<close>

definition shrinks :: "bytes list list \<Rightarrow> rstate \<Rightarrow> rstate \<Rightarrow> bool" where
  "shrinks script s s' = (calls s' = calls s \<or> length script \<le> calls s \<longrightarrow> length (buffered s') < length (buffered s))"

lemma read_tail_ok:
  assumes wf: "wf_script script" and listens: "listens script env" and ok: "stream_ok s xs" and space: "room script s 0"
    and "0 \<le> k" and "k \<le> rs_length s"
  shows "\<exists>ret s'. map_option (\<lambda>r. bindE r (\<lambda>(ret, s4). Inr (finish_read env n k ret s4)))
      (if k > 0 then fromList (nat k) s else Some (Inr (None, s))) = Some (Inr (ret, s')) \<and>
    effect script [] s s' \<and> (if k = 0 then ret = None \<and> buffered s' = buffered s else ret \<noteq> None \<and> shrinks script s s')"
proof (cases "k > 0")
  case True
  obtain b ys where f: "fromList (nat k) s = Some (Inr (Some (take (nat k) (concat xs)), s\<lparr>rs_buffer := b\<rparr>))"
    "represents b ys" "concat ys = drop (nat k) (concat xs)" "[] \<notin> set ys"
    using fromList_ok [OF ok, of "nat k"] True assms(6) by auto
  let ?x = "take (nat k) (concat xs)" and ?s = "s\<lparr>rs_buffer := b\<rparr>"
  have oky: "stream_ok (?s\<lparr>rs_length := rs_length ?s - k\<rparr>) ys"
    using ok assms(6) True f(2-4) by (auto simp: stream_ok_def split: option.splits simp del: length_concat)
  have buf: "buffered s = ?x @ concat ys" using buffered_eq [OF ok] f(3) by simp
  have xne: "?x \<noteq> []"
    using True ok assms(6) by (cases "concat xs") (auto simp: stream_ok_def simp del: length_concat)
  have fits: "rs_decoder ?s = None \<longrightarrow> length (concat ys) + left script ?s < 2147483647"
    using space buf by (auto simp: room_def left_def calls_def simp del: length_concat)
  obtain t s' where t: "finish_read env n k (Some ?x) ?s = (Some ?x, s')" "stream_ok t ys" "effect script [] t s'"
    "same_data (log (EmitData ?x) (?s\<lparr>rs_length := rs_length ?s - k\<rparr>)) t"
    using finish_read_ok [OF wf listens oky fits, where n = n and x = ?x] by (elim exE conjE) (rule that)
  have tf: "buffered t = concat ys" "delivered t = delivered s @ ?x" "calls t = calls s" "chunks t = chunks s"
    "rs_decoder t = rs_decoder s" "rs_ended t = rs_ended s" "rs_destroyed t = rs_destroyed s" "rs_errored t = rs_errored s"
    using t(4) buffered_eq [OF t(2)] by (simp_all add: same_data_def log_lists log_def)
  have "effect script [] s t"
    using t(2) tf buf new_chunks_same [OF tf(3)]
    by (auto simp: effect_def stream_inv_def encoding_of_def text_with_def left_def)
  then have "effect script [] s s'" by (rule effect_trans [OF wf _ t(3)])
  moreover have "shrinks script s s'"
  proof -
    have "0 < length ?x" using xne by (rule length_greater_0_conv [THEN iffD2])
    then have "length (buffered t) < length (buffered s)" unfolding buf tf(1) length_append by linarith
    then show ?thesis using effectD(10) [OF t(3)] tf(3) by (auto simp: shrinks_def)
  qed
  ultimately show ?thesis using True f(1) t(1) by auto
next
  case False
  obtain s' where s': "finish_read env n k None s = (None, s')" "same_data s s'" using finish_read_None by blast
  then show ?thesis
    using False assms(5) effect_same [OF s'(2)] ok
    by (auto simp: stream_inv_def same_data_def buffered_def)
qed

text \<open>A read of more than 1 GiB above the high water mark throws before it changes anything.\<close>

definition refused :: "int option \<Rightarrow> rstate \<Rightarrow> bool" where
  "refused n s = (case n of None \<Rightarrow> False | Some k \<Rightarrow> k > rs_highWaterMark s \<and> k > MAX_HWM)"

lemma read_refused:
  "refused n s \<Longrightarrow> \<exists>k. n = Some k \<and> k > MAX_HWM \<and> read env n s = Some (Inl (ERR_OUT_OF_RANGE ''size'' ''<= 1GiB'' (JNum (int_num k))))"
  by (cases n) (auto simp: refused_def read_def computeNewHighWaterMark_def)

lemma read_ok:
  assumes wf: "wf_script script" and listens: "listens script env" and src: "sourced script env s" and inv: "stream_inv s"
    and space: "room script s 0" and "\<not> refused n s"
  shows "\<exists>ret s'. read env n s = Some (Inr (ret, s')) \<and> effect script [] s s' \<and>
    (ret \<noteq> None \<longrightarrow> shrinks script s s') \<and> (n = None \<and> ret = None \<longrightarrow> buffered s' = [])"
proof -
  obtain xs where ok: "stream_ok s xs" using inv by (rule stream_invE)
  define raise where "raise = (case n of Some k \<Rightarrow>
      if k > rs_highWaterMark s then bindE (computeNewHighWaterMark k) (\<lambda>h. Inr (s\<lparr>rs_highWaterMark := h\<rparr>)) else Inr s
    | None \<Rightarrow> Inr s)"
  have "\<exists>s1. raise = Inr s1 \<and> same_data s s1"
    using assms(6) by (cases n) (auto simp: raise_def refused_def computeNewHighWaterMark_def same_data_def log_lists)
  then obtain s1 where s1: "raise = Inr s1" "same_data s s1" by blast
  define s2 where "s2 = (if n = Some 0 then s1 else s1\<lparr>rs_emittedReadable := False\<rparr>)"
  have sd2: "same_data s s2" using s1(2) by (simp add: s2_def same_data_def log_lists)
  have ok2: "stream_ok s2 xs" using ok same_data_ok [OF sd2] by simp
  have inv2: "stream_inv s2" using same_data_inv [OF sd2] inv by simp
  have space2: "room script s2 0" and src2: "sourced script env s2"
    using space src sd2 by (auto simp: room_def same_data_def left_def buffered_def sourced_def)
  obtain m where m: "howMuchToRead n s2 = Inr m" "0 \<le> m" "m \<le> rs_length s2" "n = None \<and> rs_length s2 \<noteq> 0 \<longrightarrow> 0 < m"
    using howMuchToRead_ok [OF ok2] by blast
  obtain k s3 where k: "call_read env n m s2 = Inr (k, s3)" "effect script [] s2 s3" "0 \<le> k" "k \<le> rs_length s3"
    "n = None \<and> rs_length s3 \<noteq> 0 \<longrightarrow> 0 < k"
    using call_read_ok [OF wf listens src2 inv2 space2 m(2-4)] by blast
  obtain ys where ok3: "stream_ok s3 ys" using effectD(1) [OF k(2)] by (rule stream_invE)
  have space3: "room script s3 0" using effect_room [OF k(2), of 0] space2 by simp
  obtain ret s' where tail: "map_option (\<lambda>r. bindE r (\<lambda>(ret, s4). Inr (finish_read env n k ret s4)))
      (if k > 0 then fromList (nat k) s3 else Some (Inr (None, s3))) = Some (Inr (ret, s'))" "effect script [] s3 s'"
    "if k = 0 then ret = None \<and> buffered s' = buffered s3 else ret \<noteq> None \<and> shrinks script s3 s'"
    using read_tail_ok [OF wf listens ok3 space3 k(3,4)] by metis
  have eff: "effect script [] s s'" by (rule effect_after_same [OF sd2 effect_trans [OF wf k(2) tail(2)]])
  have shrink: "shrinks script s s'" if "shrinks script s3 s'"
    unfolding shrinks_def
  proof
    assume a: "calls s' = calls s \<or> length script \<le> calls s"
    have c: "calls s2 = calls s" "buffered s2 = buffered s" "calls s2 \<le> calls s3" "calls s3 \<le> calls s'"
      using sd2 effectD(6) [OF k(2)] effectD(6) [OF tail(2)] by (auto simp: same_data_def buffered_def)
    then have "length (buffered s3) \<le> length (buffered s)" using effectD(10) [OF k(2)] a by auto
    moreover have "length (buffered s') < length (buffered s3)" using that a c by (auto simp: shrinks_def)
    ultimately show "length (buffered s') < length (buffered s)" by simp
  qed
  have empty3: "rs_length s3 = 0 \<Longrightarrow> buffered s3 = []" using rs_length_zero [OF ok3] buffered_eq [OF ok3] by simp
  have empty2: "m = 0 \<Longrightarrow> n = None \<Longrightarrow> buffered s2 = []"
    using m(4) rs_length_zero [OF ok2] buffered_eq [OF ok2] by auto
  define trigger where "trigger = (n = Some 0 \<and> rs_needReadable s2 \<and>
      ((if rs_highWaterMark s2 \<noteq> 0 then rs_length s2 \<ge> rs_highWaterMark s2 else rs_length s2 > 0) \<or> rs_ended s2))"
  have unfold: "read env n s =
      (if trigger then Some (Inr (None, if rs_length s2 = 0 \<and> rs_ended s2 then endReadable s2 else emitReadable s2))
       else if m = 0 \<and> rs_ended s2 then Some (Inr (None, if rs_length s2 = 0 then endReadable s2 else s2))
       else Some (Inr (ret, s')))"
    unfolding read_def raise_def [symmetric] s1(1) sum.case Let_def s2_def [symmetric] trigger_def m(1) k(1) prod.case tail(1) by simp
  have flags: "effect script [] s t \<and> buffered t = buffered s2" if "same_data s2 t" for t
    using effect_same [OF same_data_trans [OF sd2 that] inv] that by (simp add: same_data_def buffered_def)
  have "buffered s' = []" if "n = None" "ret = None"
    using that tail(3) k(5) empty3 by (auto split: if_splits)
  moreover have "ret \<noteq> None \<longrightarrow> shrinks script s s'" using shrink tail(3) by (auto split: if_splits)
  moreover have "trigger \<Longrightarrow> n \<noteq> None" by (simp add: trigger_def)
  ultimately show ?thesis
    using eff flags [OF same_data_flags(1)] flags [OF same_data_flags(3)] flags [OF same_data_refl] empty2 unfolding unfold
    by (cases "trigger"; cases "m = 0 \<and> rs_ended s2") auto
qed

section \<open>The loops\<close>

text \<open>The loops end because the source is finite: they use it up, and then empty the buffer.\<close>

definition budget :: "bytes list list \<Rightarrow> (rstate \<times> rstate) set" where
  "budget script = measures [\<lambda>s. length script - calls s, \<lambda>s. length (buffered s)]"

lemma wf_budget: "wf (budget script)"
  by (simp add: budget_def)

lemma shrinks_budget: "effect script [] s s' \<Longrightarrow> shrinks script s s' \<Longrightarrow> (s', s) \<in> budget script"
  using effectD(6) [of script "[]" s s'] by (auto simp: budget_def shrinks_def)

lemma flow_ok:
  assumes wf: "wf_script script" and listens: "listens script env"
  shows "sourced script env s \<Longrightarrow> stream_inv s \<Longrightarrow> room script s 0 \<Longrightarrow>
    \<exists>s'. flow env s = Some (Inr s') \<and> effect script [] s s'"
proof (induction s rule: wf_induct_rule [OF wf_budget [of script]])
  case (1 s)
  show ?case
  proof (cases "is_flowing s")
    case False
    then show ?thesis using effect_refl [OF 1(3)] by (subst flow.simps) simp
  next
    case True
    obtain ret s1 where r: "read env None s = Some (Inr (ret, s1))" "effect script [] s s1" "ret \<noteq> None \<longrightarrow> shrinks script s s1"
      using read_ok [OF wf listens 1(2-4), of None] by (auto simp: refused_def)
    show ?thesis
    proof (cases ret)
      case None
      then show ?thesis using True r by (subst flow.simps) simp
    next
      case (Some x)
      have "room script s1 0" using effect_room [OF r(2), of 0] 1(4) by simp
      then obtain s' where s': "flow env s1 = Some (Inr s')" "effect script [] s1 s'"
        using 1(1) [OF shrinks_budget [OF r(2)] sourced_effect [OF r(2) 1(2)] effectD(1) [OF r(2)]] r(3) Some by auto
      have "flow env s = flow env s1" using True r(1) Some by (subst flow.simps) simp
      then show ?thesis using s' effect_trans [OF wf r(2)] by auto
    qed
  qed
qed

text \<open>The situation in which every operation other than a push is proved: they all have an effect without input.\<close>

definition situated :: "bytes list list \<Rightarrow> env \<Rightarrow> rstate \<Rightarrow> bool" where
  "situated script env s = (wf_script script \<and> listens script env \<and> sourced script env s \<and> stream_inv s \<and> room script s 0)"

lemma situatedD:
  "situated script env s \<Longrightarrow> wf_script script" "situated script env s \<Longrightarrow> listens script env"
  "situated script env s \<Longrightarrow> sourced script env s" "situated script env s \<Longrightarrow> stream_inv s"
  "situated script env s \<Longrightarrow> room script s 0"
  by (simp_all add: situated_def)

definition serves :: "bytes list list \<Rightarrow> env \<Rightarrow> rstate \<Rightarrow> rstate \<Rightarrow> bool" where
  "serves script env s s' = (effect script [] s s' \<and> situated script env s')"

lemma serves_effect:
  assumes "situated script env s" and "effect script [] s s'"
  shows "serves script env s s'"
  using assms effect_room [OF assms(2), of 0] sourced_effect [OF assms(2)] effectD(1) [OF assms(2)]
  by (simp add: serves_def situated_def)

lemma serves_trans: "serves script env s t \<Longrightarrow> serves script env t u \<Longrightarrow> serves script env s u"
  unfolding serves_def using effect_trans situatedD(1) by blast

lemma serves_situated: "serves script env s t \<Longrightarrow> situated script env t"
  by (simp add: serves_def)

lemma serves_same: "situated script env s \<Longrightarrow> same_data s s' \<Longrightarrow> serves script env s s'"
  by (rule serves_effect, assumption, rule effect_same, assumption, rule situatedD(4))

lemma serves_flags:
  assumes "situated script env s"
  shows "serves script env s s" "serves script env s (s\<lparr>rs_needReadable := a\<rparr>)" "serves script env s (s\<lparr>rs_emittedReadable := a\<rparr>)"
    "serves script env s (s\<lparr>rs_readingMore := a\<rparr>)" "serves script env s (s\<lparr>rs_resumeScheduled := a\<rparr>)"
    "serves script env s (s\<lparr>rs_paused := p\<rparr>)" "serves script env s (s\<lparr>rs_flowing := p\<rparr>)"
    "serves script env s (s\<lparr>rs_endEmitted := a\<rparr>)" "serves script env s (log (Emit ev) s)" "serves script env s (resume s)"
  by (rule serves_same [OF assms]; simp add: same_data_def log_lists log_def resume_def Let_def)+

lemma serves_event: "situated script env s \<Longrightarrow> serves script env s (emit_event env ev s)"
proof -
  assume s: "situated script env s"
  define t where "t = log (Emit ev) s"
  have t: "serves script env s t" unfolding t_def by (rule serves_flags(9) [OF s])
  note sit = situatedD [OF serves_situated [OF t]]
  have "serves script env t (on_event env ev t)"
    by (rule serves_effect [OF serves_situated [OF t] listensD(2) [OF sit(2,4,5)]])
  then show ?thesis using serves_trans [OF t] by (simp add: emit_event_def t_def)
qed

lemma serves_flow:
  assumes "situated script env s"
  shows "\<exists>s'. flow env s = Some (Inr s') \<and> serves script env s s'"
proof -
  obtain s' where s': "flow env s = Some (Inr s')" "effect script [] s s'"
    using flow_ok [of script env s] situatedD [OF assms] by blast
  then show ?thesis using serves_effect [OF assms s'(2)] by blast
qed

lemma serves_read:
  assumes "situated script env s" and "\<not> refused n s"
  shows "\<exists>ret s'. read env n s = Some (Inr (ret, s')) \<and> serves script env s s'"
proof -
  obtain ret s' where s': "read env n s = Some (Inr (ret, s'))" "effect script [] s s'"
    using read_ok [OF situatedD [OF assms(1)] assms(2)] by blast
  then show ?thesis using serves_effect [OF assms(1) s'(2)] by blast
qed

lemma serves_read_zero: "situated script env s \<Longrightarrow> \<exists>s'. read_zero env s = Some (Inr s') \<and> serves script env s s'"
  using serves_read [of script env s "Some 0"] by (fastforce simp: read_zero_def refused_def MAX_HWM_def)

lemma serves_emitReadable_NT:
  assumes "situated script env s"
  shows "\<exists>s'. emitReadable_NT env s = Some (Inr s') \<and> serves script env s s'"
proof -
  define s1 where "s1 = (if \<not> rs_destroyed s \<and> \<not> rs_errored s \<and> (rs_length s \<noteq> 0 \<or> rs_ended s)
    then (emit_event env ''readable'' s)\<lparr>rs_emittedReadable := False\<rparr> else s)"
  define s2 where "s2 = s1\<lparr>rs_needReadable := \<not> is_flowing s1 \<and> \<not> rs_ended s1 \<and> rs_length s1 \<le> rs_highWaterMark s1\<rparr>"
  have e: "serves script env s (emit_event env ''readable'' s)" by (rule serves_event [OF assms])
  have s1: "serves script env s s1"
    using serves_trans [OF e serves_flags(3) [OF serves_situated [OF e]]] serves_flags(1) [OF assms] unfolding s1_def by simp
  have s2: "serves script env s s2"
    unfolding s2_def by (rule serves_trans [OF s1 serves_flags(2) [OF serves_situated [OF s1]]])
  have "emitReadable_NT env s = flow env s2"
    unfolding emitReadable_NT_def s1_def [symmetric] Let_def by (simp add: s2_def)
  then show ?thesis using serves_flow [OF serves_situated [OF s2]] serves_trans [OF s2] by metis
qed

lemma serves_read_more_loop:
  "situated script env s \<Longrightarrow> \<exists>s'. read_more_loop env s = Some (Inr s') \<and> serves script env s s'"
proof (induction s rule: wf_induct_rule [OF wf_budget [of script]])
  case (1 s)
  obtain ret s1 where r: "read env (Some 0) s = Some (Inr (ret, s1))" "serves script env s s1"
    using serves_read [OF 1(2), of "Some 0"] by (auto simp: refused_def MAX_HWM_def)
  note eff = conjunct1 [OF r(2) [unfolded serves_def]] and sit = serves_situated [OF r(2)]
  show ?case
  proof (cases "rs_length s1 = rs_length s")
    case True
    then show ?thesis using r serves_flags(1) [OF 1(2)] by (subst read_more_loop.simps) simp
  next
    case False
    then have "length (buffered s1) \<noteq> length (buffered s)"
      using rs_length_buffered situatedD(4) [OF 1(2)] situatedD(4) [OF sit] by auto
    then have "shrinks script s s1" using effectD(10) [OF eff] by (auto simp: shrinks_def)
    then obtain s' where "read_more_loop env s1 = Some (Inr s')" "serves script env s1 s'"
      using 1(1) [OF shrinks_budget [OF eff] sit] by blast
    then show ?thesis
      using r False serves_trans [OF r(2)] serves_flags(1) [OF 1(2)] by (subst read_more_loop.simps) simp
  qed
qed

lemma serves_maybeReadMore_NT:
  assumes "situated script env s"
  shows "\<exists>s'. maybeReadMore_NT env s = Some (Inr s') \<and> serves script env s s'"
proof -
  obtain s1 where s1: "read_more_loop env s = Some (Inr s1)" "serves script env s s1"
    using serves_read_more_loop [OF assms] by blast
  then show ?thesis
    using serves_trans [OF s1(2) serves_flags(4) [OF serves_situated [OF s1(2)]]] by (simp add: maybeReadMore_NT_def)
qed

lemma serves_resume_NT:
  assumes "situated script env s"
  shows "\<exists>s'. resume_NT env s = Some (Inr s') \<and> serves script env s s'"
proof -
  obtain s1 where s1: "(if rs_reading s then Some (Inr s) else read_zero env s) = Some (Inr s1)" "serves script env s s1"
    using serves_read_zero [OF assms] serves_flags(1) [OF assms] by (cases "rs_reading s") auto
  define s2 where "s2 = emit_event env ''resume'' (s1\<lparr>rs_resumeScheduled := False\<rparr>)"
  have "serves script env s1 (s1\<lparr>rs_resumeScheduled := False\<rparr>)" by (rule serves_flags(5) [OF serves_situated [OF s1(2)]])
  then have "serves script env s1 s2" unfolding s2_def using serves_trans serves_event [OF serves_situated] by blast
  then have k2: "serves script env s s2" by (rule serves_trans [OF s1(2)])
  obtain s3 where s3: "flow env s2 = Some (Inr s3)" "serves script env s2 s3"
    using serves_flow [OF serves_situated [OF k2]] by blast
  obtain s4 where s4: "read_zero env s3 = Some (Inr s4)" "serves script env s3 s4"
    using serves_read_zero [OF serves_situated [OF s3(2)]] by blast
  show ?thesis
    using s1(1) s3(1) s4(1) serves_trans [OF k2 s3(2)] serves_trans [OF serves_trans [OF k2 s3(2)] s4(2)]
    by (simp add: resume_NT_def s2_def)
qed

lemma serves_pause:
  assumes "situated script env s"
  shows "serves script env s (pause env s)"
proof -
  have f: "serves script env s (s\<lparr>rs_flowing := Some False\<rparr>)" by (rule serves_flags(7) [OF assms])
  have "serves script env s (if rs_flowing s \<noteq> Some False then emit_event env ''pause'' (s\<lparr>rs_flowing := Some False\<rparr>) else s)"
    using serves_trans [OF f serves_event [OF serves_situated [OF f]]] serves_flags(1) [OF assms] by simp
  then show ?thesis unfolding pause_def Let_def using serves_trans serves_flags(6) [OF serves_situated] by blast
qed

lemma serves_endReadableNT:
  assumes "situated script env s"
  shows "serves script env s (endReadableNT env s)"
proof -
  have "serves script env s (s\<lparr>rs_endEmitted := True\<rparr>)" by (rule serves_flags(8) [OF assms])
  then have "serves script env s (emit_event env ''end'' (s\<lparr>rs_endEmitted := True\<rparr>))"
    using serves_trans serves_event [OF serves_situated] by blast
  then show ?thesis using serves_flags(1) [OF assms] by (simp add: endReadableNT_def)
qed

section \<open>Runs\<close>

text \<open>
  The interface between a stream and its client: operations that take chunks in, of the client and of
  the source, and a text that no operation changes but by moving these chunks into it. An operation
  that throws leaves the stream as it was. A run of operations then fails only where an operation is
  refused, and the text after it accounts for every chunk, those of the client and of the source each
  in their order.
\<close>

lemma shuffles_parts: "zs \<in> shuffles xs ys \<Longrightarrow> cs @ ns @ zs \<in> shuffles (cs @ xs) (ns @ ys)"
proof (induction cs)
  case Nil
  then show ?case by (induction ns) (auto intro: Cons_in_shuffles_rightI)
qed (auto intro: Cons_in_shuffles_leftI)

locale data_stream =
  fixes step :: "'op \<Rightarrow> 's \<Rightarrow> ('e + 's) option"
    and client :: "'op \<Rightarrow> bytes list"
    and valid :: "'op \<Rightarrow> bool"
    and refusal :: "'op \<Rightarrow> 'e \<Rightarrow> bool"
    and ok :: "'s \<Rightarrow> bool"
    and space :: "'s \<Rightarrow> nat \<Rightarrow> bool"
    and taken :: "'s \<Rightarrow> bytes list"
    and supplied :: "'s \<Rightarrow> bytes list"
    and yield :: "'s \<Rightarrow> bytes \<Rightarrow> nat list"
  assumes client_wf: "valid op \<Longrightarrow> wf_bytes (concat (client op))"
    and step_ok: "ok s \<Longrightarrow> valid op \<Longrightarrow> space s (length (concat (client op)) + k) \<Longrightarrow>
      (\<exists>e. step op s = Some (Inl e) \<and> refusal op e \<and> client op = []) \<or>
      (\<exists>s' new. step op s = Some (Inr s') \<and> ok s' \<and> space s' k \<and> supplied s' = supplied s @ new \<and>
        taken s' = taken s @ client op @ new \<and> wf_bytes (concat new) \<and>
        (\<forall>rest. wf_bytes rest \<longrightarrow> yield s (concat (client op @ new) @ rest) = yield s' rest))"
begin

fun steps :: "'op list \<Rightarrow> 's \<Rightarrow> ('e option list \<times> 's) option" where
  "steps [] s = Some ([], s)"
| "steps (op # ops) s = Option.bind (step op s) (\<lambda>r. case r of
       Inl e \<Rightarrow> map_option (\<lambda>(es, t). (Some e # es, t)) (steps ops s)
     | Inr s1 \<Rightarrow> map_option (\<lambda>(es, t). (None # es, t)) (steps ops s1))"

abbreviation outcome :: "'op \<Rightarrow> 'e option \<Rightarrow> bool" where
  "outcome op r \<equiv> (case r of None \<Rightarrow> True | Some e \<Rightarrow> refusal op e)"

theorem steps_ok:
  "ok s \<Longrightarrow> \<forall>op\<in>set ops. valid op \<Longrightarrow> space s (length (concat (concat (map client ops)))) \<Longrightarrow>
    \<exists>es s' src all. steps ops s = Some (es, s') \<and> ok s' \<and> list_all2 outcome ops es \<and> supplied s' = supplied s @ src \<and>
      taken s' = taken s @ all \<and> all \<in> shuffles (concat (map client ops)) src \<and> wf_bytes (concat all) \<and>
      yield s (concat all) = yield s' []"
proof (induction ops arbitrary: s)
  case Nil
  then show ?case by (simp add: wf_bytes_def)
next
  case (Cons op ops)
  let ?k = "length (concat (concat (map client ops)))"
  have valid: "valid op" "\<forall>op\<in>set ops. valid op" using Cons.prems(2) by simp_all
  have space: "space s (length (concat (client op)) + ?k)" using Cons.prems(3) by simp
  from step_ok [OF Cons.prems(1) valid(1) space] show ?case
  proof (elim disjE exE conjE)
    fix e assume e: "step op s = Some (Inl e)" "refusal op e" "client op = []"
    have "space s ?k" using space e(3) by simp
    then show ?thesis using Cons.IH [OF Cons.prems(1) valid(2)] e by fastforce
  next
    fix s1 new
    assume s1: "step op s = Some (Inr s1)" "ok s1" "space s1 ?k" "supplied s1 = supplied s @ new"
      "taken s1 = taken s @ client op @ new" "wf_bytes (concat new)"
      "\<forall>rest. wf_bytes rest \<longrightarrow> yield s (concat (client op @ new) @ rest) = yield s1 rest"
    obtain es s' src all where r: "steps ops s1 = Some (es, s')" "ok s'" "list_all2 outcome ops es"
      "supplied s' = supplied s1 @ src" "taken s' = taken s1 @ all" "all \<in> shuffles (concat (map client ops)) src"
      "wf_bytes (concat all)" "yield s1 (concat all) = yield s' []"
      using Cons.IH [OF s1(2) valid(2) s1(3)] by blast
    have "steps (op # ops) s = Some (None # es, s')" using s1(1) r(1) by simp
    moreover have "client op @ new @ all \<in> shuffles (concat (map client (op # ops))) (new @ src)"
      using shuffles_parts [OF r(6), of "client op" new] by simp
    moreover have "wf_bytes (concat (client op @ new @ all))"
      using client_wf [OF valid(1)] s1(6) r(7) by (simp add: wf_append)
    moreover have "yield s (concat (client op @ new @ all)) = yield s' []"
      using s1(7) r(7,8) by simp
    ultimately show ?thesis using r(2-5) s1(4,5)
      by (intro exI [of _ "None # es"] exI [of _ s'] exI [of _ "new @ src"] exI [of _ "client op @ new @ all"]) simp
  qed
qed

end

text \<open>
  The operations on a readable stream, the tasks of the tick queue included, in any order. A run
  gives the error of each operation that threw; the caller catches it and goes on.
\<close>

datatype stream_op = Push bytes | Read "int option" | DoResume | DoPause | Tick task

definition run_op :: "env \<Rightarrow> stream_op \<Rightarrow> rstate \<Rightarrow> (js_error + rstate) option" where
  [js_eval]: "run_op env op s =
     (case op of
        Push v \<Rightarrow> Some (bindE (add_data env s v False False) (\<lambda>(_, s1). Inr s1))
      | Read n \<Rightarrow> map_option (\<lambda>r. bindE r (\<lambda>(_, s1). Inr s1)) (read env n s)
      | DoResume \<Rightarrow> Some (Inr (resume s))
      | DoPause \<Rightarrow> Some (Inr (pause env s))
      | Tick EmitReadable \<Rightarrow> emitReadable_NT env s
      | Tick MaybeReadMore \<Rightarrow> maybeReadMore_NT env s
      | Tick Resume \<Rightarrow> resume_NT env s
      | Tick EndReadable \<Rightarrow> Some (Inr (endReadableNT env s)))"

fun run_ops :: "env \<Rightarrow> stream_op list \<Rightarrow> rstate \<Rightarrow> (js_error option list \<times> rstate) option" where
  "run_ops env [] s = Some ([], s)"
| "run_ops env (op # ops) s =
     Option.bind (run_op env op s) (\<lambda>r. case r of
         Inl e \<Rightarrow> map_option (\<lambda>(es, t). (Some e # es, t)) (run_ops env ops s)
       | Inr s1 \<Rightarrow> map_option (\<lambda>(es, t). (None # es, t)) (run_ops env ops s1))"

fun op_chunks :: "stream_op \<Rightarrow> bytes list" where
  "op_chunks (Push v) = [v]"
| "op_chunks _ = []"

definition valid_op :: "stream_op \<Rightarrow> bool" where
  [js_eval]: "valid_op op = (case op of Push v \<Rightarrow> wf_bytes v | _ \<Rightarrow> True)"

text \<open>The one error of a run: a read of more than 1 GiB.\<close>

definition too_large :: "stream_op \<Rightarrow> js_error \<Rightarrow> bool" where
  [js_eval]: "too_large op e = (case op of
     Read (Some k) \<Rightarrow> k > MAX_HWM \<and> e = ERR_OUT_OF_RANGE ''size'' ''<= 1GiB'' (JNum (int_num k)) | _ \<Rightarrow> False)"

lemma run_op_serves:
  assumes "situated script env s" and "\<And>v. op \<noteq> Push v"
  shows "(\<exists>e. run_op env op s = Some (Inl e) \<and> too_large op e) \<or>
    (\<exists>s'. run_op env op s = Some (Inr s') \<and> serves script env s s')"
proof (cases op)
  case (Read n)
  then show ?thesis
    using read_refused [of n s env] serves_read [OF assms(1), of n]
    by (cases "refused n s") (fastforce simp: run_op_def too_large_def)+
next
  case (Tick task)
  then show ?thesis
    using serves_emitReadable_NT [OF assms(1)] serves_maybeReadMore_NT [OF assms(1)] serves_resume_NT [OF assms(1)]
      serves_endReadableNT [OF assms(1)] by (cases task) (simp_all add: run_op_def)
qed (use assms serves_flags(10) serves_pause in \<open>simp_all add: run_op_def\<close>)

lemma supplied_new:
  "calls s \<le> calls s' \<Longrightarrow> concat (take (calls s') script) = concat (take (calls s) script) @ new_chunks script s s'"
  unfolding new_chunks_def by (metis concat_append le_add_diff_inverse take_add)

interpretation rs: data_stream "run_op env" op_chunks valid_op too_large "\<lambda>s. situated script env s \<and> live s" "room script"
    chunks "\<lambda>s. concat (take (calls s) script)" text_with for env script
proof
  show "wf_bytes (concat (op_chunks op))" if "valid_op op" for op
    using that by (cases op) (auto simp: valid_op_def wf_bytes_def)
next
  fix s op k
  assume "situated script env s \<and> live s" and valid: "valid_op op" and space: "room script s (length (concat (op_chunks op)) + k)"
  then have sit: "situated script env s" and open_s: "live s" by simp_all
  note wf = situatedD(1) [OF sit]
  have eff: "\<exists>s' new. run_op env op s = Some (Inr s') \<and> (situated script env s' \<and> live s') \<and> room script s' k \<and>
        concat (take (calls s') script) = concat (take (calls s) script) @ new \<and>
        chunks s' = chunks s @ op_chunks op @ new \<and> wf_bytes (concat new) \<and>
        (\<forall>rest. wf_bytes rest \<longrightarrow> text_with s (concat (op_chunks op @ new) @ rest) = text_with s' rest)"
    if e: "run_op env op s = Some (Inr s')" "effect script (op_chunks op) s s'" for s'
  proof (intro exI conjI)
    note d = effectD [OF e(2)]
    show "room script s' k" by (rule effect_room [OF e(2) space])
    then show "situated script env s'"
      using sit d(1) sourced_effect [OF e(2)] by (auto simp: situated_def intro: room_mono)
    show "concat (take (calls s') script) = concat (take (calls s) script) @ new_chunks script s s'"
      by (rule supplied_new [OF d(6)])
  qed (use e effectD [OF e(2)] effect_live [OF e(2)] open_s wf_new_chunks [OF wf] in simp_all)
  show "(\<exists>e. run_op env op s = Some (Inl e) \<and> too_large op e \<and> op_chunks op = []) \<or>
      (\<exists>s' new. run_op env op s = Some (Inr s') \<and> (situated script env s' \<and> live s') \<and> room script s' k \<and>
        concat (take (calls s') script) = concat (take (calls s) script) @ new \<and>
        chunks s' = chunks s @ op_chunks op @ new \<and> wf_bytes (concat new) \<and>
        (\<forall>rest. wf_bytes rest \<longrightarrow> text_with s (concat (op_chunks op @ new) @ rest) = text_with s' rest))"
  proof (cases "\<exists>v. op = Push v")
    case True
    then obtain v where op: "op = Push v" by blast
    have "room script s (length v)" using space op by (auto intro: room_mono)
    then obtain r s' where "add_data env s v False False = Inr (r, s')" "effect script [v] s s'"
      using add_data_ok [OF wf situatedD(2,4) [OF sit] open_s, of v] valid op by (auto simp: valid_op_def)
    then show ?thesis using eff [of s'] op by (simp add: run_op_def)
  next
    case False
    then have none: "op_chunks op = []" by (cases op) auto
    then show ?thesis using run_op_serves [OF sit, of op] False eff by (auto simp: serves_def)
  qed
qed

lemma run_ops_steps: "run_ops env ops s = rs.steps env ops s"
  by (induction ops arbitrary: s) simp_all

lemma new_stream:
  assumes "case dec of None \<Rightarrow> True | Some d \<Rightarrow> newStringDecoder lc v = Inr d"
  shows "stream_inv (newReadable False hwm dec)" and "live (newReadable False hwm dec)"
    and "text_with (newReadable False hwm dec) rest = (case dec of None \<Rightarrow> rest | Some d \<Rightarrow> text_of (sd_encoding d) rest)"
    and "buffered (newReadable False hwm dec) = []"
    and "calls (newReadable False hwm dec) = 0" and "chunks (newReadable False hwm dec) = []"
proof -
  have "stream_ok (newReadable False hwm dec) []"
    using assms newStringDecoder_ok [of lc v] empty_represents
    by (auto simp: stream_ok_def newReadable_def split: option.splits)
  then show "stream_inv (newReadable False hwm dec)" "buffered (newReadable False hwm dec) = []"
    by (auto simp: stream_inv_def dest: buffered_eq)
  then show "text_with (newReadable False hwm dec) rest = (case dec of None \<Rightarrow> rest | Some d \<Rightarrow> text_of (sd_encoding d) rest)"
    using assms newStringDecoder_ok [of lc v]
    by (auto simp: text_with_def newReadable_def delivered_def split: option.splits)
  show "live (newReadable False hwm dec)" by (simp add: live_def newReadable_def)
  show "calls (newReadable False hwm dec) = 0" "chunks (newReadable False hwm dec) = []"
    by (simp_all add: newReadable_def log_lists)
qed

lemma listens_scripted: "listens script (scripted script' env) = listens script env"
  by (simp add: listens_def scripted_def)

text \<open>
  C1: Take a new byte stream whose \<open>_read\<close> pushes, on its \<open>i\<close>-th call, the chunks of the \<open>i\<close>-th entry of
  any finite list synchronously (an asynchronous source has empty entries), and never throws. Its
  listeners may read from it and change flags, such as pausing it, but do not push or throw. Then any
  sequence of pushes of bytes, reads of any size, pauses, resumes and tick tasks runs without a loop
  that fails to return, and only reads of more than 1 GiB throw, leaving the stream as it was. The
  chunks of the pushes and those of the calls of \<open>_read\<close> that were made are all taken in, each in their
  order. Afterwards the data given to the listeners, followed by the buffered data and by the text of
  the bytes the decoder holds back, is exactly the bytes of these chunks, or their text when an
  encoding is set, wherever the chunks were cut; and the length of the state is that of the buffered
  data. Without an encoding the stream is given fewer than \<open>2 ^ 31 - 1\<close> bytes in all.
\<close>
theorem stream_integrity:
  assumes "listens script env" and "wf_script script" and "\<forall>op\<in>set ops. valid_op op"
    and "case dec of None \<Rightarrow> length (concat (concat (map op_chunks ops))) + length (concat (concat script)) < 2147483647
         | Some d \<Rightarrow> newStringDecoder lc v = Inr d"
  shows "\<exists>es s. run_ops (scripted script env) ops (newReadable False hwm dec) = Some (es, s) \<and>
    list_all2 (\<lambda>op r. case r of None \<Rightarrow> True | Some e \<Rightarrow> too_large op e) ops es \<and>
    chunks s \<in> shuffles (concat (map op_chunks ops)) (concat (take (calls s) script)) \<and>
    rs_length s = int (length (buffered s)) \<and>
    delivered s @ buffered s @ (case rs_decoder s of None \<Rightarrow> [] | Some d \<Rightarrow> text_of (sd_encoding d) (held_bytes d)) =
      (case dec of None \<Rightarrow> concat (chunks s) | Some d \<Rightarrow> text_of (sd_encoding d) (concat (chunks s)))"
proof -
  let ?s = "newReadable False hwm dec" and ?env = "scripted script env"
  have new: "case dec of None \<Rightarrow> True | Some d \<Rightarrow> newStringDecoder lc v = Inr d"
    using assms(4) by (auto split: option.splits)
  note new = new_stream [OF new, of hwm]
  have space: "room script ?s (length (concat (concat (map op_chunks ops))))"
    using assms(4) new(4,5) by (auto simp: room_def left_def newReadable_def split: option.splits)
  then have "situated script ?env ?s"
    using assms(1,2) new(1) sourced_scripted room_mono [OF space, of 0] by (simp add: situated_def listens_scripted)
  then obtain es s src all where s: "run_ops ?env ops ?s = Some (es, s)" "situated script ?env s" "list_all2 rs.outcome ops es"
    "concat (take (calls s) script) = concat (take (calls ?s) script) @ src" "chunks s = chunks ?s @ all"
    "all \<in> shuffles (concat (map op_chunks ops)) src" "text_with ?s (concat all) = text_with s []"
    using rs.steps_ok [of script ?env ?s ops] assms(3) new(2) space unfolding run_ops_steps by blast
  then show ?thesis
    using rs_length_buffered [OF situatedD(4) [OF s(2)]] new(3,5,6)
    by (auto simp: text_with_def split: option.splits)
qed

text \<open>
  Environments that listen: one whose listeners do nothing, and one that pauses the stream at each
  chunk of data and reads all of it when it is readable.
\<close>

definition idle_env :: env where
  [js_eval]: "idle_env = \<lparr>user_read = \<lambda>h s. (None, s), on_data = \<lambda>x s. s, on_event = \<lambda>ev s. s, on_error = \<lambda>e s. s\<rparr>"

definition pausing_env :: env where
  [js_eval]: "pausing_env = idle_env\<lparr>on_data := \<lambda>x s. pause idle_env s\<rparr>"

definition reading_env :: "bytes list list \<Rightarrow> env" where
  [js_eval]: "reading_env script = pausing_env\<lparr>on_event := \<lambda>ev s.
     if ev = ''readable''
     then (case read (scripted script pausing_env) None s of Some (Inr (_, s')) \<Rightarrow> s' | _ \<Rightarrow> s)
     else s\<rparr>"

lemma listens_idle: "listens script idle_env"
  by (simp add: listens_def idle_env_def effect_refl)

lemma listens_pausing: "listens script pausing_env"
proof -
  have "same_data s (pause idle_env s)" for s
    by (simp add: pause_def emit_event_def idle_env_def same_data_def log_lists log_def)
  then show ?thesis by (simp add: listens_def pausing_env_def idle_env_def effect_refl effect_same)
qed

lemma listens_reading:
  assumes "wf_script script"
  shows "listens script (reading_env script)"
  unfolding listens_def
proof (intro conjI allI impI)
  fix x s assume s: "stream_inv s \<and> room script s 0"
  then show "effect script [] s (on_data (reading_env script) x s)"
    using listensD(1) [OF listens_pausing] by (simp add: reading_env_def)
next
  fix ev s assume s: "stream_inv s \<and> room script s 0"
  obtain ret s' where "read (scripted script pausing_env) None s = Some (Inr (ret, s'))" "effect script [] s s'"
    using read_ok [OF assms, of "scripted script pausing_env" s None] s sourced_scripted listens_pausing
    by (auto simp: listens_scripted refused_def)
  then show "effect script [] s (on_event (reading_env script) ev s)"
    using s effect_refl by (simp add: reading_env_def)
qed

theorem stream_integrity_witness:
  "\<exists>es s. run_ops (scripted [[[105], [33]]] (reading_env [[[105], [33]]]))
       [Push [104], Read (Some 1), Tick EmitReadable, Read (Some 1073741825), DoResume, Tick Resume] (newReadable False 16 None) = Some (es, s) \<and>
     list_all2 (\<lambda>op r. case r of None \<Rightarrow> True | Some e \<Rightarrow> too_large op e)
       [Push [104], Read (Some 1), Tick EmitReadable, Read (Some 1073741825), DoResume, Tick Resume] es \<and>
     chunks s \<in> shuffles [[104]] (concat (take (calls s) [[[105], [33]]])) \<and>
     rs_length s = int (length (buffered s)) \<and>
     delivered s @ buffered s @ (case rs_decoder s of None \<Rightarrow> [] | Some d \<Rightarrow> text_of (sd_encoding d) (held_bytes d)) = concat (chunks s)"
proof -
  have wf: "wf_script [[[105], [33]]]" by (simp add: wf_script_def wf_bytes_def)
  show ?thesis
    using stream_integrity [OF listens_reading [OF wf] wf,
        where ops = "[Push [104], Read (Some 1), Tick EmitReadable, Read (Some 1073741825), DoResume, Tick Resume]"
        and dec = None and hwm = 16]
    by (simp add: valid_op_def wf_bytes_def)
qed

section \<open>The end of the input\<close>

definition same_flags :: "rstate \<Rightarrow> rstate \<Rightarrow> bool" where
  "same_flags s s' = (rs_flowing s' = rs_flowing s \<and> rs_ended s' = rs_ended s \<and> rs_endEmitted s' = rs_endEmitted s \<and>
     rs_errorEmitted s' = rs_errorEmitted s \<and> rs_closeEmitted s' = rs_closeEmitted s \<and>
     rs_decoder s' = rs_decoder s \<and> (\<exists>l. rs_log s' = rs_log s @ l))"

lemma same_flags_trans: "same_flags s t \<Longrightarrow> same_flags t u \<Longrightarrow> same_flags s u"
  by (auto simp: same_flags_def)

text \<open>Listeners that do nothing to the stream.\<close>

definition inert :: "env \<Rightarrow> bool" where
  "inert env = ((\<forall>x s. on_data env x s = s) \<and> (\<forall>ev s. on_event env ev s = s))"

lemma situated_ended:
  assumes "inert env" and "stream_inv s" and "rs_ended s"
  shows "situated [] env s"
proof -
  obtain xs where "stream_ok s xs" using assms(2) by (rule stream_invE)
  then have "room [] s 0" using buffered_eq by (auto simp: room_def left_def stream_ok_def)
  then show ?thesis
    using assms by (simp add: situated_def wf_script_def listens_def inert_def sourced_def effect_refl)
qed

lemma fromList_buffer: "fromList n s = Some (Inr (r, s')) \<Longrightarrow> \<exists>b. s' = s\<lparr>rs_buffer := b\<rparr>"
  by (auto simp: fromList_def bindE_Inr_iff split: if_splits prod.splits)
    (metis rstate.surjective rstate.update_convs(1))+

lemma finish_read_flags:
  assumes "inert env" and "rs_ended s" and "finish_read env n k ret s = (r, s')"
  shows "same_flags s s'"
  using assms by (auto simp: finish_read_def emit_data_def endReadable_def log_def same_flags_def inert_def Let_def
      split: option.splits if_splits)

lemma read_ended:
  assumes "inert env" and "rs_ended s" and "read env None s = Some (Inr (ret, s'))"
  shows "same_flags s s'"
proof -
  define s2 where "s2 = s\<lparr>rs_emittedReadable := False\<rparr>"
  obtain m where m: "howMuchToRead None s2 = Inr m"
    using assms(3) by (auto simp: read_def s2_def Let_def split: sum.splits)
  have call: "call_read env None m s2 = Inr (m, s2)" using assms(2) by (simp add: call_read_def s2_def Let_def)
  show ?thesis
  proof (cases "m = 0")
    case True
    then show ?thesis
      using assms(2,3) m unfolding s2_def
      by (auto simp: read_def endReadable_def log_def same_flags_def Let_def split: if_splits)
  next
    case False
    then have tail: "map_option (\<lambda>r. bindE r (\<lambda>(ret, s4). Inr (finish_read env None m ret s4)))
        (if m > 0 then fromList (nat m) s2 else Some (Inr (None, s2))) = Some (Inr (ret, s'))"
      using assms(3) m call unfolding s2_def by (simp add: read_def Let_def)
    then obtain x s4 where s4: "(if m > 0 then fromList (nat m) s2 else Some (Inr (None, s2))) = Some (Inr (x, s4))"
      "finish_read env None m x s4 = (ret, s')"
      by (auto simp: bindE_Inr_iff)
    have "same_flags s s4" "rs_ended s4"
      using s4(1) fromList_buffer [of "nat m" s2 x s4] assms(2)
      by (auto simp: same_flags_def s2_def split: if_splits)
    then show ?thesis
      using finish_read_flags [OF assms(1) _ s4(2)] same_flags_trans by blast
  qed
qed

lemma read_empty_ended:
  "rs_ended s \<Longrightarrow> rs_length s = 0 \<Longrightarrow> read env None s = Some (Inr (None, endReadable (s\<lparr>rs_emittedReadable := False\<rparr>)))"
  by (simp add: read_def howMuchToRead_def Let_def)

text \<open>The end is the last thing that flowing schedules.\<close>

definition end_scheduled :: "rstate \<Rightarrow> rstate \<Rightarrow> bool" where
  "end_scheduled s s' = (\<exists>l. rs_log s' = rs_log s @ l @ [NextTick EndReadable])"

lemma end_scheduled_trans: "same_flags s t \<Longrightarrow> end_scheduled t u \<Longrightarrow> end_scheduled s u"
  unfolding same_flags_def end_scheduled_def by (metis append.assoc)

lemma read_some:
  assumes "situated [] env s" and "rs_ended s" and "rs_length s \<noteq> 0"
  shows "read env None s \<noteq> Some (Inr (None, s'))"
proof
  assume r: "read env None s = Some (Inr (None, s'))"
  define s2 where "s2 = s\<lparr>rs_emittedReadable := False\<rparr>"
  obtain xs where ok: "stream_ok s xs" using situatedD(4) [OF assms(1)] by (rule stream_invE)
  then have "stream_ok s2 xs" by (simp add: s2_def stream_ok_def)
  then obtain m where m: "howMuchToRead None s2 = Inr m" "0 < m"
    using howMuchToRead_ok [of s2 xs None] assms(3) by (auto simp: s2_def)
  have call: "call_read env None m s2 = Inr (m, s2)" using assms(2) by (simp add: call_read_def s2_def Let_def)
  have "m \<le> rs_length s2"
    using howMuchToRead_ok [of s2 xs None] \<open>stream_ok s2 xs\<close> m by auto
  then obtain y b where "fromList (nat m) s2 = Some (Inr (Some y, s2\<lparr>rs_buffer := b\<rparr>))"
    using fromList_ok [OF \<open>stream_ok s2 xs\<close>, of "nat m"] m(2) by auto
  then have "\<exists>t. read env None s = Some (Inr (Some y, t))"
    using m call unfolding s2_def by (simp add: read_def finish_read_def Let_def)
  then show False using r by auto
qed

lemma flow_ended:
  assumes "inert env"
  shows "stream_inv s \<Longrightarrow> is_flowing s \<Longrightarrow> rs_ended s \<Longrightarrow> \<not> rs_endEmitted s \<Longrightarrow>
    \<exists>s'. flow env s = Some (Inr s') \<and> effect [] [] s s' \<and> same_flags s s' \<and> buffered s' = [] \<and> end_scheduled s s'"
proof (induction "length (buffered s)" arbitrary: s rule: less_induct)
  case less
  note sit = situated_ended [OF assms less.prems(1,3)]
  show ?case
  proof (cases "buffered s = []")
    case True
    then have len: "rs_length s = 0" using rs_length_buffered [OF less.prems(1)] by simp
    define s1 where "s1 = endReadable (s\<lparr>rs_emittedReadable := False\<rparr>)"
    have r: "read env None s = Some (Inr (None, s1))"
      unfolding s1_def by (rule read_empty_ended [OF less.prems(3) len])
    then have "flow env s = Some (Inr s1)" using less.prems(2) by (subst flow.simps) simp
    moreover have "same_data s s1"
      using same_data_trans [OF _ same_data_flags(3), of s "s\<lparr>rs_emittedReadable := False\<rparr>"] less.prems(3)
      by (simp add: s1_def same_data_def log_lists)
    moreover have "same_flags s s1" "end_scheduled s s1"
      using less.prems(3,4) by (simp_all add: s1_def endReadable_def log_def same_flags_def end_scheduled_def)
    ultimately show ?thesis
      using effect_same [of s s1] less.prems(1) True by (auto simp: same_data_def buffered_def)
  next
    case False
    obtain ret s1 where r: "read env None s = Some (Inr (ret, s1))" "effect [] [] s s1" "ret \<noteq> None \<longrightarrow> shrinks [] s s1"
      "ret = None \<longrightarrow> buffered s1 = []"
      using read_ok [OF situatedD [OF sit], of None] by (auto simp: refused_def)
    have "ret \<noteq> None"
    proof
      assume "ret = None"
      then have "read env None s = Some (Inr (None, s1))" using r(1) by simp
      moreover have "rs_length s \<noteq> 0" using False rs_length_buffered [OF less.prems(1)] by simp
      ultimately show False using read_some [OF sit] less.prems(3) by blast
    qed
    then obtain x where x: "ret = Some x" by blast
    have small: "length (buffered s1) < length (buffered s)" using r(3) x by (simp add: shrinks_def)
    have flags: "same_flags s s1" by (rule read_ended [OF assms less.prems(3) r(1)])
    obtain s' where s': "flow env s1 = Some (Inr s')" "effect [] [] s1 s'" "same_flags s1 s'" "buffered s' = []"
      "end_scheduled s1 s'"
      using less.hyps [OF small effectD(1) [OF r(2)]] flags less.prems(2-4) by (auto simp: same_flags_def is_flowing_def)
    have "flow env s = flow env s1" using less.prems(2) r(1) x by (subst flow.simps) simp
    then show ?thesis
      using s' effect_trans [OF situatedD(1) [OF sit] r(2) s'(2)] same_flags_trans [OF flags s'(3)]
        end_scheduled_trans [OF flags s'(5)] by (intro exI [of _ s']) simp
  qed
qed

lemma emitReadable_NT_ended:
  assumes "inert env" and "stream_inv s" and "is_flowing s" and "rs_ended s" and "\<not> rs_endEmitted s"
  shows "\<exists>s'. emitReadable_NT env s = Some (Inr s') \<and> effect [] [] s s' \<and> same_flags s s' \<and> buffered s' = [] \<and>
    end_scheduled s s'"
proof -
  define s1 where "s1 = (if \<not> rs_destroyed s \<and> \<not> rs_errored s \<and> (rs_length s \<noteq> 0 \<or> rs_ended s)
    then (emit_event env ''readable'' s)\<lparr>rs_emittedReadable := False\<rparr> else s)"
  define s2 where "s2 = s1\<lparr>rs_needReadable := \<not> is_flowing s1 \<and> \<not> rs_ended s1 \<and> rs_length s1 \<le> rs_highWaterMark s1\<rparr>"
  have "same_data s s2"
    using assms(1) by (simp add: s2_def s1_def emit_event_def inert_def same_data_def log_lists log_def)
  then have k: "effect [] [] s s2" by (rule effect_same [OF _ assms(2)])
  have flags: "same_flags s s2" using assms(1) by (simp add: same_flags_def s2_def s1_def emit_event_def inert_def log_def)
  have "emitReadable_NT env s = flow env s2"
    unfolding emitReadable_NT_def s1_def [symmetric] Let_def by (simp add: s2_def)
  moreover obtain s' where s': "flow env s2 = Some (Inr s')" "effect [] [] s2 s'" "same_flags s2 s'" "buffered s' = []"
    "end_scheduled s2 s'"
    using flow_ended [OF assms(1) effectD(1) [OF k]] flags assms(3-5) by (auto simp: same_flags_def is_flowing_def)
  moreover have "wf_script []" by (simp add: wf_script_def)
  ultimately show ?thesis
    using effect_trans [OF _ k s'(2)] same_flags_trans [OF flags s'(3)] end_scheduled_trans [OF flags s'(5)] by auto
qed

text \<open>The state \<open>onEofChunk\<close> reaches before it schedules or runs \<open>emitReadable_\<close>.\<close>

definition eof_state :: "rstate \<Rightarrow> rstate \<Rightarrow> bool" where
  "eof_state s s' = (stream_inv s' \<and> rs_ended s' \<and> rs_flowing s' = rs_flowing s \<and> rs_endEmitted s' = rs_endEmitted s \<and>
     rs_errorEmitted s' = rs_errorEmitted s \<and> rs_closeEmitted s' = rs_closeEmitted s \<and> rs_sync s' = rs_sync s \<and>
     rs_log s' = rs_log s \<and> rs_emittedReadable s' = rs_emittedReadable s \<and>
     text_with s' [] = text_with s [] \<and> (\<forall>d. rs_decoder s' = Some d \<longrightarrow> held_bytes d = []))"

lemma eof_ok:
  assumes "stream_inv s" and "\<not> rs_ended s"
  shows "\<exists>s'. eof_state s s' \<and> onEofChunk env s =
    (if rs_sync s' then Some (Inr (emitReadable s'))
     else emitReadable_NT env (s'\<lparr>rs_needReadable := False, rs_emittedReadable := True\<rparr>))"
proof -
  obtain xs where ok: "stream_ok s xs" using assms(1) by (rule stream_invE)
  show ?thesis
  proof (cases "rs_decoder s")
    case None
    have "stream_ok (s\<lparr>rs_ended := True\<rparr>) xs" using ok by (simp add: stream_ok_def)
    then have "eof_state s (s\<lparr>rs_ended := True\<rparr>)"
      using None buffered_eq ok by (auto simp: eof_state_def stream_inv_def text_with_def delivered_def)
    then show ?thesis using None assms(2) by (intro exI [of _ "s\<lparr>rs_ended := True\<rparr>"]) (simp add: onEofChunk_def Let_def)
  next
    case (Some d)
    have dok: "decoder_ok (sd_encoding d) d" using ok Some by (simp add: stream_ok_def)
    obtain t d' where t: "end_bytes d [] = (t, d')" by fastforce
    then have f: "flush d = (t, d')" by (simp add: end_bytes_def split: prod.splits)
    have d': "decoder_ok (sd_encoding d) d'" "held_bytes d' = []" "t = text_of (sd_encoding d) (held_bytes d)"
      using sd.finish_ok [OF dok f] sd.finish_text [OF dok f] by auto
    then have enc: "sd_encoding d' = sd_encoding d" by (simp add: decoder_ok_def)
    show ?thesis
    proof (cases "t = []")
      case True
      define s' where "s' = s\<lparr>rs_decoder := Some d', rs_ended := True\<rparr>"
      have "stream_ok s' xs" using ok Some d' enc by (simp add: s'_def stream_ok_def)
      then have "eof_state s s'"
        using Some buffered_eq ok d' True by (auto simp: eof_state_def s'_def stream_inv_def text_with_def delivered_def)
      then show ?thesis
        using Some t True assms(2) by (intro exI [of _ s']) (simp add: onEofChunk_def s'_def Let_def)
    next
      case False
      obtain b where b: "bl_push (rs_buffer s) t = Inr b" "represents b (xs @ [t])"
        using push_represents [of "rs_buffer s" xs t] ok by (auto simp: stream_ok_def)
      define s' where "s' = s\<lparr>rs_decoder := Some d', rs_buffer := b, rs_length := rs_length s + int (length t), rs_ended := True\<rparr>"
      have ok': "stream_ok s' (xs @ [t])" using ok Some d' enc b False by (simp add: s'_def stream_ok_def)
      have "eof_state s s'"
        using Some buffered_eq [OF ok'] buffered_eq [OF ok] ok' d'
        by (auto simp: eof_state_def s'_def stream_inv_def text_with_def delivered_def)
      then show ?thesis
        using Some t False assms(2) b(1) ok
        by (intro exI [of _ s']) (simp add: onEofChunk_def s'_def chunk_size_def stream_ok_def Let_def)
    qed
  qed
qed

lemma eof_delivered:
  assumes "eof_state s s'" and "same_data s' t" and "effect [] [] t s2" and "buffered s2 = []"
    and "same_flags t s2"
  shows "delivered s2 = text_with s []"
proof -
  have "new_chunks [] t s2 = []" by (simp add: new_chunks_def)
  moreover have "wf_bytes []" by (simp add: wf_bytes_def)
  ultimately have "text_with t [] = text_with s2 []" using effectD(8) [OF assms(3), of "[]"] by simp
  moreover have "text_with t [] = text_with s []"
    using assms(1) same_data_text [OF assms(2)] by (simp add: eof_state_def)
  moreover have "rs_decoder s2 = rs_decoder s'" using assms(2,5) by (simp add: same_data_def same_flags_def)
  then have "text_with s2 [] = delivered s2"
    using assms(1,4) by (auto simp: text_with_def eof_state_def split: option.splits)
  ultimately show ?thesis by simp
qed


lemma example_stream:
  "stream_inv ((newReadable False 16 None)\<lparr>rs_buffer := \<lparr>bl_store = [\<lparr>e_data = [7, 8], e_next = None\<rparr>],
     bl_head = Some 0, bl_tail = Some 0, bl_length = 1\<rparr>, rs_length := 2, rs_flowing := Some True\<rparr>)"
  (is "stream_inv ?s")
proof -
  have "rep (rs_buffer ?s) [0]" by (simp add: rep_def)
  then have "represents (rs_buffer ?s) [[7, 8]]" by (auto simp: represents_def)
  then have "stream_ok ?s [[7, 8]]" by (simp add: stream_ok_def newReadable_def)
  then show ?thesis by (auto simp: stream_inv_def)
qed


end
