(* ===== verification/Buffer_Write_Laws.thy ===== *)
theory Buffer_Write_Laws
  imports Buffer_Codec_Laws
begin

unbundle bit_operations_syntax

text \<open>
  Writing text into a buffer, for every encoding: the result is a buffer of bytes of the same length,
  and only the range the call reports as written has changed.
\<close>

section \<open>Every encoder produces bytes\<close>

lemma wf_bytes_cases [simp]:
  "wf_bytes []" "wf_bytes (b # bs) \<longleftrightarrow> b < 256 \<and> wf_bytes bs" "wf_bytes (bs @ bs') \<longleftrightarrow> wf_bytes bs \<and> wf_bytes bs'"
  by (auto simp: wf_bytes_def)

lemma wf_bytes_parts: "wf_bytes bs \<Longrightarrow> wf_bytes (take n bs)" "wf_bytes bs \<Longrightarrow> wf_bytes (drop n bs)"
  by (auto simp: wf_bytes_def dest: in_set_takeD in_set_dropD)

lemma and_255: "(x::nat) AND 255 < 256"
  by (simp add: and_masks)

lemma or_less:
  fixes x y :: nat
  assumes "x < 2 ^ n" "y < 2 ^ n"
  shows "x OR y < 2 ^ n"
proof -
  have "take_bit n (x OR y) = x OR y" using assms by (simp add: take_bit_nat_eq_self)
  then show ?thesis by (metis take_bit_nat_less_exp)
qed

lemma or_less_256: "(x::nat) < 256 \<Longrightarrow> y < 256 \<Longrightarrow> x OR y < 256"
  using or_less[of x 8 y] by simp

lemma utf8_bytes_wf: "cp < 0x110000 \<Longrightarrow> wf_bytes (utf8_bytes cp)"
  by (auto simp: utf8_bytes_def and_masks drop_bit_eq_div intro!: or_less_256)

lemma pair_bound:
  assumes "lead < 0xDC00" "c < 0xE000"
  shows "(push_bit 10 (lead - 0xD800) OR (c - 0xDC00)) + 0x10000 < (0x110000::nat)"
proof -
  have "push_bit 10 (lead - 0xD800) < 2 ^ 20" "c - 0xDC00 < 2 ^ 20" using assms by (simp_all add: push_bit_eq_mult)
  then have "push_bit 10 (lead - 0xD800) OR (c - 0xDC00) < 2 ^ 20" by (rule or_less)
  then show ?thesis by simp
qed

lemma utf8_loop_wf:
  "wf_jstr s \<Longrightarrow> lead = 0 \<or> 0xD800 \<le> lead \<and> lead < 0xDC00 \<Longrightarrow> wf_bytes (utf8_loop units lead s)"
proof (induction s arbitrary: units lead)
  case (Cons c cs)
  have c: "c < 0x110000" and IH: "\<And>u l. l = 0 \<or> 0xD800 \<le> l \<and> l < 0xDC00 \<Longrightarrow> wf_bytes (utf8_loop u l cs)"
    using Cons by (auto simp: wf_jstr_def)
  have IH0: "wf_bytes (utf8_loop u 0 cs)" for u using IH by simp
  have st: "cp < 0x110000 \<Longrightarrow> wf_bytes (utf8_bytes cp @ utf8_loop u 0 cs)" for cp u using utf8_bytes_wf IH0 by simp
  show ?case
  proof (cases "0xD7FF < c \<and> c < 0xE000")
    case True
    show ?thesis
    proof (cases "lead = 0")
      case True
      with \<open>0xD7FF < c \<and> c < 0xE000\<close> show ?thesis using IH[of c] IH0 by (subst utf8_loop.simps) (simp add: Let_def)
    next
      case False
      note pair = st[OF pair_bound[of lead c]]
      show ?thesis
        using True False Cons.prems(2) IH[of c] pair by (subst utf8_loop.simps) (simp add: Let_def)
    qed
  next
    case False
    then show ?thesis using st[OF c] by (subst utf8_loop.simps) (auto simp: Let_def)
  qed
qed (simp add: utf8_loop.simps)

lemma asciiToBytes_wf: "wf_bytes (asciiToBytes s)"
  by (auto simp: asciiToBytes_def wf_bytes_def and_masks)

lemma utf16leToBytes_wf: "wf_jstr s \<Longrightarrow> wf_bytes (utf16leToBytes s units)"
  by (induction s units rule: utf16leToBytes.induct) (auto simp: wf_jstr_def drop_bit_eq_div)

lemma base64ToBytes_wf: "base64ToBytes s = Inr bs \<Longrightarrow> wf_bytes bs"
proof -
  have "wf_bytes (b64_quad b i)" for b i by (simp add: b64_quad_def Let_def and_masks)
  then have q: "wf_bytes (fst (b64_quads b i len))" for b i len
    by (induction b i len rule: b64_quads.induct) (subst b64_quads.simps, auto simp: case_prod_beta Let_def)
  have t: "wf_bytes (b64_tail b i n)" for b i n by (simp add: b64_tail_def Let_def and_masks)
  have a: "wf_bytes xs \<Longrightarrow> wf_bytes (into_array n xs)" for n xs
    by (auto simp: into_array_def wf_bytes_def dest!: in_set_takeD)
  show "base64ToBytes s = Inr bs \<Longrightarrow> wf_bytes bs"
    using q[of _ 0] t a
    by (auto simp: base64ToBytes_def toByteArray_def bindE_def Let_def case_prod_beta split: sum.splits if_splits)
qed


section \<open>Every write stays in its range\<close>

definition wrote :: "bytes \<Rightarrow> nat \<Rightarrow> nat \<Rightarrow> bytes \<Rightarrow> bool" where
  [js_eval]: "wrote buf off n buf' \<longleftrightarrow> off + n \<le> length buf \<and> length buf' = length buf \<and> wf_bytes buf' \<and>
     take off buf' = take off buf \<and> drop (off + n) buf' = drop (off + n) buf"

lemma blitBuffer_wrote:
  assumes "wf_bytes buf" "wf_bytes src" "off \<le> length buf" "blitBuffer src buf off len = (n, buf')"
  shows "wrote buf off n buf'"
proof -
  have n: "n = min len (min (length src) (length buf - off))" "buf' = take off buf @ take n src @ drop (off + n) buf"
    using assms(4) by (auto simp: blitBuffer_eq Let_def)
  then have "length (take n src) = n" "off + n \<le> length buf" using assms(3) by auto
  then show ?thesis using assms(1-3) by (simp add: wrote_def n(2) wf_bytes_parts)
qed

lemma hex_table: "length hexCharValueTable = 128 \<and> (\<forall>v\<in>set hexCharValueTable. v \<le> 15)"
  by (simp add: hexCharValueTable_def)

lemma hex_digit: "hexCharValueTable ! (a AND 0x7F) \<le> 15"
  using hex_table by (metis and_masks(2) mod_less_divisor nth_mem zero_less_numeral)

lemma or_and_not_nonneg:
  fixes x y z w :: int
  assumes "(x OR y OR z OR w) AND NOT 0x7F = 0"
  shows "0 \<le> z \<and> 0 \<le> w"
proof -
  have "\<not> (x OR y OR z OR w) AND NOT 0x7F < 0" using assms by simp
  moreover have "NOT (0x7F::int) < 0" by simp
  ultimately have "0 \<le> x OR y OR z OR w" unfolding and_negative_int_iff by linarith
  then show ?thesis by (simp add: or_nonnegative_int_iff)
qed

lemma hex_byte:
  fixes hi lo :: int
  assumes "0 \<le> hi" "hi \<le> 15" "0 \<le> lo" "lo \<le> 15"
  shows "nat (push_bit 4 hi OR lo) < 256"
proof -
  have "push_bit 4 hi < 2 ^ 8" "0 \<le> push_bit 4 hi" "lo < 2 ^ 8" using assms by (simp_all add: push_bit_eq_mult)
  then have "push_bit 4 hi OR lo < 2 ^ 8" by (intro OR_upper)
  then show ?thesis by simp
qed

lemma wf_update: "wf_bytes bs \<Longrightarrow> b < 256 \<Longrightarrow> wf_bytes (bs[i := b])"
  by (auto simp: wf_bytes_def dest!: set_update_subset_insert[THEN subsetD])

lemma take_less: "take n xs = take n ys \<Longrightarrow> m \<le> n \<Longrightarrow> take m xs = take m ys"
  by (metis min.absorb1 take_take)

lemma hex_write_loop_wrote:
  assumes "hex_write_loop string i len off buf = (m, buf')" "int i \<le> len" "int off + len \<le> int (length buf)" "wf_bytes buf"
  shows "int i \<le> m \<and> m \<le> len \<and> length buf' = length buf \<and> wf_bytes buf' \<and>
    take (off + i) buf' = take (off + i) buf \<and> drop (off + nat m) buf' = drop (off + nat m) buf"
  using assms
proof (induction string i len off buf rule: hex_write_loop.induct)
  case (1 string i len off buf)
  let ?a = "string ! (i * 2)" and ?b = "string ! (i * 2 + 1)"
  let ?hi = "hexCharValueTable ! (?a AND 0x7F)" and ?lo = "hexCharValueTable ! (?b AND 0x7F)"
  let ?stop = "(int ?a OR int ?b OR ?hi OR ?lo) AND NOT 0x7F \<noteq> 0"
  let ?buf = "buf[off + i := nat (push_bit 4 ?hi OR ?lo)]"
  have step: "hex_write_loop string i len off buf =
      (if int i < len then if ?stop then (int i, buf) else hex_write_loop string (i + 1) len off ?buf else (len, buf))"
    by (subst hex_write_loop.simps) (simp only: Let_def)
  show ?case
  proof (cases "int i < len \<and> \<not> ?stop")
    case True
    then have lt: "int i < len" and go: "\<not> ?stop" by blast+
    have rest: "hex_write_loop string (i + 1) len off ?buf = (m, buf')"
      using 1(2) unfolding step using lt go by (simp only: if_True if_False)
    have pos: "0 \<le> ?hi \<and> 0 \<le> ?lo" using or_and_not_nonneg[of "int ?a" "int ?b" ?hi ?lo] go by blast
    have "nat (push_bit 4 ?hi OR ?lo) < 256"
      by (rule hex_byte) (use pos hex_digit in blast)+
    then have wf: "wf_bytes ?buf" by (rule wf_update[OF 1(5)])
    have IH: "int (i + 1) \<le> m \<and> m \<le> len \<and> length buf' = length ?buf \<and> wf_bytes buf' \<and>
        take (off + (i + 1)) buf' = take (off + (i + 1)) ?buf \<and> drop (off + nat m) buf' = drop (off + nat m) ?buf"
    proof (rule 1(1)[OF lt refl refl refl refl go rest _ _ wf])
      show "int (i + 1) \<le> len" using lt by linarith
      show "int off + len \<le> int (length ?buf)" using 1(4) by (simp only: length_list_update)
    qed
    have take: "take (off + i) buf' = take (off + i) ?buf"
      by (rule take_less[of "off + (i + 1)"]) (use IH in blast, simp only: add_le_cancel_left le_add1)
    have "take (off + i) ?buf = take (off + i) buf" by (rule take_update_cancel) simp
    note take = take[unfolded this]
    have "off + i < off + nat m" using IH by linarith
    then have drop: "drop (off + nat m) ?buf = drop (off + nat m) buf" by (rule drop_update_cancel)
    show ?thesis using IH take unfolding drop length_list_update by linarith
  next
    case False
    then have "m = int i \<and> buf' = buf" using 1(2,3) unfolding step by (auto split: if_splits)
    then show ?thesis using 1(3,5) by simp
  qed
qed

lemma hexWrite_wrote:
  assumes "wf_bytes buf" "off \<le> length buf" "hexWrite buf string off len = (m, buf')"
  shows "wrote buf off (nat m) buf'"
proof -
  obtain k where k: "hex_write_loop string 0 k off buf = (m, buf')" "0 \<le> k" "int off + k \<le> int (length buf)"
    using assms(2,3) by (auto simp: hexWrite_def Let_def split: if_splits option.splits)
  have "0 \<le> m \<and> m \<le> k \<and> length buf' = length buf \<and> wf_bytes buf' \<and>
    take off buf' = take off buf \<and> drop (off + nat m) buf' = drop (off + nat m) buf"
    using hex_write_loop_wrote[OF k(1) _ k(3) assms(1)] k(2) by simp
  then show ?thesis using k(3) by (auto simp: wrote_def)
qed

lemma base64Write_wrote:
  assumes "wf_bytes buf" "off \<le> length buf" "base64Write buf string off len = Inr (n, buf')"
  shows "wrote buf off n buf'"
proof (cases "base64ToBytes string")
  case (Inr bs)
  then have "blitBuffer bs buf off len = (n, buf')" using assms(3) by (simp add: base64Write_def bindE_def)
  then show ?thesis by (rule blitBuffer_wrote[OF assms(1) base64ToBytes_wf[OF Inr] assms(2)])
qed (use assms(3) in \<open>simp add: base64Write_def bindE_def\<close>)

lemma write_encoded_wrote:
  assumes "wf_bytes buf" "wf_jstr string" "off \<le> length buf" "write_encoded e buf string off len = Inr (n, buf')"
  shows "wrote buf off n buf'"
proof (cases e)
  case Hex
  then show ?thesis using assms(4) hexWrite_wrote[OF assms(1,3)]
    by (auto simp: write_encoded_def split: prod.splits)
next
  case Utf8
  have src: "wf_bytes (utf8ToBytes string u)" for u using utf8_loop_wf[OF assms(2), of 0] by (simp add: utf8ToBytes_def)
  have "utf8Write buf string off len = (n, buf')" using assms(4) Utf8 by (simp add: write_encoded_def)
  then show ?thesis unfolding utf8Write_def by (rule blitBuffer_wrote[OF assms(1) src assms(3)])
next
  case Utf16le
  have "ucs2Write buf string off len = (n, buf')" using assms(4) Utf16le by (simp add: write_encoded_def)
  then show ?thesis
    unfolding ucs2Write_def by (rule blitBuffer_wrote[OF assms(1) utf16leToBytes_wf[OF assms(2)] assms(3)])
next
  case Ascii
  then have "asciiWrite buf string off len = (n, buf')" using assms(4) by (simp add: write_encoded_def)
  then show ?thesis unfolding asciiWrite_def by (rule blitBuffer_wrote[OF assms(1) asciiToBytes_wf assms(3)])
next
  case Latin1
  then have "asciiWrite buf string off len = (n, buf')" using assms(4) by (simp add: write_encoded_def)
  then show ?thesis unfolding asciiWrite_def by (rule blitBuffer_wrote[OF assms(1) asciiToBytes_wf assms(3)])
next
  case Base64
  then have "base64Write buf string off len = Inr (n, buf')" using assms(4) by (simp add: write_encoded_def)
  then show ?thesis by (rule base64Write_wrote[OF assms(1,3)])
next
  case Base64url
  then have "base64Write buf string off len = Inr (n, buf')" using assms(4) by (simp add: write_encoded_def)
  then show ?thesis by (rule base64Write_wrote[OF assms(1,3)])
qed

lemma write_args_offset:
  "write_args to_number buf offset len encoding = Inr (enc, off, k) \<Longrightarrow> off \<le> length buf"
  by (auto simp: write_args_def Let_def split: jsval.splits jsnum.splits if_splits)

text \<open>
  C15: \<open>buf.write\<close> keeps a buffer a buffer: for every encoding and every argument list it accepts, and
  for any text, well formed or not, the elements stay bytes, the length stays, the count returned fits
  behind the offset, and nothing outside the range of that count is touched.
\<close>

theorem write_in_range:
  assumes "wf_bytes buf" "wf_jstr string"
    and "buf_write to_string to_number lc buf string offset len encoding = Inr (n, buf')"
  shows "\<exists>enc off k. write_args to_number buf offset len encoding = Inr (enc, off, k) \<and> wrote buf off n buf'"
proof -
  obtain enc off k where args: "write_args to_number buf offset len encoding = Inr (enc, off, k)"
    using assms(3) by (auto simp: buf_write_def bindE_def split: sum.splits prod.splits)
  then obtain e n' where "write_encoded e buf string off n' = Inr (n, buf')"
    using assms(3) by (auto simp: buf_write_def bindE_def Let_def split: sum.splits)
  then have "wrote buf off n buf'"
    by (rule write_encoded_wrote[OF assms(1,2) write_args_offset[OF args]])
  then show ?thesis using args by blast
qed

lemma write_in_range_witness:
  "\<exists>enc off k. write_args (\<lambda>_. NaN) [1, 2, 3, 4] (JNum (Num 1)) (JStr (js ''hex'')) JUndefined = Inr (enc, off, k) \<and>
    wrote [1, 2, 3, 4] off 2 [1, 0xAB, 0xCD, 4]"
proof -
  have "buf_write (\<lambda>_. Inr []) (\<lambda>_. NaN) (\<lambda>s. s) [1, 2, 3, 4] (js ''abcdxy'') (JNum (Num 1)) (JStr (js ''hex'')) JUndefined =
      Inr (2, [1, 0xAB, 0xCD, 4])"
    by code_simp
  then show ?thesis
    by (intro write_in_range[where to_string = "\<lambda>_. Inr []" and lc = "\<lambda>s. s" and string = "js ''abcdxy''"])
      (simp_all add: wf_jstr_def js_def)
qed

end
