(* ===== verification/Events.thy ===== *)
theory Events
  imports JS_Bits
begin

text \<open>
  The event emitter of \<open>builtin/events.js\<close>. The object that maps event names to listeners, the arrays
  of listeners and the wrappers of \<open>once\<close> are mutable and shared, so they are addressed by their index
  in stores. A listener is user code: \<open>body\<close> gives for a function and its arguments the calls it
  makes on the emitter. Every call goes through a machine \<open>k\<close> with less fuel, so that
  re-entrant emissions are modelled as they happen; \<open>None\<close> is a run that needs more fuel, or one
  that calls a wrapper no \<open>once\<close> has made, which no program can name. Promise
  rejections (\<open>captureRejections\<close>) and domains are not modelled.
\<close>

section \<open>Events, listeners and the emitter\<close>

datatype event = EStr jstr | ESym nat

definition ev_error :: event where [js_eval]: "ev_error = EStr (js ''error'')"
definition ev_newListener :: event where [js_eval]: "ev_newListener = EStr (js ''newListener'')"
definition ev_removeListener :: event where [js_eval]: "ev_removeListener = EStr (js ''removeListener'')"
definition ev_errorMonitor :: event where [js_eval]: "ev_errorMonitor = ESym 0"

text \<open>A function of the user, or a wrapper made by \<open>once\<close>.\<close>

datatype listener = Fn nat | Wrapper nat

datatype arg = AVal jsval | AErr js_error | AEvent event | AListener listener

record wrapper =
  w_type :: event
  w_listener :: listener
  w_fired :: bool

datatype slot = One listener | Many nat

record larray =
  a_items :: "listener list"
  a_warned :: bool

type_synonym table = "(event \<times> slot) list"

record emitter =
  em_tables :: "table list"
  em_events :: nat
  em_count :: int
  em_max :: "jsnum option"
  em_default :: jsnum
  em_wrappers :: "wrapper list"
  em_arrays :: "larray list"
  em_calls :: "(nat \<times> arg list) list"
  em_fires :: "nat list"
  em_warnings :: "(event \<times> nat) list"

definition newEmitter :: emitter where
  [js_eval]: "newEmitter = \<lparr>em_tables = [[]], em_events = 0, em_count = 0, em_max = None, em_default = Num 10,
     em_wrappers = [], em_arrays = [], em_calls = [], em_fires = [], em_warnings = []\<rparr>"

definition cur_table :: "emitter \<Rightarrow> table" where
  [js_eval]: "cur_table s = em_tables s ! em_events s"

definition lookup :: "emitter \<Rightarrow> nat \<Rightarrow> event \<Rightarrow> slot option" where
  [js_eval]: "lookup s t ev = map_of (em_tables s ! t) ev"

fun table_set :: "table \<Rightarrow> event \<Rightarrow> slot \<Rightarrow> table" where
  "table_set [] ev x = [(ev, x)]"
| "table_set ((e, y) # t) ev x = (if e = ev then (e, x) # t else (e, y) # table_set t ev x)"

definition table_del :: "table \<Rightarrow> event \<Rightarrow> table" where
  [js_eval]: "table_del t ev = filter (\<lambda>(e, x). e \<noteq> ev) t"

definition set_slot :: "event \<Rightarrow> slot \<Rightarrow> emitter \<Rightarrow> emitter" where
  [js_eval]: "set_slot ev x s = s\<lparr>em_tables := (em_tables s)[em_events s := table_set (cur_table s) ev x]\<rparr>"

definition del_slot :: "event \<Rightarrow> emitter \<Rightarrow> emitter" where
  [js_eval]: "del_slot ev s = s\<lparr>em_tables := (em_tables s)[em_events s := table_del (cur_table s) ev]\<rparr>"

definition new_table :: "emitter \<Rightarrow> emitter" where
  [js_eval]: "new_table s = s\<lparr>em_tables := em_tables s @ [[]], em_events := length (em_tables s)\<rparr>"

definition set_items :: "nat \<Rightarrow> listener list \<Rightarrow> emitter \<Rightarrow> emitter" where
  [js_eval]: "set_items a ls s = s\<lparr>em_arrays := (em_arrays s)[a := (em_arrays s ! a)\<lparr>a_items := ls\<rparr>]\<rparr>"

definition items :: "emitter \<Rightarrow> nat \<Rightarrow> listener list" where
  [js_eval]: "items s a = a_items (em_arrays s ! a)"

text \<open>\<open>l.listener || l\<close>, and the test \<open>l === x || l.listener === x\<close>.\<close>

definition original :: "emitter \<Rightarrow> listener \<Rightarrow> listener" where
  [js_eval]: "original s l = (case l of Fn f \<Rightarrow> l | Wrapper w \<Rightarrow> w_listener (em_wrappers s ! w))"

definition same_listener :: "emitter \<Rightarrow> listener \<Rightarrow> listener \<Rightarrow> bool" where
  [js_eval]: "same_listener s l x = (l = x \<or> (case l of Fn f \<Rightarrow> False | Wrapper w \<Rightarrow> w_listener (em_wrappers s ! w) = x))"

section \<open>Runs\<close>

text \<open>The argument of a method that expects a function, and the calls user code makes.\<close>

datatype larg = Func listener | NotFunction jsval

datatype call =
    On event larg | PrependOn event larg | Once event larg | PrependOnce event larg
  | Off event larg | OffAll event | OffEvery | Emit event "arg list" | SetMax jsval | Throw js_error

datatype request = REmit event "arg list" | RCall listener "arg list"

type_synonym 'a run = "((js_error + 'a) \<times> emitter) option"
type_synonym machine = "request \<Rightarrow> emitter \<Rightarrow> bool run"

definition bindR :: "'a run \<Rightarrow> ('a \<Rightarrow> emitter \<Rightarrow> 'b run) \<Rightarrow> 'b run" where
  [js_eval]: "bindR m f = (case m of None \<Rightarrow> None | Some (Inl e, s) \<Rightarrow> Some (Inl e, s) | Some (Inr x, s) \<Rightarrow> f x s)"

definition returnR :: "'a \<Rightarrow> emitter \<Rightarrow> 'a run" where
  [js_eval]: "returnR x s = Some (Inr x, s)"

definition throwR :: "js_error \<Rightarrow> emitter \<Rightarrow> 'a run" where
  [js_eval]: "throwR e s = Some (Inl e, s)"

section \<open>Emitting\<close>

fun call_each :: "machine \<Rightarrow> listener list \<Rightarrow> arg list \<Rightarrow> emitter \<Rightarrow> bool run" where
  "call_each k [] args s = returnR True s"
| "call_each k (l # ls) args s = bindR (k (RCall l args) s) (\<lambda>_ s1. call_each k ls args s1)"

definition slot_listeners :: "emitter \<Rightarrow> slot \<Rightarrow> listener list" where
  [js_eval]: "slot_listeners s x = (case x of One l \<Rightarrow> [l] | Many a \<Rightarrow> items s a)"

definition unhandled :: "arg list \<Rightarrow> js_error" where
  [js_eval]: "unhandled args = (case args of AErr e # _ \<Rightarrow> e | _ \<Rightarrow> PlainError ''ERR_UNHANDLED_ERROR'')"

definition emit :: "machine \<Rightarrow> event \<Rightarrow> arg list \<Rightarrow> emitter \<Rightarrow> bool run" where
  [js_eval]: "emit k ev args s =
     (let t = em_events s
      in bindR (case (if ev = ev_error then lookup s t ev_errorMonitor else None) of
                  None \<Rightarrow> returnR True s
                | Some x \<Rightarrow> call_each k (slot_listeners s x) args s) (\<lambda>_ s1.
           case lookup s1 t ev of
             None \<Rightarrow> if ev = ev_error then throwR (unhandled args) s1 else returnR False s1
           | Some x \<Rightarrow> call_each k (slot_listeners s1 x) args s1))"

section \<open>Adding listeners\<close>

definition getMaxListeners :: "emitter \<Rightarrow> jsnum" where
  [js_eval]: "getMaxListeners s = (case em_max s of None \<Rightarrow> em_default s | Some m \<Rightarrow> m)"

definition setMaxListeners :: "jsval \<Rightarrow> emitter \<Rightarrow> unit run" where
  [js_eval]: "setMaxListeners v s =
     (case v of
        JNum n \<Rightarrow>
          if n = NaN \<or> num_less n (Num 0) then throwR (ERR_OUT_OF_RANGE ''n'' ''>= 0'' v) s
          else returnR () (s\<lparr>em_max := Some n\<rparr>)
      | _ \<Rightarrow> throwR (ERR_INVALID_ARG_TYPE ''n'' ''number'' v) s)"

text \<open>The leak warning, once per array.\<close>

definition check_leak :: "event \<Rightarrow> nat \<Rightarrow> emitter \<Rightarrow> emitter" where
  [js_eval]: "check_leak ev a s =
     (let n = length (items s a); m = getMaxListeners s
      in if num_less (Num 0) m \<and> num_less m (nat_num n) \<and> \<not> a_warned (em_arrays s ! a)
         then s\<lparr>em_arrays := (em_arrays s)[a := (em_arrays s ! a)\<lparr>a_warned := True\<rparr>],
                em_warnings := em_warnings s @ [(ev, n)]\<rparr>
         else s)"

definition insert_listener :: "event \<Rightarrow> listener \<Rightarrow> bool \<Rightarrow> emitter \<Rightarrow> emitter" where
  [js_eval]: "insert_listener ev l prepend s =
     (case lookup s (em_events s) ev of
        None \<Rightarrow> (set_slot ev (One l) s)\<lparr>em_count := em_count s + 1\<rparr>
      | Some (One e) \<Rightarrow>
          let a = length (em_arrays s)
          in check_leak ev a
               (set_slot ev (Many a)
                 (s\<lparr>em_arrays := em_arrays s @ [\<lparr>a_items = (if prepend then [l, e] else [e, l]), a_warned = False\<rparr>]\<rparr>))
      | Some (Many a) \<Rightarrow>
          check_leak ev a (set_items a (if prepend then l # items s a else items s a @ [l]) s))"

definition addListener :: "machine \<Rightarrow> event \<Rightarrow> larg \<Rightarrow> bool \<Rightarrow> emitter \<Rightarrow> unit run" where
  [js_eval]: "addListener k ev arg prepend s =
     (case arg of
        NotFunction v \<Rightarrow> throwR (ERR_INVALID_ARG_TYPE ''listener'' ''function'' v) s
      | Func l \<Rightarrow>
          bindR (if lookup s (em_events s) ev_newListener \<noteq> None
                 then k (REmit ev_newListener [AEvent ev, AListener (original s l)]) s
                 else returnR True s) (\<lambda>_ s1.
            returnR () (insert_listener ev l prepend s1)))"

text \<open>\<open>once\<close>: a new wrapper is added in the place of the function.\<close>

definition once :: "machine \<Rightarrow> event \<Rightarrow> larg \<Rightarrow> bool \<Rightarrow> emitter \<Rightarrow> unit run" where
  [js_eval]: "once k ev arg prepend s =
     (case arg of
        NotFunction v \<Rightarrow> throwR (ERR_INVALID_ARG_TYPE ''listener'' ''function'' v) s
      | Func l \<Rightarrow>
          let w = length (em_wrappers s)
          in addListener k ev (Func (Wrapper w)) prepend
               (s\<lparr>em_wrappers := em_wrappers s @ [\<lparr>w_type = ev, w_listener = l, w_fired = False\<rparr>]\<rparr>))"

section \<open>Removing listeners\<close>

text \<open>The last position of a listener in an array.\<close>

fun position :: "emitter \<Rightarrow> listener list \<Rightarrow> listener \<Rightarrow> nat option" where
  "position s [] x = None"
| "position s (l # ls) x =
     (case position s ls x of Some i \<Rightarrow> Some (i + 1) | None \<Rightarrow> if same_listener s l x then Some 0 else None)"

definition emit_removed :: "machine \<Rightarrow> nat \<Rightarrow> event \<Rightarrow> listener \<Rightarrow> emitter \<Rightarrow> unit run" where
  [js_eval]: "emit_removed k t ev l s =
     (if lookup s t ev_removeListener \<noteq> None
      then bindR (k (REmit ev_removeListener [AEvent ev, AListener l]) s) (\<lambda>_ s1. returnR () s1)
      else returnR () s)"

definition removeListener :: "machine \<Rightarrow> event \<Rightarrow> larg \<Rightarrow> emitter \<Rightarrow> unit run" where
  [js_eval]: "removeListener k ev arg s =
     (case arg of
        NotFunction v \<Rightarrow> throwR (ERR_INVALID_ARG_TYPE ''listener'' ''function'' v) s
      | Func x \<Rightarrow>
          let t = em_events s
          in case lookup s t ev of
               None \<Rightarrow> returnR () s
             | Some (One l) \<Rightarrow>
                 if same_listener s l x
                 then let s1 = s\<lparr>em_count := em_count s - 1\<rparr>
                      in if em_count s1 = 0 then returnR () (new_table s1)
                         else emit_removed k t ev (original s l) (del_slot ev s1)
                 else returnR () s
             | Some (Many a) \<Rightarrow>
                 (case position s (items s a) x of
                    None \<Rightarrow> returnR () s
                  | Some i \<Rightarrow>
                      let l = items s a ! i; ls = take i (items s a) @ drop (i + 1) (items s a);
                          s1 = set_items a ls s;
                          s2 = (if length ls = 1 then set_slot ev (One (ls ! 0)) s1 else s1);
                          s3 = (if length ls = 0 then (del_slot ev s2)\<lparr>em_count := em_count s2 - 1\<rparr> else s2)
                      in emit_removed k t ev (original s l) s3))"

text \<open>The loop reads the array again in every round; an index behind its end reads \<open>undefined\<close>.\<close>

fun remove_loop :: "machine \<Rightarrow> event \<Rightarrow> nat \<Rightarrow> nat \<Rightarrow> emitter \<Rightarrow> unit run" where
  "remove_loop k ev a 0 s = returnR () s"
| "remove_loop k ev a (Suc i) s =
     bindR (removeListener k ev (if i < length (items s a) then Func (items s a ! i) else NotFunction JUndefined) s)
       (\<lambda>_ s1. remove_loop k ev a i s1)"

definition removeAll :: "machine \<Rightarrow> event \<Rightarrow> emitter \<Rightarrow> unit run" where
  [js_eval]: "removeAll k ev s =
     (let t = em_events s
      in if lookup s t ev_removeListener = None
         then if lookup s t ev = None then returnR () s
              else let s1 = s\<lparr>em_count := em_count s - 1\<rparr>
                   in returnR () (if em_count s1 = 0 then new_table s1 else del_slot ev s1)
         else case lookup s t ev of
                None \<Rightarrow> returnR () s
              | Some (One l) \<Rightarrow> removeListener k ev (Func l) s
              | Some (Many a) \<Rightarrow> remove_loop k ev a (length (items s a)) s)"

text \<open>The names of an object in the order of the language: array indices, other strings, symbols.\<close>

definition is_index :: "event \<Rightarrow> bool" where
  [js_eval]: "is_index ev =
     (case ev of
        EStr n \<Rightarrow> n \<noteq> [] \<and> list_all (\<lambda>c. 48 \<le> c \<and> c \<le> 57) n \<and> (n = [48] \<or> hd n \<noteq> 48) \<and>
          foldl (\<lambda>v c. v * 10 + (c - 48)) 0 n < 2 ^ 32 - 1
      | ESym _ \<Rightarrow> False)"

definition index_of :: "event \<Rightarrow> nat" where
  [js_eval]: "index_of ev = (case ev of EStr n \<Rightarrow> foldl (\<lambda>v c. v * 10 + (c - 48)) 0 n | ESym _ \<Rightarrow> 0)"

definition is_symbol :: "event \<Rightarrow> bool" where
  [js_eval]: "is_symbol ev = (case ev of EStr n \<Rightarrow> False | ESym i \<Rightarrow> True)"

definition own_keys :: "table \<Rightarrow> event list" where
  [js_eval]: "own_keys t =
     (let ks = map fst t
      in sort_key index_of (filter is_index ks) @ filter (\<lambda>e. \<not> is_index e \<and> \<not> is_symbol e) ks @ filter is_symbol ks)"

fun remove_keys :: "machine \<Rightarrow> event list \<Rightarrow> emitter \<Rightarrow> unit run" where
  "remove_keys k [] s = returnR () s"
| "remove_keys k (ev # evs) s =
     (if ev = ev_removeListener then remove_keys k evs s
      else bindR (removeAll k ev s) (\<lambda>_ s1. remove_keys k evs s1))"

definition removeEvery :: "machine \<Rightarrow> emitter \<Rightarrow> unit run" where
  [js_eval]: "removeEvery k s =
     (let t = em_events s
      in if lookup s t ev_removeListener = None then returnR () ((new_table s)\<lparr>em_count := 0\<rparr>)
         else bindR (remove_keys k (own_keys (em_tables s ! t)) s) (\<lambda>_ s1.
              bindR (removeAll k ev_removeListener s1) (\<lambda>_ s2. returnR () ((new_table s2)\<lparr>em_count := 0\<rparr>))))"

section \<open>The machine\<close>

fun exec :: "machine \<Rightarrow> call list \<Rightarrow> emitter \<Rightarrow> bool run" where
  "exec k [] s = returnR True s"
| "exec k (c # cs) s =
     bindR (case c of
              On ev l \<Rightarrow> addListener k ev l False s
            | PrependOn ev l \<Rightarrow> addListener k ev l True s
            | Once ev l \<Rightarrow> once k ev l False s
            | PrependOnce ev l \<Rightarrow> once k ev l True s
            | Off ev l \<Rightarrow> removeListener k ev l s
            | OffAll ev \<Rightarrow> removeAll k ev s
            | OffEvery \<Rightarrow> removeEvery k s
            | Emit ev args \<Rightarrow> bindR (k (REmit ev args) s) (\<lambda>_ s1. returnR () s1)
            | SetMax v \<Rightarrow> setMaxListeners v s
            | Throw e \<Rightarrow> throwR e s) (\<lambda>_ s1. exec k cs s1)"

definition call_listener :: "(nat \<Rightarrow> arg list \<Rightarrow> call list) \<Rightarrow> machine \<Rightarrow> listener \<Rightarrow> arg list \<Rightarrow> emitter \<Rightarrow> bool run" where
  [js_eval]: "call_listener body k l args s =
     (case l of
        Fn f \<Rightarrow> exec k (body f args) (s\<lparr>em_calls := em_calls s @ [(f, args)]\<rparr>)
      | Wrapper w \<Rightarrow>
          let x = em_wrappers s ! w
          in if length (em_wrappers s) \<le> w then None
             else if w_fired x then returnR True s
             else bindR (removeListener k (w_type x) (Func l) (s\<lparr>em_wrappers := (em_wrappers s)[w := x\<lparr>w_fired := True\<rparr>]\<rparr>))
                    (\<lambda>_ s1. k (RCall (w_listener x) args) (s1\<lparr>em_fires := em_fires s1 @ [w]\<rparr>)))"

fun machine :: "nat \<Rightarrow> (nat \<Rightarrow> arg list \<Rightarrow> call list) \<Rightarrow> request \<Rightarrow> emitter \<Rightarrow> bool run" where
  "machine 0 body r s = None"
| "machine (Suc n) body r s =
     (case r of
        REmit ev args \<Rightarrow> emit (machine n body) ev args s
      | RCall l args \<Rightarrow> call_listener body (machine n body) l args s)"

text \<open>A program: calls made from outside any listener.\<close>

definition program :: "nat \<Rightarrow> (nat \<Rightarrow> arg list \<Rightarrow> call list) \<Rightarrow> call list \<Rightarrow> emitter \<Rightarrow> bool run" where
  [js_eval]: "program n body cs s = exec (machine n body) cs s"

section \<open>Queries\<close>

definition rawListeners :: "emitter \<Rightarrow> event \<Rightarrow> listener list" where
  [js_eval]: "rawListeners s ev = (case lookup s (em_events s) ev of None \<Rightarrow> [] | Some x \<Rightarrow> slot_listeners s x)"

definition listeners :: "emitter \<Rightarrow> event \<Rightarrow> listener list" where
  [js_eval]: "listeners s ev = map (original s) (rawListeners s ev)"

definition listenerCount :: "emitter \<Rightarrow> event \<Rightarrow> listener option \<Rightarrow> nat" where
  [js_eval]: "listenerCount s ev l =
     (case l of None \<Rightarrow> length (rawListeners s ev)
      | Some x \<Rightarrow> length (filter (\<lambda>e. same_listener s e x) (rawListeners s ev)))"

definition eventNames :: "emitter \<Rightarrow> event list" where
  [js_eval]: "eventNames s = (if em_count s = 0 then [] else own_keys (cur_table s))"

end
