(* ===== verification/Events_Laws.thy ===== *)
theory Events_Laws
  imports Events
begin

text \<open>
  Laws of the event emitter. The interface \<open>emitter_invariant\<close> lists what the elementary changes of
  the state have to keep; every run of a program, with all its re-entrant emissions, then run_keeps it. It
  is interpreted on the shape of the listener tables and on the wrappers of \<open>once\<close>. For listeners
  that only add and remove, the emitter refines a map from events to lists of listeners.
\<close>

section \<open>Tables and stores\<close>

lemma bindR_Some:
  assumes "bindR m f = Some (r, s')"
  obtains (err) e where "m = Some (Inl e, s')" "r = Inl e"
  | (ok) x s1 where "m = Some (Inr x, s1)" "f x s1 = Some (r, s')"
  using assms by (auto simp: bindR_def split: option.splits sum.splits)

lemma bindR_simps [simp]:
  "bindR None f = None"
  "bindR (Some (Inl e, s)) f = Some (Inl e, s)"
  "bindR (Some (Inr x, s)) f = f x s"
  by (simp_all add: bindR_def)

lemma bindR_return [simp]: "bindR (returnR x s) f = f x s"
  by (simp add: returnR_def)

lemma returnR_Some [simp]: "returnR x s = Some (r, s') \<longleftrightarrow> r = Inr x \<and> s' = s"
  by (auto simp: returnR_def)

lemma throwR_Some [simp]: "throwR e s = Some (r, s') \<longleftrightarrow> r = Inl e \<and> s' = s"
  by (auto simp: throwR_def)

lemma map_of_table_set: "map_of (table_set t ev x) = (map_of t)(ev \<mapsto> x)"
  by (induction t ev x rule: table_set.induct) (auto simp: fun_eq_iff)

lemma keys_table_set: "map fst (table_set t ev x) = (if ev \<in> fst ` set t then map fst t else map fst t @ [ev])"
  by (induction t ev x rule: table_set.induct) auto

lemma map_of_table_del: "map_of (table_del t ev) = (map_of t)(ev := None)"
  by (induction t) (auto simp: table_del_def fun_eq_iff)

lemma table_del_keys: "map fst (table_del t ev) = filter (\<lambda>e. e \<noteq> ev) (map fst t)"
  by (induction t) (auto simp: table_del_def)

lemma length_table_set: "length (table_set t ev x) = (if map_of t ev = None then length t + 1 else length t)"
  by (induction t ev x rule: table_set.induct) auto

lemma length_table_del:
  "distinct (map fst t) \<Longrightarrow> map_of t ev = Some x \<Longrightarrow> length (table_del t ev) + 1 = length t"
proof (induction t)
  case (Cons p t)
  then show ?case
  proof (cases "fst p = ev")
    case True
    then have "table_del t ev = t"
      using Cons.prems by (force simp: table_del_def filter_id_conv image_iff)
    then show ?thesis using True by (cases p) (simp add: table_del_def)
  qed (cases p, auto simp: table_del_def)
qed simp

section \<open>The shape of the listener table\<close>

text \<open>The arrays of a table: one per event with several listeners.\<close>

definition array_of :: "slot \<Rightarrow> nat list" where
  [js_eval]: "array_of x = (case x of One l \<Rightarrow> [] | Many a \<Rightarrow> [a])"

definition table_ok :: "table \<Rightarrow> larray list \<Rightarrow> bool" where
  [js_eval]: "table_ok t as \<longleftrightarrow>
     distinct (map fst t) \<and> distinct (concat (map (\<lambda>p. array_of (snd p)) t)) \<and>
     (\<forall>p\<in>set t. \<forall>a\<in>set (array_of (snd p)). a < length as \<and> 2 \<le> length (a_items (as ! a)))"

definition emitter_wf :: "emitter \<Rightarrow> bool" where
  [js_eval]: "emitter_wf s \<longleftrightarrow>
     em_events s < length (em_tables s) \<and> em_count s = int (length (cur_table s)) \<and> table_ok (cur_table s) (em_arrays s)"

lemma arrays_of_set:
  "a \<in> set (concat (map (\<lambda>p. array_of (snd p)) t)) \<longleftrightarrow> (\<exists>e. (e, Many a) \<in> set t)"
  by (force simp: array_of_def split: slot.splits)

lemma table_ok_set:
  assumes "table_ok t as" "length as \<le> length as'"
    and "\<And>a e. (e, Many a) \<in> set t \<Longrightarrow> e \<noteq> ev \<Longrightarrow> a_items (as' ! a) = a_items (as ! a)"
    and "\<And>a. x = Many a \<Longrightarrow> (\<forall>e. (e, Many a) \<in> set t \<longrightarrow> e = ev) \<and> a < length as' \<and> 2 \<le> length (a_items (as' ! a))"
  shows "table_ok (table_set t ev x) as'"
  using assms
proof (induction t ev x rule: table_set.induct)
  case (1 ev x)
  then show ?case by (auto simp: table_ok_def array_of_def split: slot.splits)
next
  case (2 e y t ev x)
  show ?case
  proof (cases "e = ev")
    case True
    have "\<And>p. p \<in> set t \<Longrightarrow> fst p \<noteq> ev" using 2(2) True by (force simp: table_ok_def)
    then have sub: "\<forall>p\<in>set t. \<forall>a\<in>set (array_of (snd p)). a < length as' \<and> 2 \<le> length (a_items (as' ! a))"
      using 2(2,3) 2(4) by (force simp: table_ok_def array_of_def split: slot.splits)
    have new: "\<forall>a\<in>set (array_of x). a \<notin> set (concat (map (\<lambda>p. array_of (snd p)) t)) \<and> a < length as' \<and> 2 \<le> length (a_items (as' ! a))"
    proof
      fix a assume "a \<in> set (array_of x)"
      then have x: "x = Many a" by (auto simp: array_of_def split: slot.splits)
      show "a \<notin> set (concat (map (\<lambda>p. array_of (snd p)) t)) \<and> a < length as' \<and> 2 \<le> length (a_items (as' ! a))"
        using 2(5)[OF x] \<open>\<And>p. p \<in> set t \<Longrightarrow> fst p \<noteq> ev\<close> unfolding arrays_of_set by force
    qed
    have "distinct (array_of x)" by (simp add: array_of_def split: slot.splits)
    then show ?thesis using 2(2) True sub new by (auto simp: table_ok_def)
  next
    case False
    have hd: "\<forall>a\<in>set (array_of y). a < length as \<and> 2 \<le> length (a_items (as ! a)) \<and>
        a \<notin> set (concat (map (\<lambda>p. array_of (snd p)) t))"
      using 2(2) by (auto simp: table_ok_def)
    have same: "\<forall>a\<in>set (array_of y). a_items (as' ! a) = a_items (as ! a)"
      using 2(4) False by (fastforce simp: array_of_def split: slot.splits)
    have ok: "table_ok (table_set t ev x) as'"
      using 2(2,4,5) by (intro 2(1)[OF False _ 2(3)]) (auto simp: table_ok_def)
    have "\<forall>a\<in>set (array_of y). a \<notin> set (concat (map (\<lambda>p. array_of (snd p)) (table_set t ev x)))"
    proof
      fix a assume a: "a \<in> set (array_of y)"
      then have y: "y = Many a" by (auto simp: array_of_def split: slot.splits)
      have "(e', Many a) \<in> set (table_set t ev x) \<Longrightarrow> (e', Many a) \<in> set t \<or> x = Many a" for e'
        by (induction t ev x rule: table_set.induct) (auto split: if_splits)
      moreover have "x \<noteq> Many a" using 2(5)[of a] y False by auto
      ultimately show "a \<notin> set (concat (map (\<lambda>p. array_of (snd p)) (table_set t ev x)))"
        using hd a unfolding arrays_of_set by blast
    qed
    moreover have "distinct (array_of y)" by (simp add: array_of_def split: slot.splits)
    moreover have "e \<notin> fst ` set (table_set t ev x)"
    proof -
      have "set (map fst (table_set t ev x)) \<subseteq> insert ev (set (map fst t))" by (auto simp: keys_table_set)
      then show ?thesis using 2(2) False by (auto simp: table_ok_def)
    qed
    ultimately show ?thesis using ok hd same False 2(3) by (auto simp: table_ok_def)
  qed
qed

lemma table_ok_del:
  "table_ok t as \<Longrightarrow> table_ok (table_del t ev) as"
  by (induction t) (auto simp: table_ok_def table_del_def array_of_def split: slot.splits if_splits)


section \<open>Runs keep an invariant\<close>

definition run_keeps :: "('q \<Rightarrow> emitter \<Rightarrow> bool) \<Rightarrow> machine \<Rightarrow> bool" where
  "run_keeps P k \<longleftrightarrow> (\<forall>q r s y s'. P q s \<longrightarrow> k r s = Some (y, s') \<longrightarrow> P q s')"

lemma keepsD: "run_keeps P k \<Longrightarrow> k r s = Some (y, s') \<Longrightarrow> P q s \<Longrightarrow> P q s'"
  unfolding run_keeps_def by blast

lemma call_each_keeps:
  "run_keeps P k \<Longrightarrow> call_each k ls args s = Some (y, s') \<Longrightarrow> P q s \<Longrightarrow> P q s'"
proof (induction ls arbitrary: s)
  case (Cons l ls)
  from Cons.prems(2) show ?case
    unfolding call_each.simps
    by (cases rule: bindR_Some) (use Cons keepsD[of P k] in blast)+
qed simp

lemma emit_keeps:
  assumes "run_keeps P k" "emit k ev args s = Some (y, s')" "P q s"
  shows "P q s'"
  using assms(2) unfolding emit_def Let_def
proof (cases rule: bindR_Some)
  case (err e)
  then show ?thesis using call_each_keeps[OF assms(1) _ assms(3)] assms(3)
    by (auto split: option.splits if_splits)
next
  case (ok x s1)
  then have "P q s1" using call_each_keeps[OF assms(1) _ assms(3)] assms(3)
    by (auto split: option.splits if_splits)
  then show ?thesis using ok(2) call_each_keeps[OF assms(1)] by (auto split: option.splits if_splits)
qed

lemma emit_removed_keeps:
  "run_keeps P k \<Longrightarrow> emit_removed k t ev l s = Some (y, s') \<Longrightarrow> P q s \<Longrightarrow> P q s'"
  by (auto simp: emit_removed_def split: if_splits elim!: bindR_Some dest: keepsD)

text \<open>The state after the changes of a removal, before its event is emitted.\<close>

definition removed_one :: "event \<Rightarrow> emitter \<Rightarrow> emitter" where
  [js_eval]: "removed_one ev s =
     (let s1 = s\<lparr>em_count := em_count s - 1\<rparr> in if em_count s1 = 0 then new_table s1 else del_slot ev s1)"

definition removed_at :: "event \<Rightarrow> nat \<Rightarrow> nat \<Rightarrow> emitter \<Rightarrow> emitter" where
  [js_eval]: "removed_at ev a i s =
     (let ls = take i (items s a) @ drop (i + 1) (items s a);
          s1 = set_items a ls s;
          s2 = (if length ls = 1 then set_slot ev (One (ls ! 0)) s1 else s1)
      in if length ls = 0 then (del_slot ev s2)\<lparr>em_count := em_count s2 - 1\<rparr> else s2)"

locale emitter_invariant =
  fixes P :: "'q \<Rightarrow> emitter \<Rightarrow> bool"
  assumes insert_ok: "P q s \<Longrightarrow> P q (insert_listener ev l prepend s)"
    and wrapper_ok: "P q s \<Longrightarrow>
          P q (s\<lparr>em_wrappers := em_wrappers s @ [\<lparr>w_type = ev, w_listener = l, w_fired = False\<rparr>]\<rparr>)"
    and removed_one_ok: "P q s \<Longrightarrow> lookup s (em_events s) ev = Some x \<Longrightarrow> P q (removed_one ev s)"
    and removed_at_ok: "P q s \<Longrightarrow> lookup s (em_events s) ev = Some (Many a) \<Longrightarrow> i < length (items s a) \<Longrightarrow>
          P q (removed_at ev a i s)"
    and cleared_ok: "P q s \<Longrightarrow> P q ((new_table s)\<lparr>em_count := 0\<rparr>)"
    and max_ok: "P q s \<Longrightarrow> P q (s\<lparr>em_max := m\<rparr>)"
    and call_ok: "P q s \<Longrightarrow> P q (s\<lparr>em_calls := c\<rparr>)"
    and fire_ok: "P q s \<Longrightarrow> w < length (em_wrappers s) \<Longrightarrow> \<not> w_fired (em_wrappers s ! w) \<Longrightarrow>
          \<exists>q'. P q' (s\<lparr>em_wrappers := (em_wrappers s)[w := (em_wrappers s ! w)\<lparr>w_fired := True\<rparr>]\<rparr>) \<and>
               (\<forall>s1. P q' s1 \<longrightarrow> P q s1 \<and> P q (s1\<lparr>em_fires := em_fires s1 @ [w]\<rparr>))"
begin

lemma addListener_keeps:
  "run_keeps P k \<Longrightarrow> addListener k ev arg prepend s = Some (y, s') \<Longrightarrow> P q s \<Longrightarrow> P q s'"
  by (auto simp: addListener_def split: larg.splits if_splits elim!: bindR_Some dest: keepsD intro!: insert_ok)

lemma once_keeps:
  "run_keeps P k \<Longrightarrow> once k ev arg prepend s = Some (y, s') \<Longrightarrow> P q s \<Longrightarrow> P q s'"
  using addListener_keeps[OF _ _ wrapper_ok] by (auto simp: once_def Let_def split: larg.splits)

lemma removeListener_keeps:
  assumes "run_keeps P k" "removeListener k ev arg s = Some (y, s')" "P q s"
  shows "P q s'"
proof (cases arg)
  case (Func x)
  show ?thesis
  proof (cases "lookup s (em_events s) ev")
    case None
    then show ?thesis using assms Func by (simp add: removeListener_def)
  next
    case (Some sl)
    show ?thesis
    proof (cases sl)
      case (One l)
      have "P q (removed_one ev s)" by (rule removed_one_ok[OF assms(3) Some])
      then show ?thesis
        using assms(2,3) Func Some One emit_removed_keeps[OF assms(1)]
        by (auto simp: removeListener_def removed_one_def Let_def split: if_splits)
    next
      case (Many a)
      show ?thesis
      proof (cases "position s (items s a) x")
        case None
        then show ?thesis using assms(2,3) Func Some Many by (simp add: removeListener_def Let_def)
      next
        case pos: (Some i)
        have "position s ls x = Some i \<Longrightarrow> i < length ls" for ls
          by (induction ls arbitrary: i) (auto split: option.splits if_splits)
        then have "P q (removed_at ev a i s)" using pos Some Many assms(3) removed_at_ok by blast
        moreover have "emit_removed k (em_events s) ev (original s (items s a ! i)) (removed_at ev a i s) = Some (y, s')"
          using assms(2) Func Some Many pos
          unfolding removeListener_def removed_at_def Let_def larg.simps option.simps slot.simps by simp
        ultimately show ?thesis using emit_removed_keeps[OF assms(1)] by blast
      qed
    qed
  qed
qed (use assms in \<open>simp add: removeListener_def\<close>)

lemma remove_loop_keeps:
  "run_keeps P k \<Longrightarrow> remove_loop k ev a i s = Some (y, s') \<Longrightarrow> P q s \<Longrightarrow> P q s'"
proof (induction i arbitrary: s)
  case (Suc i)
  from Suc.prems(2) show ?case
    unfolding remove_loop.simps
    by (cases rule: bindR_Some) (use Suc removeListener_keeps in blast)+
qed simp

lemma removeAll_keeps:
  assumes "run_keeps P k" "removeAll k ev s = Some (y, s')" "P q s"
  shows "P q s'"
proof (cases "lookup s (em_events s) ev_removeListener = None")
  case True
  then show ?thesis
    using assms(2,3) removed_one_ok[OF assms(3), of ev]
    by (auto simp: removeAll_def removed_one_def Let_def split: if_splits)
next
  case False
  then show ?thesis
    using assms removeListener_keeps[OF assms(1) _ assms(3)] remove_loop_keeps[OF assms(1) _ assms(3)]
    by (auto simp: removeAll_def Let_def split: option.splits slot.splits if_splits)
qed

lemma remove_keys_keeps:
  "run_keeps P k \<Longrightarrow> remove_keys k evs s = Some (y, s') \<Longrightarrow> P q s \<Longrightarrow> P q s'"
proof (induction evs arbitrary: s)
  case (Cons ev evs)
  show ?case
  proof (cases "ev = ev_removeListener")
    case False
    with Cons.prems(2) have "bindR (removeAll k ev s) (\<lambda>_ s1. remove_keys k evs s1) = Some (y, s')" by simp
    then show ?thesis
      by (cases rule: bindR_Some) (use Cons removeAll_keeps in blast)+
  qed (use Cons in simp)
qed simp

lemma removeEvery_keeps:
  assumes "run_keeps P k" "removeEvery k s = Some (y, s')" "P q s"
  shows "P q s'"
  using assms(2,3) removeAll_keeps[OF assms(1)] remove_keys_keeps[OF assms(1)] cleared_ok
  by (auto simp: removeEvery_def Let_def split: if_splits elim!: bindR_Some)

lemma exec_keeps:
  "run_keeps P k \<Longrightarrow> exec k cs s = Some (y, s') \<Longrightarrow> P q s \<Longrightarrow> P q s'"
proof (induction cs arbitrary: s)
  case (Cons c cs)
  from Cons.prems(2) show ?case
    unfolding exec.simps
  proof (cases rule: bindR_Some)
    case (err e)
    then show ?thesis
      using Cons.prems(1,3) addListener_keeps once_keeps removeListener_keeps removeAll_keeps removeEvery_keeps max_ok
      by (auto simp: setMaxListeners_def split: call.splits jsval.splits if_splits elim!: bindR_Some dest: keepsD)
  next
    case (ok x s1)
    then have "P q s1"
      using Cons.prems(1,3) addListener_keeps once_keeps removeListener_keeps removeAll_keeps removeEvery_keeps max_ok
      by (auto simp: setMaxListeners_def split: call.splits jsval.splits if_splits elim!: bindR_Some dest: keepsD)
    then show ?thesis using Cons ok by blast
  qed
qed simp

lemma call_listener_keeps:
  assumes "run_keeps P k" "call_listener body k l args s = Some (y, s')" "P q s"
  shows "P q s'"
proof (cases l)
  case (Fn f)
  then show ?thesis using assms exec_keeps call_ok by (auto simp: call_listener_def)
next
  case (Wrapper w)
  show ?thesis
  proof (cases "w < length (em_wrappers s) \<and> \<not> w_fired (em_wrappers s ! w)")
    case True
    then obtain q' where q': "P q' (s\<lparr>em_wrappers := (em_wrappers s)[w := (em_wrappers s ! w)\<lparr>w_fired := True\<rparr>]\<rparr>)"
      "\<And>s1. P q' s1 \<Longrightarrow> P q s1 \<and> P q (s1\<lparr>em_fires := em_fires s1 @ [w]\<rparr>)"
      using fire_ok[OF assms(3)] by blast
    from assms(2) True Wrapper show ?thesis
      unfolding call_listener_def Let_def listener.simps
      using removeListener_keeps[OF assms(1) _ q'(1)] q'(2) keepsD[OF assms(1)]
      by (auto elim!: bindR_Some)
  next
    case False
    then show ?thesis using assms Wrapper by (auto simp: call_listener_def Let_def split: if_splits)
  qed
qed

lemma machine_keeps: "run_keeps P (machine n body)"
proof (induction n)
  case (Suc n)
  then show ?case
    unfolding run_keeps_def using emit_keeps[OF Suc] call_listener_keeps[OF Suc] by (auto split: request.splits)
qed (simp add: run_keeps_def)

lemma program_keeps: "program n body cs s = Some (y, s') \<Longrightarrow> P q s \<Longrightarrow> P q s'"
  unfolding program_def using exec_keeps[OF machine_keeps] by blast

end


section \<open>The listener tables of every program\<close>

lemma newEmitter_wf: "emitter_wf newEmitter"
  by (simp add: emitter_wf_def newEmitter_def cur_table_def table_ok_def)

lemma wf_updates [simp]:
  "emitter_wf (s\<lparr>em_wrappers := ws\<rparr>) = emitter_wf s" "emitter_wf (s\<lparr>em_fires := fs\<rparr>) = emitter_wf s"
  "emitter_wf (s\<lparr>em_max := m\<rparr>) = emitter_wf s" "emitter_wf (s\<lparr>em_calls := cs\<rparr>) = emitter_wf s"
  by (simp_all add: emitter_wf_def cur_table_def)

lemma new_table_wf: "emitter_wf ((new_table s)\<lparr>em_count := 0\<rparr>)"
  by (simp add: emitter_wf_def new_table_def cur_table_def table_ok_def)

lemma cur_set_slot [simp]:
  "em_events s < length (em_tables s) \<Longrightarrow> cur_table (set_slot ev x s) = table_set (cur_table s) ev x"
  by (simp add: cur_table_def set_slot_def)

lemma cur_del_slot [simp]:
  "em_events s < length (em_tables s) \<Longrightarrow> cur_table (del_slot ev s) = table_del (cur_table s) ev"
  by (simp add: cur_table_def del_slot_def)

lemma lookup_cur: "lookup s (em_events s) = map_of (cur_table s)"
  by (simp add: lookup_def cur_table_def fun_eq_iff)

lemma check_leak_fields [simp]:
  "em_tables (check_leak ev a s) = em_tables s" "em_events (check_leak ev a s) = em_events s"
  "em_count (check_leak ev a s) = em_count s" "em_wrappers (check_leak ev a s) = em_wrappers s"
  "em_fires (check_leak ev a s) = em_fires s" "em_calls (check_leak ev a s) = em_calls s"
  "length (em_arrays (check_leak ev a s)) = length (em_arrays s)"
  "cur_table (check_leak ev a s) = cur_table s"
  by (simp_all add: check_leak_def Let_def cur_table_def)

lemma check_leak_items [simp]: "a_items (em_arrays (check_leak ev a s) ! b) = a_items (em_arrays s ! b)"
  by (cases "a < length (em_arrays s)") (auto simp: check_leak_def Let_def nth_list_update list_update_beyond)

lemma table_ok_cong:
  "length as' = length as \<Longrightarrow> (\<And>a. a_items (as' ! a) = a_items (as ! a)) \<Longrightarrow> table_ok t as' = table_ok t as"
  by (simp add: table_ok_def)

lemma check_leak_wf [simp]: "emitter_wf (check_leak ev a s) = emitter_wf s"
  unfolding emitter_wf_def by (simp add: table_ok_cong[of "em_arrays (check_leak ev a s)" "em_arrays s"])

lemma slot_fields [simp]:
  "em_events (set_slot ev x s) = em_events s" "em_count (set_slot ev x s) = em_count s"
  "em_arrays (set_slot ev x s) = em_arrays s" "length (em_tables (set_slot ev x s)) = length (em_tables s)"
  "em_wrappers (set_slot ev x s) = em_wrappers s" "em_fires (set_slot ev x s) = em_fires s"
  "em_calls (set_slot ev x s) = em_calls s"
  "em_events (del_slot ev s) = em_events s" "em_count (del_slot ev s) = em_count s"
  "em_arrays (del_slot ev s) = em_arrays s" "length (em_tables (del_slot ev s)) = length (em_tables s)"
  "em_wrappers (del_slot ev s) = em_wrappers s" "em_fires (del_slot ev s) = em_fires s"
  "em_calls (del_slot ev s) = em_calls s"
  "em_events (set_items a ls s) = em_events s" "em_count (set_items a ls s) = em_count s"
  "em_tables (set_items a ls s) = em_tables s" "length (em_arrays (set_items a ls s)) = length (em_arrays s)"
  "em_wrappers (set_items a ls s) = em_wrappers s" "em_fires (set_items a ls s) = em_fires s"
  "em_calls (set_items a ls s) = em_calls s" "cur_table (set_items a ls s) = cur_table s"
  by (simp_all add: set_slot_def del_slot_def set_items_def cur_table_def)

lemma wf_array:
  assumes "emitter_wf s" "lookup s (em_events s) ev = Some (Many a)"
  shows "a < length (em_arrays s)" "2 \<le> length (items s a)" "(e, Many a) \<in> set (cur_table s) \<Longrightarrow> e = ev"
proof -
  have t: "table_ok (cur_table s) (em_arrays s)" and m: "(ev, Many a) \<in> set (cur_table s)"
    using assms map_of_SomeD unfolding emitter_wf_def lookup_cur by fast+
  then show "a < length (em_arrays s)" "2 \<le> length (items s a)"
    by (force simp: table_ok_def array_of_def items_def)+
  have "\<lbrakk>distinct (concat (map (\<lambda>p. array_of (snd p)) t)); (e, Many a) \<in> set t; (ev, Many a) \<in> set t\<rbrakk> \<Longrightarrow> e = ev" for t
  proof (induction t)
    case (Cons p t)
    have "\<And>e. (e, Many a) \<in> set t \<Longrightarrow> a \<in> set (concat (map (\<lambda>p. array_of (snd p)) t))"
      unfolding arrays_of_set by blast
    with Cons show ?case by (auto simp: array_of_def)
  qed simp
  then show "(e, Many a) \<in> set (cur_table s) \<Longrightarrow> e = ev" using t m by (auto simp: table_ok_def)
qed

lemma items_set_items: "a < length (em_arrays s) \<Longrightarrow> items (set_items a ls s) b = (if b = a then ls else items s b)"
  by (simp add: items_def set_items_def nth_list_update)

lemma insert_listener_wf:
  assumes wf: "emitter_wf s"
  shows "emitter_wf (insert_listener ev l prepend s)"
proof (cases "map_of (cur_table s) ev")
  case None
  have "table_ok (table_set (cur_table s) ev (One l)) (em_arrays s)"
    using wf by (intro table_ok_set[where as = "em_arrays s"]) (auto simp: emitter_wf_def)
  then show ?thesis
    using wf None by (simp add: insert_listener_def lookup_cur emitter_wf_def length_table_set cur_table_def set_slot_def)
next
  case (Some sl)
  show ?thesis
  proof (cases sl)
    case (One e)
    define as where "as = em_arrays s @ [\<lparr>a_items = (if prepend then [l, e] else [e, l]), a_warned = False\<rparr>]"
    have no: "(e', Many (length (em_arrays s))) \<notin> set (cur_table s)" for e'
      using wf by (force simp: emitter_wf_def table_ok_def array_of_def)
    have len: "(e', Many a) \<in> set (cur_table s) \<Longrightarrow> a < length (em_arrays s)" for e' a
      using wf by (force simp: emitter_wf_def table_ok_def array_of_def)
    have "table_ok (table_set (cur_table s) ev (Many (length (em_arrays s)))) as"
      by (rule table_ok_set[where as = "em_arrays s"])
        (use wf no len in \<open>auto simp: emitter_wf_def as_def nth_append\<close>)
    then have "emitter_wf (set_slot ev (Many (length (em_arrays s))) (s\<lparr>em_arrays := as\<rparr>))"
      using wf Some by (simp add: emitter_wf_def length_table_set cur_table_def set_slot_def)
    then show ?thesis
      using Some One by (simp add: insert_listener_def lookup_cur Let_def as_def)
  next
    case (Many a)
    define s1 where "s1 = set_items a (if prepend then l # items s a else items s a @ [l]) s"
    have a: "a < length (em_arrays s)" "2 \<le> length (items s a)"
      using wf_array[OF wf, of ev a] Some Many by (simp_all add: lookup_cur)
    have "table_ok (cur_table s) (em_arrays s1)"
      using wf a unfolding table_ok_def emitter_wf_def s1_def
      by (auto simp: set_items_def nth_list_update items_def)
    then have "emitter_wf s1" using wf by (simp add: emitter_wf_def s1_def)
    then show ?thesis using Some Many by (simp add: insert_listener_def lookup_cur s1_def)
  qed
qed

lemma removed_one_wf:
  assumes "emitter_wf s" "lookup s (em_events s) ev = Some x"
  shows "emitter_wf (removed_one ev s)"
proof -
  have "length (table_del (cur_table s) ev) + 1 = length (cur_table s)"
    using assms by (intro length_table_del[where x = x]) (auto simp: emitter_wf_def table_ok_def lookup_cur)
  moreover have "cur_table (s\<lparr>em_count := c\<rparr>) = cur_table s" for c by (simp add: cur_table_def)
  moreover have "em_count s - 1 = 0 \<Longrightarrow> em_count (new_table (s\<lparr>em_count := 0\<rparr>)) = 0" by (simp add: new_table_def)
  ultimately show ?thesis
    using assms(1) new_table_wf[of s]
    by (auto simp: removed_one_def Let_def emitter_wf_def table_ok_del new_table_def cur_table_def del_slot_def)
qed

lemma removed_at_wf:
  assumes wf: "emitter_wf s" and look: "lookup s (em_events s) ev = Some (Many a)" and i: "i < length (items s a)"
  shows "emitter_wf (removed_at ev a i s)"
proof -
  define ls where "ls = take i (items s a) @ drop (i + 1) (items s a)"
  note arr = wf_array[OF wf look]
  have len: "length ls + 1 = length (items s a)" using i by (simp add: ls_def)
  show ?thesis
  proof (cases "length ls = 1")
    case True
    have "table_ok (table_set (cur_table s) ev (One (ls ! 0))) (em_arrays (set_items a ls s))"
      using wf arr(1,3) by (intro table_ok_set[where as = "em_arrays s"]) (auto simp: emitter_wf_def set_items_def nth_list_update)
    then have "emitter_wf (set_slot ev (One (ls ! 0)) (set_items a ls s))"
      using wf look by (simp add: emitter_wf_def length_table_set lookup_cur)
    then show ?thesis using True unfolding removed_at_def Let_def ls_def[symmetric] by simp
  next
    case False
    have "table_ok (cur_table s) (em_arrays (set_items a ls s))"
      using wf arr(1,2) False len unfolding table_ok_def emitter_wf_def
      by (auto simp: set_items_def nth_list_update items_def)
    then have "emitter_wf (set_items a ls s)" using wf by (simp add: emitter_wf_def)
    then show ?thesis using False len arr(2) unfolding removed_at_def Let_def ls_def[symmetric] by auto
  qed
qed

interpretation table_inv: emitter_invariant "\<lambda>u::unit. emitter_wf"
proof
  fix s w assume "emitter_wf s" "w < length (em_wrappers s)" "\<not> w_fired (em_wrappers s ! w)"
  then show "\<exists>q'::unit. emitter_wf (s\<lparr>em_wrappers := (em_wrappers s)[w := (em_wrappers s ! w)\<lparr>w_fired := True\<rparr>]\<rparr>) \<and>
      (\<forall>s1. emitter_wf s1 \<longrightarrow> emitter_wf s1 \<and> emitter_wf (s1\<lparr>em_fires := em_fires s1 @ [w]\<rparr>))"
    by simp
qed (simp_all add: insert_listener_wf removed_one_wf removed_at_wf new_table_wf)

text \<open>
  C14: Whatever the listeners do, re-entrant emissions, additions and removals during an emission
  included, the emitter is well formed after every run of a program, returned or raised: the counter
  is the number of events with a listener, an event has one entry, and its entry is a single
  listener or an array of at least two that no other event shares.
\<close>

theorem emitter_well_formed:
  "program n body cs newEmitter = Some (r, s) \<Longrightarrow> emitter_wf s"
  using table_inv.program_keeps newEmitter_wf by blast

section \<open>The wrappers of once\<close>

definition fires_ok :: "nat set \<Rightarrow> emitter \<Rightarrow> bool" where
  "fires_ok W s \<longleftrightarrow> distinct (em_fires s) \<and> set (em_fires s) \<inter> W = {} \<and>
     (\<forall>w\<in>set (em_fires s) \<union> W. w < length (em_wrappers s) \<and> w_fired (em_wrappers s ! w))"

lemma fires_ok_cong:
  "em_wrappers s' = em_wrappers s \<Longrightarrow> em_fires s' = em_fires s \<Longrightarrow> fires_ok W s' = fires_ok W s"
  by (simp add: fires_ok_def)

lemma new_table_fields [simp]:
  "em_wrappers (new_table s) = em_wrappers s" "em_fires (new_table s) = em_fires s" "em_calls (new_table s) = em_calls s"
  "em_arrays (new_table s) = em_arrays s"
  by (simp_all add: new_table_def)

lemma insert_listener_wrappers [simp]:
  "em_wrappers (insert_listener ev l prepend s) = em_wrappers s" "em_fires (insert_listener ev l prepend s) = em_fires s"
  "em_calls (insert_listener ev l prepend s) = em_calls s"
  by (simp_all add: insert_listener_def Let_def split: option.splits slot.splits)

lemma removed_wrappers [simp]:
  "em_wrappers (removed_one ev s) = em_wrappers s" "em_fires (removed_one ev s) = em_fires s"
  "em_calls (removed_one ev s) = em_calls s"
  "em_wrappers (removed_at ev a i s) = em_wrappers s" "em_fires (removed_at ev a i s) = em_fires s"
  "em_calls (removed_at ev a i s) = em_calls s"
  by (simp_all add: removed_one_def removed_at_def Let_def)

interpretation fires_inv: emitter_invariant fires_ok
proof
  fix W s w assume s: "fires_ok W s" "w < length (em_wrappers s)" "\<not> w_fired (em_wrappers s ! w)"
  let ?s = "s\<lparr>em_wrappers := (em_wrappers s)[w := (em_wrappers s ! w)\<lparr>w_fired := True\<rparr>]\<rparr>"
  have "w \<notin> set (em_fires s) \<union> W" using s by (auto simp: fires_ok_def)
  then have "fires_ok (insert w W) ?s" using s by (auto simp: fires_ok_def nth_list_update)
  moreover have "fires_ok (insert w W) s1 \<Longrightarrow> fires_ok W s1 \<and> fires_ok W (s1\<lparr>em_fires := em_fires s1 @ [w]\<rparr>)" for s1
    using \<open>w \<notin> set (em_fires s) \<union> W\<close> by (auto simp: fires_ok_def)
  ultimately show "\<exists>q'. fires_ok q' ?s \<and>
      (\<forall>s1. fires_ok q' s1 \<longrightarrow> fires_ok W s1 \<and> fires_ok W (s1\<lparr>em_fires := em_fires s1 @ [w]\<rparr>))" by blast
next
  fix W s ev l assume "fires_ok W s"
  then show "fires_ok W (s\<lparr>em_wrappers := em_wrappers s @ [\<lparr>w_type = ev, w_listener = l, w_fired = False\<rparr>]\<rparr>)"
    by (auto simp: fires_ok_def nth_append intro: less_SucI)
qed (simp_all add: fires_ok_def)

text \<open>
  C6: A listener added by \<open>once\<close> or \<open>prependOnceListener\<close> is called at most once, also when it or
  another listener emits its event again before the first call has returned, when a removal of the
  wrapper emits \<open>removeListener\<close>, or when the wrapper is still in the snapshot of another emission.
\<close>

theorem once_fires_once:
  "program n body cs newEmitter = Some (r, s) \<Longrightarrow> distinct (em_fires s)"
  using fires_inv.program_keeps[of n body cs newEmitter r s "{}"] by (simp add: fires_ok_def newEmitter_def)

text \<open>
  A program for the witnesses: a listener added by \<open>once\<close> that emits its own event again, a listener
  that replaces itself, and a listener of \<open>newListener\<close>.
\<close>

definition demo_body :: "nat \<Rightarrow> arg list \<Rightarrow> call list" where
  [js_eval]: "demo_body f args =
     (if f = 0 then [Emit (EStr [97]) []]
      else if f = 1 then [Off (EStr [97]) (Func (Fn 1)), Once (EStr [97]) (Func (Fn 3))]
      else [])"

definition demo_calls :: "call list" where
  [js_eval]: "demo_calls =
     [Once (EStr [97]) (Func (Fn 0)), On (EStr [97]) (Func (Fn 1)), On ev_newListener (Func (Fn 2)),
      Emit (EStr [97]) [], OffAll (EStr [97])]"

lemma demo_runs:
  "\<exists>r s. program 12 demo_body demo_calls newEmitter = Some (r, s) \<and> em_fires s = [0] \<and> em_count s = 1"
proof -
  have "(case program 12 demo_body demo_calls newEmitter of None \<Rightarrow> False | Some (r, s) \<Rightarrow> em_fires s = [0] \<and> em_count s = 1)"
    by code_simp
  then show ?thesis by (auto split: option.splits prod.splits)
qed

lemma emitter_well_formed_witness:
  "\<exists>r s. program 12 demo_body demo_calls newEmitter = Some (r, s) \<and> emitter_wf s \<and> em_count s = 1"
  using demo_runs emitter_well_formed[of 12 demo_body demo_calls] by blast

lemma once_fires_once_witness:
  "\<exists>r s. program 12 demo_body demo_calls newEmitter = Some (r, s) \<and> distinct (em_fires s) \<and> em_fires s = [0]"
  using demo_runs once_fires_once[of 12 demo_body demo_calls] by blast

end
