(* ===== verification/Events_Spec.thy ===== *)
theory Events_Spec
  imports Events_Laws
begin

text \<open>
  The abstract emitter: a map from events to lists of entries, an entry being the listener and the
  function it stands for. The tables, arrays and wrappers of \<open>Events\<close> refine it, and an emission
  calls the entries of the list it started with.
\<close>

section \<open>The abstract emitter\<close>

text \<open>The number of wrappers made, and the entries of every event.\<close>

type_synonym registry = "nat \<times> (event \<Rightarrow> (listener \<times> listener) list)"

fun remove_last :: "('a \<Rightarrow> bool) \<Rightarrow> 'a list \<Rightarrow> 'a list" where
  "remove_last p [] = []"
| "remove_last p (x # xs) = (if list_ex p xs then x # remove_last p xs else if p x then xs else x # xs)"

definition spec_call :: "call \<Rightarrow> registry \<Rightarrow> registry" where
  [js_eval]: "spec_call c r = (case r of (n, A) \<Rightarrow>
     (case c of
        On ev (Func l) \<Rightarrow> (n, A(ev := A ev @ [(l, l)]))
      | PrependOn ev (Func l) \<Rightarrow> (n, A(ev := (l, l) # A ev))
      | Once ev (Func l) \<Rightarrow> (n + 1, A(ev := A ev @ [(Wrapper n, l)]))
      | PrependOnce ev (Func l) \<Rightarrow> (n + 1, A(ev := (Wrapper n, l) # A ev))
      | Off ev (Func x) \<Rightarrow> (n, A(ev := remove_last (\<lambda>(l, f). l = x \<or> f = x) (A ev)))
      | OffAll ev \<Rightarrow> (n, A(ev := []))
      | OffEvery \<Rightarrow> (n, \<lambda>ev. [])
      | _ \<Rightarrow> (n, A)))"

definition spec_run :: "call list \<Rightarrow> registry" where
  [js_eval]: "spec_run cs = fold spec_call cs (0, \<lambda>ev. [])"

text \<open>The calls that add and remove functions, except listeners of the emitter's own events.\<close>

definition meta_event :: "event \<Rightarrow> bool" where
  [js_eval]: "meta_event ev \<longleftrightarrow> ev = ev_newListener \<or> ev = ev_removeListener"

fun user_function :: "larg \<Rightarrow> bool" where
  "user_function (Func (Fn f)) = True"
| "user_function _ = False"

definition quiet_call :: "call \<Rightarrow> bool" where
  [js_eval]: "quiet_call c \<longleftrightarrow> (case c of
       On ev l \<Rightarrow> user_function l \<and> \<not> meta_event ev
     | PrependOn ev l \<Rightarrow> user_function l \<and> \<not> meta_event ev
     | Once ev l \<Rightarrow> user_function l \<and> \<not> meta_event ev
     | PrependOnce ev l \<Rightarrow> user_function l \<and> \<not> meta_event ev
     | Off ev l \<Rightarrow> user_function l
     | OffAll ev \<Rightarrow> True
     | OffEvery \<Rightarrow> True
     | _ \<Rightarrow> False)"

section \<open>The listeners of an event\<close>

lemma rawListeners_cur:
  "rawListeners s ev = (case map_of (cur_table s) ev of None \<Rightarrow> [] | Some x \<Rightarrow> slot_listeners s x)"
  by (simp add: rawListeners_def lookup_cur)

lemma slot_listeners_simps [simp]:
  "slot_listeners s (One l) = [l]" "slot_listeners s (Many a) = items s a"
  by (simp_all add: slot_listeners_def)

lemma slot_listeners_cong:
  "(\<And>a. x = Many a \<Longrightarrow> items s' a = items s a) \<Longrightarrow> slot_listeners s' x = slot_listeners s x"
  by (cases x) auto

lemma rawListeners_updates [simp]:
  "rawListeners (s\<lparr>em_wrappers := ws\<rparr>) ev = rawListeners s ev"
  "rawListeners (s\<lparr>em_calls := cs\<rparr>) ev = rawListeners s ev"
  "rawListeners (s\<lparr>em_fires := fs\<rparr>) ev = rawListeners s ev"
  "rawListeners (s\<lparr>em_count := c\<rparr>) ev = rawListeners s ev"
  "rawListeners (check_leak e a s) ev = rawListeners s ev"
  by (simp_all add: rawListeners_cur cur_table_def slot_listeners_def items_def split: option.splits slot.splits)

lemma rawListeners_new_table [simp]: "rawListeners (new_table s) ev = []"
  by (simp add: rawListeners_cur cur_table_def new_table_def)

lemma rawListeners_empty_iff:
  assumes "emitter_wf s"
  shows "rawListeners s ev = [] \<longleftrightarrow> lookup s (em_events s) ev = None"
proof (cases "lookup s (em_events s) ev")
  case (Some x)
  then show ?thesis using wf_array(2)[OF assms, of ev] by (cases x) (auto simp: rawListeners_def)
qed (simp add: rawListeners_def)

lemma rawListeners_slots:
  assumes "emitter_wf s" "em_tables s' = (em_tables s)[em_events s := t]" "em_events s' = em_events s"
    and "\<And>e. e \<noteq> ev \<Longrightarrow> map_of t e = map_of (cur_table s) e"
    and "\<And>e a. (e, Many a) \<in> set (cur_table s) \<Longrightarrow> e \<noteq> ev \<Longrightarrow> items s' a = items s a"
    and "(case map_of t ev of None \<Rightarrow> [] | Some x \<Rightarrow> slot_listeners s' x) = xs"
  shows "rawListeners s' = (rawListeners s)(ev := xs)"
proof
  fix e
  have t: "cur_table s' = t" using assms(1,2,3) by (simp add: cur_table_def emitter_wf_def)
  show "rawListeners s' e = ((rawListeners s)(ev := xs)) e"
  proof (cases "e = ev")
    case False
    have "slot_listeners s' x = slot_listeners s x" if "map_of (cur_table s) e = Some x" for x
      using assms(5)[OF _ False] map_of_SomeD[OF that] by (intro slot_listeners_cong) simp
    then show ?thesis using False t assms(4) by (simp add: rawListeners_cur split: option.split)
  qed (use t assms(6) in \<open>simp add: rawListeners_cur\<close>)
qed

lemma rawListeners_insert:
  assumes wf: "emitter_wf s"
  shows "rawListeners (insert_listener ev l prepend s) =
    (rawListeners s)(ev := if prepend then l # rawListeners s ev else rawListeners s ev @ [l])"
proof (cases "map_of (cur_table s) ev")
  case None
  have "rawListeners (set_slot ev (One l) s) = (rawListeners s)(ev := [l])"
    by (rule rawListeners_slots[OF wf, where t = "table_set (cur_table s) ev (One l)"])
      (simp_all add: set_slot_def map_of_table_set items_def)
  moreover have "rawListeners s ev = []" using None by (simp add: rawListeners_cur)
  ultimately show ?thesis using None by (simp add: insert_listener_def lookup_cur fun_eq_iff)
next
  case (Some sl)
  show ?thesis
  proof (cases sl)
    case (One e)
    let ?a = "length (em_arrays s)"
    let ?x = "\<lparr>a_items = (if prepend then [l, e] else [e, l]), a_warned = False\<rparr>"
    have len: "(e', Many a) \<in> set (cur_table s) \<Longrightarrow> a < length (em_arrays s)" for e' a
      using wf by (force simp: emitter_wf_def table_ok_def array_of_def)
    have "rawListeners (set_slot ev (Many ?a) (s\<lparr>em_arrays := em_arrays s @ [?x]\<rparr>)) =
        (rawListeners s)(ev := if prepend then [l, e] else [e, l])"
      by (rule rawListeners_slots[OF wf, where t = "table_set (cur_table s) ev (Many ?a)"])
        (use len in \<open>simp_all add: set_slot_def map_of_table_set items_def nth_append cur_table_def\<close>)
    moreover have "rawListeners s ev = [e]" using Some One by (simp add: rawListeners_cur)
    ultimately show ?thesis using Some One by (simp add: insert_listener_def lookup_cur Let_def fun_eq_iff)
  next
    case (Many a)
    have a: "a < length (em_arrays s)" "\<And>e. (e, Many a) \<in> set (cur_table s) \<Longrightarrow> e = ev"
      using wf_array[OF wf, of ev a] Some Many by (simp_all add: lookup_cur)
    have "rawListeners (set_items a ls s) = (rawListeners s)(ev := ls)" for ls
      by (rule rawListeners_slots[OF wf, where t = "cur_table s"])
        (use a Some Many in \<open>auto simp: items_set_items cur_table_def\<close>)
    moreover have "rawListeners s ev = items s a" using Some Many by (simp add: rawListeners_cur)
    ultimately show ?thesis using Some Many by (simp add: insert_listener_def lookup_cur fun_eq_iff)
  qed
qed

lemma rawListeners_removed_one:
  assumes wf: "emitter_wf s" and look: "lookup s (em_events s) ev = Some x"
  shows "rawListeners (removed_one ev s) = (rawListeners s)(ev := [])"
proof (cases "em_count s = 1")
  case True
  then obtain p where p: "cur_table s = [p]" using wf by (auto simp: emitter_wf_def length_Suc_conv)
  then have "fst p = ev" using look by (auto simp: lookup_cur split: if_splits)
  then have "rawListeners s e = []" if "e \<noteq> ev" for e using p that by (simp add: rawListeners_cur)
  then show ?thesis using True by (auto simp: removed_one_def Let_def fun_eq_iff)
next
  case False
  have "rawListeners (del_slot ev (s\<lparr>em_count := em_count s - 1\<rparr>)) = (rawListeners s)(ev := [])"
    by (rule rawListeners_slots[OF wf, where t = "table_del (cur_table s) ev"])
      (simp_all add: del_slot_def map_of_table_del items_def cur_table_def)
  then show ?thesis using False by (simp add: removed_one_def Let_def)
qed

lemma rawListeners_removed_at:
  assumes wf: "emitter_wf s" and look: "lookup s (em_events s) ev = Some (Many a)" and i: "i < length (items s a)"
  shows "rawListeners (removed_at ev a i s) = (rawListeners s)(ev := take i (items s a) @ drop (i + 1) (items s a))"
proof -
  define ls where "ls = take i (items s a) @ drop (i + 1) (items s a)"
  note a = wf_array[OF wf look]
  have len: "length ls + 1 = length (items s a)" using i by (simp add: ls_def)
  then have ne: "length ls \<noteq> 0" using a(2) by linarith
  have look': "map_of (cur_table s) ev = Some (Many a)" using look by (simp add: lookup_cur)
  have "rawListeners (if length ls = 1 then set_slot ev (One (ls ! 0)) (set_items a ls s) else set_items a ls s) =
      (rawListeners s)(ev := ls)" (is "rawListeners ?s = _")
  proof (cases "length ls = 1")
    case True
    then have "[ls ! 0] = ls" by (cases ls) auto
    then have "rawListeners (set_slot ev (One (ls ! 0)) (set_items a ls s)) = (rawListeners s)(ev := ls)"
      using a(1,3) by (intro rawListeners_slots[OF wf, where t = "table_set (cur_table s) ev (One (ls ! 0))"])
        (auto simp: set_slot_def map_of_table_set items_set_items items_def set_items_def nth_list_update cur_table_def)
    then show ?thesis using True by simp
  next
    case False
    have "rawListeners (set_items a ls s) = (rawListeners s)(ev := ls)"
      by (rule rawListeners_slots[OF wf, where t = "cur_table s"])
        (use a look' in \<open>auto simp: items_set_items cur_table_def\<close>)
    then show ?thesis using False by simp
  qed
  then show ?thesis using ne unfolding removed_at_def Let_def ls_def[symmetric] by simp
qed


section \<open>Removals\<close>

lemma same_listener_original: "same_listener s l x \<longleftrightarrow> l = x \<or> original s l = x"
  by (auto simp: same_listener_def original_def split: listener.splits)

lemma position_list_ex: "position s ls x = None \<longleftrightarrow> \<not> list_ex (\<lambda>l. same_listener s l x) ls"
  by (induction ls) (auto split: option.splits)

lemma position_Some:
  "position s ls x = Some i \<Longrightarrow>
   i < length ls \<and> take i ls @ drop (i + 1) ls = remove_last (\<lambda>l. same_listener s l x) ls"
proof (induction ls arbitrary: i)
  case (Cons l ls)
  show ?case
  proof (cases "position s ls x")
    case None
    then have "i = 0" "same_listener s l x" using Cons.prems by (auto split: if_splits)
    then show ?thesis using None by (simp add: position_list_ex)
  next
    case (Some j)
    then have "list_ex (\<lambda>l. same_listener s l x) ls" using position_list_ex[of s ls x] by auto
    then show ?thesis using Cons.IH[OF Some] Cons.prems Some by auto
  qed
qed simp

lemma remove_last_id: "\<not> list_ex p xs \<Longrightarrow> remove_last p xs = xs"
  by (induction xs) auto

lemma remove_last_map: "remove_last p (map f xs) = map f (remove_last (\<lambda>x. p (f x)) xs)"
  by (induction xs) (auto simp: list_ex_iff)

lemma remove_last_subset: "set (remove_last p xs) \<subseteq> set xs"
  by (induction xs) auto

lemma remove_last_distinct: "distinct xs \<Longrightarrow> distinct (remove_last p xs)"
  using remove_last_subset[of p] by (induction xs) (auto dest: subsetD)

definition no_meta :: "emitter \<Rightarrow> bool" where
  "no_meta s \<longleftrightarrow> (\<forall>ev. meta_event ev \<longrightarrow> rawListeners s ev = [])"

lemma no_meta_lookup:
  assumes "emitter_wf s" "no_meta s"
  shows "lookup s (em_events s) ev_newListener = None" "lookup s (em_events s) ev_removeListener = None"
  using assms rawListeners_empty_iff[OF assms(1)] by (simp_all add: no_meta_def meta_event_def)

lemma lookup_del_slot:
  "em_events s < length (em_tables s) \<Longrightarrow> lookup (del_slot ev s) (em_events s) e = (if e = ev then None else lookup s (em_events s) e)"
  by (simp add: lookup_def del_slot_def map_of_table_del cur_table_def)

lemma lookup_removed_at:
  "em_events s < length (em_tables s) \<Longrightarrow> lookup s (em_events s) e = None \<Longrightarrow> e \<noteq> ev \<Longrightarrow>
   lookup (removed_at ev a i s) (em_events s) e = None"
  by (simp add: removed_at_def Let_def lookup_def del_slot_def set_slot_def map_of_table_del map_of_table_set cur_table_def
      set_items_def)

text \<open>The effect of a removal without listeners of \<open>removeListener\<close>.\<close>

lemma removeListener_quiet:
  assumes wf: "emitter_wf s" and meta: "no_meta s"
  shows "\<exists>s'. removeListener k ev (Func x) s = Some (Inr (), s') \<and> emitter_wf s' \<and>
    em_wrappers s' = em_wrappers s \<and> em_calls s' = em_calls s \<and>
    rawListeners s' = (rawListeners s)(ev := remove_last (\<lambda>l. same_listener s l x) (rawListeners s ev))"
proof -
  note rl = no_meta_lookup(2)[OF wf meta]
  have ev: "em_events s < length (em_tables s)" using wf by (simp add: emitter_wf_def)
  show ?thesis
  proof (cases "lookup s (em_events s) ev")
    case None
    then show ?thesis using wf rawListeners_empty_iff[OF wf, of ev] by (simp add: removeListener_def fun_eq_iff)
  next
    case (Some sl)
    then have ne: "ev \<noteq> ev_removeListener" using rl by auto
    show ?thesis
    proof (cases sl)
      case (One l)
      then have raw: "rawListeners s ev = [l]" using Some by (simp add: rawListeners_def)
      show ?thesis
      proof (cases "same_listener s l x")
        case True
        have "lookup (del_slot ev (s\<lparr>em_count := em_count s - 1\<rparr>)) (em_events s) ev_removeListener = None"
          using rl ev ne by (simp add: lookup_def del_slot_def map_of_table_del cur_table_def)
        then have "removeListener k ev (Func x) s = Some (Inr (), removed_one ev s)"
          using Some One True by (simp add: removeListener_def removed_one_def Let_def emit_removed_def)
        then show ?thesis
          using removed_one_wf[OF wf Some] rawListeners_removed_one[OF wf Some] True raw by simp
      next
        case False
        then show ?thesis using Some One wf raw by (simp add: removeListener_def fun_eq_iff)
      qed
    next
      case (Many a)
      then have raw: "rawListeners s ev = items s a" using Some by (simp add: rawListeners_def)
      show ?thesis
      proof (cases "position s (items s a) x")
        case None
        then show ?thesis
          using Some Many wf raw remove_last_id[of "\<lambda>l. same_listener s l x" "items s a"]
          by (simp add: removeListener_def fun_eq_iff position_list_ex[symmetric])
      next
        case pos: (Some i)
        note look = Some[unfolded Many]
        have i: "i < length (items s a)"
          and rem: "take i (items s a) @ drop (i + 1) (items s a) = remove_last (\<lambda>l. same_listener s l x) (items s a)"
          using position_Some[OF pos] by auto
        have "removeListener k ev (Func x) s =
            emit_removed k (em_events s) ev (original s (items s a ! i)) (removed_at ev a i s)"
          using look pos unfolding removeListener_def removed_at_def Let_def larg.simps option.simps slot.simps by simp
        moreover have "lookup (removed_at ev a i s) (em_events s) ev_removeListener = None"
          using lookup_removed_at[OF ev rl] ne by metis
        ultimately have "removeListener k ev (Func x) s = Some (Inr (), removed_at ev a i s)"
          by (simp add: emit_removed_def)
        then show ?thesis
          using removed_at_wf[OF wf look i] rawListeners_removed_at[OF wf look i] rem raw by simp
      qed
    qed
  qed
qed

lemma removeAll_quiet:
  assumes wf: "emitter_wf s" and meta: "no_meta s"
  shows "\<exists>s'. removeAll k ev s = Some (Inr (), s') \<and> emitter_wf s' \<and>
    em_wrappers s' = em_wrappers s \<and> em_calls s' = em_calls s \<and> rawListeners s' = (rawListeners s)(ev := [])"
proof (cases "lookup s (em_events s) ev")
  case None
  then show ?thesis
    using no_meta_lookup(2)[OF wf meta] wf rawListeners_empty_iff[OF wf, of ev] by (simp add: removeAll_def fun_eq_iff)
next
  case (Some x)
  have "removeAll k ev s = Some (Inr (), removed_one ev s)"
    using Some no_meta_lookup(2)[OF wf meta] by (simp add: removeAll_def removed_one_def Let_def)
  then show ?thesis using removed_one_wf[OF wf Some] rawListeners_removed_one[OF wf Some] by simp
qed

section \<open>The refinement\<close>

definition registry :: "emitter \<Rightarrow> registry" where
  [js_eval]: "registry s = (length (em_wrappers s), \<lambda>ev. map (\<lambda>l. (l, original s l)) (rawListeners s ev))"

fun made :: "nat \<Rightarrow> listener \<Rightarrow> bool" where
  "made n (Fn f) = True"
| "made n (Wrapper w) = (w < n)"

definition plain_wrapper :: "wrapper \<Rightarrow> bool" where
  "plain_wrapper x \<longleftrightarrow> \<not> w_fired x \<and> (\<exists>f. w_listener x = Fn f)"

definition quiet_state :: "emitter \<Rightarrow> bool" where
  "quiet_state s \<longleftrightarrow> emitter_wf s \<and> no_meta s \<and> (\<forall>ev. \<forall>l\<in>set (rawListeners s ev). made (length (em_wrappers s)) l)"

lemma original_append: "made (length (em_wrappers s)) l \<Longrightarrow> original (s\<lparr>em_wrappers := em_wrappers s @ ws\<rparr>) l = original s l"
  by (cases l) (simp_all add: original_def nth_append)

lemma original_cong: "em_wrappers s' = em_wrappers s \<Longrightarrow> original s' = original s"
  by (simp add: original_def fun_eq_iff split: listener.split)

lemma registry_eq:
  "em_wrappers s' = em_wrappers s \<Longrightarrow> registry s' = (length (em_wrappers s), \<lambda>ev. map (\<lambda>l. (l, original s l)) (rawListeners s' ev))"
  using original_cong[of s' s] by (simp add: registry_def)

lemma user_functionD: "user_function l \<Longrightarrow> \<exists>f. l = Func (Fn f)"
  by (cases l rule: user_function.cases) auto

text \<open>One call of the quiet_call kind: it returns, and its effect is the abstract one.\<close>

lemma add_quiet:
  assumes s: "quiet_state s" and ev: "\<not> meta_event ev" and l: "made (length (em_wrappers s)) l"
  shows "\<exists>s'. addListener k ev (Func l) prepend s = Some (Inr (), s') \<and> quiet_state s' \<and>
    em_wrappers s' = em_wrappers s \<and> em_calls s' = em_calls s \<and>
    rawListeners s' = (rawListeners s)(ev := if prepend then l # rawListeners s ev else rawListeners s ev @ [l])"
proof -
  have wf: "emitter_wf s" "no_meta s" using s by (simp_all add: quiet_state_def)
  let ?s = "insert_listener ev l prepend s"
  have "addListener k ev (Func l) prepend s = Some (Inr (), ?s)"
    using no_meta_lookup(1)[OF wf] by (simp add: addListener_def)
  moreover have "quiet_state ?s"
    using s ev l insert_listener_wf[OF wf(1)] by (auto simp: quiet_state_def no_meta_def rawListeners_insert[OF wf(1)])
  ultimately show ?thesis by (simp add: rawListeners_insert[OF wf(1)])
qed

lemma once_quiet:
  assumes s: "quiet_state s" and ev: "\<not> meta_event ev"
  shows "\<exists>s'. once k ev (Func (Fn f)) prepend s = Some (Inr (), s') \<and> quiet_state s' \<and>
    em_wrappers s' = em_wrappers s @ [\<lparr>w_type = ev, w_listener = Fn f, w_fired = False\<rparr>] \<and> em_calls s' = em_calls s \<and>
    rawListeners s' = (rawListeners s)(ev := if prepend then Wrapper (length (em_wrappers s)) # rawListeners s ev
       else rawListeners s ev @ [Wrapper (length (em_wrappers s))])"
proof -
  let ?s = "s\<lparr>em_wrappers := em_wrappers s @ [\<lparr>w_type = ev, w_listener = Fn f, w_fired = False\<rparr>]\<rparr>"
  have m: "made n l \<Longrightarrow> made (Suc n) l" for n l by (cases l) auto
  have "quiet_state ?s" using s m by (auto simp: quiet_state_def no_meta_def)
  moreover have "made (length (em_wrappers ?s)) (Wrapper (length (em_wrappers s)))" by simp
  moreover have raw: "rawListeners ?s = rawListeners s" by (rule ext) simp
  ultimately have "\<exists>s'. addListener k ev (Func (Wrapper (length (em_wrappers s)))) prepend ?s = Some (Inr (), s') \<and>
    quiet_state s' \<and> em_wrappers s' = em_wrappers ?s \<and> em_calls s' = em_calls ?s \<and>
    rawListeners s' = (rawListeners s)(ev := if prepend then Wrapper (length (em_wrappers s)) # rawListeners s ev
       else rawListeners s ev @ [Wrapper (length (em_wrappers s))])"
    using add_quiet[OF _ ev, of ?s "Wrapper (length (em_wrappers s))" k prepend] unfolding raw by simp
  then show ?thesis by (simp add: once_def Let_def)
qed


lemma quiet_state_shrink:
  assumes "quiet_state s" "emitter_wf s'" "em_wrappers s' = em_wrappers s"
    and "\<And>ev. set (rawListeners s' ev) \<subseteq> set (rawListeners s ev)"
  shows "quiet_state s'"
  unfolding quiet_state_def no_meta_def
proof (intro conjI allI impI ballI)
  fix ev assume "meta_event ev"
  then have "rawListeners s ev = []" using assms(1) by (simp add: quiet_state_def no_meta_def)
  then show "rawListeners s' ev = []" using assms(4)[of ev] by simp
next
  fix ev l assume "l \<in> set (rawListeners s' ev)"
  then show "made (length (em_wrappers s')) l" using assms(1,3,4) by (auto simp: quiet_state_def)
qed (rule assms(2))

definition step_ok :: "machine \<Rightarrow> call \<Rightarrow> emitter \<Rightarrow> emitter \<Rightarrow> bool" where
  "step_ok k c s s' \<longleftrightarrow> (\<forall>cs. exec k (c # cs) s = exec k cs s') \<and> quiet_state s' \<and>
     (\<exists>ws. em_wrappers s' = em_wrappers s @ ws \<and> (\<forall>x\<in>set ws. plain_wrapper x)) \<and>
     em_calls s' = em_calls s \<and> registry s' = spec_call c (registry s)"

lemma step_once:
  assumes s: "quiet_state s" and ev: "\<not> meta_event ev"
    and c: "c = (if prepend then PrependOnce ev (Func (Fn f)) else Once ev (Func (Fn f)))"
  shows "\<exists>s'. step_ok k c s s'"
proof -
  let ?n = "length (em_wrappers s)"
  obtain s' where s': "once k ev (Func (Fn f)) prepend s = Some (Inr (), s')" "quiet_state s'"
    "em_wrappers s' = em_wrappers s @ [\<lparr>w_type = ev, w_listener = Fn f, w_fired = False\<rparr>]" "em_calls s' = em_calls s"
    "rawListeners s' = (rawListeners s)(ev := if prepend then Wrapper ?n # rawListeners s ev else rawListeners s ev @ [Wrapper ?n])"
    using once_quiet[OF s ev] by blast
  have old: "original s' l = original s l" if "l \<in> set (rawListeners s e)" for l e
  proof -
    have "made ?n l" using s that by (auto simp: quiet_state_def)
    then show ?thesis using s'(3) by (cases l) (simp_all add: original_def nth_append)
  qed
  have new: "original s' (Wrapper ?n) = Fn f" using s'(3) by (simp add: original_def)
  have "map (\<lambda>l. (l, original s' l)) (rawListeners s e) = map (\<lambda>l. (l, original s l)) (rawListeners s e)" for e
    using old by simp
  then have "registry s' = spec_call c (registry s)"
    using s'(3,5) new c by (auto simp: registry_def spec_call_def)
  moreover have "\<forall>cs. exec k (c # cs) s = exec k cs s'" using c s'(1) by (cases prepend) simp_all
  ultimately have "step_ok k c s s'" using s' by (simp add: step_ok_def plain_wrapper_def)
  then show ?thesis by blast
qed

lemma step_okI:
  assumes "\<forall>cs. exec k (c # cs) s = exec k cs s1" "quiet_state s1" "em_wrappers s1 = em_wrappers s"
    "em_calls s1 = em_calls s" "spec_call c (registry s) = (length (em_wrappers s), \<lambda>e. map (\<lambda>l. (l, original s l)) (rawListeners s1 e))"
  shows "\<exists>s'. step_ok k c s s'"
  using assms registry_eq[OF assms(3)] by (auto simp: step_ok_def intro!: exI[of _ s1])

lemma step_add:
  assumes s: "quiet_state s" and ev: "\<not> meta_event ev"
    and c: "c = (if prepend then PrependOn ev (Func (Fn f)) else On ev (Func (Fn f)))"
  shows "\<exists>s'. step_ok k c s s'"
proof -
  obtain s' where s': "addListener k ev (Func (Fn f)) prepend s = Some (Inr (), s')" "quiet_state s'"
    "em_wrappers s' = em_wrappers s" "em_calls s' = em_calls s"
    "rawListeners s' = (rawListeners s)(ev := if prepend then Fn f # rawListeners s ev else rawListeners s ev @ [Fn f])"
    using add_quiet[OF s ev, of "Fn f"] by force
  have "original s (Fn f) = Fn f" by (simp add: original_def)
  then have "spec_call c (registry s) = (length (em_wrappers s), \<lambda>e. map (\<lambda>l. (l, original s l)) (rawListeners s' e))"
    using c s'(5) by (auto simp: registry_def spec_call_def)
  moreover have "\<forall>cs. exec k (c # cs) s = exec k cs s'" using c s'(1) by (cases prepend) simp_all
  ultimately show ?thesis using step_okI s' by blast
qed

lemma step_off:
  assumes s: "quiet_state s"
  shows "\<exists>s'. step_ok k (Off ev (Func (Fn f))) s s'"
proof -
  have wf: "emitter_wf s" "no_meta s" using s by (simp_all add: quiet_state_def)
  obtain s' where s': "removeListener k ev (Func (Fn f)) s = Some (Inr (), s')" "emitter_wf s'"
    "em_wrappers s' = em_wrappers s" "em_calls s' = em_calls s"
    "rawListeners s' = (rawListeners s)(ev := remove_last (\<lambda>l. same_listener s l (Fn f)) (rawListeners s ev))"
    using removeListener_quiet[OF wf] by force
  have "quiet_state s'"
    by (rule quiet_state_shrink[OF s s'(2,3)]) (auto simp: s'(5) dest: subsetD[OF remove_last_subset])
  moreover have "spec_call (Off ev (Func (Fn f))) (registry s) =
      (length (em_wrappers s), \<lambda>e. map (\<lambda>l. (l, original s l)) (rawListeners s' e))"
    by (auto simp: registry_def spec_call_def s'(5) remove_last_map same_listener_original)
  ultimately show ?thesis using s'(1) by (intro step_okI[OF _ _ s'(3,4)]) simp_all
qed

lemma step_offAll:
  assumes s: "quiet_state s"
  shows "\<exists>s'. step_ok k (OffAll ev) s s'"
proof -
  have wf: "emitter_wf s" "no_meta s" using s by (simp_all add: quiet_state_def)
  obtain s' where s': "removeAll k ev s = Some (Inr (), s')" "emitter_wf s'"
    "em_wrappers s' = em_wrappers s" "em_calls s' = em_calls s" "rawListeners s' = (rawListeners s)(ev := [])"
    using removeAll_quiet[OF wf] by force
  have "quiet_state s'" by (rule quiet_state_shrink[OF s s'(2,3)]) (simp add: s'(5))
  moreover have "spec_call (OffAll ev) (registry s) =
      (length (em_wrappers s), \<lambda>e. map (\<lambda>l. (l, original s l)) (rawListeners s' e))"
    by (auto simp: registry_def spec_call_def s'(5))
  ultimately show ?thesis using s'(1) by (intro step_okI[OF _ _ s'(3,4)]) simp_all
qed

lemma step_offEvery:
  assumes s: "quiet_state s"
  shows "\<exists>s'. step_ok k OffEvery s s'"
proof -
  let ?s = "(new_table s)\<lparr>em_count := 0\<rparr>"
  have wf: "emitter_wf s" "no_meta s" using s by (simp_all add: quiet_state_def)
  have "removeEvery k s = Some (Inr (), ?s)"
    using no_meta_lookup(2)[OF wf] by (simp add: removeEvery_def)
  moreover have "quiet_state ?s" by (rule quiet_state_shrink[OF s new_table_wf]) simp_all
  moreover have "spec_call OffEvery (registry s) =
      (length (em_wrappers s), \<lambda>e. map (\<lambda>l. (l, original s l)) (rawListeners ?s e))"
    by (simp add: registry_def spec_call_def)
  ultimately show ?thesis by (intro step_okI[of _ _ _ ?s]) simp_all
qed

lemma step_quiet:
  assumes s: "quiet_state s" and c: "quiet_call c"
  shows "\<exists>s'. step_ok k c s s'"
proof (cases c)
  case (On ev l)
  then obtain f where "l = Func (Fn f)" "\<not> meta_event ev" using c user_functionD by (auto simp: quiet_call_def)
  then show ?thesis using On step_add[OF s, where prepend = False] by simp
next
  case (PrependOn ev l)
  then obtain f where "l = Func (Fn f)" "\<not> meta_event ev" using c user_functionD by (auto simp: quiet_call_def)
  then show ?thesis using PrependOn step_add[OF s, where prepend = True] by simp
next
  case (Once ev l)
  then obtain f where "l = Func (Fn f)" "\<not> meta_event ev" using c user_functionD by (auto simp: quiet_call_def)
  then show ?thesis using Once step_once[OF s, where prepend = False] by simp
next
  case (PrependOnce ev l)
  then obtain f where "l = Func (Fn f)" "\<not> meta_event ev" using c user_functionD by (auto simp: quiet_call_def)
  then show ?thesis using PrependOnce step_once[OF s, where prepend = True] by simp
next
  case (Off ev l)
  then obtain f where "l = Func (Fn f)" using c user_functionD by (auto simp: quiet_call_def)
  then show ?thesis using Off step_off[OF s] by simp
qed (use step_offAll[OF s] step_offEvery[OF s] c in \<open>auto simp: quiet_call_def\<close>)

lemma exec_quiet:
  assumes "quiet_state s" "list_all quiet_call cs"
  shows "\<exists>s' ws. exec k cs s = Some (Inr True, s') \<and> quiet_state s' \<and>
    em_wrappers s' = em_wrappers s @ ws \<and> (\<forall>x\<in>set ws. plain_wrapper x) \<and>
    em_calls s' = em_calls s \<and> registry s' = fold spec_call cs (registry s)"
  using assms
proof (induction cs arbitrary: s)
  case (Cons c cs)
  obtain s1 where "step_ok k c s s1" using step_quiet[OF Cons.prems(1)] Cons.prems(2) by auto
  then obtain ws where s1: "exec k (c # cs) s = exec k cs s1" "quiet_state s1" "em_wrappers s1 = em_wrappers s @ ws"
    "\<forall>x\<in>set ws. plain_wrapper x" "em_calls s1 = em_calls s" "registry s1 = spec_call c (registry s)"
    unfolding step_ok_def by blast
  obtain s2 ws2 where "exec k cs s1 = Some (Inr True, s2)" "quiet_state s2" "em_wrappers s2 = em_wrappers s1 @ ws2"
    "\<forall>x\<in>set ws2. plain_wrapper x" "em_calls s2 = em_calls s1" "registry s2 = fold spec_call cs (registry s1)"
    using Cons.IH[OF s1(2)] Cons.prems(2) by auto
  with s1 show ?case by (auto intro!: exI[of _ s2] exI[of _ "ws @ ws2"])
qed simp

lemma newEmitter_quiet: "quiet_state newEmitter" "registry newEmitter = (0, \<lambda>ev. [])"
proof -
  have "rawListeners newEmitter ev = []" for ev
    by (simp add: rawListeners_cur newEmitter_def cur_table_def)
  then show "quiet_state newEmitter" "registry newEmitter = (0, \<lambda>ev. [])"
    by (simp_all add: quiet_state_def no_meta_def newEmitter_wf registry_def) (simp add: newEmitter_def)
qed

text \<open>
  C5: Any sequence of \<open>on\<close>, \<open>prependListener\<close>, \<open>once\<close>, \<open>prependOnceListener\<close>, \<open>off\<close> and
  \<open>removeAllListeners\<close> returns and leaves the emitter with the lists the abstract emitter computes:
  additions at the two ends, removal of the last entry for a function, a wrapper counting as its
  function. The queries \<open>rawListeners\<close>, \<open>listeners\<close> and \<open>listenerCount\<close> are the ones of the lists.
\<close>

theorem emitter_refines:
  assumes "list_all quiet_call cs"
  shows "\<exists>s. program n body cs newEmitter = Some (Inr True, s) \<and> registry s = spec_run cs \<and>
    (\<forall>ev. rawListeners s ev = map fst (snd (spec_run cs) ev) \<and> listeners s ev = map snd (snd (spec_run cs) ev) \<and>
          listenerCount s ev None = length (snd (spec_run cs) ev))"
proof -
  obtain s where "program n body cs newEmitter = Some (Inr True, s)" and r: "registry s = spec_run cs"
    using exec_quiet[OF newEmitter_quiet(1) assms, of "machine n body"] newEmitter_quiet(2)
    by (auto simp: program_def spec_run_def)
  moreover have "snd (spec_run cs) ev = map (\<lambda>l. (l, original s l)) (rawListeners s ev)" for ev
    unfolding r[symmetric] registry_def by simp
  ultimately show ?thesis by (auto simp: listeners_def listenerCount_def comp_def)
qed


section \<open>Emissions\<close>

lemma quiet_state_updates [simp]:
  "quiet_state (s\<lparr>em_calls := cs\<rparr>) = quiet_state s" "quiet_state (s\<lparr>em_fires := fs\<rparr>) = quiet_state s"
  "length ws = length (em_wrappers s) \<Longrightarrow> quiet_state (s\<lparr>em_wrappers := ws\<rparr>) = quiet_state s"
  by (simp_all add: quiet_state_def no_meta_def)

text \<open>A function runs its calls; the wrappers there are stay as they are.\<close>

lemma function_call:
  assumes s: "quiet_state s" and body: "list_all quiet_call (body f args)"
  shows "\<exists>s1 ws. machine (Suc n) body (RCall (Fn f) args) s = Some (Inr True, s1) \<and> quiet_state s1 \<and>
    em_wrappers s1 = em_wrappers s @ ws \<and> em_calls s1 = em_calls s @ [(f, args)]"
proof -
  have "quiet_state (s\<lparr>em_calls := em_calls s @ [(f, args)]\<rparr>)" using s by simp
  from exec_quiet[OF this body, of "machine n body"] show ?thesis by (auto simp: call_listener_def)
qed

lemma listener_call:
  assumes s: "quiet_state s" and body: "\<And>f args. list_all quiet_call (body f args)"
    and l: "made (length (em_wrappers s)) l" "\<And>w. l = Wrapper w \<Longrightarrow> plain_wrapper (em_wrappers s ! w)"
  shows "\<exists>s1 f. machine (Suc (Suc n)) body (RCall l args) s = Some (Inr True, s1) \<and> quiet_state s1 \<and>
    length (em_wrappers s) \<le> length (em_wrappers s1) \<and>
    (\<forall>w<length (em_wrappers s). Wrapper w \<noteq> l \<longrightarrow> em_wrappers s1 ! w = em_wrappers s ! w) \<and>
    original s l = Fn f \<and> em_calls s1 = em_calls s @ [(f, args)]"
proof (cases l)
  case (Fn f)
  obtain s1 ws where "machine (Suc (Suc n)) body (RCall (Fn f) args) s = Some (Inr True, s1)" "quiet_state s1"
    "em_wrappers s1 = em_wrappers s @ ws" "em_calls s1 = em_calls s @ [(f, args)]"
    using function_call[where s = s and body = body and f = f and args = args and n = "Suc n"] s body[of f args] by blast
  then show ?thesis
    using Fn by (intro exI[of _ s1] exI[of _ f]) (simp add: nth_append original_def)
next
  case (Wrapper w)
  let ?x = "em_wrappers s ! w"
  obtain f where x: "\<not> w_fired ?x" "w_listener ?x = Fn f" using l(2)[OF Wrapper] by (auto simp: plain_wrapper_def)
  let ?s0 = "s\<lparr>em_wrappers := (em_wrappers s)[w := ?x\<lparr>w_fired := True\<rparr>]\<rparr>"
  let ?k = "machine (Suc n) body"
  have q0: "quiet_state ?s0" using s by simp
  then have wf0: "emitter_wf ?s0" "no_meta ?s0" by (simp_all only: quiet_state_def)
  obtain s1 where s1: "removeListener ?k (w_type ?x) (Func l) ?s0 = Some (Inr (), s1)" "emitter_wf s1"
    "em_wrappers s1 = em_wrappers ?s0" "em_calls s1 = em_calls ?s0"
    "rawListeners s1 = (rawListeners ?s0)(w_type ?x := remove_last (\<lambda>l'. same_listener ?s0 l' l) (rawListeners ?s0 (w_type ?x)))"
    using removeListener_quiet[OF wf0] by blast
  have "quiet_state s1"
    by (rule quiet_state_shrink[OF q0 s1(2,3)]) (auto simp: s1(5) dest: subsetD[OF remove_last_subset])
  then have "quiet_state (s1\<lparr>em_fires := em_fires s1 @ [w]\<rparr>)" by simp
  from function_call[where body = body and f = f and args = args and n = n, OF this body]
  obtain s2 ws where s2: "?k (RCall (Fn f) args) (s1\<lparr>em_fires := em_fires s1 @ [w]\<rparr>) = Some (Inr True, s2)" "quiet_state s2"
    "em_wrappers s2 = em_wrappers s1 @ ws" "em_calls s2 = em_calls s1 @ [(f, args)]"
    by auto
  have "machine (Suc (Suc n)) body (RCall l args) s = Some (Inr True, s2)"
    using s1(1) s2(1) x l(1) Wrapper
    by (simp add: call_listener_def Let_def del: machine.simps(2)) (simp add: call_listener_def Let_def)
  then show ?thesis
    using s2 s1 x Wrapper by (intro exI[of _ s2] exI[of _ f]) (auto simp: nth_append original_def)
qed

fun is_wrapper :: "listener \<Rightarrow> bool" where
  "is_wrapper (Fn f) = False"
| "is_wrapper (Wrapper w) = True"

lemma call_each_quiet:
  assumes "quiet_state s" "\<And>f args. list_all quiet_call (body f args)"
    "\<forall>l\<in>set ls. made (length (em_wrappers s)) l" "\<forall>w. Wrapper w \<in> set ls \<longrightarrow> plain_wrapper (em_wrappers s ! w)"
    "distinct (filter is_wrapper ls)"
  shows "\<exists>s'. call_each (machine (Suc (Suc n)) body) ls args s = Some (Inr True, s') \<and>
    map (\<lambda>(f, a). (Fn f, a)) (em_calls s') = map (\<lambda>(f, a). (Fn f, a)) (em_calls s) @ map (\<lambda>l. (original s l, args)) ls"
  using assms
proof (induction ls arbitrary: s)
  case (Cons l ls)
  obtain s1 f where s1: "machine (Suc (Suc n)) body (RCall l args) s = Some (Inr True, s1)" "quiet_state s1"
    "length (em_wrappers s) \<le> length (em_wrappers s1)"
    "\<And>w. w < length (em_wrappers s) \<Longrightarrow> Wrapper w \<noteq> l \<Longrightarrow> em_wrappers s1 ! w = em_wrappers s ! w"
    "original s l = Fn f" "em_calls s1 = em_calls s @ [(f, args)]"
    using listener_call[OF Cons.prems(1), where body = body and l = l and n = n and args = args] Cons.prems(2,3,4) by auto
  have other: "l' \<in> set ls \<Longrightarrow> is_wrapper l' \<Longrightarrow> l' \<noteq> l" for l'
    using Cons.prems(5) by (auto split: if_splits)
  have old: "em_wrappers s1 ! w = em_wrappers s ! w" if "Wrapper w \<in> set ls" for w
  proof -
    have "w < length (em_wrappers s)" using Cons.prems(3) that by auto
    then show ?thesis using s1(4) other[OF that] by simp
  qed
  have orig: "original s1 l' = original s l'" if "l' \<in> set ls" for l'
    using old that by (cases l') (auto simp: original_def)
  have "made (length (em_wrappers s1)) l'" if "l' \<in> set ls" for l'
  proof -
    have "made (length (em_wrappers s)) l'" using Cons.prems(3) that by simp
    then show ?thesis using s1(3) by (cases l') auto
  qed
  moreover have "\<forall>w. Wrapper w \<in> set ls \<longrightarrow> plain_wrapper (em_wrappers s1 ! w)" using old Cons.prems(4) by simp
  moreover have "distinct (filter is_wrapper ls)" using Cons.prems(5) by (auto split: if_splits)
  ultimately obtain s' where "call_each (machine (Suc (Suc n)) body) ls args s1 = Some (Inr True, s')"
    "map (\<lambda>(f, a). (Fn f, a)) (em_calls s') = map (\<lambda>(f, a). (Fn f, a)) (em_calls s1) @ map (\<lambda>l. (original s1 l, args)) ls"
    using Cons.IH[OF s1(2) Cons.prems(2)] by blast
  then show ?case using s1(1,5,6) orig by (auto simp del: machine.simps)
qed simp

text \<open>A run of quiet_call calls makes plain wrappers and adds each of them once.\<close>

definition fresh_entries :: "registry \<Rightarrow> bool" where
  "fresh_entries r \<longleftrightarrow> (\<forall>ev. distinct (filter is_wrapper (map fst (snd r ev))) \<and> (\<forall>l f. (l, f) \<in> set (snd r ev) \<longrightarrow> made (fst r) l))"

lemma remove_last_filter: "distinct (filter q (map f xs)) \<Longrightarrow> distinct (filter q (map f (remove_last p xs)))"
  using remove_last_subset[of p] by (induction xs) (auto dest!: subsetD split: if_splits)

lemma spec_call_fresh:
  assumes r: "fresh_entries r" and c: "quiet_call c"
  shows "fresh_entries (spec_call c r)"
proof -
  obtain n A where rA: "r = (n, A)" by (cases r)
  have m: "made n l \<Longrightarrow> made (Suc n) l" for l by (cases l) auto
  have A: "(l, f) \<in> set (A ev) \<Longrightarrow> made n l" and D: "distinct (filter is_wrapper (map fst (A ev)))" for l f ev
    using r rA unfolding fresh_entries_def by auto
  have A': "(l, f) \<in> set (A ev) \<Longrightarrow> made (Suc n) l" for l f ev using A m by blast
  have R: "(l, f) \<in> set (remove_last p (A ev)) \<Longrightarrow> made n l" for l f p ev
    using remove_last_subset[of p "A ev"] A by blast
  have fresh: "(Wrapper n, f) \<notin> set (A ev)" for f ev using A by fastforce
  show ?thesis
    using c D fresh
    by (cases c) (auto simp: rA spec_call_def fresh_entries_def quiet_call_def remove_last_filter
        dest!: user_functionD split: if_splits intro: A A' R)
qed


lemma spec_run_fresh:
  assumes "list_all quiet_call cs"
  shows "fresh_entries (spec_run cs)"
proof -
  have "fresh_entries (fold spec_call cs r)" if "fresh_entries r" for r
    using assms that by (induction cs arbitrary: r) (auto simp: spec_call_fresh)
  then show ?thesis unfolding spec_run_def by (simp add: fresh_entries_def)
qed

text \<open>
  C7: An emission calls, once each and in the order of the list it starts with, the functions
  registered for the event, with its arguments, and returns whether there are any; additions and
  removals made by the listeners on the way (of themselves, of later listeners, of everything) do
  not change which functions this emission calls.
\<close>

theorem emit_calls_snapshot:
  assumes "list_all quiet_call cs" "\<And>f a. list_all quiet_call (body f a)" "ev \<noteq> ev_error" "3 \<le> n"
  shows "\<exists>s s'. program n body cs newEmitter = Some (Inr True, s) \<and>
    machine n body (REmit ev args) s = Some (Inr (snd (spec_run cs) ev \<noteq> []), s') \<and>
    map (\<lambda>(f, a). (Fn f, a)) (em_calls s') = map (\<lambda>(l, f). (f, args)) (snd (spec_run cs) ev)"
proof -
  obtain m where n: "n = Suc (Suc (Suc m))" using assms(4) by (metis Suc_le_D numeral_3_eq_3 Suc_le_mono)
  obtain s ws where s: "program n body cs newEmitter = Some (Inr True, s)" "quiet_state s" "em_wrappers s = ws"
    "\<forall>x\<in>set ws. plain_wrapper x" "em_calls s = []" "registry s = spec_run cs"
    using exec_quiet[OF newEmitter_quiet(1) assms(1), of "machine n body"] newEmitter_quiet(2)
    by (auto simp: program_def spec_run_def newEmitter_def)
  define ls where "ls = rawListeners s ev"
  have entries: "snd (spec_run cs) ev = map (\<lambda>l. (l, original s l)) ls"
    unfolding s(6)[symmetric] registry_def ls_def by simp
  have made: "\<forall>l\<in>set ls. made (length (em_wrappers s)) l" using s(2) by (simp add: quiet_state_def ls_def)
  moreover have "\<forall>w. Wrapper w \<in> set ls \<longrightarrow> plain_wrapper (em_wrappers s ! w)"
    using made s(3,4) by fastforce
  moreover have "distinct (filter is_wrapper ls)"
  proof -
    have "distinct (filter is_wrapper (map fst (snd (spec_run cs) ev)))"
      using spec_run_fresh[OF assms(1)] by (simp add: fresh_entries_def)
    then show ?thesis by (simp add: entries comp_def)
  qed
  ultimately obtain s' where s': "call_each (machine (Suc (Suc m)) body) ls args s = Some (Inr True, s')"
    "map (\<lambda>(f, a). (Fn f, a)) (em_calls s') = map (\<lambda>l. (original s l, args)) ls"
    using call_each_quiet[where body = body and n = m and args = args, OF s(2)] assms(2) s(5) by (metis append_Nil list.map(1))
  have wf: "emitter_wf s" using s(2) by (simp add: quiet_state_def)
  have "machine n body (REmit ev args) s = Some (Inr (ls \<noteq> []), s')"
  proof (cases "lookup s (em_events s) ev")
    case None
    then have "ls = []" using rawListeners_empty_iff[OF wf] by (simp add: ls_def)
    then show ?thesis using n s' None assms(3) by (simp add: emit_def)
  next
    case (Some x)
    then have "ls = slot_listeners s x" by (simp add: ls_def rawListeners_def)
    moreover have "ls \<noteq> []" using rawListeners_empty_iff[OF wf, of ev] Some by (simp add: ls_def)
    ultimately show ?thesis using n s'(1) Some assms(3) by (simp add: emit_def del: machine.simps(2)) (simp add: emit_def)
  qed
  then show ?thesis using s(1) s' entries by (intro exI[of _ s] exI[of _ s']) auto
qed


section \<open>Witnesses\<close>

definition quiet_demo :: "call list" where
  [js_eval]: "quiet_demo =
     [On (EStr [97]) (Func (Fn 0)), Once (EStr [97]) (Func (Fn 1)), PrependOn (EStr [97]) (Func (Fn 2)),
      On (EStr [97]) (Func (Fn 0)), Off (EStr [97]) (Func (Fn 0)), On (EStr [98]) (Func (Fn 1)), OffAll (EStr [98])]"

lemma quiet_demo_entries:
  "list_all quiet_call quiet_demo \<and> snd (spec_run quiet_demo) (EStr [97]) = [(Fn 2, Fn 2), (Fn 0, Fn 0), (Wrapper 0, Fn 1)]"
  by code_simp

lemma emitter_refines_witness:
  "\<exists>s. program 0 (\<lambda>f a. []) quiet_demo newEmitter = Some (Inr True, s) \<and> listeners s (EStr [97]) = [Fn 2, Fn 0, Fn 1]"
proof -
  obtain s where s: "program 0 (\<lambda>f a. []) quiet_demo newEmitter = Some (Inr True, s)"
    "\<forall>ev. listeners s ev = map snd (snd (spec_run quiet_demo) ev)"
    using emitter_refines[of quiet_demo 0 "\<lambda>f a. []"] quiet_demo_entries by blast
  have "listeners s (EStr [97]) = map snd (snd (spec_run quiet_demo) (EStr [97]))" using s(2) by blast
  then show ?thesis using s(1) quiet_demo_entries by (intro exI[of _ s]) simp
qed

lemma emit_calls_snapshot_witness:
  "\<exists>s s'. program 3 (\<lambda>f a. [OffEvery]) quiet_demo newEmitter = Some (Inr True, s) \<and>
    machine 3 (\<lambda>f a. [OffEvery]) (REmit (EStr [97]) []) s = Some (Inr True, s') \<and>
    map (\<lambda>(f, a). (Fn f, a)) (em_calls s') = [(Fn 2, []), (Fn 0, []), (Fn 1, [])]"
proof -
  have "list_all quiet_call [OffEvery]" "EStr [97] \<noteq> ev_error" by code_simp+
  then obtain s s' where "program 3 (\<lambda>f a. [OffEvery]) quiet_demo newEmitter = Some (Inr True, s)"
    "machine 3 (\<lambda>f a. [OffEvery]) (REmit (EStr [97]) []) s = Some (Inr (snd (spec_run quiet_demo) (EStr [97]) \<noteq> []), s')"
    "map (\<lambda>(f, a). (Fn f, a)) (em_calls s') = map (\<lambda>(l, f). (f, [])) (snd (spec_run quiet_demo) (EStr [97]))"
    using emit_calls_snapshot[of quiet_demo "\<lambda>f a. [OffEvery]" "EStr [97]" 3 "[]"] quiet_demo_entries by auto
  then show ?thesis using quiet_demo_entries by (intro exI[of _ s] exI[of _ s']) simp
qed

end
