(* ===== verification/Event_Iterator.thy ===== *)
theory Event_Iterator
  imports Events "HOL-Library.Multiset" "HOL-Library.Sublist"
begin

text \<open>
  The asynchronous iterator \<open>EventEmitter.on\<close> of \<open>builtin/events.js\<close>: the queue of events nobody has
  asked for, the queue of promises nobody has fulfilled, and the calls of its handlers and methods.
  Promises are numbered by the calls of \<open>next\<close>; \<open>it_settled\<close> logs how each was settled. A handler may
  still be called after it was removed, by an emission that had started before, so every order of
  calls is allowed. An error is an error object; a falsy value emitted as an error is not represented.
\<close>

section \<open>The iterator\<close>

text \<open>
  How a promise is settled: with an event, with the end, with an error, or with the object
  \<open>{ value: undefined, done: true }\<close> as the value of an event.
\<close>

datatype settled = Item "arg list" | Finished | Rejected js_error | NestedEnd

record iterator =
  it_events :: "arg list list"
  it_waiting :: "nat list"
  it_done :: bool
  it_error :: "js_error option"
  it_attached :: bool
  it_next :: nat
  it_settled :: "(nat \<times> settled) list"

definition new_iterator :: iterator where
  [js_eval]: "new_iterator = \<lparr>it_events = [], it_waiting = [], it_done = False, it_error = None, it_attached = True,
     it_next = 0, it_settled = []\<rparr>"

definition settle :: "nat \<Rightarrow> settled \<Rightarrow> iterator \<Rightarrow> iterator" where
  [js_eval]: "settle p v it = it\<lparr>it_settled := it_settled it @ [(p, v)]\<rparr>"

definition eventHandler :: "arg list \<Rightarrow> iterator \<Rightarrow> iterator" where
  [js_eval]: "eventHandler args it =
     (case it_waiting it of
        p # ps \<Rightarrow> settle p (Item args) (it\<lparr>it_waiting := ps\<rparr>)
      | [] \<Rightarrow> it\<lparr>it_events := it_events it @ [args]\<rparr>)"

definition errorHandler :: "js_error \<Rightarrow> iterator \<Rightarrow> iterator" where
  [js_eval]: "errorHandler e it =
     (let it1 = it\<lparr>it_error := Some e\<rparr>
      in case it_waiting it1 of
           p # ps \<Rightarrow> settle p (Rejected e) (it1\<lparr>it_waiting := ps\<rparr>)
         | [] \<Rightarrow> it1)"

definition cleanup :: "iterator \<Rightarrow> iterator" where
  [js_eval]: "cleanup it =
     (let it1 = it\<lparr>it_done := True, it_attached := False\<rparr>
      in (fold (\<lambda>p. settle p NestedEnd) (it_waiting it1) it1)\<lparr>it_waiting := []\<rparr>)"

definition abortHandler :: "js_error \<Rightarrow> iterator \<Rightarrow> iterator" where
  [js_eval]: "abortHandler reason it = cleanup (errorHandler reason it)"

text \<open>\<open>next\<close>, \<open>return\<close> and \<open>throw\<close>; each returns a promise.\<close>

definition fresh_promise :: "iterator \<Rightarrow> iterator" where
  [js_eval]: "fresh_promise it = it\<lparr>it_next := it_next it + 1\<rparr>"

definition next_item :: "iterator \<Rightarrow> iterator" where
  [js_eval]: "next_item it0 =
     (let p = it_next it0; it = fresh_promise it0
      in case it_events it of
           args # evs \<Rightarrow> settle p (Item args) (it\<lparr>it_events := evs\<rparr>)
         | [] \<Rightarrow>
             if it_done it then settle p Finished it
             else (case it_error it of
                     Some e \<Rightarrow> settle p (Rejected e) (it\<lparr>it_error := None\<rparr>)
                   | None \<Rightarrow> it\<lparr>it_waiting := it_waiting it @ [p]\<rparr>))"

definition return_item :: "iterator \<Rightarrow> iterator" where
  [js_eval]: "return_item it = (let it1 = fresh_promise (cleanup it) in settle (it_next it) Finished it1)"

definition throw_item :: "js_error \<Rightarrow> iterator \<Rightarrow> iterator" where
  [js_eval]: "throw_item e it = (let it1 = fresh_promise (cleanup it) in settle (it_next it) (Rejected e) it1)"

section \<open>Sequences of calls\<close>

datatype it_call = Event "arg list" | Error js_error | Abort js_error | Next | Return | ThrowIn js_error

fun it_step :: "it_call \<Rightarrow> iterator \<Rightarrow> iterator" where
  "it_step (Event args) it = eventHandler args it"
| "it_step (Error e) it = errorHandler e it"
| "it_step (Abort e) it = abortHandler e it"
| "it_step Next it = next_item it"
| "it_step Return it = return_item it"
| "it_step (ThrowIn e) it = throw_item e it"

definition it_run :: "it_call list \<Rightarrow> iterator" where
  [js_eval]: "it_run cs = fold it_step cs new_iterator"

section \<open>Laws\<close>

text \<open>The events received, and the events handed out by the promises in the order they were asked for.\<close>

fun event_of :: "it_call \<Rightarrow> arg list list" where
  "event_of (Event args) = [args]"
| "event_of c = []"

fun item_of :: "settled \<Rightarrow> arg list list" where
  "item_of (Item args) = [args]"
| "item_of v = []"

definition handed_out :: "iterator \<Rightarrow> arg list list" where
  [js_eval]: "handed_out it = concat (map (\<lambda>(p, v). item_of v) (sort_key fst (it_settled it)))"

text \<open>The queues are never both in use, and every promise asked for is waiting or settled, once.\<close>

definition it_ok :: "iterator \<Rightarrow> bool" where
  [js_eval]: "it_ok it \<longleftrightarrow> (it_events it = [] \<or> it_waiting it = []) \<and> sorted (it_waiting it) \<and>
     mset (it_waiting it) + mset (map fst (it_settled it)) = mset [0..<it_next it]"

text \<open>The items come in the order of their promises, before every promise that waits.\<close>

definition items_ok :: "arg list list \<Rightarrow> iterator \<Rightarrow> bool" where
  "items_ok received it \<longleftrightarrow>
     received = concat (map (\<lambda>(p, v). item_of v) (it_settled it)) @ it_events it \<and>
     sorted (map fst (filter (\<lambda>(p, v). item_of v \<noteq> []) (it_settled it)) @ it_waiting it)"

lemma concat_filter: "concat (map f xs) = concat (map f (filter (\<lambda>x. f x \<noteq> []) xs))"
  by (induction xs) auto

lemma handed_out_log:
  fixes l :: "(nat \<times> settled) list"
  assumes "sorted (map fst (filter (\<lambda>(p, v). item_of v \<noteq> []) l))"
  shows "concat (map (\<lambda>(p, v). item_of v) (sort_key fst l)) = concat (map (\<lambda>(p, v). item_of v) l)"
proof -
  let ?f = "\<lambda>(p :: nat, v). item_of v"
  have "concat (map ?f (sort_key fst l)) = concat (map ?f (filter (\<lambda>x. ?f x \<noteq> []) (sort_key fst l)))"
    by (rule concat_filter)
  also have "filter (\<lambda>x. ?f x \<noteq> []) (sort_key fst l) = sort_key fst (filter (\<lambda>x. ?f x \<noteq> []) l)"
    by (rule filter_sort)
  also have "\<dots> = filter (\<lambda>x. ?f x \<noteq> []) l"
    using assms by (intro sort_key_id_if_sorted) (simp add: case_prod_beta')
  also have "concat (map ?f \<dots>) = concat (map ?f l)" by (rule concat_filter[symmetric])
  finally show ?thesis .
qed


lemma settle_fields [simp]:
  "it_events (settle p v it) = it_events it" "it_waiting (settle p v it) = it_waiting it"
  "it_next (settle p v it) = it_next it" "it_settled (settle p v it) = it_settled it @ [(p, v)]"
  by (simp_all add: settle_def)

lemma fold_settle [simp]:
  "it_events (fold (\<lambda>p. settle p v) ps it) = it_events it" "it_next (fold (\<lambda>p. settle p v) ps it) = it_next it"
  "it_settled (fold (\<lambda>p. settle p v) ps it) = it_settled it @ map (\<lambda>p. (p, v)) ps"
  by (induction ps arbitrary: it) simp_all

lemma cleanup_fields [simp]:
  "it_events (cleanup it) = it_events it" "it_waiting (cleanup it) = []" "it_next (cleanup it) = it_next it"
  "it_settled (cleanup it) = it_settled it @ map (\<lambda>p. (p, NestedEnd)) (it_waiting it)"
  by (simp_all add: cleanup_def Let_def)

lemma fresh_promise_fields [simp]:
  "it_events (fresh_promise it) = it_events it" "it_waiting (fresh_promise it) = it_waiting it"
  "it_next (fresh_promise it) = it_next it + 1" "it_settled (fresh_promise it) = it_settled it"
  "it_done (fresh_promise it) = it_done it" "it_error (fresh_promise it) = it_error it"
  by (simp_all add: fresh_promise_def)

lemma map_fst_pair [simp]: "map (fst \<circ> (\<lambda>p. (p, v))) ps = ps"
  by (simp add: comp_def)

lemma it_ok_promises:
  assumes "it_ok it"
  shows "p \<in> set (it_waiting it) \<Longrightarrow> p < it_next it" "(p, v) \<in> set (it_settled it) \<Longrightarrow> p < it_next it"
    "distinct (map fst (it_settled it))"
proof -
  have eq: "mset (it_waiting it @ map fst (it_settled it)) = mset [0..<it_next it]" using assms by (simp add: it_ok_def)
  then have "set (it_waiting it @ map fst (it_settled it)) = set [0..<it_next it]" by (rule mset_eq_setD)
  then show "p \<in> set (it_waiting it) \<Longrightarrow> p < it_next it" "(p, v) \<in> set (it_settled it) \<Longrightarrow> p < it_next it"
    by force+
  have "distinct (it_waiting it @ map fst (it_settled it))"
    using eq by (metis distinct_upt mset_eq_imp_distinct_iff)
  then show "distinct (map fst (it_settled it))" by simp
qed

lemma cleanup_ok: "it_ok it \<Longrightarrow> it_ok (cleanup it)"
  by (simp add: it_ok_def ac_simps)

lemma errorHandler_ok: "it_ok it \<Longrightarrow> it_ok (errorHandler e it)"
  by (auto simp: it_ok_def errorHandler_def Let_def split: list.split)

lemma fresh_settle_ok: "it_ok it \<Longrightarrow> it_ok (settle (it_next it) v (fresh_promise it))"
  by (simp add: it_ok_def)

lemma it_step_ok:
  assumes "it_ok it"
  shows "it_ok (it_step c it)"
proof (cases c)
  case (Event args)
  then show ?thesis using assms by (auto simp: it_ok_def eventHandler_def split: list.split)
next
  case Next
  have "sorted (it_waiting it @ [it_next it])"
    using assms it_ok_promises(1)[OF assms] by (auto simp: it_ok_def sorted_append dest: less_imp_le)
  then show ?thesis
    using Next assms by (cases "it_events it") (auto simp: next_item_def Let_def it_ok_def atLeast0_lessThan_Suc split: option.split)
next
  case Return
  then show ?thesis using fresh_settle_ok[OF cleanup_ok[OF assms]] by (simp add: return_item_def Let_def)
next
  case (ThrowIn e)
  then show ?thesis using fresh_settle_ok[OF cleanup_ok[OF assms]] by (simp add: throw_item_def Let_def)
qed (use assms errorHandler_ok cleanup_ok in \<open>simp_all add: abortHandler_def\<close>)

lemma items_ok_other:
  assumes "items_ok r it" "it_events it' = it_events it" "it_settled it' = it_settled it @ l"
    "\<forall>x\<in>set l. item_of (snd x) = []" "sublist (it_waiting it') (it_waiting it)"
  shows "items_ok r it'"
proof -
  have "filter (\<lambda>(p, v). item_of v \<noteq> []) l = []" "concat (map (\<lambda>(p, v). item_of v) l) = []"
    using assms(4) by (auto simp: filter_empty_conv)
  moreover obtain xs ys where "it_waiting it = xs @ it_waiting it' @ ys" using assms(5) by (auto simp: sublist_def)
  ultimately show ?thesis using assms(1,2,3) by (auto simp: items_ok_def sorted_append)
qed

lemma items_ok_cleanup: "items_ok r it \<Longrightarrow> items_ok r (cleanup it)"
  by (rule items_ok_other[where l = "map (\<lambda>p. (p, NestedEnd)) (it_waiting it)"]) auto

lemma items_ok_error:
  assumes "items_ok r it"
  shows "items_ok r (errorHandler e it)"
proof (cases "it_waiting it")
  case Nil
  then show ?thesis using items_ok_other[OF assms, of "errorHandler e it" "[]"] by (simp add: errorHandler_def Let_def)
next
  case (Cons p ps)
  have "sublist ps (p # ps)" unfolding sublist_def by (rule exI[of _ "[p]"]) simp
  then show ?thesis
    using items_ok_other[OF assms, of "errorHandler e it" "[(p, Rejected e)]"] Cons by (simp add: errorHandler_def Let_def)
qed

lemma it_step_items:
  assumes "it_ok it" "items_ok r it"
  shows "items_ok (r @ event_of c) (it_step c it)"
proof (cases c)
  case (Event args)
  then show ?thesis using assms by (auto simp: it_ok_def items_ok_def eventHandler_def sorted_append split: list.split)
next
  case Next
  show ?thesis
  proof (cases "it_events it")
    case Nil
    have "sorted (map fst (filter (\<lambda>(p, v). item_of v \<noteq> []) (it_settled it)) @ it_waiting it @ [it_next it])"
      using assms(2) it_ok_promises(1,2)[OF assms(1)] by (force simp: items_ok_def sorted_append dest: less_imp_le)
    then show ?thesis
      using Next Nil assms(2) by (auto simp: items_ok_def next_item_def Let_def split: option.split)
  next
    case (Cons args evs)
    then have "it_waiting it = []" using assms(1) by (simp add: it_ok_def)
    moreover have "\<forall>x\<in>set (filter (\<lambda>(p, v). item_of v \<noteq> []) (it_settled it)). fst x \<le> it_next it"
      using it_ok_promises(2)[OF assms(1)] by (force dest: less_imp_le)
    ultimately show ?thesis
      using Next Cons assms(2) by (auto simp: items_ok_def next_item_def Let_def sorted_append)
  qed
next
  case Return
  then show ?thesis
    using items_ok_other[OF items_ok_cleanup[OF assms(2)], of "return_item it" "[(it_next it, Finished)]"]
    by (simp add: return_item_def Let_def)
next
  case (ThrowIn e)
  then show ?thesis
    using items_ok_other[OF items_ok_cleanup[OF assms(2)], of "throw_item e it" "[(it_next it, Rejected e)]"]
    by (simp add: throw_item_def Let_def)
qed (use assms items_ok_error items_ok_cleanup in \<open>simp_all add: abortHandler_def\<close>)

lemma it_run_ok: "it_ok (it_run cs) \<and> items_ok (concat (map event_of cs)) (it_run cs)"
proof -
  have "it_ok (fold it_step cs it) \<and> items_ok (r @ concat (map event_of cs)) (fold it_step cs it)"
    if "it_ok it" "items_ok r it" for it r
    using that
  proof (induction cs arbitrary: it r)
    case (Cons c cs)
    show ?case using Cons.IH[OF it_step_ok it_step_items, OF Cons.prems(1) Cons.prems] by simp
  qed simp
  moreover have "it_ok new_iterator" "items_ok [] new_iterator"
    by (simp_all add: it_ok_def items_ok_def new_iterator_def)
  ultimately show ?thesis unfolding it_run_def by force
qed

text \<open>
  C8: The iterator \<open>EventEmitter.on\<close> neither loses, repeats nor reorders an event, whatever the order
  of emissions, errors, aborts and calls of \<open>next\<close>, \<open>return\<close> and \<open>throw\<close>: the events handed out, in the
  order in which their promises were asked for, and then the events still queued, are exactly the
  events received. No promise is settled twice.
\<close>

theorem iterator_fifo:
  "handed_out (it_run cs) @ it_events (it_run cs) = concat (map event_of cs) \<and> distinct (map fst (it_settled (it_run cs)))"
  using it_run_ok[of cs] handed_out_log[of "it_settled (it_run cs)"]
    it_ok_promises(3)[of "it_run cs"]
  by (simp add: items_ok_def handed_out_def sorted_append)

text \<open>
  A promise that waits when the iterator is closed is fulfilled with an item whose value is the end
  marker, not with the end: the wrapper around \<open>resolve\<close> adds \<open>done: false\<close>.
\<close>

lemma iterator_pending_end: "it_settled (it_run [Next, Return]) = [(0, NestedEnd), (1, Finished)]"
  by code_simp

text \<open>An error that rejects a waiting promise rejects the next one as well.\<close>

lemma iterator_error_twice: "it_settled (it_run [Next, Error e, Next]) = [(0, Rejected e), (1, Rejected e)]"
  by (simp add: it_run_def new_iterator_def next_item_def errorHandler_def fresh_promise_def settle_def Let_def)

end
