(* ===== verification/Event_Target.thy ===== *)
theory Event_Target
  imports JS_Bits
begin

text \<open>
  The classes \<open>Event\<close> and \<open>EventTarget\<close> of \<open>builtin/events.js\<close>. The entries of the listener lists and
  the events are objects shared between a dispatch in progress and the lists, so both are kept in
  stores. \<open>body\<close> gives for a listener and an event the calls the listener makes; nested dispatches go
  through a machine with less fuel. Abort signals (the option \<open>signal\<close>) are not modelled.
  The model has one target, so the flag of the passive listener, a variable of the module, is in its state.
\<close>

section \<open>Events and targets\<close>

text \<open>A listener: a function, an object with \<open>handleEvent\<close>, or an object without.\<close>

datatype handler = Function nat | Object nat | Inert nat

record tentry =
  e_type :: jstr
  e_listener :: handler
  e_capture :: bool
  e_once :: bool
  e_passive :: bool
  e_removed :: bool

record tevent =
  v_type :: jstr
  v_cancelable :: bool
  v_prevented :: bool
  v_stop :: bool
  v_stopImmediate :: bool

record target =
  t_entries :: "tentry list"
  t_lists :: "jstr \<Rightarrow> nat list"
  t_events :: "tevent list"
  t_passive :: bool
  t_calls :: "(nat \<times> nat) list"

definition new_target :: target where
  [js_eval]: "new_target = \<lparr>t_entries = [], t_lists = (\<lambda>ty. []), t_events = [], t_passive = False, t_calls = []\<rparr>"

definition new_event :: "jstr \<Rightarrow> bool \<Rightarrow> tevent" where
  [js_eval]: "new_event ty cancelable =
     \<lparr>v_type = ty, v_cancelable = cancelable, v_prevented = False, v_stop = False, v_stopImmediate = False\<rparr>"

definition update_event :: "nat \<Rightarrow> (tevent \<Rightarrow> tevent) \<Rightarrow> target \<Rightarrow> target" where
  [js_eval]: "update_event ev f s = (if ev < length (t_events s) then s\<lparr>t_events := (t_events s)[ev := f (t_events s ! ev)]\<rparr> else s)"

definition preventDefault :: "nat \<Rightarrow> target \<Rightarrow> target" where
  [js_eval]: "preventDefault ev s =
     update_event ev (\<lambda>e. if v_cancelable e \<and> \<not> t_passive s then e\<lparr>v_prevented := True\<rparr> else e) s"

definition stopPropagation :: "nat \<Rightarrow> target \<Rightarrow> target" where
  [js_eval]: "stopPropagation ev s = update_event ev (\<lambda>e. e\<lparr>v_stop := True\<rparr>) s"

definition stopImmediatePropagation :: "nat \<Rightarrow> target \<Rightarrow> target" where
  [js_eval]: "stopImmediatePropagation ev s = update_event ev (\<lambda>e. e\<lparr>v_stopImmediate := True, v_stop := True\<rparr>) s"

section \<open>Adding and removing listeners\<close>

text \<open>The argument \<open>options\<close>: a boolean, an object, or nothing.\<close>

datatype options = NoOptions | UseCapture bool | Options bool bool bool

definition capture_of :: "options \<Rightarrow> bool" where
  [js_eval]: "capture_of opts = (case opts of NoOptions \<Rightarrow> False | UseCapture c \<Rightarrow> c | Options c b p \<Rightarrow> c)"

definition same_entry :: "handler \<Rightarrow> bool \<Rightarrow> tentry \<Rightarrow> bool" where
  [js_eval]: "same_entry l capture e \<longleftrightarrow> e_listener e = l \<and> e_capture e = capture"

definition addEventListener :: "jstr \<Rightarrow> handler option \<Rightarrow> options \<Rightarrow> target \<Rightarrow> target" where
  [js_eval]: "addEventListener ty listener opts s =
     (let once = (case opts of Options c b p \<Rightarrow> b | _ \<Rightarrow> False);
          passive = (case opts of Options c b p \<Rightarrow> p | _ \<Rightarrow> False)
      in case listener of
           None \<Rightarrow> s
         | Some l \<Rightarrow>
             if list_ex (\<lambda>i. same_entry l (capture_of opts) (t_entries s ! i)) (t_lists s ty) then s
             else s\<lparr>t_entries := t_entries s @ [\<lparr>e_type = ty, e_listener = l, e_capture = capture_of opts, e_once = once,
                        e_passive = passive, e_removed = False\<rparr>],
                    t_lists := (t_lists s)(ty := t_lists s ty @ [length (t_entries s)])\<rparr>)"

definition mark_removed :: "nat \<Rightarrow> target \<Rightarrow> target" where
  [js_eval]: "mark_removed i s = s\<lparr>t_entries := (t_entries s)[i := (t_entries s ! i)\<lparr>e_removed := True\<rparr>]\<rparr>"

text \<open>The loop runs from the last entry to the first.\<close>

fun remove_entries :: "jstr \<Rightarrow> handler \<Rightarrow> bool \<Rightarrow> nat \<Rightarrow> target \<Rightarrow> target" where
  "remove_entries ty l capture 0 s = s"
| "remove_entries ty l capture (Suc n) s =
     (let ids = t_lists s ty; i = ids ! n
      in if same_entry l capture (t_entries s ! i)
         then remove_entries ty l capture n
                ((mark_removed i s)\<lparr>t_lists := (t_lists s)(ty := take n ids @ drop (n + 1) ids)\<rparr>)
         else remove_entries ty l capture n s)"

definition removeEventListener :: "jstr \<Rightarrow> handler \<Rightarrow> options \<Rightarrow> target \<Rightarrow> target" where
  [js_eval]: "removeEventListener ty l opts s = remove_entries ty l (capture_of opts) (length (t_lists s ty)) s"

section \<open>Dispatching\<close>

text \<open>The calls a listener makes.\<close>

datatype tcall =
    Add jstr "handler option" options | Remove jstr handler options | NewEvent jstr bool | Dispatch nat
  | Prevent nat | Stop nat | StopImmediate nat | Raise js_error

type_synonym 'a trun = "((js_error + 'a) \<times> target) option"
type_synonym dispatcher = "nat \<Rightarrow> target \<Rightarrow> bool trun"

fun run_calls :: "dispatcher \<Rightarrow> tcall list \<Rightarrow> target \<Rightarrow> unit trun" where
  "run_calls k [] s = Some (Inr (), s)"
| "run_calls k (Raise e # cs) s = Some (Inl e, s)"
| "run_calls k (Dispatch ev # cs) s =
     (case k ev s of None \<Rightarrow> None | Some (Inl e, s1) \<Rightarrow> Some (Inl e, s1) | Some (Inr b, s1) \<Rightarrow> run_calls k cs s1)"
| "run_calls k (Add ty l opts # cs) s = run_calls k cs (addEventListener ty l opts s)"
| "run_calls k (Remove ty l opts # cs) s = run_calls k cs (removeEventListener ty l opts s)"
| "run_calls k (NewEvent ty c # cs) s = run_calls k cs (s\<lparr>t_events := t_events s @ [new_event ty c]\<rparr>)"
| "run_calls k (Prevent ev # cs) s = run_calls k cs (preventDefault ev s)"
| "run_calls k (Stop ev # cs) s = run_calls k cs (stopPropagation ev s)"
| "run_calls k (StopImmediate ev # cs) s = run_calls k cs (stopImmediatePropagation ev s)"

definition call_handler :: "(handler \<Rightarrow> nat \<Rightarrow> tcall list) \<Rightarrow> dispatcher \<Rightarrow> nat \<Rightarrow> nat \<Rightarrow> target \<Rightarrow> unit trun" where
  [js_eval]: "call_handler body k i ev s =
     (let l = e_listener (t_entries s ! i); s1 = s\<lparr>t_calls := t_calls s @ [(i, ev)]\<rparr>
      in case l of
           Inert n \<Rightarrow> Some (Inr (), s)
         | _ \<Rightarrow> run_calls k (body l ev) s1)"

text \<open>An entry that is in no store has no run; errors of the listeners are dropped.\<close>

fun call_handlers :: "(handler \<Rightarrow> nat \<Rightarrow> tcall list) \<Rightarrow> dispatcher \<Rightarrow> nat \<Rightarrow> nat list \<Rightarrow> target \<Rightarrow> target option" where
  "call_handlers body k ev [] s = Some s"
| "call_handlers body k ev (i # ids) s =
     (let e = t_entries s ! i
      in if length (t_entries s) \<le> i then None
         else if v_stopImmediate (t_events s ! ev) then Some s
         else if e_removed e then call_handlers body k ev ids s
         else let s1 = (if e_once e then removeEventListener (v_type (t_events s ! ev)) (e_listener e) (UseCapture (e_capture e)) s else s);
                  previous = t_passive s1
              in case call_handler body k i ev (s1\<lparr>t_passive := e_passive e\<rparr>) of
                   None \<Rightarrow> None
                 | Some (r, s2) \<Rightarrow> call_handlers body k ev ids (s2\<lparr>t_passive := previous\<rparr>))"

definition dispatchEvent :: "(handler \<Rightarrow> nat \<Rightarrow> tcall list) \<Rightarrow> dispatcher \<Rightarrow> nat \<Rightarrow> target \<Rightarrow> bool trun" where
  [js_eval]: "dispatchEvent body k ev s =
     (if length (t_events s) \<le> ev then Some (Inl (TypeError ''dispatchEvent''), s)
      else case call_handlers body k ev (t_lists s (v_type (t_events s ! ev))) s of
             None \<Rightarrow> None
           | Some s1 \<Rightarrow> Some (Inr (\<not> v_prevented (t_events s1 ! ev)), s1))"

fun dispatcher :: "nat \<Rightarrow> (handler \<Rightarrow> nat \<Rightarrow> tcall list) \<Rightarrow> dispatcher" where
  "dispatcher 0 body ev s = None"
| "dispatcher (Suc n) body ev s = dispatchEvent body (dispatcher n body) ev s"

text \<open>A program: calls made from outside any listener.\<close>

definition target_run :: "nat \<Rightarrow> (handler \<Rightarrow> nat \<Rightarrow> tcall list) \<Rightarrow> tcall list \<Rightarrow> target \<Rightarrow> unit trun" where
  [js_eval]: "target_run n body cs s = run_calls (dispatcher n body) cs s"

end
