(* ===== verification/Event_Target_Laws.thy ===== *)
theory Event_Target_Laws
  imports Event_Target
begin

text \<open>
  Laws of \<open>EventTarget\<close>, for any listeners and any nesting of dispatches: the lists hold every live
  entry once, a removed entry is never called again, an entry with the option \<open>once\<close> is called at most
  once, and the errors of listeners never leave a dispatch.
\<close>

section \<open>The invariant and the growth of the state\<close>

definition call_count :: "nat \<Rightarrow> target \<Rightarrow> nat" where
  [js_eval]: "call_count i s = length (filter (\<lambda>c. fst c = i) (t_calls s))"

definition key_of :: "target \<Rightarrow> nat \<Rightarrow> handler \<times> bool" where
  [js_eval]: "key_of s i = (e_listener (t_entries s ! i), e_capture (t_entries s ! i))"

definition lists_ok :: "target \<Rightarrow> bool" where
  "lists_ok s \<longleftrightarrow>
     (\<forall>ty. distinct (map (key_of s) (t_lists s ty)) \<and>
           (\<forall>i\<in>set (t_lists s ty). i < length (t_entries s) \<and> \<not> e_removed (t_entries s ! i) \<and> e_type (t_entries s ! i) = ty)) \<and>
     (\<forall>i<length (t_entries s). \<not> e_removed (t_entries s ! i) \<longrightarrow> i \<in> set (t_lists s (e_type (t_entries s ! i))))"

definition calls_ok :: "target \<Rightarrow> bool" where
  "calls_ok s \<longleftrightarrow> (\<forall>c\<in>set (t_calls s). fst c < length (t_entries s)) \<and>
     (\<forall>i<length (t_entries s). e_once (t_entries s ! i) \<longrightarrow> call_count i s \<le> (if e_removed (t_entries s ! i) then 1 else 0))"

definition target_ok :: "target \<Rightarrow> bool" where
  "target_ok s \<longleftrightarrow> lists_ok s \<and> calls_ok s"

text \<open>Entries keep what they are, removed entries stay removed and are not called, events keep their type.\<close>

definition grows :: "target \<Rightarrow> target \<Rightarrow> bool" where
  "grows s s' \<longleftrightarrow> length (t_entries s) \<le> length (t_entries s') \<and> length (t_events s) \<le> length (t_events s') \<and>
     (\<forall>i<length (t_entries s). key_of s' i = key_of s i \<and> e_type (t_entries s' ! i) = e_type (t_entries s ! i) \<and>
        e_once (t_entries s' ! i) = e_once (t_entries s ! i) \<and>
        (e_removed (t_entries s ! i) \<longrightarrow> e_removed (t_entries s' ! i) \<and> call_count i s' = call_count i s)) \<and>
     (\<forall>ev<length (t_events s). v_type (t_events s' ! ev) = v_type (t_events s ! ev))"

lemma grows_refl [simp]: "grows s s"
  by (simp add: grows_def)

lemma grows_trans:
  assumes "grows s1 s2" "grows s2 s3"
  shows "grows s1 s3"
proof -
  have "i < length (t_entries s2)" if "i < length (t_entries s1)" for i using assms(1) that by (simp add: grows_def)
  moreover have "ev < length (t_events s2)" if "ev < length (t_events s1)" for ev using assms(1) that by (simp add: grows_def)
  ultimately show ?thesis using assms by (auto simp: grows_def)
qed

lemma lists_okD:
  "lists_ok s \<Longrightarrow> i \<in> set (t_lists s ty) \<Longrightarrow> i < length (t_entries s) \<and> \<not> e_removed (t_entries s ! i) \<and> e_type (t_entries s ! i) = ty"
  by (auto simp: lists_ok_def)

lemma target_cong:
  assumes "t_entries s' = t_entries s" "t_lists s' = t_lists s" "t_calls s' = t_calls s"
  shows "target_ok s' = target_ok s"
proof -
  have "key_of s' = key_of s" by (simp add: key_of_def assms fun_eq_iff)
  then show ?thesis by (simp add: target_ok_def lists_ok_def calls_ok_def call_count_def assms)
qed

lemma target_updates [simp]:
  "target_ok (s\<lparr>t_passive := b\<rparr>) = target_ok s" "target_ok (s\<lparr>t_events := evs\<rparr>) = target_ok s"
  by (rule target_cong; simp)+

lemma grows_passive [simp]: "grows s (s'\<lparr>t_passive := b\<rparr>) = grows s s'" "grows (s\<lparr>t_passive := b\<rparr>) s' = grows s s'"
  by (simp_all add: grows_def key_of_def call_count_def)

text \<open>One removal: the entry at a position of a list.\<close>

definition unlink :: "jstr \<Rightarrow> nat \<Rightarrow> target \<Rightarrow> target" where
  "unlink ty n s = (mark_removed (t_lists s ty ! n) s)\<lparr>t_lists := (t_lists s)(ty := take n (t_lists s ty) @ drop (n + 1) (t_lists s ty))\<rparr>"

lemma unlink_fields [simp]:
  "t_lists (unlink ty n s) = (t_lists s)(ty := take n (t_lists s ty) @ drop (n + 1) (t_lists s ty))"
  "t_events (unlink ty n s) = t_events s" "t_passive (unlink ty n s) = t_passive s" "t_calls (unlink ty n s) = t_calls s"
  "t_entries (unlink ty n s) =
     (t_entries s)[t_lists s ty ! n := (t_entries s ! (t_lists s ty ! n))\<lparr>e_removed := True\<rparr>]"
  by (simp_all add: unlink_def mark_removed_def)

lemma key_of_unlink [simp]: "key_of (unlink ty n s) = key_of s"
proof
  fix i show "key_of (unlink ty n s) i = key_of s i"
    by (cases "t_lists s ty ! n < length (t_entries s)") (auto simp: key_of_def nth_list_update list_update_beyond)
qed

lemma unlink_ok:
  assumes ok: "target_ok s" and n: "n < length (t_lists s ty)"
  shows "target_ok (unlink ty n s) \<and> grows s (unlink ty n s) \<and> e_removed (t_entries (unlink ty n s) ! (t_lists s ty ! n))"
proof -
  define ids where "ids = t_lists s ty"
  let ?i = "ids ! n"
  have lists: "lists_ok s" and calls: "calls_ok s" using ok by (simp_all add: target_ok_def)
  have i: "?i < length (t_entries s)" "\<not> e_removed (t_entries s ! ?i)" "e_type (t_entries s ! ?i) = ty"
    using lists_okD[OF lists nth_mem[OF n]] by (simp_all add: ids_def)
  have ent: "t_entries (unlink ty n s) ! j = (if j = ?i then (t_entries s ! ?i)\<lparr>e_removed := True\<rparr> else t_entries s ! j)" for j
    using i by (simp add: ids_def nth_list_update)
  have split: "ids = take n ids @ ?i # drop (n + 1) ids" using n by (simp add: ids_def id_take_nth_drop)
  have "distinct ids" using lists by (auto simp: lists_ok_def ids_def simp: distinct_map)
  then have keep: "set (take n ids @ drop (n + 1) ids) = set ids - {?i}"
    by (subst (3) split, subst (asm) split) auto
  have "distinct (map (key_of s) ids)" using lists by (simp add: lists_ok_def ids_def)
  then have dist: "distinct (map (key_of s) (take n ids @ drop (n + 1) ids))"
    by (subst (asm) split) simp
  have other: "?i \<notin> set (t_lists s ty')" if "ty' \<noteq> ty" for ty' using lists i(3) that by (auto simp: lists_ok_def)
  have len: "length (t_entries (unlink ty n s)) = length (t_entries s)" by simp
  have new: "t_lists (unlink ty n s) ty' = (if ty' = ty then take n ids @ drop (n + 1) ids else t_lists s ty')" for ty'
    by (simp add: ids_def)
  have sub: "j \<in> set (t_lists s ty') \<and> j \<noteq> ?i" if "j \<in> set (t_lists (unlink ty n s) ty')" for j ty'
    using that keep other[of ty'] unfolding new by (auto simp: ids_def split: if_splits)
  have "lists_ok (unlink ty n s)"
    unfolding lists_ok_def len
  proof (intro conjI allI ballI impI)
    fix ty' show "distinct (map (key_of (unlink ty n s)) (t_lists (unlink ty n s) ty'))"
      using lists dist unfolding new lists_ok_def by auto
  next
    fix ty' j assume j: "j \<in> set (t_lists (unlink ty n s) ty')"
    note lists_okD[OF lists conjunct1[OF sub[OF j]]]
    then show "j < length (t_entries s)" "\<not> e_removed (t_entries (unlink ty n s) ! j)"
      "e_type (t_entries (unlink ty n s) ! j) = ty'"
      using sub[OF j] unfolding ent by simp_all
  next
    fix j assume j: "j < length (t_entries s)" "\<not> e_removed (t_entries (unlink ty n s) ! j)"
    then have ne: "j \<noteq> ?i" "\<not> e_removed (t_entries s ! j)" unfolding ent by (auto split: if_splits)
    then have "j \<in> set (t_lists s (e_type (t_entries s ! j)))" using lists j(1) by (simp add: lists_ok_def)
    then show "j \<in> set (t_lists (unlink ty n s) (e_type (t_entries (unlink ty n s) ! j)))"
      using keep ne unfolding ent new by (auto simp: ids_def)
  qed
  moreover have "calls_ok (unlink ty n s)"
    unfolding calls_ok_def len
  proof (intro conjI ballI allI impI)
    fix c assume "c \<in> set (t_calls (unlink ty n s))"
    then show "fst c < length (t_entries s)" using calls by (simp add: calls_ok_def)
  next
    fix j assume "j < length (t_entries s)" "e_once (t_entries (unlink ty n s) ! j)"
    then have "call_count j s \<le> (if e_removed (t_entries s ! j) then 1 else 0)"
      using calls unfolding calls_ok_def ent by (auto split: if_splits)
    moreover have "call_count j (unlink ty n s) = call_count j s" by (simp add: call_count_def)
    ultimately show "call_count j (unlink ty n s) \<le> (if e_removed (t_entries (unlink ty n s) ! j) then 1 else 0)"
      unfolding ent by (auto split: if_splits)
  qed
  moreover have "grows s (unlink ty n s)"
    by (auto simp: grows_def ent call_count_def simp del: unlink_fields(5)) (simp add: ids_def)
  ultimately show ?thesis using ent[of ?i] by (simp add: target_ok_def ids_def del: unlink_fields(5))
qed

lemma remove_entries_ok:
  assumes "target_ok s" "n \<le> length (t_lists s ty)"
  shows "target_ok (remove_entries ty l c n s) \<and> grows s (remove_entries ty l c n s) \<and>
    t_passive (remove_entries ty l c n s) = t_passive s \<and> t_calls (remove_entries ty l c n s) = t_calls s \<and>
    t_events (remove_entries ty l c n s) = t_events s \<and> length (t_entries (remove_entries ty l c n s)) = length (t_entries s) \<and>
    (\<forall>i\<in>set (take n (t_lists s ty)). key_of s i = (l, c) \<longrightarrow> e_removed (t_entries (remove_entries ty l c n s) ! i))"
  using assms
proof (induction n arbitrary: s)
  case (Suc n)
  let ?i = "t_lists s ty ! n"
  have take: "take (Suc n) (t_lists s ty) = take n (t_lists s ty) @ [?i]" using Suc.prems(2) by (simp add: take_Suc_conv_app_nth)
  have same: "same_entry l c (t_entries s ! ?i) \<longleftrightarrow> key_of s ?i = (l, c)" by (simp add: same_entry_def key_of_def)
  show ?case
  proof (cases "key_of s ?i = (l, c)")
    case False
    then show ?thesis using Suc.IH[OF Suc.prems(1)] Suc.prems(2) take same by (auto simp: Let_def)
  next
    case True
    let ?s = "unlink ty n s"
    have u: "target_ok ?s" "grows s ?s" "e_removed (t_entries ?s ! ?i)" using unlink_ok Suc.prems by auto
    have len: "n \<le> length (t_lists ?s ty)" "?i < length (t_entries s)"
      using Suc.prems lists_okD[of s ?i ty] by (auto simp: target_ok_def)
    note IH = Suc.IH[OF u(1) len(1)]
    have "e_removed (t_entries (remove_entries ty l c n ?s) ! ?i)"
      using IH u(3) len(2) unfolding grows_def by (simp del: unlink_fields(5)) (metis length_list_update unlink_fields(5))
    moreover have "remove_entries ty l c (Suc n) s = remove_entries ty l c n ?s"
      using True same by (simp add: Let_def unlink_def)
    moreover have "take n (t_lists ?s ty) = take n (t_lists s ty)" using Suc.prems(2) by simp
    ultimately show ?thesis using IH take grows_trans[OF u(2)] by (auto simp del: unlink_fields(5)) (simp_all)
  qed
qed simp


section \<open>Every call keeps the invariant\<close>

definition keeps_target :: "target \<Rightarrow> target \<Rightarrow> bool" where
  "keeps_target s s' \<longleftrightarrow> target_ok s' \<and> grows s s' \<and> t_passive s' = t_passive s"

lemma keeps_target_refl: "target_ok s \<Longrightarrow> keeps_target s s"
  by (simp add: keeps_target_def)

lemma keeps_target_trans: "keeps_target s1 s2 \<Longrightarrow> keeps_target s2 s3 \<Longrightarrow> keeps_target s1 s3"
  using grows_trans by (auto simp: keeps_target_def)

lemma keeps_ok: "keeps_target s s' \<Longrightarrow> target_ok s'"
  by (simp add: keeps_target_def)

lemma key_of_add: "i < length (t_entries s) \<Longrightarrow> key_of (s\<lparr>t_entries := t_entries s @ es, t_lists := ls\<rparr>) i = key_of s i"
  by (simp add: key_of_def nth_append)

lemma add_keeps:
  assumes ok: "target_ok s"
  shows "keeps_target s (addEventListener ty listener opts s)"
proof (cases "addEventListener ty listener opts s = s")
  case False
  then obtain l where l: "listener = Some l" by (cases listener) (auto simp: addEventListener_def)
  obtain b p where s': "addEventListener ty listener opts s =
      s\<lparr>t_entries := t_entries s @ [\<lparr>e_type = ty, e_listener = l, e_capture = capture_of opts, e_once = b,
          e_passive = p, e_removed = False\<rparr>], t_lists := (t_lists s)(ty := t_lists s ty @ [length (t_entries s)])\<rparr>"
    (is "_ = ?s") and new: "\<not> list_ex (\<lambda>i. same_entry l (capture_of opts) (t_entries s ! i)) (t_lists s ty)"
    using False l by (auto simp: addEventListener_def Let_def split: if_splits)
  have lists: "lists_ok s" and calls: "calls_ok s" using ok by (simp_all add: target_ok_def)
  have key: "map (key_of ?s) (t_lists s ty') = map (key_of s) (t_lists s ty')" for ty'
    using lists_okD[OF lists] by (intro map_cong) (simp_all add: key_of_add)
  have keyn: "key_of ?s (length (t_entries s)) = (l, capture_of opts)" by (simp add: key_of_def)
  have fresh: "(l, capture_of opts) \<notin> set (map (key_of s) (t_lists s ty))"
    using new by (auto simp: list_ex_iff same_entry_def key_of_def)
  have "lists_ok ?s"
    unfolding lists_ok_def
  proof (intro conjI allI ballI impI)
    fix ty' show "distinct (map (key_of ?s) (t_lists ?s ty'))"
    proof -
      have "map (key_of ?s) (t_lists ?s ty') = (if ty' = ty
          then map (key_of ?s) (t_lists s ty) @ [key_of ?s (length (t_entries s))] else map (key_of ?s) (t_lists s ty'))"
        by simp
      then have "map (key_of ?s) (t_lists ?s ty') = (if ty' = ty
          then map (key_of s) (t_lists s ty) @ [(l, capture_of opts)] else map (key_of s) (t_lists s ty'))"
        unfolding key keyn .
      then show ?thesis using lists fresh by (simp only: lists_ok_def) simp
    qed
  next
    fix ty' i assume "i \<in> set (t_lists ?s ty')"
    then have "i \<in> set (t_lists s ty') \<or> i = length (t_entries s) \<and> ty' = ty" by (auto split: if_splits)
    then show "i < length (t_entries ?s)" "\<not> e_removed (t_entries ?s ! i)" "e_type (t_entries ?s ! i) = ty'"
      using lists_okD[OF lists, of i ty'] by (auto simp: nth_append)
  next
    fix i assume "i < length (t_entries ?s)" "\<not> e_removed (t_entries ?s ! i)"
    then show "i \<in> set (t_lists ?s (e_type (t_entries ?s ! i)))"
      using lists by (cases "i < length (t_entries s)") (auto simp: lists_ok_def nth_append less_Suc_eq)
  qed
  moreover have "calls_ok ?s"
  proof -
    have "call_count (length (t_entries s)) s = 0"
      using calls by (force simp: calls_ok_def call_count_def filter_empty_conv)
    moreover have "call_count i ?s = call_count i s" for i by (simp add: call_count_def)
    ultimately show ?thesis
      using calls unfolding calls_ok_def by (auto simp: nth_append less_Suc_eq)
  qed
  moreover have "grows s ?s" by (simp add: grows_def key_of_add nth_append call_count_def)
  ultimately show ?thesis unfolding s' keeps_target_def target_ok_def by simp
qed (use ok keeps_target_refl in simp)

lemma remove_keeps: "target_ok s \<Longrightarrow> keeps_target s (removeEventListener ty l opts s)"
  using remove_entries_ok[of s "length (t_lists s ty)" ty l "capture_of opts"]
  by (simp add: removeEventListener_def keeps_target_def)

lemma update_event_keeps:
  assumes "target_ok s" "\<And>e. v_type (f e) = v_type e"
  shows "keeps_target s (update_event ev f s)"
proof -
  have "v_type (t_events (update_event ev f s) ! i) = v_type (t_events s ! i)" for i
    using assms(2) by (cases "i < length (t_events s)") (auto simp: update_event_def nth_list_update)
  then show ?thesis
    using assms(1) by (auto simp: keeps_target_def grows_def update_event_def key_of_def call_count_def)
qed

lemma event_keeps: "target_ok s \<Longrightarrow> keeps_target s (s\<lparr>t_events := t_events s @ [e]\<rparr>)"
  by (simp add: keeps_target_def grows_def key_of_def call_count_def nth_append)

definition good :: "dispatcher \<Rightarrow> bool" where
  "good k \<longleftrightarrow> (\<forall>ev s r s'. target_ok s \<longrightarrow> k ev s = Some (r, s') \<longrightarrow> keeps_target s s')"

lemma run_calls_keeps:
  "run_calls k cs s = Some (r, s') \<Longrightarrow> target_ok s \<Longrightarrow> good k \<Longrightarrow> keeps_target s s'"
proof (induction k cs s rule: run_calls.induct)
  case (3 k ev cs s)
  from 3(2) obtain r1 s1 where k: "k ev s = Some (r1, s1)" by (auto split: option.splits)
  then have s1: "keeps_target s s1" using 3(3,4) unfolding good_def by blast
  show ?case
  proof (cases r1)
    case (Inr b)
    then have "keeps_target s1 s'" using 3(1)[OF k refl Inr] 3(2,4) Inr k keeps_ok[OF s1] by simp
    then show ?thesis using keeps_target_trans[OF s1] by blast
  qed (use 3(2) k s1 in auto)
next
  case (4 k ty l opts cs s)
  then show ?case using keeps_target_trans[OF add_keeps[OF 4(3)]] keeps_ok[OF add_keeps[OF 4(3)]] by simp
next
  case (5 k ty l opts cs s)
  then show ?case using keeps_target_trans[OF remove_keeps[OF 5(3)]] keeps_ok[OF remove_keeps[OF 5(3)]] by simp
next
  case (6 k ty c cs s)
  then show ?case using keeps_target_trans[OF event_keeps[OF 6(3)]] keeps_ok[OF event_keeps[OF 6(3)]] by simp
next
  case (7 k ev cs s)
  have k: "keeps_target s (preventDefault ev s)" using 7(3) unfolding preventDefault_def by (intro update_event_keeps) auto
  show ?case using 7 keeps_target_trans[OF k] keeps_ok[OF k] by simp
next
  case (8 k ev cs s)
  have k: "keeps_target s (stopPropagation ev s)" using 8(3) unfolding stopPropagation_def by (intro update_event_keeps) auto
  show ?case using 8 keeps_target_trans[OF k] keeps_ok[OF k] by simp
next
  case (9 k ev cs s)
  have k: "keeps_target s (stopImmediatePropagation ev s)"
    using 9(3) unfolding stopImmediatePropagation_def by (intro update_event_keeps) auto
  show ?case using 9 keeps_target_trans[OF k] keeps_ok[OF k] by simp
qed (simp_all add: keeps_target_refl)

text \<open>The state in which a listener is called: its entry is removed before, if it has the option \<open>once\<close>.\<close>

definition prepared_call :: "nat \<Rightarrow> nat \<Rightarrow> target \<Rightarrow> target" where
  "prepared_call ev i s =
     (let e = t_entries s ! i
      in if e_once e then removeEventListener (v_type (t_events s ! ev)) (e_listener e) (UseCapture (e_capture e)) s else s)"

lemma prepared_call_keeps:
  assumes ok: "target_ok s" and i: "i < length (t_entries s)" "\<not> e_removed (t_entries s ! i)"
    and ty: "e_type (t_entries s ! i) = v_type (t_events s ! ev)"
  shows "keeps_target s (prepared_call ev i s)"
    and "keeps_target s ((prepared_call ev i s)\<lparr>t_calls := t_calls (prepared_call ev i s) @ [(i, ev)]\<rparr>)"
proof -
  let ?s = "prepared_call ev i s"
  let ?l = "?s\<lparr>t_calls := t_calls ?s @ [(i, ev)]\<rparr>"
  have lists: "lists_ok s" and calls: "calls_ok s" using ok by (simp_all add: target_ok_def)
  show k: "keeps_target s ?s" using remove_keeps[OF ok] keeps_target_refl[OF ok] by (simp add: prepared_call_def Let_def)
  have same: "t_calls ?s = t_calls s"
    using remove_entries_ok[OF ok order_refl] by (simp add: prepared_call_def Let_def removeEventListener_def)
  have rem: "e_removed (t_entries ?s ! i)" if "e_once (t_entries s ! i)"
  proof -
    have "i \<in> set (t_lists s (v_type (t_events s ! ev)))" using lists i ty by (metis lists_ok_def)
    then show ?thesis
      using that remove_entries_ok[OF ok order_refl, of "v_type (t_events s ! ev)" "e_listener (t_entries s ! i)" "e_capture (t_entries s ! i)"]
      by (simp add: prepared_call_def Let_def removeEventListener_def key_of_def capture_of_def)
  qed
  have g: "grows s ?s" "target_ok ?s" using k by (simp_all add: keeps_target_def)
  then have i': "i < length (t_entries ?s)" "e_once (t_entries ?s ! i) = e_once (t_entries s ! i)"
    using i(1) by (auto simp: grows_def)
  have zero: "e_once (t_entries s ! i) \<Longrightarrow> call_count i s = 0" using calls i by (fastforce simp: calls_ok_def)
  have count: "call_count j ?l = (if j = i then call_count i s + 1 else call_count j s)" for j
    by (simp add: call_count_def same)
  have count': "call_count j ?s = call_count j s" for j by (simp add: call_count_def same)
  have "key_of ?l = key_of ?s" by (simp add: key_of_def fun_eq_iff)
  then have "lists_ok ?l" using g(2) by (simp add: target_ok_def lists_ok_def)
  moreover have "calls_ok ?l"
    unfolding calls_ok_def
  proof (intro conjI ballI allI impI)
    fix c assume "c \<in> set (t_calls ?l)"
    then show "fst c < length (t_entries ?l)" using g(2) i'(1) by (auto simp: target_ok_def calls_ok_def)
  next
    fix j assume j: "j < length (t_entries ?l)" "e_once (t_entries ?l ! j)"
    show "call_count j ?l \<le> (if e_removed (t_entries ?l ! j) then 1 else 0)"
    proof (cases "j = i")
      case True
      then have "e_once (t_entries s ! i)" using j(2) i'(2) by simp
      then show ?thesis using True rem zero count[of i] by simp
    next
      case False
      then show ?thesis using g(2) j count[of j] count'[of j] unfolding target_ok_def calls_ok_def by fastforce
    qed
  qed
  moreover have "grows s ?l"
    using g(1) i(2) unfolding grows_def count' by (auto simp: count key_of_def)
  ultimately show "keeps_target s ?l" using k by (simp add: keeps_target_def target_ok_def)
qed


lemma call_handler_keeps:
  assumes "good k" "target_ok s" "keeps_target s s0" "keeps_target s (s0\<lparr>t_calls := t_calls s0 @ [(i, ev)]\<rparr>)"
    and "call_handler body k i ev (s0\<lparr>t_passive := b\<rparr>) = Some (r, s')"
  shows "keeps_target s (s'\<lparr>t_passive := t_passive s\<rparr>)"
proof -
  let ?l = "s0\<lparr>t_passive := b, t_calls := t_calls s0 @ [(i, ev)]\<rparr>"
  have eq: "?l = s0\<lparr>t_calls := t_calls s0 @ [(i, ev)], t_passive := b\<rparr>" by simp
  have l: "target_ok ?l" "grows s ?l"
    unfolding eq using assms(4) target_updates(1)[where b = b and s = "s0\<lparr>t_calls := t_calls s0 @ [(i, ev)]\<rparr>"]
      grows_passive(1)[where b = b and s' = "s0\<lparr>t_calls := t_calls s0 @ [(i, ev)]\<rparr>" and s = s] by (simp_all add: keeps_target_def)
  have "run_calls k cs ?l = Some (r', s'') \<Longrightarrow> keeps_target s (s''\<lparr>t_passive := t_passive s\<rparr>)" for cs r' s''
    using run_calls_keeps[OF _ l(1) assms(1)] grows_trans[OF l(2)] by (force simp: keeps_target_def)
  then show ?thesis
    using assms(3,5) by (auto simp: call_handler_def Let_def keeps_target_def split: handler.splits)
qed

lemma call_handlers_keeps:
  assumes "good k" "target_ok s" "ev < length (t_events s)"
    and "\<forall>i\<in>set ids. i < length (t_entries s) \<and> e_type (t_entries s ! i) = v_type (t_events s ! ev)"
    and "call_handlers body k ev ids s = Some s'"
  shows "keeps_target s s'"
  using assms(2-)
proof (induction ids arbitrary: s)
  case (Cons i ids)
  show ?case
  proof (cases "v_stopImmediate (t_events s ! ev) \<or> e_removed (t_entries s ! i)")
    case True
    then show ?thesis using Cons by (auto simp: Let_def keeps_target_refl split: if_splits)
  next
    case False
    have i: "i < length (t_entries s)" using Cons.prems(4) by (simp add: Let_def split: if_splits)
    let ?s0 = "prepared_call ev i s"
    have k0: "keeps_target s ?s0" "keeps_target s (?s0\<lparr>t_calls := t_calls ?s0 @ [(i, ev)]\<rparr>)"
      using prepared_call_keeps[OF Cons.prems(1) i] False Cons.prems(3) i by auto
    then have p: "t_passive ?s0 = t_passive s" by (simp add: keeps_target_def)
    obtain r s1 where call: "call_handler body k i ev (?s0\<lparr>t_passive := e_passive (t_entries s ! i)\<rparr>) = Some (r, s1)"
      and rest: "call_handlers body k ev ids (s1\<lparr>t_passive := t_passive s\<rparr>) = Some s'"
      using Cons.prems(4) False i p
      by (auto simp: Let_def prepared_call_def[unfolded Let_def, symmetric] split: option.splits prod.splits)
    have k1: "keeps_target s (s1\<lparr>t_passive := t_passive s\<rparr>)" (is "keeps_target s ?s1")
      by (rule call_handler_keeps[OF assms(1) Cons.prems(1) k0 call])
    have g: "grows s ?s1" using k1 by (simp add: keeps_target_def)
    have ty: "\<forall>j\<in>set ids. j < length (t_entries ?s1) \<and> e_type (t_entries ?s1 ! j) = v_type (t_events ?s1 ! ev)"
    proof
      fix j assume "j \<in> set ids"
      then have "j < length (t_entries s)" "e_type (t_entries s ! j) = v_type (t_events s ! ev)" using Cons.prems(3) by auto
      then show "j < length (t_entries ?s1) \<and> e_type (t_entries ?s1 ! j) = v_type (t_events ?s1 ! ev)"
        using g Cons.prems(2) unfolding grows_def by (metis order_less_le_trans)
    qed
    have "keeps_target ?s1 s'"
      using Cons.IH[OF keeps_ok[OF k1] _ ty rest] k1 Cons.prems(2) by (simp add: keeps_target_def grows_def)
    then show ?thesis using keeps_target_trans[OF k1] by blast
  qed
qed (simp add: keeps_target_refl)


lemma dispatchEvent_keeps:
  assumes "good k" "target_ok s" "dispatchEvent body k ev s = Some (r, s')"
  shows "keeps_target s s'"
proof (cases "ev < length (t_events s)")
  case True
  then obtain s1 where "call_handlers body k ev (t_lists s (v_type (t_events s ! ev))) s = Some s1" "s' = s1"
    using assms(3) by (auto simp: dispatchEvent_def split: option.splits)
  moreover have "\<forall>i\<in>set (t_lists s (v_type (t_events s ! ev))). i < length (t_entries s) \<and> e_type (t_entries s ! i) = v_type (t_events s ! ev)"
    using assms(2) lists_okD by (auto simp: target_ok_def)
  ultimately show ?thesis using call_handlers_keeps[OF assms(1,2) True] by blast
qed (use assms in \<open>simp add: dispatchEvent_def keeps_target_refl\<close>)

lemma dispatcher_good: "good (dispatcher n body)"
proof (induction n)
  case (Suc n)
  then show ?case unfolding good_def using dispatchEvent_keeps[OF Suc] by auto
qed (simp add: good_def)

lemma new_target_ok: "target_ok new_target"
  by (simp add: target_ok_def lists_ok_def calls_ok_def new_target_def)

lemma target_run_keeps: "target_run n body cs s = Some (r, s') \<Longrightarrow> target_ok s \<Longrightarrow> keeps_target s s'"
  unfolding target_run_def using run_calls_keeps dispatcher_good by blast

section \<open>Properties\<close>

text \<open>
  C17: An entry added with the option \<open>once\<close> is called at most once, for any listeners, any nesting of
  dispatches of the same or other events, and any additions and removals on the way.
\<close>

theorem target_once:
  assumes "target_run n body cs new_target = Some (r, s)" "i < length (t_entries s)" "e_once (t_entries s ! i)"
  shows "call_count i s \<le> 1"
proof -
  have "calls_ok s" using target_run_keeps[OF assms(1) new_target_ok] by (simp add: keeps_target_def target_ok_def)
  then have "call_count i s \<le> (if e_removed (t_entries s ! i) then 1 else 0)" using assms(2,3) by (simp add: calls_ok_def)
  then show ?thesis by (simp split: if_splits)
qed

text \<open>
  C16: After any run of calls a list holds no two entries with the same listener and phase, and holds
  exactly the live entries of its type; the flag of the passive listener is what it was before, also
  when listeners have raised. From there, no further run calls an entry that is removed.
\<close>

theorem target_lists:
  assumes run: "target_run n body cs new_target = Some (r, s)" "target_run m body' cs' s = Some (r', s')"
    and i: "i < length (t_entries s)"
  shows "distinct (map (key_of s) (t_lists s ty)) \<and>
   (i \<in> set (t_lists s ty) \<longleftrightarrow> \<not> e_removed (t_entries s ! i) \<and> e_type (t_entries s ! i) = ty) \<and>
   \<not> t_passive s \<and> (e_removed (t_entries s ! i) \<longrightarrow> call_count i s' = call_count i s)"
proof -
  note k = target_run_keeps[OF run(1) new_target_ok]
  note k' = target_run_keeps[OF run(2) keeps_ok[OF k]]
  have lists: "lists_ok s" and g: "grows s s'" and p: "t_passive s = t_passive new_target"
    using k k' by (simp_all add: keeps_target_def target_ok_def)
  have "i \<in> set (t_lists s ty) \<longleftrightarrow> \<not> e_removed (t_entries s ! i) \<and> e_type (t_entries s ! i) = ty"
    using lists lists_okD[OF lists, of i ty] i by (auto simp: lists_ok_def)
  then show ?thesis using lists g p i by (simp add: lists_ok_def grows_def new_target_def)
qed

section \<open>Witnesses\<close>

text \<open>An entry with \<open>once\<close> whose listener dispatches its event again and then raises, and a second entry.\<close>

definition target_demo :: "handler \<Rightarrow> nat \<Rightarrow> tcall list" where
  [js_eval]: "target_demo l ev =
     (if l = Function 0 then [Dispatch ev, Raise (PlainError ''failed'')] else [Remove [97] (Function 2) (UseCapture False)])"

definition target_demo_calls :: "tcall list" where
  [js_eval]: "target_demo_calls =
     [NewEvent [97] True, Add [97] (Some (Function 0)) (Options False True False), Add [97] (Some (Object 1)) NoOptions,
      Add [97] (Some (Function 2)) NoOptions, Dispatch 0]"

lemma target_demo_runs:
  "\<exists>r s. target_run 5 target_demo target_demo_calls new_target = Some (r, s) \<and>
    t_calls s = [(0, 0), (1, 0), (1, 0)] \<and> e_once (t_entries s ! 0) \<and> length (t_entries s) = 3 \<and> t_lists s [97] = [1] \<and>
    e_removed (t_entries s ! 2)"
proof -
  have "(case target_run 5 target_demo target_demo_calls new_target of None \<Rightarrow> False
     | Some (r, s) \<Rightarrow> t_calls s = [(0, 0), (1, 0), (1, 0)] \<and> e_once (t_entries s ! 0) \<and> length (t_entries s) = 3 \<and>
         t_lists s [97] = [1] \<and> e_removed (t_entries s ! 2))"
    by code_simp
  then show ?thesis by (auto split: option.splits prod.splits)
qed

lemma target_once_witness:
  "\<exists>r s. target_run 5 target_demo target_demo_calls new_target = Some (r, s) \<and> call_count 0 s \<le> 1 \<and> t_calls s \<noteq> []"
proof -
  obtain r s where s: "target_run 5 target_demo target_demo_calls new_target = Some (r, s)"
    "t_calls s = [(0, 0), (1, 0), (1, 0)]" "e_once (t_entries s ! 0)" "length (t_entries s) = 3"
    using target_demo_runs by blast
  have "call_count 0 s \<le> 1" by (rule target_once[OF s(1) _ s(3)]) (simp add: s(4))
  then show ?thesis using s by (intro exI[of _ r] exI[of _ s]) simp
qed

lemma target_lists_witness:
  "\<exists>r s. target_run 5 target_demo target_demo_calls new_target = Some (r, s) \<and>
    distinct (map (key_of s) (t_lists s [97])) \<and> 2 \<notin> set (t_lists s [97]) \<and> call_count 2 s = 0"
proof -
  obtain r s where s: "target_run 5 target_demo target_demo_calls new_target = Some (r, s)"
    "t_calls s = [(0, 0), (1, 0), (1, 0)]" "length (t_entries s) = 3" "e_removed (t_entries s ! 2)"
    using target_demo_runs by blast
  have "target_run 0 target_demo [] s = Some (Inr (), s)" by (simp add: target_run_def)
  then have "distinct (map (key_of s) (t_lists s [97])) \<and>
     (2 \<in> set (t_lists s [97]) \<longleftrightarrow> \<not> e_removed (t_entries s ! 2) \<and> e_type (t_entries s ! 2) = [97]) \<and>
     \<not> t_passive s \<and> (e_removed (t_entries s ! 2) \<longrightarrow> call_count 2 s = call_count 2 s)"
    by (rule target_lists[OF s(1)]) (simp add: s(3))
  then show ?thesis using s by (intro exI[of _ r] exI[of _ s]) (simp add: call_count_def)
qed

end
