(* ===== verification/Spec2Isabelle.thy ===== *)
theory Spec2Isabelle
  imports Path_Posix_Laws Path_Win32_Laws Querystring_Laws Url_Search_Params_Laws Punycode_Laws
    String_Decoder_Laws Buffer_Num_Laws Buffer_Ops_Laws Buffer_Search_Laws Readable_Laws
    Buffer_Write_Laws Events_Spec Event_Iterator Event_Target_Laws
begin

text \<open>
  A verification library for the JavaScript builtins of the runtime, the modules under
  \<open>src/crates/runtime/src/builtin/\<close>. User code runs in a QuickJS engine inside a WebAssembly component;
  these modules give it the API of Node. Rust code supplies the native halves and the command line tool.

  \<^bold>\<open>The parts and how they interact.\<close> \<open>path.js\<close> is pure string code that reads only the working
  directory. \<open>querystring.js\<close> and the \<open>URLSearchParams\<close> of \<open>url.js\<close> turn text into pairs and back;
  \<open>url.js\<close> hands a changed list to the native URL. \<open>punycode.js\<close> encodes the labels of domain names.
  \<open>buffer.js\<close> is the centre of the byte-oriented modules: it calls \<open>base64.js\<close> for one family of
  encodings and a native decoder (\<open>string_decoder.rs\<close>) for UTF-8, and allocates small buffers from a
  shared pool. \<open>string_decoder.js\<close> decodes a stream of buffers piecewise with the functions of
  \<open>buffer.js\<close>. \<open>internal/streams/readable.js\<close> keeps its chunks in the linked list of
  \<open>internal/streams/buffer_list.js\<close> and converts them with a string decoder. \<open>events.js\<close> is the emitter
  every stream and most other modules extend.

  \<^bold>\<open>The theories.\<close> Each models one module (or one group of functions) and has the module's names; the
  laws are in a theory of their own where they are long.

  \<^item> \<open>JS_Prelude\<close>: strings as lists of UTF-16 code units (\<open>jstr\<close>), buffers as lists of numbers below
    256 (\<open>bytes\<close>), dynamic values (\<open>jsval\<close>), numbers (\<open>jsnum\<close>: a rational, NaN or an infinity),
    errors as values (\<open>js_error + 'a\<close>), the string functions of the language, and the collection
    \<open>js_eval\<close> of the definitions that evaluate. \<open>JS_Bits\<close>: comparisons of numbers, \<open>ToInt32\<close> and
    \<open>ToUint32\<close> as 32-bit words, masks and shifts. \<open>Unicode\<close>: code points, UTF-16, UTF-8,
    \<open>encodeURIComponent\<close> and \<open>decodeURIComponent\<close>.
  \<^item> \<open>Path_Common\<close>, \<open>Path_Posix\<close>, \<open>Path_Win32\<close>: \<open>path.js\<close>. The loops over characters are folds over an
    explicit loop state, \<open>Path_Spec\<close> says what they compute on segments. The locale
    \<open>path_separators\<close> is what both modules ask of their separators.
  \<^item> \<open>Querystring\<close>, \<open>Url_Search_Params\<close>: \<open>querystring.js\<close> and \<open>URLSearchParams\<close>; the locale \<open>multimap\<close> is the
    contract of the list of parameters, the locale \<open>comparator\<close> that of a stable sort.
  \<^item> \<open>Punycode\<close>: \<open>punycode.js\<close>.
  \<^item> \<open>Base64\<close>, \<open>Utf8_Decoder\<close>, \<open>Buffer_Codec\<close>: \<open>base64.js\<close>, the native decoder and the text encodings of
    \<open>buffer.js\<close>, with \<open>toString\<close>, \<open>write\<close>, \<open>byteLength\<close> and \<open>fromString\<close>.
  \<^item> \<open>Buffer_Num\<close>: the integer accessors. \<open>Buffer_Ops\<close>: the pool, whose offset is aligned in 32 bits and
    can wrap, views over shared array buffers (an explicit memory), \<open>copy\<close> and the loops of \<open>fill\<close> in
    that memory, also on overlapping views, \<open>concat\<close>, the swaps. \<open>Buffer_Search\<close>: \<open>compare\<close>, \<open>indexOf\<close> and
    its relatives.
  \<^item> \<open>String_Decoder\<close>: \<open>string_decoder.js\<close> and \<open>internal/normalize_encoding.js\<close>; the locale
    \<open>stream_decoder\<close> is the contract of a decoder fed in chunks.
  \<^item> \<open>Buffer_List\<close>: the linked list, entries addressed in a store. \<open>Readable\<close>: the full
    \<open>ReadableState\<close>, with the tasks and the events of the stream, the chunks taken in and the calls of
    \<open>_read\<close> appended to a log; the locale \<open>data_stream\<close> is the contract of the data path.
  \<^item> \<open>Events\<close>: the \<open>EventEmitter\<close>, its tables, arrays and \<open>once\<close> wrappers in stores, because an
    emission, a wrapper and a removal in progress share them. The locale \<open>emitter_invariant\<close> lists
    what the elementary changes have to keep. \<open>Event_Iterator\<close>: \<open>EventEmitter.on\<close>. \<open>Event_Target\<close>:
    \<open>Event\<close> and \<open>EventTarget\<close>.

  \<^bold>\<open>What the laws show.\<close>

  \<^item> Paths: \<open>normalizeString\<close> is the replay of the segments on a stack, \<open>normalize\<close> is idempotent,
    \<open>resolve\<close> is a sequence of changes of directory, \<open>relative\<close> leads back, \<open>format\<close> undoes \<open>parse\<close> but for trailing slashes and \<open>//name\<close>;
    the win32 functions give absolute paths and agree with the POSIX ones where they should.
  \<^item> Queries: \<open>parse\<close> undoes \<open>stringify\<close>, form decoding undoes form encoding, the list of parameters is
    a multimap that agrees with the search string of its URL, sorting is stable.
  \<^item> Text and bytes: the codecs are inverse to each other and equal their references (RFC 4648, UTF-8
    with replaced surrogates), a write keeps to its range, a decoder gives the same text for every
    chunking, punycode decodes what it encodes.
  \<^item> Buffers: integer fields are positional values in two's complement with exact error outcomes,
    buffers of the pool never overlap while the pool stays below 2 to the power 31 (beyond, the offset
    wraps), \<open>copy\<close> moves overlapping ranges, \<open>fill\<close> repeats a separate pattern, searching is string search and
    comparing is the lexicographic order.
  \<^item> Streams: the list refines a list of chunks; what a stream delivered, buffers and holds back is
    always what was pushed, by operations or synchronously by \<open>_read\<close>, every loop returns when the
    source is finite, and the end comes after all data.
  \<^item> Events: the tables stay well formed and a \<open>once\<close> listener runs once under any re-entrant
    emission; without listeners of the emitter's own events the emitter refines a map of lists, and an
    emission calls the snapshot of its list. The iterator hands events out in order. A target calls no
    removed entry.

  \<^bold>\<open>Parameters.\<close> Code that is not part of the modules is an argument: \<open>cwd\<close> and \<open>env\<close> for the
  process, \<open>lc\<close> for \<open>toLowerCase\<close>, \<open>to_string\<close> and \<open>to_number\<close> for the conversions of objects, the
  native setter of a URL, the regular expression engine, \<open>env\<close> of a stream for \<open>_read\<close>, the listeners
  and \<open>errorOrDestroy\<close>, \<open>body\<close> of the event models for what a listener does. A theorem that needs
  something of a parameter says so (\<open>strings_ok\<close>, \<open>setter_ok\<close>, \<open>quiet_call\<close>;
  \<open>listens\<close> for listeners of a stream that may read and pause but do not push, \<open>inert\<close> for listeners
  that do nothing to it). The \<open>_read\<close> of a stream is instantiated by \<open>scripted\<close>: any finite list of
  the chunks it pushes at its calls.

  \<^bold>\<open>Termination and fuel.\<close> Loops are structural or have a measure. The pointer loops of
  \<open>Buffer_List\<close> and the loops of \<open>Readable\<close> are partial functions into \<open>option\<close>, since a broken list or
  an endless source would not return; the laws show that they return in every reachable state. The
  main loop of the punycode encoder has fuel, the length of its input; the round trip shows that it is
  enough. Listeners may call each other for ever, so the machines of \<open>Events\<close> and \<open>Event_Target\<close> take a
  fuel and \<open>None\<close> is a run that needs more of it. The invariants hold for every fuel; the refinement
  and the law of the snapshot show that the run returns, the latter from fuel 3 on (the emission, a
  wrapper, its function).

  \<^bold>\<open>Bounds.\<close> Numbers are exact rationals with the special values, so sums beyond 2 to the power 53 are
  exact here and rounded there; the modelled code checks its ranges before it computes. 32-bit
  operations wrap, as words. Strings and buffers are finite lists without the limits of the engine,
  except where the code has its own.

  \<^bold>\<open>Not modelled.\<close> Modules that are glue to native code or input and output (file system, HTTP and
  sockets, processes, workers, cryptography, compression, databases, timers); those that rest on the
  reflection of arbitrary objects or on source text (\<open>assert.js\<close>, \<open>util.js\<close> with its inspection,
  \<open>structured_clone.js\<close>, \<open>module.js\<close>, \<open>vm.js\<close>); the vendored polyfills; the floating-point layouts of
  \<open>ieee754.js\<close>; the URL class and the legacy parser of \<open>url.js\<close>; the constructor's dispatch and the
  inspection of buffers. Of the streams, the writable side, pipes, the operators and the adapters; of
  the events, the rejections of promises, domains, abort signals and the static helpers. The manifest
  lists every file with its reason.
\<close>

end
